(* ===== verification/Prelude.thy ===== *)
theory Prelude
  imports Main "HOL-Library.Word" "HOL-Library.Monad_Syntax"
begin

unbundle bit_operations_syntax

text \<open>
  Shared vocabulary of the development: the machine integers of the Rust code, the slice and
  iterator operations of the Rust standard library that the sources call (written out with
  their failure cases), and the generic lemmas on lists that the component theories use.
  A Rust panic (an index or a slice out of range, an overflowing subtraction) is the value
  \<^term>\<open>None\<close> of an option type unless a theory says otherwise.
\<close>

section \<open>Types\<close>

type_synonym u8 = "8 word"
type_synonym u16 = "16 word"
type_synonym u32 = "32 word"
type_synonym u64 = "64 word"
type_synonym bytes = "u8 list"

named_theorems ke_simps "rewrite rules of the key expression components"
named_theorems codec_simps "rewrite rules of the codec components"
named_theorems rd_mono "decoders never give bytes back"
named_theorems ext_oks "extensions that a step of the reading loop undoes"

section \<open>Slices and iterators of the standard library\<close>

text \<open>\<open>slice::get(i)\<close>.\<close>

definition get :: "'a list \<Rightarrow> nat \<Rightarrow> 'a option" where
  "get xs i = (if i < length xs then Some (xs ! i) else None)"

text \<open>\<open>&xs[i..]\<close>, which panics when \<open>i > xs.len()\<close>.\<close>

definition slice_from :: "'a list \<Rightarrow> nat \<Rightarrow> 'a list option" where
  "slice_from xs i = (if i \<le> length xs then Some (drop i xs) else None)"

text \<open>\<open>xs.get(i..j)\<close>.\<close>

definition get_range :: "'a list \<Rightarrow> nat \<Rightarrow> nat \<Rightarrow> 'a list option" where
  "get_range xs i j = (if i \<le> j \<and> j \<le> length xs then Some (take (j - i) (drop i xs)) else None)"

text \<open>\<open>Iterator::position\<close> and \<open>rposition\<close>.\<close>

fun position :: "('a \<Rightarrow> bool) \<Rightarrow> 'a list \<Rightarrow> nat option" where
  "position P [] = None"
| "position P (x # xs) = (if P x then Some 0 else map_option Suc (position P xs))"

fun rposition :: "('a \<Rightarrow> bool) \<Rightarrow> 'a list \<Rightarrow> nat option" where
  "rposition P [] = None"
| "rposition P (x # xs) =
     (case rposition P xs of Some i \<Rightarrow> Some (Suc i) | None \<Rightarrow> if P x then Some 0 else None)"

text \<open>\<open>xs[at..at + ys.len()].copy_from_slice(ys)\<close>, which panics when the range is not in \<open>xs\<close>.\<close>

definition blit :: "'a list \<Rightarrow> nat \<Rightarrow> 'a list \<Rightarrow> 'a list option" where
  "blit xs at ys =
     (if at + length ys \<le> length xs
      then Some (take at xs @ ys @ drop (at + length ys) xs) else None)"

text \<open>\<open>xs.copy_within(i..j, at)\<close>.\<close>

definition copy_within :: "'a list \<Rightarrow> nat \<Rightarrow> nat \<Rightarrow> nat \<Rightarrow> 'a list option" where
  "copy_within xs i j at =
     (case get_range xs i j of None \<Rightarrow> None | Some ys \<Rightarrow> blit xs at ys)"

section \<open>Lemmas on the slice operations\<close>

lemma get_drop: "get (drop i xs) j = get xs (i + j)"
  by (auto simp: get_def)

lemma get_Cons_0 [simp]: "get (x # xs) 0 = Some x"
  by (simp add: get_def)

lemma get_Cons_Suc [simp]: "get (x # xs) (Suc i) = get xs i"
  by (simp add: get_def)

lemma get_Cons_numeral [simp]: "get (x # xs) (numeral n) = get xs (pred_numeral n)"
  by (simp add: numeral_eq_Suc)

lemma get_Nil [simp]: "get [] i = None"
  by (simp add: get_def)

lemma get_Some_iff: "get xs i = Some x \<longleftrightarrow> i < length xs \<and> xs ! i = x"
  by (auto simp: get_def)

lemma get_None_iff: "get xs i = None \<longleftrightarrow> length xs \<le> i"
  by (auto simp: get_def)

lemma drop_get_Some: "get xs i = Some x \<Longrightarrow> drop i xs = x # drop (Suc i) xs"
  by (auto simp: get_Some_iff Cons_nth_drop_Suc)

lemma drop_get_None: "get xs i = None \<Longrightarrow> drop i xs = []"
  by (simp add: get_None_iff)

lemma slice_from_le [simp]: "i \<le> length xs \<Longrightarrow> slice_from xs i = Some (drop i xs)"
  by (simp add: slice_from_def)

lemma position_takeWhile:
  "position P xs = (if \<exists>x\<in>set xs. P x then Some (length (takeWhile (\<lambda>x. \<not> P x) xs)) else None)"
  by (induction xs) auto

lemma position_append: "\<forall>x\<in>set xs. \<not> P x \<Longrightarrow> position P (xs @ ys) = map_option (\<lambda>n. length xs + n) (position P ys)"
  by (induction xs) (cases "position P ys"; simp)+

lemma position_Some_less: "position P xs = Some i \<Longrightarrow> i < length xs"
  by (induction xs arbitrary: i) (auto split: if_splits)

lemma rposition_Some_less: "rposition P xs = Some i \<Longrightarrow> i < length xs"
  by (induction xs arbitrary: i) (auto split: if_splits option.splits)

lemma length_blit: "blit xs at ys = Some zs \<Longrightarrow> length zs = length xs"
  by (auto simp: blit_def split: if_splits)

lemma take_blit:
  "blit xs at ys = Some zs \<Longrightarrow> take (at + length ys) zs = take at xs @ ys"
  by (auto simp: blit_def split: if_splits)

lemma drop_blit:
  "blit xs at ys = Some zs \<Longrightarrow> at + length ys \<le> i \<Longrightarrow> drop i zs = drop i xs"
  by (auto simp: blit_def split: if_splits)

lemma blit_Some: "at + length ys \<le> length xs \<Longrightarrow> \<exists>zs. blit xs at ys = Some zs"
  by (simp add: blit_def)

text \<open>Splitting at the first element that satisfies a predicate.\<close>

lemma takeWhile_append_stop: "\<forall>x\<in>set xs. P x \<Longrightarrow> \<not> P y \<Longrightarrow> takeWhile P (xs @ y # ys) = xs"
  by (induction xs) auto

lemma dropWhile_append_stop: "\<forall>x\<in>set xs. P x \<Longrightarrow> \<not> P y \<Longrightarrow> dropWhile P (xs @ y # ys) = y # ys"
  by (induction xs) auto

end
