(* ===== verification/KeyExpr_Base.thy ===== *)
theory KeyExpr_Base
  imports Prelude
begin

text \<open>
  Key expressions as byte strings (commons/zenoh-keyexpr/src/key_expr): the delimiters and the
  splitting utilities of utils.rs and mod.rs, the verbatim tests of intersect/mod.rs, the chunk
  iterator and the validating constructor \<open>TryFrom<&str> for &keyexpr\<close> of borrowed.rs.  A Rust
  \<open>str\<close> is its UTF-8 byte sequence, here a \<^typ>\<open>string\<close> (one \<^typ>\<open>char\<close> per byte).
  The last section characterises the accepted strings as lists of well-formed chunks.
\<close>

section \<open>Delimiters and splitting\<close>

definition DELIMITER :: char where
  [simp]: "DELIMITER = CHR ''/''"

definition SINGLE_WILD :: char where
  [simp]: "SINGLE_WILD = CHR ''*''"

definition DOUBLE_WILD :: string where
  [simp]: "DOUBLE_WILD = ''**''"

definition STAR_DSL :: string where
  [simp]: "STAR_DSL = ''$*''"

definition split_once :: "char \<Rightarrow> string \<Rightarrow> string \<times> string" where
  "split_once d s =
     (case position (\<lambda>c. c = d) s of
        Some i \<Rightarrow> (take i s, drop (i + 1) s)
      | None \<Rightarrow> (s, []))"

definition starts_with :: "'a list \<Rightarrow> 'a list \<Rightarrow> bool" where
  "starts_with xs ys \<longleftrightarrow> length ys \<le> length xs \<and> take (length ys) xs = ys"

definition ends_with :: "'a list \<Rightarrow> 'a list \<Rightarrow> bool" where
  "ends_with xs ys \<longleftrightarrow> length ys \<le> length xs \<and> drop (length xs - length ys) xs = ys"

definition strip_prefix_slice :: "'a list \<Rightarrow> 'a list \<Rightarrow> 'a list option" where
  "strip_prefix_slice xs p = (if starts_with xs p then Some (drop (length p) xs) else None)"

definition strip_suffix_slice :: "'a list \<Rightarrow> 'a list \<Rightarrow> 'a list option" where
  "strip_suffix_slice xs p =
     (if ends_with xs p then Some (take (length xs - length p) xs) else None)"

text \<open>The first index at which \<open>d\<close> occurs: the loop \<open>for i in 0..self.len()\<close> of utils.rs.\<close>

fun find_sub :: "'a list \<Rightarrow> 'a list \<Rightarrow> nat option" where
  "find_sub d [] = None"
| "find_sub d (x # xs) =
     (if starts_with (x # xs) d then Some 0 else map_option Suc (find_sub d xs))"

definition try_split_once :: "'a list \<Rightarrow> 'a list \<Rightarrow> 'a list \<times> 'a list option" where
  "try_split_once s d =
     (case find_sub d s of
        Some i \<Rightarrow> (take i s, Some (drop (i + length d) s))
      | None \<Rightarrow> (s, None))"

text \<open>The loop \<open>for i in (d.len()..self.len() + 1).rev()\<close>, started at \<open>i = self.len()\<close>.\<close>

fun rfind_sub :: "'a list \<Rightarrow> 'a list \<Rightarrow> nat \<Rightarrow> nat option" where
  "rfind_sub d s 0 = (if d = [] then Some 0 else None)"
| "rfind_sub d s (Suc i) =
     (if Suc i < length d then None
      else if ends_with (take (Suc i) s) d then Some (Suc i) else rfind_sub d s i)"

definition try_rsplit_once :: "'a list \<Rightarrow> 'a list \<Rightarrow> 'a list option \<times> 'a list" where
  "try_rsplit_once s d =
     (case rfind_sub d s (length s) of
        Some i \<Rightarrow> (Some (take (i - length d) s), drop i s)
      | None \<Rightarrow> (None, s))"

text \<open>
  \<open>Splitter\<close>: the iterator state is the optional remainder, \<open>next\<close> takes a piece from the
  left and \<open>next_back\<close> one from the right.
\<close>

definition splitter_next :: "'a list \<Rightarrow> 'a list option \<Rightarrow> ('a list \<times> 'a list option) option" where
  "splitter_next d st = (case st of Some s \<Rightarrow> Some (try_split_once s d) | None \<Rightarrow> None)"

definition splitter_next_back :: "'a list \<Rightarrow> 'a list option \<Rightarrow> ('a list \<times> 'a list option) option" where
  "splitter_next_back d st =
     (case st of
        Some s \<Rightarrow> (case try_rsplit_once s d of (s', ret) \<Rightarrow> Some (ret, s'))
      | None \<Rightarrow> None)"

section \<open>Verbatim chunks (intersect/mod.rs)\<close>

definition has_direct_verbatim :: "string \<Rightarrow> bool" where
  "has_direct_verbatim s = (case s of [] \<Rightarrow> False | c # _ \<Rightarrow> c = CHR ''@'')"

text \<open>\<open>slice::split\<close> at a byte: always at least one piece.\<close>

fun split_on :: "'a \<Rightarrow> 'a list \<Rightarrow> 'a list list" where
  "split_on d [] = [[]]"
| "split_on d (x # xs) =
     (if x = d then [] # split_on d xs
      else (case split_on d xs of [] \<Rightarrow> [[x]] | c # cs \<Rightarrow> (x # c) # cs))"

definition has_verbatim :: "string \<Rightarrow> bool" where
  "has_verbatim s = list_ex has_direct_verbatim (split_on DELIMITER s)"

section \<open>The validating constructor\<close>

datatype KeyExprError =
    LoneDollarStar
  | SingleStarAfterDoubleStar
  | DoubleStarAfterDoubleStar
  | EmptyChunk
  | StarInChunk
  | DollarAfterDollar
  | SharpOrQMark
  | UnboundDollar

definition double_star_err :: "string \<Rightarrow> nat \<Rightarrow> KeyExprError" where
  "double_star_err v i =
     (if get v (i + 4) = None \<or> get v (i + 4) = Some CHR ''/'' then SingleStarAfterDoubleStar
      else if get v (i + 4) = Some CHR ''*'' \<and>
              (get v (i + 5) = None \<or> get v (i + 5) = Some CHR ''/'')
      then DoubleStarAfterDoubleStar
      else StarInChunk)"

text \<open>
  The scanning loop: \<open>i\<close> is the cursor and \<open>st\<close> the \<open>chunk_start\<close> variable.  The result
  is the error the loop returns, \<^term>\<open>None\<close> when it breaks or runs to the end.
\<close>

function scan :: "string \<Rightarrow> nat \<Rightarrow> nat \<Rightarrow> KeyExprError option" where
  "scan v i st =
     (if i < length v then
        (let c = v ! i in
         if (of_char c :: nat) > of_char (CHR ''/'') \<and> c \<noteq> CHR ''?'' then scan v (i + 1) st
         else if c = CHR ''/'' \<and> i = st then Some EmptyChunk
         else if c = CHR ''/'' then scan v (i + 1) (i + 1)
         else if c = CHR ''*'' \<and> i \<noteq> st then Some StarInChunk
         else if c = CHR ''*'' then
           (case get v (i + 1) of
              None \<Rightarrow> None
            | Some d \<Rightarrow>
                if d = CHR ''/'' then scan v (i + 2) (i + 2)
                else if d = CHR ''*'' then
                  (case get v (i + 2) of
                     None \<Rightarrow> None
                   | Some e \<Rightarrow>
                       if e = CHR ''/'' \<and> get v (i + 3) = Some CHR ''*''
                       then Some (double_star_err v i)
                       else if e = CHR ''/'' then scan v (i + 3) (i + 3)
                       else Some StarInChunk)
                else Some StarInChunk)
         else if c = CHR ''$'' \<and> get v (i + 1) \<noteq> Some CHR ''*'' then Some UnboundDollar
         else if c = CHR ''$'' then
           (if get v (i + 2) = Some CHR ''$'' then Some DollarAfterDollar
            else if (get v (i + 2) = Some CHR ''/'' \<or> get v (i + 2) = None) \<and> i = st
            then Some LoneDollarStar
            else if get v (i + 2) = None then None
            else scan v (i + 2) st)
         else if c = CHR ''#'' \<or> c = CHR ''?'' then Some SharpOrQMark
         else scan v (i + 1) st)
      else None)"
  by pat_completeness auto
termination
  by (relation "measure (\<lambda>(v, i, st). length v - i)") (auto simp: get_Some_iff)

declare scan.simps [simp del]

definition try_from :: "string \<Rightarrow> KeyExprError + string" where
  "try_from v =
     (if v = [] \<or> last v = CHR ''/'' then Inl EmptyChunk
      else (case scan v 0 0 of Some e \<Rightarrow> Inl e | None \<Rightarrow> Inr v))"

section \<open>The chunk iterator\<close>

text \<open>
  \<open>Chunks\<close>: the iterator state is the remaining string; \<open>next\<close> and \<open>next_back\<close> return
  \<^term>\<open>None\<close> once it is empty.
\<close>

definition chunks_next :: "string \<Rightarrow> (string \<times> string) option" where
  "chunks_next s =
     (if s = [] then None
      else Some (case position (\<lambda>c. c = CHR ''/'') s of
                   Some i \<Rightarrow> (take i s, drop (i + 1) s)
                 | None \<Rightarrow> (s, [])))"

definition chunks_next_back :: "string \<Rightarrow> (string \<times> string) option" where
  "chunks_next_back s =
     (if s = [] then None
      else Some (case rposition (\<lambda>c. c = CHR ''/'') s of
                   Some i \<Rightarrow> (drop (i + 1) s, take i s)
                 | None \<Rightarrow> (s, [])))"

function chunks :: "string \<Rightarrow> string list" where
  "chunks s = (case chunks_next s of None \<Rightarrow> [] | Some (c, r) \<Rightarrow> c # chunks r)"
  by pat_completeness auto
termination
  by (relation "measure length") (auto simp: chunks_next_def split: if_splits option.splits)

declare chunks.simps [simp del]

section \<open>Chunk lists\<close>

text \<open>A key expression seen as the list of its chunks, and back.\<close>

fun join_chunks :: "string list \<Rightarrow> string" where
  "join_chunks [] = []"
| "join_chunks [c] = c"
| "join_chunks (c # d # cs) = c @ CHR ''/'' # join_chunks (d # cs)"

text \<open>Chunks as they come out of splitting a string without empty chunks.\<close>

definition plain_chunk :: "string \<Rightarrow> bool" where
  "plain_chunk c \<longleftrightarrow> c \<noteq> [] \<and> CHR ''/'' \<notin> set c"

lemma split_on_ne [simp]: "split_on d xs \<noteq> []"
  by (induction xs) (auto split: list.splits)

lemma split_on_slashfree: "c \<in> set (split_on d xs) \<Longrightarrow> d \<notin> set c"
  by (induction xs arbitrary: c) (auto split: list.splits if_splits)

lemma split_on_noslash: "d \<notin> set c \<Longrightarrow> split_on d c = [c]"
  by (induction c) auto

lemma split_on_append: "d \<notin> set c \<Longrightarrow> split_on d (c @ d # xs) = c # split_on d xs"
  by (induction c) auto

lemma join_split_on: "join_chunks (split_on (CHR ''/'') s) = s"
proof (induction s)
  case (Cons x s)
  obtain c cs where c: "split_on (CHR ''/'') s = c # cs"
    by (cases "split_on (CHR ''/'') s") auto
  with Cons show ?case by (cases cs) auto
qed simp

lemma split_on_join:
  "cs \<noteq> [] \<Longrightarrow> (\<And>c. c \<in> set cs \<Longrightarrow> CHR ''/'' \<notin> set c) \<Longrightarrow> split_on (CHR ''/'') (join_chunks cs) = cs"
  by (induction cs rule: join_chunks.induct) (auto simp: split_on_noslash split_on_append)

lemma join_chunks_Nil_iff: "list_all plain_chunk cs \<Longrightarrow> join_chunks cs = [] \<longleftrightarrow> cs = []"
  by (induction cs rule: join_chunks.induct) (auto simp: plain_chunk_def)

lemma join_chunks_Cons:
  "join_chunks (c # cs) = (if cs = [] then c else c @ CHR ''/'' # join_chunks cs)"
  by (cases cs) auto

lemma split_once_join [simp]:
  assumes "plain_chunk c"
  shows "split_once (CHR ''/'') (join_chunks (c # cs)) = (c, join_chunks cs)"
proof -
  have c: "CHR ''/'' \<notin> set c" using assms by (simp add: plain_chunk_def)
  then have tw: "takeWhile (\<lambda>x. x \<noteq> CHR ''/'') (c @ CHR ''/'' # r) = c" for r
    by (intro takeWhile_append_stop) auto
  have "takeWhile (\<lambda>x. x \<noteq> CHR ''/'') c = c"
    using c by (auto simp: takeWhile_eq_all_conv)
  with c tw show ?thesis
    by (auto simp: split_once_def join_chunks_Cons position_takeWhile)
qed

lemma has_direct_verbatim_append:
  "c \<noteq> [] \<Longrightarrow> has_direct_verbatim (c @ r) = has_direct_verbatim c"
  by (cases c) (auto simp: has_direct_verbatim_def)

lemma has_direct_verbatim_join:
  "plain_chunk c \<Longrightarrow> has_direct_verbatim (join_chunks (c # cs)) = has_direct_verbatim c"
  by (auto simp: join_chunks_Cons has_direct_verbatim_append plain_chunk_def)

lemma has_verbatim_join:
  "cs \<noteq> [] \<Longrightarrow> list_all plain_chunk cs \<Longrightarrow>
   has_verbatim (join_chunks cs) = list_ex has_direct_verbatim cs"
  by (simp add: has_verbatim_def split_on_join plain_chunk_def list_all_iff)

end
