(* ===== verification/Core_Parameters.thy ===== *)
theory Core_Parameters
  imports KeyExpr_Base "HOL-Library.List_Lexorder" "HOL-Library.Char_ord" "HOL-Library.Multiset"
begin

text \<open>
  Parameter strings \<open>a=b;c=d|e\<close> (\<open>commons/zenoh-protocol/src/core/parameters.rs\<close>), which selectors,
  queries and end points carry, as dictionaries.  An iterator is the list of what it yields.
  \<open>sort_unstable_by_key\<close> may order pairs of equal keys as it likes: it is the parameter \<open>srt\<close>, of which
  only \<open>key_sort\<close> is assumed.
\<close>

section \<open>Dictionaries\<close>

text \<open>The contract of a dictionary: what a lookup returns after an insertion or a removal.\<close>

datatype ('k, 'v) dict_op = Put 'k 'v | Take 'k

primrec dict_apply :: "('d \<Rightarrow> 'k \<Rightarrow> 'v \<Rightarrow> 'd) \<Rightarrow> ('d \<Rightarrow> 'k \<Rightarrow> 'd) \<Rightarrow> ('k, 'v) dict_op \<Rightarrow> 'd \<Rightarrow> 'd" where
  "dict_apply ins del (Put k v) d = ins d k v"
| "dict_apply ins del (Take k) d = del d k"

primrec map_apply :: "('k, 'v) dict_op \<Rightarrow> ('k \<Rightarrow> 'v option) \<Rightarrow> ('k \<Rightarrow> 'v option)" where
  "map_apply (Put k v) m = m(k := Some v)"
| "map_apply (Take k) m = m(k := None)"

primrec op_ok :: "('k \<Rightarrow> bool) \<Rightarrow> ('v \<Rightarrow> bool) \<Rightarrow> ('k, 'v) dict_op \<Rightarrow> bool" where
  "op_ok key val (Put k v) \<longleftrightarrow> key k \<and> val v"
| "op_ok key val (Take k) \<longleftrightarrow> True"

locale dictionary =
  fixes lookup :: "'d \<Rightarrow> 'k \<Rightarrow> 'v option"
    and ins :: "'d \<Rightarrow> 'k \<Rightarrow> 'v \<Rightarrow> 'd"
    and del :: "'d \<Rightarrow> 'k \<Rightarrow> 'd"
    and key :: "'k \<Rightarrow> bool"
    and val :: "'v \<Rightarrow> bool"
  assumes lookup_ins: "key k \<Longrightarrow> val v \<Longrightarrow> key k' \<Longrightarrow> lookup (ins d k v) k' = (if k' = k then Some v else lookup d k')"
    and lookup_del: "key k' \<Longrightarrow> lookup (del d k) k' = (if k' = k then None else lookup d k')"
begin

text \<open>Any sequence of operations refines the same sequence on a finite map.\<close>

lemma refines_map:
  assumes "\<forall>x\<in>set ops. op_ok key val x" "key k"
  shows "lookup (fold (dict_apply ins del) ops d) k = fold map_apply ops (lookup d) k"
proof -
  have step: "lookup (dict_apply ins del x d) k' = map_apply x (lookup d) k'" if "op_ok key val x" "key k'" for x d k'
    using that by (cases x) (simp_all add: lookup_ins lookup_del)
  have mono: "fold map_apply ops m k = fold map_apply ops m' k" if "\<forall>k. key k \<longrightarrow> m k = m' k" "\<forall>x\<in>set ops. op_ok key val x" for m m' ops
    using that
  proof (induction ops arbitrary: m m')
    case (Cons x ops)
    then show ?case by (cases x) (simp_all add: Cons.IH)
  qed (use assms(2) in simp)
  show ?thesis using assms(1)
  proof (induction ops arbitrary: d)
    case (Cons x ops)
    then have "lookup (fold (dict_apply ins del) ops (dict_apply ins del x d)) k = fold map_apply ops (lookup (dict_apply ins del x d)) k" by simp
    also have "\<dots> = fold map_apply ops (map_apply x (lookup d)) k" using Cons.prems step by (intro mono) simp_all
    finally show ?case by simp
  qed simp
qed

end

section \<open>The functions of the module\<close>

definition LIST_SEPARATOR :: char where [simp]: "LIST_SEPARATOR = CHR '';''"
definition FIELD_SEPARATOR :: char where [simp]: "FIELD_SEPARATOR = CHR ''=''"
definition VALUE_SEPARATOR :: char where [simp]: "VALUE_SEPARATOR = CHR ''|''"

type_synonym pairs = "(string \<times> string) list"

definition params_iter :: "string \<Rightarrow> pairs" where
  "params_iter s = map (split_once FIELD_SEPARATOR) (filter (\<lambda>p. p \<noteq> []) (split_on LIST_SEPARATOR s))"

definition params_join :: "pairs \<Rightarrow> pairs \<Rightarrow> pairs" where
  "params_join current new = filter (\<lambda>(kc, _). \<not> list_ex (\<lambda>(kn, _). kn = kc) new) current @ new"

text \<open>The loop of \<open>concat_into\<close>; the first argument is the flag \<open>first\<close>.\<close>

fun concat_loop :: "bool \<Rightarrow> pairs \<Rightarrow> string \<Rightarrow> string" where
  "concat_loop first [] into = into"
| "concat_loop first ((k, v) # ps) into =
     (if k = [] then concat_loop first ps into
      else concat_loop False ps
        (into @ (if first then [] else [LIST_SEPARATOR]) @ k @ (if v = [] then [] else [FIELD_SEPARATOR] @ v)))"

definition concat_into :: "pairs \<Rightarrow> string \<Rightarrow> string" where
  "concat_into ps into = concat_loop True ps into"

definition from_iter_into :: "pairs \<Rightarrow> string \<Rightarrow> string" where
  "from_iter_into = concat_into"

definition params_from_iter :: "pairs \<Rightarrow> string" where
  "params_from_iter ps = from_iter_into ps []"

definition params_get :: "string \<Rightarrow> string \<Rightarrow> string option" where
  "params_get s k = map_option snd (find (\<lambda>(key, _). key = k) (params_iter s))"

definition params_values :: "string \<Rightarrow> string \<Rightarrow> string list" where
  "params_values s k = (case params_get s k of Some v \<Rightarrow> split_on VALUE_SEPARATOR v | None \<Rightarrow> tl (split_on VALUE_SEPARATOR []))"

definition is_well_formed :: "string \<Rightarrow> bool" where
  "is_well_formed s \<longleftrightarrow> params_iter s \<noteq> [] \<and> list_all (\<lambda>(k, _). k \<noteq> []) (params_iter s)"

definition insert_pairs :: "pairs \<Rightarrow> string \<Rightarrow> string \<Rightarrow> pairs \<times> string option" where
  "insert_pairs ps k v =
     (filter (\<lambda>x. fst x \<noteq> k) ps @ [(k, v)], map_option snd (find (\<lambda>(key, _). key = k) ps))"

definition params_insert :: "string \<Rightarrow> string \<Rightarrow> string \<Rightarrow> string \<times> string option" where
  "params_insert s k v = (let (ps, item) = insert_pairs (params_iter s) k v in (params_from_iter ps, item))"

definition params_insert_sort :: "(pairs \<Rightarrow> pairs) \<Rightarrow> string \<Rightarrow> string \<Rightarrow> string \<Rightarrow> string \<times> string option" where
  "params_insert_sort srt s k v = (let (ps, item) = insert_pairs (params_iter s) k v in (params_from_iter (srt ps), item))"

definition params_remove :: "string \<Rightarrow> string \<Rightarrow> string \<times> string option" where
  "params_remove s k = (concat_into (filter (\<lambda>x. fst x \<noteq> k) (params_iter s)) [], params_get s k)"

fun ordered_loop :: "string option \<Rightarrow> pairs \<Rightarrow> bool" where
  "ordered_loop prev [] = True"
| "ordered_loop prev ((k, _) # ps) =
     (case prev of Some p \<Rightarrow> if k < p then False else ordered_loop (Some k) ps | None \<Rightarrow> ordered_loop (Some k) ps)"

definition is_ordered :: "string \<Rightarrow> bool" where
  "is_ordered s \<longleftrightarrow> ordered_loop None (params_iter s)"

text \<open>\<open>Parameters\<close>: \<open>From<&str>\<close>, which \<open>From<String>\<close> repeats, and the operations that are not those above.\<close>

definition params_from :: "string \<Rightarrow> string" where
  "params_from value =
     rev (dropWhile (\<lambda>c. c = LIST_SEPARATOR \<or> c = FIELD_SEPARATOR \<or> c = VALUE_SEPARATOR) (rev value))"

definition contains_key :: "string \<Rightarrow> string \<Rightarrow> bool" where
  "contains_key s k \<longleftrightarrow> params_get s k \<noteq> None"

definition extend_from_iter :: "string \<Rightarrow> pairs \<Rightarrow> string" where
  "extend_from_iter s ps = params_from_iter (params_join (params_iter s) ps)"

definition params_extend :: "string \<Rightarrow> string \<Rightarrow> string" where
  "params_extend s other = extend_from_iter s (params_iter other)"

section \<open>Parsing and printing\<close>

fun sep_join :: "char \<Rightarrow> string list \<Rightarrow> string" where
  "sep_join d [] = []"
| "sep_join d [c] = c"
| "sep_join d (c # cs) = c @ d # sep_join d cs"

lemma split_sep_join: "cs \<noteq> [] \<Longrightarrow> \<forall>c\<in>set cs. d \<notin> set c \<Longrightarrow> split_on d (sep_join d cs) = cs"
  by (induction d cs rule: sep_join.induct) (simp_all add: split_on_noslash split_on_append)

definition param_key :: "string \<Rightarrow> bool" where
  "param_key k \<longleftrightarrow> k \<noteq> [] \<and> CHR '';'' \<notin> set k \<and> CHR ''='' \<notin> set k"

definition param_value :: "string \<Rightarrow> bool" where
  "param_value v \<longleftrightarrow> CHR '';'' \<notin> set v"

definition pair_ok :: "string \<times> string \<Rightarrow> bool" where
  "pair_ok p \<longleftrightarrow> param_key (fst p) \<and> param_value (snd p)"

definition print_pair :: "string \<times> string \<Rightarrow> string" where
  "print_pair p = fst p @ (if snd p = [] then [] else CHR ''='' # snd p)"

lemma print_pair_simp: "print_pair (k, v) = k @ (if v = [] then [] else CHR ''='' # v)"
  by (simp add: print_pair_def)

lemma sep_join_snoc: "cs \<noteq> [] \<Longrightarrow> sep_join d (cs @ [c]) = sep_join d cs @ d # c"
  by (induction d cs rule: sep_join.induct) simp_all

lemma concat_loop_False:
  "qs \<noteq> [] \<Longrightarrow> concat_loop False ps (into @ sep_join (CHR '';'') (map print_pair qs)) =
     into @ sep_join (CHR '';'') (map print_pair (qs @ filter (\<lambda>p. fst p \<noteq> []) ps))"
proof (induction ps arbitrary: qs)
  case (Cons p ps)
  obtain k v where p: "p = (k, v)" by (cases p)
  show ?case
  proof (cases "k = []")
    case False
    have "concat_loop False (p # ps) (into @ sep_join (CHR '';'') (map print_pair qs)) =
        concat_loop False ps (into @ sep_join (CHR '';'') (map print_pair (qs @ [p])))"
      using Cons.prems False p by (simp add: sep_join_snoc print_pair_simp)
    then show ?thesis using Cons.IH [of "qs @ [p]"] False p by simp
  qed (use Cons p in simp)
qed simp

lemma concat_into_eq: "concat_into ps into = into @ sep_join (CHR '';'') (map print_pair (filter (\<lambda>p. fst p \<noteq> []) ps))"
  unfolding concat_into_def
proof (induction ps)
  case (Cons p ps)
  obtain k v where p: "p = (k, v)" by (cases p)
  show ?case
  proof (cases "k = []")
    case False
    then show ?thesis using concat_loop_False [of "[p]" ps into] p by (simp add: print_pair_simp split: if_splits)
  qed (use Cons p in simp)
qed simp

lemma split_print: "pair_ok p \<Longrightarrow> split_once (CHR ''='') (print_pair p) = p"
proof -
  assume "pair_ok p"
  then have "position (\<lambda>c. c = CHR ''='') (fst p) = None"
    by (auto simp: pair_ok_def param_key_def position_takeWhile)
  moreover have "position (\<lambda>c. c = CHR ''='') (fst p @ CHR ''='' # snd p) = Some (length (fst p))" if "CHR ''='' \<notin> set (fst p)"
    using that by (induction "fst p" arbitrary: p) (auto simp: position_takeWhile takeWhile_tail)
  ultimately show "split_once (CHR ''='') (print_pair p) = p"
    using \<open>pair_ok p\<close> by (cases p) (auto simp: split_once_def print_pair_def pair_ok_def param_key_def)
qed

lemma iter_concat:
  assumes "list_all pair_ok ps"
  shows "params_iter (concat_into ps []) = ps"
proof (cases "ps = []")
  case False
  have f: "filter (\<lambda>p. fst p \<noteq> []) ps = ps" using assms by (auto simp: list_all_iff pair_ok_def param_key_def intro: filter_True)
  have "split_on (CHR '';'') (sep_join (CHR '';'') (map print_pair ps)) = map print_pair ps"
    using assms False by (intro split_sep_join) (auto simp: list_all_iff pair_ok_def print_pair_def param_key_def param_value_def)
  moreover have "filter (\<lambda>p. p \<noteq> []) (map print_pair ps) = map print_pair ps"
    using assms by (auto simp: list_all_iff pair_ok_def print_pair_def param_key_def intro!: filter_True)
  moreover have "map (split_once (CHR ''='')) (map print_pair ps) = ps"
    using assms by (auto simp: list_all_iff split_print intro!: map_idI)
  ultimately show ?thesis by (simp add: params_iter_def concat_into_eq f)
qed (simp add: params_iter_def concat_into_eq)

section \<open>Parameters as dictionaries\<close>

definition pair_read :: "string \<times> string \<Rightarrow> bool" where
  "pair_read p \<longleftrightarrow> fst p = [] \<or> pair_ok p"

lemma iter_pair_read: "list_all pair_read (params_iter s)"
proof -
  have "pair_read (split_once (CHR ''='') c)" if "c \<in> set (split_on (CHR '';'') s)" for c
  proof -
    have c: "CHR '';'' \<notin> set c" using that by (rule split_on_slashfree)
    show ?thesis
    proof (cases "position (\<lambda>x. x = CHR ''='') c")
      case None
      then show ?thesis using c
        by (auto simp: split_once_def pair_read_def pair_ok_def param_key_def param_value_def position_takeWhile split: if_splits)
    next
      case (Some i)
      then have "CHR ''='' \<notin> set (take i c)" by (auto simp: position_takeWhile takeWhile_eq_take [symmetric] split: if_splits dest: set_takeWhileD)
      then show ?thesis using c Some
        by (auto simp: split_once_def pair_read_def pair_ok_def param_key_def param_value_def dest: in_set_takeD in_set_dropD)
    qed
  qed
  then show ?thesis by (auto simp: params_iter_def list_all_iff)
qed

lemma iter_printed:
  assumes "list_all pair_read ps"
  shows "params_iter (concat_into ps []) = filter (\<lambda>p. fst p \<noteq> []) ps"
proof -
  have "concat_into ps [] = concat_into (filter (\<lambda>p. fst p \<noteq> []) ps) []" by (simp add: concat_into_eq)
  moreover have "list_all pair_ok (filter (\<lambda>p. fst p \<noteq> []) ps)" using assms by (auto simp: list_all_iff pair_read_def)
  ultimately show ?thesis by (simp only: iter_concat)
qed

lemma find_map_of: "map_option snd (find (\<lambda>(key, _). key = k) ps) = map_of ps k"
  by (induction ps) auto

lemma params_get_map: "params_get s k = map_of (params_iter s) k"
  by (simp add: params_get_def find_map_of)

lemma map_of_filter_key: "map_of (filter (\<lambda>x. P (fst x)) ps) k = (if P k then map_of ps k else None)"
  by (induction ps) auto

lemma get_printed: "list_all pair_read ps \<Longrightarrow> k \<noteq> [] \<Longrightarrow> map_of (params_iter (concat_into ps [])) k = map_of ps k"
  by (simp add: iter_printed map_of_filter_key [of "\<lambda>k. k \<noteq> []"])

lemma read_filter: "list_all pair_read (filter P (params_iter s))"
  using iter_pair_read [of s] by (auto simp: list_all_iff)

lemma get_insert:
  assumes "param_key k" "param_value v" "param_key k'"
  shows "params_get (fst (params_insert s k v)) k' = (if k' = k then Some v else params_get s k')"
proof -
  have "list_all pair_read (filter (\<lambda>x. fst x \<noteq> k) (params_iter s) @ [(k, v)])"
    using assms read_filter by (simp add: pair_read_def pair_ok_def)
  moreover have "k' \<noteq> []" using assms(3) by (simp add: param_key_def)
  ultimately show ?thesis
    by (simp add: params_insert_def insert_pairs_def params_from_iter_def from_iter_into_def get_printed params_get_map
        map_of_filter_key [of "\<lambda>x. x \<noteq> k"] map_add_def split: option.split)
qed

lemma get_remove:
  assumes "param_key k'"
  shows "params_get (fst (params_remove s k)) k' = (if k' = k then None else params_get s k')"
  using assms by (simp add: params_remove_def get_printed [OF read_filter] params_get_map map_of_filter_key [of "\<lambda>x. x \<noteq> k"] param_key_def)

interpretation params: dictionary params_get "\<lambda>s k v. fst (params_insert s k v)" "\<lambda>s k. fst (params_remove s k)" param_key param_value
  by unfold_locales (simp_all add: get_insert get_remove)

text \<open>(C26) Parameter strings are dictionaries: from any string, however malformed, any sequence of insertions (of non-empty keys
  without \<open>;\<close> and \<open>=\<close> and values without \<open>;\<close>) and removals gives for every key what the same sequence gives on a map that
  starts with the lookups of the string; and each operation returns what the key had before.\<close>

theorem parameters_dictionary:
  assumes "\<forall>x\<in>set ops. op_ok param_key param_value x" "param_key k"
  shows "params_get (fold (dict_apply (\<lambda>s k v. fst (params_insert s k v)) (\<lambda>s k. fst (params_remove s k))) ops s) k =
      fold map_apply ops (params_get s) k \<and>
    snd (params_insert s k v) = params_get s k \<and> snd (params_remove s k) = params_get s k"
  using params.refines_map [OF assms, of s]
  by (simp add: params_insert_def insert_pairs_def params_remove_def params_get_def)

theorem parameters_dictionary_witness:
  "params_get (fold (dict_apply (\<lambda>s k v. fst (params_insert s k v)) (\<lambda>s k. fst (params_remove s k))) [Put ''a'' ''1'', Take ''b''] ''b=2;;=;a'') ''a'' =
      fold map_apply [Put ''a'' ''1'', Take ''b''] (params_get ''b=2;;=;a'') ''a'' \<and>
    snd (params_insert ''b=2;;=;a'' ''a'' ''x'') = params_get ''b=2;;=;a'' ''a'' \<and>
    snd (params_remove ''b=2;;=;a'' ''a'') = params_get ''b=2;;=;a'' ''a''"
  by (rule parameters_dictionary) (simp_all add: param_key_def param_value_def)

lemma extend_get:
  assumes "list_all pair_ok ps" "param_key k"
  shows "params_get (extend_from_iter s ps) k = (case map_of ps k of Some v \<Rightarrow> Some v | None \<Rightarrow> params_get s k)"
proof -
  have f: "(\<lambda>(kc, _). \<not> list_ex (\<lambda>(kn, _). kn = kc) ps) = (\<lambda>x. fst x \<notin> fst ` set ps)"
    by (force simp: fun_eq_iff list_ex_iff)
  have "list_all pair_read (params_join (params_iter s) ps)"
  proof -
    have "list_all pair_read ps" using assms(1) by (simp add: list_all_iff pair_read_def)
    then show ?thesis by (simp add: params_join_def read_filter)
  qed
  moreover have "k \<in> fst ` set ps \<longleftrightarrow> map_of ps k \<noteq> None" by (metis map_of_eq_None_iff)
  ultimately show ?thesis
    using assms(2) unfolding extend_from_iter_def params_from_iter_def from_iter_into_def
    by (simp add: get_printed param_key_def params_join_def f map_add_def map_of_filter_key [of "\<lambda>k. k \<notin> fst ` set ps"] params_get_map
        split: option.split)
qed

end
