(* ===== verification/Core_EndPoint.thy ===== *)
theory Core_EndPoint
  imports Core_Parameters
begin

text \<open>
  End points and locators \<open><proto>/<address>[?<metadata>][#<config>]\<close>
  (\<open>commons/zenoh-protocol/src/core/endpoint.rs\<close>, \<open>locator.rs\<close>).  An \<open>EndPoint\<close> is its string, and so are the
  views of its parts; a slice out of range, which panics, is \<open>None\<close>.
\<close>

section \<open>Parts\<close>

definition PROTO_SEPARATOR :: char where [simp]: "PROTO_SEPARATOR = CHR ''/''"
definition METADATA_SEPARATOR :: char where [simp]: "METADATA_SEPARATOR = CHR ''?''"
definition CONFIG_SEPARATOR :: char where [simp]: "CONFIG_SEPARATOR = CHR ''#''"

definition find_char :: "char \<Rightarrow> string \<Rightarrow> nat option" where
  "find_char c s = position (\<lambda>x. x = c) s"

definition find_or_len :: "char \<Rightarrow> string \<Rightarrow> nat" where
  "find_or_len c s = (case find_char c s of Some i \<Rightarrow> i | None \<Rightarrow> length s)"

definition substr :: "string \<Rightarrow> nat \<Rightarrow> nat \<Rightarrow> string option" where
  "substr s a b = (if a \<le> b \<and> b \<le> length s then Some (take (b - a) (drop a s)) else None)"

definition ep_protocol :: "string \<Rightarrow> string" where
  "ep_protocol s = take (find_or_len PROTO_SEPARATOR s) s"

definition ep_address :: "string \<Rightarrow> string option" where
  "ep_address s =
     substr s (find_or_len PROTO_SEPARATOR s + 1) (min (find_or_len METADATA_SEPARATOR s) (find_or_len CONFIG_SEPARATOR s))"

definition ep_metadata :: "string \<Rightarrow> string option" where
  "ep_metadata s =
     (case find_char METADATA_SEPARATOR s of
        Some midx \<Rightarrow> substr s (midx + 1) (find_or_len CONFIG_SEPARATOR s)
      | None \<Rightarrow> Some [])"

definition ep_config :: "string \<Rightarrow> string" where
  "ep_config s = (case find_char CONFIG_SEPARATOR s of Some cidx \<Rightarrow> drop (cidx + 1) s | None \<Rightarrow> [])"

section \<open>Construction\<close>

datatype EndPointError = FormError | ParamError | TooBig

text \<open>Canonical parameters: \<open>from_iter_into(sort(iter(s)), &mut inner)\<close>.\<close>

definition canon_params :: "(pairs \<Rightarrow> pairs) \<Rightarrow> string \<Rightarrow> string \<Rightarrow> string" where
  "canon_params srt s inner = from_iter_into (srt (params_iter s)) inner"

definition endpoint_try_from :: "(pairs \<Rightarrow> pairs) \<Rightarrow> string \<Rightarrow> EndPointError + string" where
  "endpoint_try_from srt s =
     (case find_char PROTO_SEPARATOR s of
        None \<Rightarrow> Inl FormError
      | Some pidx \<Rightarrow>
          if take pidx s = [] \<or> drop (pidx + 1) s = [] then Inl FormError
          else (case (find_char METADATA_SEPARATOR s, find_char CONFIG_SEPARATOR s) of
             (None, None) \<Rightarrow> Inr s
           | (Some midx, None) \<Rightarrow>
               if midx > pidx \<and> drop (midx + 1) s \<noteq> [] then
                 if \<not> is_well_formed (drop (midx + 1) s) then Inl ParamError
                 else Inr (canon_params srt (drop (midx + 1) s) (take (midx + 1) s))
               else Inl FormError
           | (None, Some cidx) \<Rightarrow>
               if cidx > pidx \<and> drop (cidx + 1) s \<noteq> [] then
                 if \<not> is_well_formed (drop (cidx + 1) s) then Inl ParamError
                 else Inr (canon_params srt (drop (cidx + 1) s) (take (cidx + 1) s))
               else Inl FormError
           | (Some midx, Some cidx) \<Rightarrow>
               let m = take (cidx - (midx + 1)) (drop (midx + 1) s); c = drop (cidx + 1) s in
               if midx > pidx \<and> cidx > midx \<and> m \<noteq> [] \<and> c \<noteq> [] then
                 if \<not> is_well_formed m \<or> \<not> is_well_formed c then Inl ParamError
                 else Inr (canon_params srt c (canon_params srt m (take (midx + 1) s) @ [CONFIG_SEPARATOR]))
               else Inl FormError))"

definition endpoint_new :: "(pairs \<Rightarrow> pairs) \<Rightarrow> string \<Rightarrow> string \<Rightarrow> string \<Rightarrow> string \<Rightarrow> EndPointError + string" where
  "endpoint_new srt p a m c =
     (if length p + length a + length m > 255 then Inl TooBig
      else endpoint_try_from srt
        (if m = [] \<and> c = [] then p @ [PROTO_SEPARATOR] @ a
         else if c = [] then p @ [PROTO_SEPARATOR] @ a @ [METADATA_SEPARATOR] @ m
         else if m = [] then p @ [PROTO_SEPARATOR] @ a @ [CONFIG_SEPARATOR] @ c
         else p @ [PROTO_SEPARATOR] @ a @ [METADATA_SEPARATOR] @ m @ [CONFIG_SEPARATOR] @ c))"

section \<open>Setters\<close>

text \<open>\<open>set\<close>, \<open>insert\<close>, \<open>remove\<close> and \<open>extend_from_iter\<close> of the mutable views: the new end point or the error,
  in which case the end point stays as it was.\<close>

definition protocol_mut_as_str :: "string \<Rightarrow> string option" where
  "protocol_mut_as_str s = ep_address s"

definition protocol_set :: "(pairs \<Rightarrow> pairs) \<Rightarrow> string \<Rightarrow> string \<Rightarrow> (EndPointError + string) option" where
  "protocol_set srt s p =
     do { a \<leftarrow> ep_address s; m \<leftarrow> ep_metadata s; Some (endpoint_new srt p a m (ep_config s)) }"

definition address_set :: "(pairs \<Rightarrow> pairs) \<Rightarrow> string \<Rightarrow> string \<Rightarrow> (EndPointError + string) option" where
  "address_set srt s a =
     do { m \<leftarrow> ep_metadata s; Some (endpoint_new srt (ep_protocol s) a m (ep_config s)) }"

definition metadata_extend :: "(pairs \<Rightarrow> pairs) \<Rightarrow> string \<Rightarrow> pairs \<Rightarrow> (EndPointError + string) option" where
  "metadata_extend srt s ps =
     do { a \<leftarrow> ep_address s; m \<leftarrow> ep_metadata s;
          Some (endpoint_new srt (ep_protocol s) a (params_from_iter (srt (params_join (params_iter m) ps))) (ep_config s)) }"

definition metadata_insert :: "(pairs \<Rightarrow> pairs) \<Rightarrow> string \<Rightarrow> string \<Rightarrow> string \<Rightarrow> (EndPointError + string) option" where
  "metadata_insert srt s k v =
     do { a \<leftarrow> ep_address s; m \<leftarrow> ep_metadata s;
          Some (endpoint_new srt (ep_protocol s) a (fst (params_insert_sort srt m k v)) (ep_config s)) }"

definition metadata_remove :: "(pairs \<Rightarrow> pairs) \<Rightarrow> string \<Rightarrow> string \<Rightarrow> (EndPointError + string) option" where
  "metadata_remove srt s k =
     do { a \<leftarrow> ep_address s; m \<leftarrow> ep_metadata s;
          Some (endpoint_new srt (ep_protocol s) a (fst (params_remove m k)) (ep_config s)) }"

definition config_extend :: "(pairs \<Rightarrow> pairs) \<Rightarrow> string \<Rightarrow> pairs \<Rightarrow> (EndPointError + string) option" where
  "config_extend srt s ps =
     do { a \<leftarrow> ep_address s; m \<leftarrow> ep_metadata s;
          Some (endpoint_new srt (ep_protocol s) a m (params_from_iter (srt (params_join (params_iter (ep_config s)) ps)))) }"

definition config_insert :: "(pairs \<Rightarrow> pairs) \<Rightarrow> string \<Rightarrow> string \<Rightarrow> string \<Rightarrow> (EndPointError + string) option" where
  "config_insert srt s k v =
     do { a \<leftarrow> ep_address s; m \<leftarrow> ep_metadata s;
          Some (endpoint_new srt (ep_protocol s) a m (fst (params_insert_sort srt (ep_config s) k v))) }"

definition config_remove :: "(pairs \<Rightarrow> pairs) \<Rightarrow> string \<Rightarrow> string \<Rightarrow> (EndPointError + string) option" where
  "config_remove srt s k =
     do { a \<leftarrow> ep_address s; m \<leftarrow> ep_metadata s;
          Some (endpoint_new srt (ep_protocol s) a m (fst (params_remove (ep_config s) k))) }"

section \<open>Locators\<close>

definition locator_from :: "string \<Rightarrow> string" where
  "locator_from val = (case find_char CONFIG_SEPARATOR val of Some cidx \<Rightarrow> take cidx val | None \<Rightarrow> val)"

definition locator_try_from :: "(pairs \<Rightarrow> pairs) \<Rightarrow> string \<Rightarrow> EndPointError + string" where
  "locator_try_from srt s = map_sum id locator_from (endpoint_try_from srt s)"

definition locator_new :: "(pairs \<Rightarrow> pairs) \<Rightarrow> string \<Rightarrow> string \<Rightarrow> string \<Rightarrow> EndPointError + string" where
  "locator_new srt p a m = endpoint_new srt p a m []"

section \<open>Well-formed end points\<close>

text \<open>An order of the pairs by key, whatever is done with equal keys.\<close>

definition key_sort :: "(pairs \<Rightarrow> pairs) \<Rightarrow> bool" where
  "key_sort srt \<longleftrightarrow> (\<forall>ps. mset (srt ps) = mset ps \<and> sorted (map fst (srt ps)))"

definition render :: "string \<Rightarrow> string \<Rightarrow> string \<Rightarrow> string \<Rightarrow> string" where
  "render p a m c = p @ CHR ''/'' # a @ (if m = [] then [] else CHR ''?'' # m) @ (if c = [] then [] else CHR ''#'' # c)"

definition parts_ok :: "string \<Rightarrow> string \<Rightarrow> string \<Rightarrow> string \<Rightarrow> bool" where
  "parts_ok p a m c \<longleftrightarrow> CHR ''/'' \<notin> set p \<and> CHR ''?'' \<notin> set p \<and> CHR ''#'' \<notin> set p \<and>
     CHR ''?'' \<notin> set a \<and> CHR ''#'' \<notin> set a \<and> CHR ''#'' \<notin> set m \<and> (m = [] \<longrightarrow> CHR ''?'' \<notin> set c)"

lemma find_char_append: "c \<notin> set u \<Longrightarrow> find_char c (u @ v) = map_option (\<lambda>n. length u + n) (find_char c v)"
  unfolding find_char_def by (rule position_append) auto

lemma find_char_simps [simp]:
  "find_char c [] = None" "find_char c (d # s) = (if d = c then Some 0 else map_option Suc (find_char c s))"
  by (simp_all add: find_char_def)

lemma find_char_None: "c \<notin> set s \<Longrightarrow> find_char c s = None"
  using find_char_append [of c s "[]"] by simp

lemma render_find:
  assumes "parts_ok p a m c"
  shows "find_char (CHR ''/'') (render p a m c) = Some (length p)"
    "find_char (CHR ''?'') (render p a m c) = (if m = [] then None else Some (length p + 1 + length a))"
    "find_char (CHR ''#'') (render p a m c) =
       (if c = [] then None else Some (length p + 1 + length a + (if m = [] then 0 else 1 + length m)))"
  using assms by (auto simp: parts_ok_def render_def find_char_append find_char_None)

lemma drop_parts: "drop (3 + (length a + length m)) (x # a @ y # m @ z # c) = c"
  by (simp add: numeral_3_eq_3)

lemma render_parts:
  assumes "parts_ok p a m c"
  shows "ep_protocol (render p a m c) = p" "ep_address (render p a m c) = Some a"
    "ep_metadata (render p a m c) = Some m" "ep_config (render p a m c) = c"
  using render_find [OF assms]
  by (auto simp: ep_protocol_def ep_address_def ep_metadata_def ep_config_def find_or_len_def substr_def) (auto simp: render_def drop_parts)

section \<open>Canonical parameters\<close>

lemma canon_params_append: "canon_params srt s inner = inner @ canon_params srt s []"
  by (simp add: canon_params_def from_iter_into_def concat_into_eq)

lemma set_split_on: "c \<in> set (split_on d s) \<Longrightarrow> set c \<subseteq> set s"
  by (induction s arbitrary: c) (fastforce split: if_splits list.splits)+

lemma set_iter: "(k, v) \<in> set (params_iter s) \<Longrightarrow> set k \<union> set v \<subseteq> set s"
proof -
  assume "(k, v) \<in> set (params_iter s)"
  then obtain c where c: "c \<in> set (split_on (CHR '';'') s)" "(k, v) = split_once (CHR ''='') c" by (auto simp: params_iter_def)
  then have "set k \<union> set v \<subseteq> set c" by (auto simp: split_once_def split: option.splits dest: in_set_takeD in_set_dropD)
  then show ?thesis using set_split_on [OF c(1)] by blast
qed

lemma set_sep_join: "set (sep_join d cs) \<subseteq> insert d (\<Union>c\<in>set cs. set c)"
  by (induction d cs rule: sep_join.induct) auto

lemma canon_params_ok:
  assumes srt: "key_sort srt" and s: "is_well_formed s"
  shows "params_iter (canon_params srt s []) = srt (params_iter s)" "canon_params srt s [] \<noteq> []"
    "set (canon_params srt s []) \<subseteq> set s \<union> {CHR '';'', CHR ''=''}"
proof -
  have ms: "set (srt (params_iter s)) = set (params_iter s)" using srt by (metis key_sort_def set_mset_mset)
  have ok: "list_all pair_ok (srt (params_iter s))"
    using s iter_pair_read [of s] by (fastforce simp: list_all_iff ms is_well_formed_def pair_read_def)
  then show it: "params_iter (canon_params srt s []) = srt (params_iter s)" by (simp add: canon_params_def from_iter_into_def iter_concat)
  have "params_iter (canon_params srt s []) \<noteq> []" unfolding it using s ms by (auto simp: is_well_formed_def)
  then show "canon_params srt s [] \<noteq> []" by (auto simp: params_iter_def)
  have "set (print_pair q) \<subseteq> set s \<union> {CHR ''=''}" if "q \<in> set (params_iter s)" for q
    using set_iter [of "fst q" "snd q" s] that by (auto simp: print_pair_def)
  then have "(\<Union>c\<in>set (map print_pair (filter (\<lambda>p. fst p \<noteq> []) (srt (params_iter s)))). set c) \<subseteq> set s \<union> {CHR ''=''}"
    using ms by auto
  then show "set (canon_params srt s []) \<subseteq> set s \<union> {CHR '';'', CHR ''=''}"
    using set_sep_join [of "CHR '';''" "map print_pair (filter (\<lambda>p. fst p \<noteq> []) (srt (params_iter s)))"]
    unfolding canon_params_def from_iter_into_def concat_into_eq append_Nil by blast
qed

lemma ordered_sorted: "sorted (map fst ps) \<Longrightarrow> (\<forall>q\<in>set ps. case prev of Some p \<Rightarrow> p \<le> fst q | None \<Rightarrow> True) \<Longrightarrow> ordered_loop prev ps"
  by (induction prev ps rule: ordered_loop.induct) (auto split: option.splits)

definition canon_of :: "(pairs \<Rightarrow> pairs) \<Rightarrow> string \<Rightarrow> string" where
  "canon_of srt m = (if m = [] then [] else canon_params srt m [])"

lemma canon_of_ok:
  assumes "key_sort srt" "m = [] \<or> is_well_formed m"
  shows "mset (params_iter (canon_of srt m)) = mset (params_iter m)" "is_ordered (canon_of srt m)"
    "canon_of srt m = [] \<longleftrightarrow> m = []" "set (canon_of srt m) \<subseteq> set m \<union> {CHR '';'', CHR ''=''}"
proof -
  note ok = canon_params_ok [OF assms(1)]
  have s: "mset (srt ps) = mset ps" "sorted (map fst (srt ps))" for ps using assms(1) by (simp_all add: key_sort_def)
  show "mset (params_iter (canon_of srt m)) = mset (params_iter m)" using assms(2) ok(1) s(1) by (auto simp: canon_of_def)
  show "is_ordered (canon_of srt m)"
    using assms(2) ok(1) s(2) by (auto simp: canon_of_def is_ordered_def params_iter_def intro!: ordered_sorted)
  show "canon_of srt m = [] \<longleftrightarrow> m = []" using assms(2) ok(2) by (auto simp: canon_of_def)
  show "set (canon_of srt m) \<subseteq> set m \<union> {CHR '';'', CHR ''=''}" using assms(2) ok(3) by (auto simp: canon_of_def)
qed

lemma try_from_render:
  assumes "key_sort srt" "parts_ok p a m c" "p \<noteq> []" "a \<noteq> []" "m = [] \<or> is_well_formed m" "c = [] \<or> is_well_formed c"
  shows "endpoint_try_from srt (render p a m c) = Inr (render p a (canon_of srt m) (canon_of srt c))"
proof -
  have ne: "m \<noteq> [] \<Longrightarrow> canon_params srt m [] \<noteq> []" "c \<noteq> [] \<Longrightarrow> canon_params srt c [] \<noteq> []"
    using assms(5,6) canon_params_ok(2) [OF assms(1)] by auto
  show ?thesis
    unfolding endpoint_try_from_def PROTO_SEPARATOR_def METADATA_SEPARATOR_def CONFIG_SEPARATOR_def render_find [OF assms(2)]
    using assms(3-6) ne
    by (cases "m = []"; cases "c = []")
      (auto simp: Let_def render_def canon_of_def drop_parts canon_params_append [of srt _ "_ # _"] canon_params_append [of srt _ "_ @ _"])
qed

lemma endpoint_new_render:
  assumes "key_sort srt" "parts_ok p a m c" "p \<noteq> []" "a \<noteq> []" "m = [] \<or> is_well_formed m" "c = [] \<or> is_well_formed c"
    and "length p + length a + length m \<le> 255"
  shows "endpoint_new srt p a m c = Inr (render p a (canon_of srt m) (canon_of srt c))" "parts_ok p a (canon_of srt m) (canon_of srt c)"
proof -
  note okm = canon_of_ok [OF assms(1,5)] and okc = canon_of_ok [OF assms(1,6)]
  show "parts_ok p a (canon_of srt m) (canon_of srt c)" using assms(2) okm(3,4) okc(4) by (auto simp: parts_ok_def)
  show "endpoint_new srt p a m c = Inr (render p a (canon_of srt m) (canon_of srt c))"
    using assms(7) try_from_render [OF assms(1-6)] by (auto simp: endpoint_new_def render_def)
qed

text \<open>The insertion of a metadata parameter: the parameter replaces those of its key, the rest stays.\<close>

lemma metadata_insert_parts:
  assumes srt: "key_sort srt" and parts: "parts_ok p a m c" "p \<noteq> []" "a \<noteq> []" "m = [] \<or> is_well_formed m" "c = [] \<or> is_well_formed c"
    and kv: "param_key k" "param_value v" "CHR ''#'' \<notin> set k \<union> set v"
    and len: "length p + length a + length (fst (params_insert_sort srt m k v)) \<le> 255"
  shows "\<exists>e m'. metadata_insert srt (render p a m c) k v = Some (Inr e) \<and> ep_protocol e = p \<and> ep_address e = Some a \<and>
    ep_metadata e = Some m' \<and> mset (params_iter m') = add_mset (k, v) (mset (filter (\<lambda>x. fst x \<noteq> k) (params_iter m))) \<and>
    mset (params_iter (ep_config e)) = mset (params_iter c)"
proof -
  let ?ps = "filter (\<lambda>x. fst x \<noteq> k) (params_iter m) @ [(k, v)]" and ?n = "fst (params_insert_sort srt m k v)"
  have n: "?n = concat_into (srt ?ps) []" by (simp add: params_insert_sort_def insert_pairs_def params_from_iter_def from_iter_into_def)
  have ms: "mset (srt ?ps) = mset ?ps" using srt by (simp only: key_sort_def)
  then have st: "set (srt ?ps) = set ?ps" by (metis set_mset_mset)
  have "pair_ok q" if "q \<in> set (params_iter m)" for q
    using that parts(4) iter_pair_read [of m] by (fastforce simp: is_well_formed_def list_all_iff pair_read_def params_iter_def)
  then have ok: "list_all pair_ok (srt ?ps)" using kv(1,2) unfolding list_all_iff st by (auto simp: pair_ok_def)
  then have it: "params_iter ?n = srt ?ps" unfolding n by (rule iter_concat)
  have wf: "is_well_formed ?n" using ok st unfolding is_well_formed_def it by (force simp: list_all_iff pair_ok_def param_key_def)
  have "set (print_pair q) \<subseteq> set m \<union> set k \<union> set v \<union> {CHR ''=''}" if "q \<in> set (srt ?ps)" for q
    using that set_iter [of "fst q" "snd q" m] unfolding st by (auto simp: print_pair_def split: if_splits)
  then have "set ?n \<subseteq> set m \<union> set k \<union> set v \<union> {CHR ''='', CHR '';''}"
    using set_sep_join [of "CHR '';''" "map print_pair (filter (\<lambda>p. fst p \<noteq> []) (srt ?ps))"] unfolding n concat_into_eq by fastforce
  moreover have "?n \<noteq> []" using wf by (auto simp: is_well_formed_def params_iter_def)
  ultimately have pn: "parts_ok p a ?n c" using parts(1) kv(3) by (auto simp: parts_ok_def)
  note new = endpoint_new_render [OF srt pn parts(2,3) disjI2 [OF wf] parts(5) len]
  have "metadata_insert srt (render p a m c) k v = Some (Inr (render p a (canon_of srt ?n) (canon_of srt c)))"
    using new(1) render_parts [OF parts(1)] by (simp add: metadata_insert_def)
  moreover have "mset (params_iter (canon_of srt ?n)) = add_mset (k, v) (mset (filter (\<lambda>x. fst x \<noteq> k) (params_iter m)))"
    using canon_of_ok(1) [OF srt disjI2 [OF wf]] it ms by simp
  ultimately show ?thesis using render_parts [OF new(2)] canon_of_ok(1) [OF srt parts(5)] by simp
qed

text \<open>(C25) An end point made of its parts gives them back: protocol and address as they were, metadata and configuration
  canonical, with the same parameters in the order of their keys, however equal keys are ordered; and the locator of the end point
  has the same protocol, address and metadata and no configuration.\<close>

theorem endpoint_new_parts:
  assumes "key_sort srt" "parts_ok p a m c" "p \<noteq> []" "a \<noteq> []" "m = [] \<or> is_well_formed m" "c = [] \<or> is_well_formed c"
    and "length p + length a + length m \<le> 255"
  shows "\<exists>e m' c'. endpoint_new srt p a m c = Inr e \<and>
    ep_protocol e = p \<and> ep_address e = Some a \<and> ep_metadata e = Some m' \<and> ep_config e = c' \<and>
    mset (params_iter m') = mset (params_iter m) \<and> is_ordered m' \<and> mset (params_iter c') = mset (params_iter c) \<and> is_ordered c' \<and>
    ep_protocol (locator_from e) = p \<and> ep_address (locator_from e) = Some a \<and> ep_metadata (locator_from e) = Some m' \<and>
    ep_config (locator_from e) = []"
proof -
  let ?m = "canon_of srt m" and ?c = "canon_of srt c"
  note okm = canon_of_ok [OF assms(1,5)] and okc = canon_of_ok [OF assms(1,6)]
  note new = endpoint_new_render [OF assms]
  note ok = new(2)
  then have okl: "parts_ok p a ?m []" by (simp add: parts_ok_def)
  have loc: "locator_from (render p a ?m ?c) = render p a ?m []"
    using render_find(3) [OF ok] by (auto simp: locator_from_def) (auto simp: render_def)
  show ?thesis
    using new(1) okm(1,2) okc(1,2) render_parts [OF ok] render_parts [OF okl] loc
    by (intro exI [of _ "render p a ?m ?c"] exI [of _ ?m] exI [of _ ?c]) simp
qed

text \<open>Insertion sort is such an order.\<close>

definition by_key :: "pairs \<Rightarrow> pairs" where
  "by_key ps = sort_key fst ps"

lemma key_sort_by_key: "key_sort by_key"
  by (simp add: key_sort_def by_key_def)

theorem endpoint_new_parts_witness:
  "\<exists>e m' c'. endpoint_new by_key ''tcp'' ''localhost:7447'' ''rel=1;prio=2-4'' ''iface=lo'' = Inr e \<and>
    ep_protocol e = ''tcp'' \<and> ep_address e = Some ''localhost:7447'' \<and> ep_metadata e = Some m' \<and> ep_config e = c' \<and>
    mset (params_iter m') = mset (params_iter ''rel=1;prio=2-4'') \<and> is_ordered m' \<and>
    mset (params_iter c') = mset (params_iter ''iface=lo'') \<and> is_ordered c' \<and>
    ep_protocol (locator_from e) = ''tcp'' \<and> ep_address (locator_from e) = Some ''localhost:7447'' \<and>
    ep_metadata (locator_from e) = Some m' \<and> ep_config (locator_from e) = []"
  by (rule endpoint_new_parts [OF key_sort_by_key])
    (simp_all add: parts_ok_def is_well_formed_def params_iter_def split_once_def)

text \<open>The mutable view of the protocol shows the address.\<close>

lemma protocol_mut_shows_address:
  "protocol_mut_as_str ''tcp/localhost:7447'' = Some ''localhost:7447'' \<and> ep_protocol ''tcp/localhost:7447'' = ''tcp''"
  by code_simp

end
