(* ===== verification/KeyExpr_Valid.thy ===== *)
theory KeyExpr_Valid
  imports KeyExpr_Base
begin

text \<open>
  What \<^const>\<open>try_from\<close> accepts.  The scanning loop over byte positions is first shown equal
  to a recursion over the remaining suffix, and that recursion is then related to a declarative
  description of canonical key expressions: non-empty chunks, each one \<open>*\<close>, \<open>**\<close> or a literal
  with non-adjacent \<open>$*\<close>, and no \<open>**\<close> chunk followed by a \<open>*\<close> or \<open>**\<close> chunk.
\<close>

section \<open>Well-formed chunks\<close>

fun dsl_ok :: "string \<Rightarrow> bool" where
  "dsl_ok [] = True"
| "dsl_ok (c # s) =
     (if c = CHR ''$'' then
        (case s of
           d # s' \<Rightarrow> d = CHR ''*'' \<and> (s' = [] \<or> hd s' \<noteq> CHR ''$'') \<and> dsl_ok s'
         | [] \<Rightarrow> False)
      else c \<noteq> CHR ''*'' \<and> c \<noteq> CHR ''#'' \<and> c \<noteq> CHR ''?'' \<and> c \<noteq> CHR ''/'' \<and> dsl_ok s)"

definition chunk_ok :: "string \<Rightarrow> bool" where
  "chunk_ok c \<longleftrightarrow> c \<noteq> [] \<and> (c = ''*'' \<or> c = ''**'' \<or> (c \<noteq> ''$*'' \<and> dsl_ok c))"

fun canon_ok :: "string list \<Rightarrow> bool" where
  "canon_ok (a # b # cs) = (\<not> (a = ''**'' \<and> (b = ''*'' \<or> b = ''**'')) \<and> canon_ok (b # cs))"
| "canon_ok cs = True"

definition ke_ok :: "string list \<Rightarrow> bool" where
  "ke_ok cs \<longleftrightarrow> cs \<noteq> [] \<and> list_all chunk_ok cs \<and> canon_ok cs"

section \<open>The scan over suffixes\<close>

fun scan_sfx :: "string \<Rightarrow> bool \<Rightarrow> KeyExprError option" where
  "scan_sfx [] st = None"
| "scan_sfx (c # s) st =
     (if (of_char c :: nat) > 47 \<and> c \<noteq> CHR ''?'' then scan_sfx s False
      else if c = CHR ''/'' then (if st then Some EmptyChunk else scan_sfx s True)
      else if c = CHR ''*'' then
        (if \<not> st then Some StarInChunk
         else (case s of
             [] \<Rightarrow> None
           | d # s1 \<Rightarrow>
               if d = CHR ''/'' then scan_sfx s1 True
               else if d = CHR ''*'' then
                 (case s1 of
                    [] \<Rightarrow> None
                  | e # s2 \<Rightarrow>
                      if e = CHR ''/'' \<and> get s2 0 = Some CHR ''*''
                      then Some (double_star_err (c # s) 0)
                      else if e = CHR ''/'' then scan_sfx s2 True
                      else Some StarInChunk)
               else Some StarInChunk))
      else if c = CHR ''$'' then
        (case s of
           [] \<Rightarrow> Some UnboundDollar
         | d # s1 \<Rightarrow>
             if d \<noteq> CHR ''*'' then Some UnboundDollar
             else if get s1 0 = Some CHR ''$'' then Some DollarAfterDollar
             else if (get s1 0 = Some CHR ''/'' \<or> s1 = []) \<and> st then Some LoneDollarStar
             else if s1 = [] then None
             else scan_sfx s1 False)
      else if c = CHR ''#'' \<or> c = CHR ''?'' then Some SharpOrQMark
      else scan_sfx s False)"

declare scan_sfx.simps [simp del]

lemma double_star_err_drop: "double_star_err (drop i v) 0 = double_star_err v i"
  by (simp add: double_star_err_def get_drop)

lemma get_drop_0: "get (drop i v) 0 = get v i"
  by (simp add: get_drop)

lemma scan_eq_sfx: "st \<le> i \<Longrightarrow> scan v i st = scan_sfx (drop i v) (i = st)"
proof (induction "length v - i" arbitrary: i st rule: less_induct)
  case less
  show ?case
  proof (cases "i < length v")
    case False
    then show ?thesis by (simp add: scan.simps [of v i st] scan_sfx.simps)
  next
    case True
    have IH: "scan v j st' = scan_sfx (drop j v) (j = st')" if "i < j" "st' \<le> j" for j st'
      using less.hyps [of j st'] True that by simp
    have d0: "drop i v = v ! i # drop (Suc i) v"
      using True by (simp add: Cons_nth_drop_Suc)
    note err = double_star_err_drop [of i v, unfolded d0]
    have drop2: "drop (Suc (Suc i)) v = drop 1 (drop (Suc i) v)" and drop3: "drop (i + 3) v = drop 2 (drop (Suc i) v)"
      by (simp_all add: add.commute eval_nat_numeral)
    have g: "get v (Suc i) = get (drop (Suc i) v) 0" "get v (Suc (Suc i)) = get (drop (Suc i) v) 1"
      "get v (i + 3) = get (drop (Suc i) v) 2"
      by (simp_all add: get_drop eval_nat_numeral)
    define b where "b \<longleftrightarrow> i = st"
    note unfolds = b_def [symmetric] scan.simps [of v i st] scan_sfx.simps(2) [of "v ! i"] d0 g drop2 drop3 Let_def IH
    show ?thesis
    proof (cases "drop (Suc i) v")
      case Nil
      with True less.prems err show ?thesis by (simp add: unfolds)
    next
      case (Cons d s1)
      with True less.prems err show ?thesis
        by (cases s1) (simp add: unfolds, simp add: unfolds, metis)
    qed
  qed
qed

section \<open>From the scan to chunks\<close>

abbreviation special :: "char \<Rightarrow> bool" where
  "special c \<equiv> c \<in> {CHR ''/'', CHR ''*'', CHR ''$'', CHR ''#'', CHR ''?''}"

lemma scan_sfx_regular: "\<not> special c \<Longrightarrow> scan_sfx (c # s) st = scan_sfx s False"
  by (simp add: scan_sfx.simps(2))

lemma scan_sfx_forbidden: "c = CHR ''#'' \<or> c = CHR ''?'' \<Longrightarrow> scan_sfx (c # s) st \<noteq> None"
  by (auto simp: scan_sfx.simps(2))

lemma scan_sfx_slash:
  "scan_sfx (CHR ''/'' # s) st = (if st then Some EmptyChunk else scan_sfx s True)"
  by (simp add: scan_sfx.simps(2))

lemma scan_sfx_star:
  "scan_sfx (CHR ''*'' # s) st = None \<longleftrightarrow>
     st \<and> (s = [] \<or> (\<exists>r. s = CHR ''/'' # r \<and> scan_sfx r True = None) \<or> s = ''*'' \<or>
       (\<exists>r. s = CHR ''*'' # CHR ''/'' # r \<and> get r 0 \<noteq> Some CHR ''*'' \<and> scan_sfx r True = None))"
  by (auto simp: scan_sfx.simps(2) split: list.splits)

lemma scan_sfx_dollar:
  "scan_sfx (CHR ''$'' # s) st = None \<longleftrightarrow>
     (\<exists>r. s = CHR ''*'' # r \<and> get r 0 \<noteq> Some CHR ''$'' \<and>
       (if r = [] \<or> get r 0 = Some CHR ''/'' then \<not> st \<and> (r = [] \<or> scan_sfx r False = None)
        else scan_sfx r False = None))"
  by (auto simp: scan_sfx.simps(2) split: list.splits)

definition rest_ok :: "string list \<Rightarrow> bool" where
  "rest_ok cs \<longleftrightarrow> dsl_ok (hd cs) \<and> (tl cs = [] \<or> ke_ok (tl cs))"

definition scan_spec :: "string \<Rightarrow> bool \<Rightarrow> bool" where
  "scan_spec s st \<longleftrightarrow>
    (if st then s = [] \<or> ke_ok (split_on (CHR ''/'') s) else rest_ok (split_on (CHR ''/'') s))"

abbreviation no_trailing :: "string \<Rightarrow> bool" where
  "no_trailing s \<equiv> (s \<noteq> [] \<longrightarrow> last s \<noteq> CHR ''/'')"

lemma scan_spec_regular: "\<not> special c \<Longrightarrow> scan_spec (c # s) st = scan_spec s False"
  by (cases "split_on (CHR ''/'') s"; cases "tl (split_on (CHR ''/'') s)")
    (auto simp: scan_spec_def rest_ok_def ke_ok_def chunk_ok_def)

lemma scan_spec_forbidden: "c = CHR ''#'' \<or> c = CHR ''?'' \<Longrightarrow> \<not> scan_spec (c # s) st"
  by (cases "split_on (CHR ''/'') s") (auto simp: scan_spec_def rest_ok_def ke_ok_def chunk_ok_def)

lemma scan_spec_slash:
  "s \<noteq> [] \<Longrightarrow> scan_spec (CHR ''/'' # s) st = (\<not> st \<and> scan_spec s True)"
  by (auto simp: scan_spec_def rest_ok_def ke_ok_def chunk_ok_def)

lemma split_on_single: "split_on (CHR ''/'') s = [c] \<longleftrightarrow> s = c \<and> CHR ''/'' \<notin> set s"
  by (metis split_on_noslash join_split_on split_on_slashfree list.set_intros(1) join_chunks.simps(2))

lemma ke_ok_Cons:
  "cs \<noteq> [] \<Longrightarrow> ke_ok (c # cs) \<longleftrightarrow>
     chunk_ok c \<and> ke_ok cs \<and> \<not> (c = ''**'' \<and> (hd cs = ''*'' \<or> hd cs = ''**''))"
  by (cases cs) (auto simp: ke_ok_def)

lemma ke_ok_single [simp]: "ke_ok [c] \<longleftrightarrow> chunk_ok c"
  by (simp add: ke_ok_def)

lemma chunk_ok_star_iff: "chunk_ok c \<Longrightarrow> get c 0 = Some CHR ''*'' \<longleftrightarrow> c = ''*'' \<or> c = ''**''"
  by (cases c) (auto simp: chunk_ok_def)

lemma ke_ok_hd: "ke_ok cs \<Longrightarrow> chunk_ok (hd cs)"
  by (cases cs) (auto simp: ke_ok_def)

lemma get_split_on:
  "ke_ok (split_on (CHR ''/'') s) \<Longrightarrow> get s 0 = get (hd (split_on (CHR ''/'') s)) 0"
  by (cases s) (auto simp: ke_ok_def chunk_ok_def split: list.splits)

lemma scan_spec_star:
  assumes "no_trailing s"
  shows "scan_spec (CHR ''*'' # s) st \<longleftrightarrow>
     st \<and> (s = [] \<or> (\<exists>r. s = CHR ''/'' # r \<and> scan_spec r True) \<or> s = ''*'' \<or>
       (\<exists>r. s = CHR ''*'' # CHR ''/'' # r \<and> get r 0 \<noteq> Some CHR ''*'' \<and> scan_spec r True))"
proof (cases st)
  case False
  then show ?thesis by (cases "split_on (CHR ''/'') s") (auto simp: scan_spec_def rest_ok_def)
next
  case True
  consider "s = []" | r where "s = CHR ''/'' # r" "r \<noteq> []" | "s = ''*''"
    | r where "s = CHR ''*'' # CHR ''/'' # r" "r \<noteq> []"
    | r x where "s = CHR ''*'' # x # r" "x \<noteq> CHR ''/''"
    | x r where "s = x # r" "x \<noteq> CHR ''/''" "x \<noteq> CHR ''*''"
    using assms by (cases s; cases "tl s") (auto split: if_splits)
  then show ?thesis
  proof cases
    case 1
    then show ?thesis using True by (simp add: scan_spec_def chunk_ok_def)
  next
    case 2
    then show ?thesis using True by (simp add: scan_spec_def ke_ok_Cons) (simp add: chunk_ok_def)
  next
    case 3
    then show ?thesis using True by (simp add: scan_spec_def chunk_ok_def)
  next
    case 4
    let ?cs = "split_on (CHR ''/'') r"
    have "get r 0 \<noteq> Some CHR ''*'' \<longleftrightarrow> \<not> (hd ?cs = ''*'' \<or> hd ?cs = ''**'')" if "ke_ok ?cs"
      using that by (simp add: get_split_on chunk_ok_star_iff ke_ok_hd)
    moreover have "chunk_ok ''**''" by (simp add: chunk_ok_def)
    ultimately show ?thesis using True 4
      by (simp add: scan_spec_def ke_ok_Cons) blast
  next
    case 5
    then show ?thesis using True
      by (cases "split_on (CHR ''/'') r") (auto simp: scan_spec_def ke_ok_def chunk_ok_def)
  next
    case 6
    then show ?thesis using True
      by (cases "split_on (CHR ''/'') r") (auto simp: scan_spec_def ke_ok_def chunk_ok_def)
  qed
qed

lemma scan_spec_dollar:
  assumes "no_trailing s"
  shows "scan_spec (CHR ''$'' # s) st \<longleftrightarrow>
     (\<exists>r. s = CHR ''*'' # r \<and> get r 0 \<noteq> Some CHR ''$'' \<and>
       (if r = [] \<or> get r 0 = Some CHR ''/'' then \<not> st \<and> (r = [] \<or> scan_spec r False)
        else scan_spec r False))"
proof (cases "\<exists>r. s = CHR ''*'' # r")
  case False
  then show ?thesis
    by (cases s; cases "split_on (CHR ''/'') (tl s)")
      (auto simp: scan_spec_def rest_ok_def ke_ok_def chunk_ok_def)
next
  case True
  then obtain r where s: "s = CHR ''*'' # r" by blast
  show ?thesis
  proof (cases r)
    case Nil
    then show ?thesis
      by (simp add: s scan_spec_def rest_ok_def chunk_ok_def)
  next
    case (Cons x t)
    then show ?thesis
      by (cases "split_on (CHR ''/'') t"; cases "tl (split_on (CHR ''/'') t)")
        (auto simp: s scan_spec_def rest_ok_def ke_ok_def chunk_ok_def)
  qed
qed

lemma scan_sfx_spec: "no_trailing s \<Longrightarrow> scan_sfx s st = None \<longleftrightarrow> scan_spec s st"
proof (induction s arbitrary: st rule: length_induct)
  case (1 s)
  show ?case
  proof (cases s)
    case Nil
    then show ?thesis by (simp add: scan_sfx.simps scan_spec_def rest_ok_def)
  next
    case (Cons c r)
    have IH: "scan_sfx t st' = None \<longleftrightarrow> scan_spec t st'" if "s = u @ t" "u \<noteq> []" for t u st'
    proof -
      have "no_trailing t" using "1.prems" that by auto
      with "1.IH" that show ?thesis by simp
    qed
    have nt: "no_trailing r" using "1.prems" Cons by auto
    consider "\<not> special c" | "c = CHR ''#'' \<or> c = CHR ''?''" | "c = CHR ''/''" | "c = CHR ''*''"
      | "c = CHR ''$''" by auto
    then show ?thesis
    proof cases
      case 1
      then show ?thesis using IH [of "[c]" r] Cons
        by (simp add: scan_sfx_regular scan_spec_regular)
    next
      case 2
      then show ?thesis using Cons scan_sfx_forbidden scan_spec_forbidden by auto
    next
      case 3
      then have "r \<noteq> []" using "1.prems" Cons by auto
      then show ?thesis using 3 IH [of "[c]" r] Cons
        by (simp add: scan_sfx_slash scan_spec_slash)
    next
      case 4
      have "scan_sfx t st' = None \<longleftrightarrow> scan_spec t st'" if "r = u @ t" for t u st'
        using IH [of "c # u" t] that Cons by simp
      from this [of "[_]"] this [of "[_, _]"] show ?thesis using 4 Cons
        by (simp add: scan_sfx_star scan_spec_star [OF nt]) (auto; force)
    next
      case 5
      have "scan_sfx t st' = None \<longleftrightarrow> scan_spec t st'" if "r = u @ t" for t u st'
        using IH [of "c # u" t] that Cons by simp
      from this [of "[_]"] show ?thesis using 5 Cons
        by (simp add: scan_sfx_dollar scan_spec_dollar [OF nt]) (auto split: if_splits; force)
    qed
  qed
qed

section \<open>Acceptance\<close>

lemma split_on_snoc: "split_on d (s @ [d]) = split_on d s @ [[]]"
  by (induction s) (auto split: list.splits)

lemma ke_ok_no_trailing:
  assumes "ke_ok (split_on (CHR ''/'') s)"
  shows "s \<noteq> [] \<and> last s \<noteq> CHR ''/''"
proof -
  have ne: "[] \<notin> set (split_on (CHR ''/'') s)"
    using assms by (auto simp: ke_ok_def chunk_ok_def list_all_iff simp del: dsl_ok.simps)
  then have "s \<noteq> []" by auto
  moreover have "last s \<noteq> CHR ''/''"
  proof
    assume "last s = CHR ''/''"
    then have "s = butlast s @ [CHR ''/'']"
      using \<open>s \<noteq> []\<close> by (metis append_butlast_last_id)
    then have "split_on (CHR ''/'') s = split_on (CHR ''/'') (butlast s) @ [[]]"
      using split_on_snoc by metis
    with ne show False by simp
  qed
  ultimately show ?thesis ..
qed

lemma try_from_Inr: "try_from s = Inr s' \<Longrightarrow> s' = s"
  by (auto simp: try_from_def split: if_splits option.splits)

text \<open>(C11) The validating constructor accepts a string exactly when splitting it at \<open>/\<close> gives a
  canonical chunk list, and then returns the string unchanged.\<close>

theorem try_from_accepts_iff_canonical:
  "(try_from s = Inr s' \<longleftrightarrow> s' = s \<and> ke_ok (split_on DELIMITER s))"
proof (cases "s = [] \<or> last s = CHR ''/''")
  case True
  then show ?thesis using ke_ok_no_trailing [of s] by (auto simp: try_from_def)
next
  case False
  then have "scan s 0 0 = None \<longleftrightarrow> ke_ok (split_on (CHR ''/'') s)"
    using scan_sfx_spec [of s True] by (simp add: scan_eq_sfx scan_spec_def)
  with False show ?thesis by (auto simp: try_from_def split: option.splits)
qed

text \<open>Valid key expressions: what the type \<open>keyexpr\<close> holds.\<close>

definition valid_ke :: "string \<Rightarrow> bool" where
  "valid_ke s \<longleftrightarrow> try_from s = Inr s"

lemma valid_ke_ok: "valid_ke s \<longleftrightarrow> ke_ok (split_on (CHR ''/'') s)"
proof (cases "s = [] \<or> last s = CHR ''/''")
  case True
  then show ?thesis using ke_ok_no_trailing [of s] by (auto simp: valid_ke_def try_from_def)
next
  case False
  then have "scan s 0 0 = None \<longleftrightarrow> ke_ok (split_on (CHR ''/'') s)"
    using scan_sfx_spec [of s True] by (simp add: scan_eq_sfx scan_spec_def)
  with False show ?thesis by (auto simp: valid_ke_def try_from_def split: option.splits)
qed

lemma dsl_ok_noslash: "dsl_ok c \<Longrightarrow> CHR ''/'' \<notin> set c"
proof (induction c rule: dsl_ok.induct)
  case (2 c s)
  then show ?case by (cases s; cases "c = CHR ''$''") auto
qed simp

lemma chunk_ok_cases:
  assumes "chunk_ok c"
  obtains "c = ''*''" | "c = ''**''" | "c \<noteq> []" "c \<noteq> ''$*''" "dsl_ok c"
  using assms unfolding chunk_ok_def by blast

lemma chunk_ok_plain:
  assumes "chunk_ok c"
  shows "plain_chunk c"
  using assms by (cases c rule: chunk_ok_cases) (simp_all add: plain_chunk_def dsl_ok_noslash)

text \<open>Every valid key expression is the join of a canonical chunk list, and conversely.\<close>

lemma valid_ke_join: "ke_ok cs \<Longrightarrow> valid_ke (join_chunks cs)"
  unfolding valid_ke_ok
  by (subst split_on_join) (auto simp: ke_ok_def list_all_iff dest!: chunk_ok_plain simp: plain_chunk_def)

lemma valid_keE:
  assumes "valid_ke s"
  obtains cs where "s = join_chunks cs" "ke_ok cs" "split_on (CHR ''/'') s = cs"
  using assms join_split_on [of s] unfolding valid_ke_ok by metis

end
