(* ===== verification/KeyExpr_Match.thy ===== *)
theory KeyExpr_Match
  imports KeyExpr_Valid
begin

text \<open>
  The set of keys a key expression denotes, which is the specification of the intersection,
  inclusion and canonization algorithms.  A key is a key expression without wildcards.  Inside a
  chunk \<open>$*\<close> stands for any byte sequence; the chunk \<open>*\<close> matches any chunk and \<open>**\<close> any
  number of chunks; a verbatim chunk (one that starts with \<open>@\<close>) is matched by itself only.
\<close>

section \<open>Matching a chunk\<close>

fun dsl_match :: "string \<Rightarrow> string \<Rightarrow> bool" where
  "dsl_match [] k = (k = [])"
| "dsl_match (c # p) [] = (c = CHR ''$'' \<and> p \<noteq> [] \<and> dsl_match (tl p) [])"
| "dsl_match (c # p) (d # k) =
     (if c = CHR ''$'' then (p \<noteq> [] \<and> dsl_match (tl p) (d # k)) \<or> dsl_match (c # p) k
      else c = d \<and> dsl_match p k)"

definition chunk_match :: "string \<Rightarrow> string \<Rightarrow> bool" where
  "chunk_match p k \<longleftrightarrow>
     (if has_direct_verbatim p \<or> has_direct_verbatim k then p = k
      else p = ''*'' \<or> dsl_match p k)"

section \<open>Matching a chunk list\<close>

fun ke_match :: "string list \<Rightarrow> string list \<Rightarrow> bool" where
  "ke_match [] ks = (ks = [])"
| "ke_match (p # ps) [] = (p = ''**'' \<and> ke_match ps [])"
| "ke_match (p # ps) (k # ks) =
     (if p = ''**''
      then ke_match ps (k # ks) \<or> (\<not> has_direct_verbatim k \<and> ke_match (p # ps) ks)
      else chunk_match p k \<and> ke_match ps ks)"

section \<open>Keys\<close>

definition key_char :: "char \<Rightarrow> bool" where
  "key_char c \<longleftrightarrow> c \<notin> {CHR ''/'', CHR ''*'', CHR ''$'', CHR ''#'', CHR ''?''}"

definition key_chunk :: "string \<Rightarrow> bool" where
  "key_chunk k \<longleftrightarrow> k \<noteq> [] \<and> list_all key_char k"

definition is_key :: "string list \<Rightarrow> bool" where
  "is_key ks \<longleftrightarrow> ks \<noteq> [] \<and> list_all key_chunk ks"

text \<open>The keys of a key expression.\<close>

definition ke_keys :: "string \<Rightarrow> string list set" where
  "ke_keys s = {ks. is_key ks \<and> ke_match (split_on DELIMITER s) ks}"

text \<open>
  A verbatim chunk that contains \<open>$*\<close> passes the validation but denotes no key: it is a
  wildcard that only equals itself.  The constructor does not check for it; it is a condition of the
  properties that compare an algorithm with the keys.
\<close>

definition verbatim_literal :: "string list \<Rightarrow> bool" where
  "verbatim_literal cs \<longleftrightarrow> list_all (\<lambda>c. has_direct_verbatim c \<longrightarrow> CHR ''*'' \<notin> set c) cs"

section \<open>Basic facts\<close>

lemma has_direct_verbatim_simps [simp]:
  "has_direct_verbatim [] = False"
  "has_direct_verbatim (c # s) = (c = CHR ''@'')"
  by (simp_all add: has_direct_verbatim_def)

lemma dsl_match_skip: "dsl_match p k \<Longrightarrow> dsl_match (CHR ''$'' # s # p) (u @ k)"
  by (induction u) (cases k; auto)+

lemma dsl_match_star_iff:
  "dsl_match (CHR ''$'' # s # p) k \<longleftrightarrow> (\<exists>u v. k = u @ v \<and> dsl_match p v)"
proof (induction k)
  case Nil
  then show ?case by simp
next
  case (Cons d k)
  have "(\<exists>u v. d # k = u @ v \<and> dsl_match p v) \<longleftrightarrow>
      dsl_match p (d # k) \<or> (\<exists>u v. k = u @ v \<and> dsl_match p v)"
    by (metis append_Cons append_Nil list.inject neq_Nil_conv)
  with Cons show ?case by simp
qed

lemma dsl_match_lit:
  "c \<noteq> CHR ''$'' \<Longrightarrow> dsl_match (c # p) k \<longleftrightarrow> (\<exists>k'. k = c # k' \<and> dsl_match p k')"
  by (cases k) auto

lemma dsl_match_self: "CHR ''$'' \<notin> set p \<Longrightarrow> dsl_match p k \<longleftrightarrow> k = p"
proof (induction p arbitrary: k)
  case (Cons c p)
  then have "c \<noteq> CHR ''$''" by auto
  with Cons show ?case by (simp add: dsl_match_lit)
qed simp

lemma key_chars_notin:
  assumes "list_all key_char k"
  shows "CHR ''/'' \<notin> set k" "CHR ''*'' \<notin> set k" "CHR ''$'' \<notin> set k"
  using assms by (induction k) (auto simp: key_char_def)

lemma key_chunkD:
  assumes "key_chunk k"
  shows "k \<noteq> []" "CHR ''/'' \<notin> set k" "CHR ''*'' \<notin> set k" "CHR ''$'' \<notin> set k"
  using assms key_chars_notin [of k] by (simp_all add: key_chunk_def)

lemma key_chunk_plain: "key_chunk k \<Longrightarrow> plain_chunk k"
  by (simp add: plain_chunk_def key_chunkD)

lemma key_chunk_ok: "key_chunk k \<Longrightarrow> chunk_ok k"
proof -
  have "dsl_ok k" if "list_all key_char k"
    using that by (induction k) (auto simp: key_char_def)
  then show "key_chunk k \<Longrightarrow> chunk_ok k"
    by (auto simp: key_chunk_def chunk_ok_def key_char_def)
qed

lemma chunk_match_key_self: "key_chunk k \<Longrightarrow> chunk_match k k"
  by (simp add: chunk_match_def dsl_match_self key_chunkD)

lemma ke_match_double_wild:
  "ke_match (''**'' # ps) ks \<longleftrightarrow>
     (\<exists>us vs. ks = us @ vs \<and> list_all (\<lambda>k. \<not> has_direct_verbatim k) us \<and> ke_match ps vs)"
proof (induction ks)
  case Nil
  then show ?case by simp
next
  case (Cons k ks)
  have "(\<exists>us vs. k # ks = us @ vs \<and> list_all (\<lambda>k. \<not> has_direct_verbatim k) us \<and> ke_match ps vs) \<longleftrightarrow>
      ke_match ps (k # ks) \<or> (\<not> has_direct_verbatim k \<and>
        (\<exists>us vs. ks = us @ vs \<and> list_all (\<lambda>k. \<not> has_direct_verbatim k) us \<and> ke_match ps vs))"
    (is "?L \<longleftrightarrow> ?R")
  proof
    assume ?L
    then show ?R by (auto simp: Cons_eq_append_conv) blast
  next
    assume ?R
    then show ?L
      by (metis append_Cons append_Nil list.pred_inject)
  qed
  with Cons show ?case by simp
qed

lemma ke_match_Cons_other:
  "p \<noteq> ''**'' \<Longrightarrow>
   ke_match (p # ps) ks \<longleftrightarrow> (\<exists>k ks'. ks = k # ks' \<and> chunk_match p k \<and> ke_match ps ks')"
  by (cases ks) auto

lemma ke_match_only_double_wild:
  "ke_match [''**''] ks \<longleftrightarrow> list_all (\<lambda>k. \<not> has_direct_verbatim k) ks"
  by (simp add: ke_match_double_wild)

lemma ke_match_refl: "list_all key_chunk ks \<Longrightarrow> ke_match ks ks"
proof (induction ks)
  case (Cons k ks)
  then have "k \<noteq> ''**''" by (auto dest: key_chunkD(3))
  with Cons show ?case by (simp add: chunk_match_key_self)
qed simp

end
