(* ===== verification/KeyExpr_Intersect.thy ===== *)
theory KeyExpr_Intersect
  imports KeyExpr_Match
begin

text \<open>
  Key expression intersection (key_expr/intersect/mod.rs and classical.rs): the two recursive
  matchers on bytes, the quick checks of the \<open>Intersector<&keyexpr, &keyexpr>\<close> instance and
  \<open>keyexpr::intersects\<close>.  A slice out of range is a panic, the value \<^term>\<open>None\<close>.  The
  algorithms are first refined to functions on chunk lists and those are shown to decide whether
  two key expressions have a key in common.
\<close>

section \<open>Model\<close>

text \<open>Rust's lazy \<open>||\<close> over computations that may panic.\<close>

definition lazy_or :: "bool option \<Rightarrow> bool option \<Rightarrow> bool option" where
  "lazy_or a b = (case a of None \<Rightarrow> None | Some x \<Rightarrow> if x then Some True else b)"

text \<open>The slice \<open>&advanced[1..]\<close> of an empty slice is the only panic of this function.\<close>

fun star_dsl_intersect :: "string \<Rightarrow> string \<Rightarrow> bool option" where
  "star_dsl_intersect (current1 # advanced1) (current2 # advanced2) =
     (if current1 = CHR ''$'' \<and> current2 = CHR ''$'' then
        (if length advanced1 = 1 \<or> length advanced2 = 1 then Some True
         else (case advanced1 of
                 [] \<Rightarrow> None
               | _ # r1 \<Rightarrow>
                   lazy_or (star_dsl_intersect r1 (current2 # advanced2))
                     (case advanced2 of
                        [] \<Rightarrow> None
                      | _ # r2 \<Rightarrow> star_dsl_intersect (current1 # advanced1) r2)))
      else if current1 = CHR ''$'' then
        (if length advanced1 = 1 then Some True
         else (case advanced1 of
                 [] \<Rightarrow> None
               | _ # r1 \<Rightarrow>
                   lazy_or (star_dsl_intersect r1 (current2 # advanced2))
                     (star_dsl_intersect (current1 # advanced1) advanced2)))
      else if current2 = CHR ''$'' then
        (if length advanced2 = 1 then Some True
         else (case advanced2 of
                 [] \<Rightarrow> None
               | _ # r2 \<Rightarrow>
                   lazy_or (star_dsl_intersect (current1 # advanced1) r2)
                     (star_dsl_intersect advanced1 (current2 # advanced2))))
      else if current1 = current2 then star_dsl_intersect advanced1 advanced2
      else Some False)"
| "star_dsl_intersect it1 it2 = Some (it1 = [] \<and> it2 = [] \<or> it1 = ''$*'' \<or> it2 = ''$*'')"

declare star_dsl_intersect.simps [simp del]

definition chunk_it_intersect :: "bool \<Rightarrow> string \<Rightarrow> string \<Rightarrow> bool option" where
  "chunk_it_intersect star_dsl it1 it2 =
     (if it1 = ''*'' \<or> it2 = ''*'' then Some True
      else if star_dsl then star_dsl_intersect it1 it2 else Some False)"

definition chunk_intersect :: "bool \<Rightarrow> string \<Rightarrow> string \<Rightarrow> bool option" where
  "chunk_intersect star_dsl c1 c2 =
     (if c1 = c2 then Some True
      else if has_direct_verbatim c1 \<or> has_direct_verbatim c2 then Some False
      else chunk_it_intersect star_dsl c1 c2)"

definition next_chunk :: "string \<Rightarrow> string \<times> string" where
  "next_chunk s =
     (case position (\<lambda>c. c = CHR ''/'') s of
        Some i \<Rightarrow> (take i s, drop (i + 1) s)
      | None \<Rightarrow> (s, []))"

lemma next_chunk_shrinks: "s \<noteq> [] \<Longrightarrow> length (snd (next_chunk s)) < length s"
  by (auto simp: next_chunk_def split: option.splits)

function it_intersect :: "bool \<Rightarrow> string \<Rightarrow> string \<Rightarrow> bool option" where
  "it_intersect star_dsl it1 it2 =
     (if it1 \<noteq> [] \<and> it2 \<noteq> [] then
        (let current1 = fst (next_chunk it1); advanced1 = snd (next_chunk it1);
             current2 = fst (next_chunk it2); advanced2 = snd (next_chunk it2) in
         if current1 = ''**'' then
           (if advanced1 = [] then Some (\<not> has_verbatim it2)
            else lazy_or
              (if \<not> has_direct_verbatim current2 then it_intersect star_dsl it1 advanced2
               else Some False)
              (it_intersect star_dsl advanced1 it2))
         else if current2 = ''**'' then
           (if advanced2 = [] then Some (\<not> has_verbatim it1)
            else lazy_or
              (if \<not> has_direct_verbatim current1 then it_intersect star_dsl advanced1 it2
               else Some False)
              (it_intersect star_dsl it1 advanced2))
         else
           (case chunk_intersect star_dsl current1 current2 of
              None \<Rightarrow> None
            | Some b \<Rightarrow> if b then it_intersect star_dsl advanced1 advanced2 else Some False))
      else Some ((it1 = [] \<or> it1 = ''**'') \<and> (it2 = [] \<or> it2 = ''**'')))"
  by pat_completeness auto
termination
  by (relation "measure (\<lambda>(s, a, b). length a + length b)")
    (auto simp: next_chunk_shrinks add_less_mono)

declare it_intersect.simps [simp del]

datatype MatchComplexity = NoWilds | ChunkWildsOnly | Dsl

text \<open>The loop over the bytes; \<open>w\<close> is the variable \<open>has_wilds\<close>.\<close>

fun match_complexity_from :: "bool \<Rightarrow> string \<Rightarrow> MatchComplexity" where
  "match_complexity_from w [] = (if w then ChunkWildsOnly else NoWilds)"
| "match_complexity_from w (c # s) =
     (if c = CHR ''*'' then match_complexity_from True s
      else if c = CHR ''$'' then Dsl else match_complexity_from w s)"

definition match_complexity :: "string \<Rightarrow> MatchComplexity" where
  "match_complexity s = match_complexity_from False s"

fun complexity_u8 :: "MatchComplexity \<Rightarrow> u8" where
  "complexity_u8 NoWilds = 0"
| "complexity_u8 ChunkWildsOnly = 1"
| "complexity_u8 Dsl = 2"

definition intersects :: "string \<Rightarrow> string \<Rightarrow> bool option" where
  "intersects left right =
     (if left = right then Some True
      else (let m = or (complexity_u8 (match_complexity left)) (complexity_u8 (match_complexity right))
            in if m = 0 then Some False
               else if m = 1 then it_intersect False left right
               else it_intersect True left right))"

section \<open>Inside a chunk\<close>

definition dsl_inter :: "string \<Rightarrow> string \<Rightarrow> bool" where
  "dsl_inter p q \<longleftrightarrow> (\<exists>k. list_all key_char k \<and> dsl_match p k \<and> dsl_match q k)"

lemma dsl_inter_sym: "dsl_inter p q \<longleftrightarrow> dsl_inter q p"
  by (auto simp: dsl_inter_def)

lemma dsl_ok_dollar:
  assumes "dsl_ok (CHR ''$'' # p)"
  obtains r where "p = CHR ''*'' # r" "dsl_ok r" "r = [] \<or> hd r \<noteq> CHR ''$''"
  using assms by (cases p) auto

lemma dsl_ok_lit:
  "c \<noteq> CHR ''$'' \<Longrightarrow> dsl_ok (c # p) \<longleftrightarrow> key_char c \<and> dsl_ok p"
  by (auto simp: key_char_def)

lemma dsl_sat: "dsl_ok p \<Longrightarrow> \<exists>k. list_all key_char k \<and> dsl_match p k"
proof (induction p rule: length_induct)
  case (1 p)
  show ?case
  proof (cases p)
    case (Cons c s)
    show ?thesis
    proof (cases "c = CHR ''$''")
      case True
      with "1.prems" Cons obtain r where r: "s = CHR ''*'' # r" "dsl_ok r"
        using dsl_ok_dollar by blast
      with "1.IH" Cons obtain k where "list_all key_char k" "dsl_match r k"
        by (metis length_Cons less_Suc_eq)
      then show ?thesis using dsl_match_skip [of r k "CHR ''*''" "[]"] Cons True r by auto
    next
      case False
      with "1.prems" Cons have "key_char c" "dsl_ok s"
        using dsl_ok_lit [of c s] by blast+
      with "1.IH" Cons obtain k where "list_all key_char k" "dsl_match s k" by auto
      with \<open>key_char c\<close> False Cons show ?thesis
        by (intro exI [of _ "c # k"]) (simp add: dsl_match_lit)
    qed
  qed auto
qed

lemma dsl_inter_star_star:
  "dsl_inter (CHR ''$'' # CHR ''*'' # p) (CHR ''$'' # CHR ''*'' # q) \<longleftrightarrow>
     dsl_inter p (CHR ''$'' # CHR ''*'' # q) \<or> dsl_inter (CHR ''$'' # CHR ''*'' # p) q"
  (is "?L \<longleftrightarrow> ?R")
proof
  assume ?L
  then obtain k where k: "list_all key_char k" "dsl_match (CHR ''$'' # CHR ''*'' # p) k"
      "dsl_match (CHR ''$'' # CHR ''*'' # q) k"
    by (auto simp: dsl_inter_def)
  then obtain u v u' v' where uv: "k = u @ v" "dsl_match p v" "k = u' @ v'" "dsl_match q v'"
    unfolding dsl_match_star_iff by blast
  have kc: "list_all key_char v" "list_all key_char v'"
    using k(1) uv(1) uv(3) by (metis list_all_append)+
  from uv consider w where "u' = u @ w" "v = w @ v'" | w where "u = u' @ w" "v' = w @ v"
    by (auto simp: append_eq_append_conv2)
  then show ?R
  proof cases
    case 1
    then have "dsl_match (CHR ''$'' # CHR ''*'' # q) v" using uv dsl_match_star_iff by blast
    with uv kc show ?thesis unfolding dsl_inter_def by blast
  next
    case 2
    then have "dsl_match (CHR ''$'' # CHR ''*'' # p) v'" using uv dsl_match_star_iff by blast
    with uv kc show ?thesis unfolding dsl_inter_def by blast
  qed
next
  assume ?R
  then show ?L
    unfolding dsl_inter_def by (metis append_Nil dsl_match_skip)
qed

lemma dsl_inter_star_lit:
  assumes "d \<noteq> CHR ''$''" "key_char d"
  shows "dsl_inter (CHR ''$'' # CHR ''*'' # p) (d # q) \<longleftrightarrow>
     dsl_inter p (d # q) \<or> dsl_inter (CHR ''$'' # CHR ''*'' # p) q"
  (is "?L \<longleftrightarrow> ?R")
proof
  assume ?L
  then obtain k where k: "list_all key_char (d # k)"
      "dsl_match (CHR ''$'' # CHR ''*'' # p) (d # k)" "dsl_match q k"
    unfolding dsl_inter_def dsl_match_lit [OF assms(1)] by blast
  then consider "dsl_match p (d # k)" | "dsl_match (CHR ''$'' # CHR ''*'' # p) k"
    by auto
  then show ?R
  proof cases
    case 1
    with k have "dsl_inter p (d # q)"
      unfolding dsl_inter_def dsl_match_lit [OF assms(1)] by blast
    then show ?thesis ..
  next
    case 2
    with k have "dsl_inter (CHR ''$'' # CHR ''*'' # p) q"
      unfolding dsl_inter_def by (metis list.pred_inject(2))
    then show ?thesis ..
  qed
next
  assume ?R
  then consider k where "list_all key_char k" "dsl_match p k" "dsl_match (d # q) k"
    | k where "list_all key_char k" "dsl_match (CHR ''$'' # CHR ''*'' # p) k" "dsl_match q k"
    unfolding dsl_inter_def by blast
  then show ?L
  proof cases
    case 1
    then show ?thesis using dsl_match_skip [of p k "CHR ''*''" "[]"]
      unfolding dsl_inter_def by auto
  next
    case 2
    then show ?thesis using assms unfolding dsl_inter_def
      by (intro exI [of _ "d # k"]) (simp add: dsl_match_lit)
  qed
qed

lemma dsl_inter_star_any: "dsl_ok q \<Longrightarrow> dsl_inter ''$*'' q"
  using dsl_sat [of q] unfolding dsl_inter_def
  by (metis append_Nil2 dsl_match.simps(1) dsl_match_skip)

lemma dsl_inter_Nil_lit: "c \<noteq> CHR ''$'' \<Longrightarrow> \<not> dsl_inter [] (c # q)"
  by (simp add: dsl_inter_def)

lemma dsl_inter_Nil:
  assumes "dsl_ok q"
  shows "dsl_inter [] q \<longleftrightarrow> q = [] \<or> q = ''$*''"
proof (cases q)
  case Nil
  then show ?thesis by (simp add: dsl_inter_def)
next
  case (Cons c s)
  show ?thesis
  proof (cases "c = CHR ''$''")
    case True
    with assms Cons obtain r where r: "s = CHR ''*'' # r" "r = [] \<or> hd r \<noteq> CHR ''$''"
      using dsl_ok_dollar by blast
    show ?thesis
    proof (cases r)
      case Nil
      with True Cons r show ?thesis by (simp add: dsl_inter_def)
    next
      case (Cons d t)
      with True r \<open>q = c # s\<close> show ?thesis by (simp add: dsl_inter_def)
    qed
  next
    case False
    with Cons show ?thesis by (simp add: dsl_inter_Nil_lit)
  qed
qed

lemma dsl_inter_Nil_right: "dsl_ok q \<Longrightarrow> dsl_inter q [] \<longleftrightarrow> q = [] \<or> q = ''$*''"
  using dsl_inter_Nil [of q] dsl_inter_sym [of q "[]"] by simp

lemma lazy_or_Some [simp]: "lazy_or (Some a) (Some b) = Some (a \<or> b)"
  by (simp add: lazy_or_def)

text \<open>The three cases with a \<open>$*\<close>, from what the recursive calls give.\<close>

lemma star_dsl_both:
  assumes ok: "dsl_ok (CHR ''$'' # CHR ''*'' # r1)" "dsl_ok (CHR ''$'' # CHR ''*'' # r2)"
    and "r1 \<noteq> [] \<Longrightarrow> r2 \<noteq> [] \<Longrightarrow> star_dsl_intersect r1 (CHR ''$'' # CHR ''*'' # r2) = Some (dsl_inter r1 (CHR ''$'' # CHR ''*'' # r2))"
    and "r1 \<noteq> [] \<Longrightarrow> r2 \<noteq> [] \<Longrightarrow> star_dsl_intersect (CHR ''$'' # CHR ''*'' # r1) r2 = Some (dsl_inter (CHR ''$'' # CHR ''*'' # r1) r2)"
  shows "star_dsl_intersect (CHR ''$'' # CHR ''*'' # r1) (CHR ''$'' # CHR ''*'' # r2) =
    Some (dsl_inter (CHR ''$'' # CHR ''*'' # r1) (CHR ''$'' # CHR ''*'' # r2))"
proof (cases "r1 = [] \<or> r2 = []")
  case True
  then have "dsl_inter (CHR ''$'' # CHR ''*'' # r1) (CHR ''$'' # CHR ''*'' # r2)" using dsl_inter_star_any ok dsl_inter_sym by metis
  with True show ?thesis by (auto simp: star_dsl_intersect.simps(1))
next
  case False
  with assms(3,4) show ?thesis by (simp add: star_dsl_intersect.simps(1) dsl_inter_star_star)
qed

lemma star_dsl_left:
  assumes ok: "dsl_ok (CHR ''$'' # CHR ''*'' # r1)" "dsl_ok (c2 # a2)" and c2: "c2 \<noteq> CHR ''$''"
    and "r1 \<noteq> [] \<Longrightarrow> star_dsl_intersect r1 (c2 # a2) = Some (dsl_inter r1 (c2 # a2))"
    and "r1 \<noteq> [] \<Longrightarrow> star_dsl_intersect (CHR ''$'' # CHR ''*'' # r1) a2 = Some (dsl_inter (CHR ''$'' # CHR ''*'' # r1) a2)"
  shows "star_dsl_intersect (CHR ''$'' # CHR ''*'' # r1) (c2 # a2) = Some (dsl_inter (CHR ''$'' # CHR ''*'' # r1) (c2 # a2))"
proof (cases "r1 = []")
  case True
  then have "dsl_inter (CHR ''$'' # CHR ''*'' # r1) (c2 # a2)" using dsl_inter_star_any ok by metis
  with True c2 show ?thesis by (auto simp: star_dsl_intersect.simps(1))
next
  case False
  have "key_char c2" using ok(2) c2 dsl_ok_lit by blast
  with False assms(4,5) c2 show ?thesis by (simp add: star_dsl_intersect.simps(1) dsl_inter_star_lit)
qed

lemma star_dsl_right:
  assumes ok: "dsl_ok (c1 # a1)" "dsl_ok (CHR ''$'' # CHR ''*'' # r2)" and c1: "c1 \<noteq> CHR ''$''"
    and "r2 \<noteq> [] \<Longrightarrow> star_dsl_intersect (c1 # a1) r2 = Some (dsl_inter (c1 # a1) r2)"
    and "r2 \<noteq> [] \<Longrightarrow> star_dsl_intersect a1 (CHR ''$'' # CHR ''*'' # r2) = Some (dsl_inter a1 (CHR ''$'' # CHR ''*'' # r2))"
  shows "star_dsl_intersect (c1 # a1) (CHR ''$'' # CHR ''*'' # r2) = Some (dsl_inter (c1 # a1) (CHR ''$'' # CHR ''*'' # r2))"
proof (cases "r2 = []")
  case True
  then have "dsl_inter (c1 # a1) (CHR ''$'' # CHR ''*'' # r2)" using dsl_inter_star_any ok dsl_inter_sym by metis
  with True c1 show ?thesis by (auto simp: star_dsl_intersect.simps(1))
next
  case False
  have "key_char c1" using ok(1) c1 dsl_ok_lit by blast
  then have "dsl_inter (c1 # a1) (CHR ''$'' # CHR ''*'' # r2) \<longleftrightarrow> dsl_inter (c1 # a1) r2 \<or> dsl_inter a1 (CHR ''$'' # CHR ''*'' # r2)"
    using dsl_inter_star_lit [OF c1, of r2 a1] dsl_inter_sym by metis
  with False assms(4,5) c1 show ?thesis by (simp add: star_dsl_intersect.simps(1))
qed

lemma star_dsl_intersect_correct:
  "dsl_ok p \<Longrightarrow> dsl_ok q \<Longrightarrow> star_dsl_intersect p q = Some (dsl_inter p q)"
proof (induction p q rule: star_dsl_intersect.induct)
  case (1 c1 a1 c2 a2)
  have d1: "\<exists>r1. a1 = CHR ''*'' # r1 \<and> dsl_ok r1" if "c1 = CHR ''$''" using "1.prems"(1) that dsl_ok_dollar by blast
  have d2: "\<exists>r2. a2 = CHR ''*'' # r2 \<and> dsl_ok r2" if "c2 = CHR ''$''" using "1.prems"(2) that dsl_ok_dollar by blast
  have l1: "key_char c1 \<and> dsl_ok a1" if "c1 \<noteq> CHR ''$''" using "1.prems"(1) that dsl_ok_lit by blast
  have l2: "key_char c2 \<and> dsl_ok a2" if "c2 \<noteq> CHR ''$''" using "1.prems"(2) that dsl_ok_lit by blast
  consider (dd) r1 r2 where "c1 = CHR ''$''" "a1 = CHR ''*'' # r1" "dsl_ok r1" "c2 = CHR ''$''" "a2 = CHR ''*'' # r2" "dsl_ok r2"
    | (dl) r1 where "c1 = CHR ''$''" "a1 = CHR ''*'' # r1" "dsl_ok r1" "c2 \<noteq> CHR ''$''"
    | (ld) r2 where "c1 \<noteq> CHR ''$''" "c2 = CHR ''$''" "a2 = CHR ''*'' # r2" "dsl_ok r2"
    | (ll) "c1 \<noteq> CHR ''$''" "c2 \<noteq> CHR ''$''" using d1 d2 by blast
  then show ?case
  proof cases
    case dd
    show ?thesis unfolding dd(1,2,4,5) by (rule star_dsl_both) (use "1.IH"(1,2) "1.prems" dd in simp_all)
  next
    case dl
    show ?thesis unfolding dl(1,2) by (rule star_dsl_left) (use "1.IH"(3,4) "1.prems" dl l2 in simp_all)
  next
    case ld
    show ?thesis unfolding ld(2,3) by (rule star_dsl_right) (use "1.IH"(5,6) "1.prems" ld l1 in simp_all)
  next
    case ll
    have "dsl_inter (c1 # a1) (c2 # a2) \<longleftrightarrow> c1 = c2 \<and> dsl_inter a1 a2"
      using l1 [OF ll(1)] unfolding dsl_inter_def dsl_match_lit [OF ll(1)] dsl_match_lit [OF ll(2)]
      by (metis list.inject list.pred_inject(2))
    then show ?thesis using ll "1.IH"(7) l1 l2 by (simp add: star_dsl_intersect.simps(1))
  qed
qed (simp_all add: star_dsl_intersect.simps dsl_inter_Nil dsl_inter_Nil_right)

section \<open>Chunks\<close>

definition chunk_inter :: "string \<Rightarrow> string \<Rightarrow> bool" where
  "chunk_inter c d \<longleftrightarrow> (\<exists>k. key_chunk k \<and> chunk_match c k \<and> chunk_match d k)"

text \<open>Patterns other than \<open>**\<close> whose verbatim form is literal.\<close>

definition pat :: "string \<Rightarrow> bool" where
  "pat c \<longleftrightarrow> chunk_ok c \<and> c \<noteq> ''**'' \<and> (has_direct_verbatim c \<longrightarrow> CHR ''*'' \<notin> set c)"

lemma dsl_ok_nostar_key: "dsl_ok c \<Longrightarrow> CHR ''*'' \<notin> set c \<Longrightarrow> list_all key_char c"
proof (induction c)
  case (Cons d c)
  then have "d \<noteq> CHR ''$''" using dsl_ok_dollar [of c] by fastforce
  with Cons show ?case using dsl_ok_lit [of d c] by simp
qed simp

lemma dsl_match_nonempty:
  assumes "dsl_ok p" "p \<noteq> []" "p \<noteq> ''$*''" "dsl_match p k"
  shows "k \<noteq> []"
proof
  assume "k = []"
  with assms(4) have "dsl_inter [] p" by (auto simp: dsl_inter_def)
  with assms show False by (simp add: dsl_inter_Nil)
qed

text \<open>A common match of two patterns that are not verbatim can be chosen not verbatim.\<close>

lemma dsl_match_prepend:
  assumes "dsl_match p (CHR ''@'' # k)" "\<not> has_direct_verbatim p" "dsl_ok p"
  shows "dsl_match p (CHR ''x'' # CHR ''@'' # k)"
proof (cases p)
  case (Cons c s)
  have c: "c = CHR ''$''"
  proof (rule ccontr)
    assume "c \<noteq> CHR ''$''"
    with assms(1) Cons have "c = CHR ''@''" by (simp add: dsl_match_lit)
    with assms(2) Cons show False by simp
  qed
  show ?thesis using assms(1) unfolding Cons c by (subst dsl_match.simps(3)) (simp del: dsl_match.simps)
qed (use assms in simp)

lemma dsl_inter_witness:
  assumes "dsl_inter p q" "dsl_ok p" "dsl_ok q" "p \<noteq> []" "p \<noteq> ''$*''"
    "\<not> has_direct_verbatim p" "\<not> has_direct_verbatim q"
  obtains k where "key_chunk k" "\<not> has_direct_verbatim k" "dsl_match p k" "dsl_match q k"
proof -
  from assms(1) obtain k where k: "list_all key_char k" "dsl_match p k" "dsl_match q k"
    by (auto simp: dsl_inter_def)
  have ne: "k \<noteq> []" using dsl_match_nonempty assms k(2) by blast
  show ?thesis
  proof (cases "has_direct_verbatim k")
    case False
    with k ne show ?thesis using that by (simp add: key_chunk_def)
  next
    case True
    then obtain k' where k': "k = CHR ''@'' # k'" using ne by (cases k) auto
    have "key_char (CHR ''x'')" by (simp add: key_char_def)
    with k k' assms show ?thesis
      by (intro that [of "CHR ''x'' # k"]) (auto simp: key_chunk_def dsl_match_prepend)
  qed
qed

lemma pat_cases:
  assumes "pat c"
  obtains (verbatim) "has_direct_verbatim c" "key_chunk c"
    | (wild) "c = ''*''"
    | (dsl) "\<not> has_direct_verbatim c" "c \<noteq> []" "c \<noteq> ''$*''" "c \<noteq> ''*''" "dsl_ok c"
proof -
  have ok: "chunk_ok c" "c \<noteq> ''**''" and v: "has_direct_verbatim c \<Longrightarrow> CHR ''*'' \<notin> set c"
    using assms by (auto simp: pat_def)
  from ok(1) show ?thesis
  proof (cases rule: chunk_ok_cases)
    case 1
    then show ?thesis using wild by simp
  next
    case 2
    with ok show ?thesis by simp
  next
    case 3
    show ?thesis
    proof (cases "has_direct_verbatim c")
      case True
      then have "key_chunk c" using 3 v dsl_ok_nostar_key by (simp add: key_chunk_def)
      with True show ?thesis by (rule verbatim)
    next
      case False
      have "c \<noteq> ''*''" using 3(3) by auto
      with False 3 show ?thesis using dsl by simp
    qed
  qed
qed

lemma key_chunk_x: "key_chunk ''x''" "\<not> has_direct_verbatim ''x''"
  by (simp_all add: key_chunk_def key_char_def)

lemma chunk_match_nonverbatim:
  "\<not> has_direct_verbatim p \<Longrightarrow> \<not> has_direct_verbatim k \<Longrightarrow>
   chunk_match p k \<longleftrightarrow> p = ''*'' \<or> dsl_match p k"
  by (simp add: chunk_match_def)

lemma chunk_match_verbatim:
  "has_direct_verbatim p \<or> has_direct_verbatim k \<Longrightarrow> chunk_match p k \<longleftrightarrow> p = k"
  by (simp add: chunk_match_def)

lemma pat_sat:
  assumes "pat c"
  obtains k where "key_chunk k" "chunk_match c k" "has_direct_verbatim k \<longleftrightarrow> has_direct_verbatim c"
  using assms
proof (cases c rule: pat_cases)
  case verbatim
  then show ?thesis using that [of c] by (simp add: chunk_match_verbatim)
next
  case wild
  then show ?thesis using that [of "''x''"] key_chunk_x by (simp add: chunk_match_nonverbatim)
next
  case dsl
  have "dsl_inter c c" using dsl_sat [OF dsl(5)] by (auto simp: dsl_inter_def)
  then obtain k where "key_chunk k" "\<not> has_direct_verbatim k" "dsl_match c k"
    using dsl dsl_inter_witness [of c c] by metis
  then show ?thesis using that [of k] dsl by (simp add: chunk_match_nonverbatim)
qed

lemma chunk_inter_self: "pat c \<Longrightarrow> chunk_inter c c"
  by (metis chunk_inter_def pat_sat)

lemma chunk_inter_wild:
  assumes "pat c" "\<not> has_direct_verbatim c"
  shows "chunk_inter c ''*''"
proof -
  obtain k where k: "key_chunk k" "chunk_match c k" "\<not> has_direct_verbatim k"
    using pat_sat [OF assms(1)] assms(2) by blast
  then have "chunk_match ''*'' k" by (simp add: chunk_match_def)
  with k show ?thesis by (auto simp: chunk_inter_def)
qed

lemma chunk_inter_sym: "chunk_inter c d \<longleftrightarrow> chunk_inter d c"
  by (auto simp: chunk_inter_def)

lemma chunk_inter_verbatim:
  "has_direct_verbatim c \<Longrightarrow> chunk_inter c d \<Longrightarrow> c = d"
  by (auto simp: chunk_inter_def chunk_match_def split: if_splits)

lemma chunk_inter_dsl:
  assumes "dsl_ok c" "dsl_ok d" "c \<noteq> []" "c \<noteq> ''$*''" "c \<noteq> ''*''" "d \<noteq> ''*''"
    "\<not> has_direct_verbatim c" "\<not> has_direct_verbatim d"
  shows "chunk_inter c d \<longleftrightarrow> dsl_inter c d"
proof
  assume "chunk_inter c d"
  then show "dsl_inter c d" using assms
    by (auto simp: chunk_inter_def dsl_inter_def chunk_match_def key_chunk_def split: if_splits)
next
  assume "dsl_inter c d"
  then obtain k where "key_chunk k" "\<not> has_direct_verbatim k" "dsl_match c k" "dsl_match d k"
    using assms dsl_inter_witness by metis
  with assms show "chunk_inter c d" by (auto simp: chunk_inter_def chunk_match_nonverbatim)
qed

lemma dsl_inter_literal:
  "CHR ''$'' \<notin> set c \<Longrightarrow> CHR ''$'' \<notin> set d \<Longrightarrow> dsl_inter c d \<Longrightarrow> c = d"
  by (simp add: dsl_inter_def dsl_match_self)

lemma chunk_intersect_correct:
  assumes "pat c" "pat d" "star_dsl \<or> (CHR ''$'' \<notin> set c \<and> CHR ''$'' \<notin> set d)"
  shows "chunk_intersect star_dsl c d = Some (chunk_inter c d)"
proof (cases "c = d \<or> has_direct_verbatim c \<or> has_direct_verbatim d \<or> c = ''*'' \<or> d = ''*''")
  case True
  then show ?thesis
    using chunk_inter_verbatim [of c d] chunk_inter_verbatim [of d c] chunk_inter_sym [of c d]
      chunk_inter_self [OF assms(1)] chunk_inter_wild [OF assms(1)] chunk_inter_wild [OF assms(2)]
    by (auto simp: chunk_intersect_def chunk_it_intersect_def)
next
  case False
  have c: "dsl_ok c" "c \<noteq> []" "c \<noteq> ''$*''" using assms(1) False by (auto elim: pat_cases)
  have d: "dsl_ok d" using assms(2) False by (auto elim: pat_cases)
  have eq: "chunk_inter c d \<longleftrightarrow> dsl_inter c d" using False c d by (intro chunk_inter_dsl) auto
  show ?thesis
  proof (cases star_dsl)
    case True
    with False eq show ?thesis
      by (simp add: chunk_intersect_def chunk_it_intersect_def star_dsl_intersect_correct c d)
  next
    case star: False
    then have "\<not> dsl_inter c d" using dsl_inter_literal assms(3) False by blast
    with False eq star show ?thesis
      by (simp add: chunk_intersect_def chunk_it_intersect_def)
  qed
qed

section \<open>Chunk lists\<close>

text \<open>The matcher of \<^const>\<open>it_intersect\<close> on chunk lists.\<close>

fun list_intersect :: "bool \<Rightarrow> string list \<Rightarrow> string list \<Rightarrow> bool option" where
  "list_intersect star_dsl (a # as) (b # bs) =
     (if a = ''**'' then
        (if as = [] then Some (\<not> list_ex has_direct_verbatim (b # bs))
         else lazy_or
           (if \<not> has_direct_verbatim b then list_intersect star_dsl (a # as) bs else Some False)
           (list_intersect star_dsl as (b # bs)))
      else if b = ''**'' then
        (if bs = [] then Some (\<not> list_ex has_direct_verbatim (a # as))
         else lazy_or
           (if \<not> has_direct_verbatim a then list_intersect star_dsl as (b # bs) else Some False)
           (list_intersect star_dsl (a # as) bs))
      else
        (case chunk_intersect star_dsl a b of
           None \<Rightarrow> None
         | Some r \<Rightarrow> if r then list_intersect star_dsl as bs else Some False))"
| "list_intersect star_dsl as bs =
     Some ((as = [] \<or> as = [''**'']) \<and> (bs = [] \<or> bs = [''**'']))"

declare list_intersect.simps [simp del]

lemma next_chunk_split_once: "next_chunk s = split_once (CHR ''/'') s"
  by (simp add: next_chunk_def split_once_def)

lemma join_eq_double_wild:
  assumes "list_all plain_chunk cs"
  shows "join_chunks cs = [] \<or> join_chunks cs = ''**'' \<longleftrightarrow> cs = [] \<or> cs = [''**'']"
proof (cases cs)
  case (Cons c ds)
  have "join_chunks cs = ''**'' \<Longrightarrow> split_on (CHR ''/'') (join_chunks cs) = [''**'']" by simp
  moreover have "split_on (CHR ''/'') (join_chunks cs) = cs"
    using assms Cons by (intro split_on_join) (auto simp: list_all_iff plain_chunk_def)
  ultimately show ?thesis using assms by (auto simp: join_chunks_Nil_iff)
qed simp

lemma it_intersect_list:
  assumes "list_all plain_chunk as" "list_all plain_chunk bs"
  shows "it_intersect star_dsl (join_chunks as) (join_chunks bs) = list_intersect star_dsl as bs"
  using assms
proof (induction star_dsl as bs rule: list_intersect.induct)
  case (1 star_dsl a as b bs)
  have pa: "plain_chunk a" "list_all plain_chunk as" and pb: "plain_chunk b" "list_all plain_chunk bs"
    using "1.prems" by auto
  have ne: "join_chunks (a # as) \<noteq> []" "join_chunks (b # bs) \<noteq> []"
    "join_chunks as = [] \<longleftrightarrow> as = []" "join_chunks bs = [] \<longleftrightarrow> bs = []"
    using pa pb by (simp_all add: join_chunks_Nil_iff del: join_chunks.simps)
  have v: "has_verbatim (join_chunks (a # as)) = list_ex has_direct_verbatim (a # as)"
    "has_verbatim (join_chunks (b # bs)) = list_ex has_direct_verbatim (b # bs)"
    using pa pb by (simp_all add: has_verbatim_join del: join_chunks.simps)
  have unf: "it_intersect star_dsl (join_chunks (a # as)) (join_chunks (b # bs)) =
      (if a = ''**'' then
         (if as = [] then Some (\<not> list_ex has_direct_verbatim (b # bs))
          else lazy_or
            (if \<not> has_direct_verbatim b
             then it_intersect star_dsl (join_chunks (a # as)) (join_chunks bs) else Some False)
            (it_intersect star_dsl (join_chunks as) (join_chunks (b # bs))))
       else if b = ''**'' then
         (if bs = [] then Some (\<not> list_ex has_direct_verbatim (a # as))
          else lazy_or
            (if \<not> has_direct_verbatim a
             then it_intersect star_dsl (join_chunks as) (join_chunks (b # bs)) else Some False)
            (it_intersect star_dsl (join_chunks (a # as)) (join_chunks bs)))
       else
         (case chunk_intersect star_dsl a b of
            None \<Rightarrow> None
          | Some r \<Rightarrow>
              if r then it_intersect star_dsl (join_chunks as) (join_chunks bs) else Some False))"
    by (subst it_intersect.simps)
      (simp only: Let_def next_chunk_split_once split_once_join [OF pa(1)] split_once_join [OF pb(1)]
        fst_conv snd_conv ne v simp_thms if_True)
  consider (aw) "a = ''**''" | (bw) "a \<noteq> ''**''" "b = ''**''" | (no) "a \<noteq> ''**''" "b \<noteq> ''**''"
    by blast
  then show ?case
  proof cases
    case aw
    then show ?thesis using unf "1.IH"(1) "1.IH"(2) pa pb
      by (simp add: list_intersect.simps(1) del: join_chunks.simps)
  next
    case bw
    then show ?thesis using unf "1.IH"(3) "1.IH"(4) pa pb
      by (simp add: list_intersect.simps(1) del: join_chunks.simps)
  next
    case no
    then show ?thesis using unf "1.IH"(5) pa pb
      by (simp add: list_intersect.simps(1) del: join_chunks.simps split: option.split)
  qed
next
  case "2_1"
  then show ?case
    by (simp add: it_intersect.simps list_intersect.simps join_eq_double_wild)
next
  case "2_2"
  then show ?case
    by (simp add: it_intersect.simps list_intersect.simps join_eq_double_wild)
qed

section \<open>The matcher decides a common key\<close>

definition list_inter :: "string list \<Rightarrow> string list \<Rightarrow> bool" where
  "list_inter as bs \<longleftrightarrow> (\<exists>ks. list_all key_chunk ks \<and> ke_match as ks \<and> ke_match bs ks)"

definition pats :: "string list \<Rightarrow> bool" where
  "pats as \<longleftrightarrow> list_all (\<lambda>c. c = ''**'' \<or> pat c) as"

lemma pats_Cons [simp]: "pats (a # as) \<longleftrightarrow> (a = ''**'' \<or> pat a) \<and> pats as"
  by (simp add: pats_def)

lemma list_inter_sym: "list_inter as bs \<longleftrightarrow> list_inter bs as"
  by (auto simp: list_inter_def)

lemma ke_match_verbatim:
  "ke_match bs ks \<Longrightarrow> list_ex has_direct_verbatim bs \<Longrightarrow> list_ex has_direct_verbatim ks"
proof (induction bs ks rule: ke_match.induct)
  case (3 p ps k ks)
  then show ?case by (auto simp: chunk_match_def split: if_splits)
qed auto

lemma pats_sat:
  "pats bs \<Longrightarrow> \<exists>ks. list_all key_chunk ks \<and> ke_match bs ks \<and>
     (\<not> list_ex has_direct_verbatim bs \<longrightarrow> list_all (\<lambda>k. \<not> has_direct_verbatim k) ks)"
proof (induction bs)
  case Nil
  then show ?case by (intro exI [of _ "[]"]) simp
next
  case (Cons b bs)
  then obtain ks where ks: "list_all key_chunk ks" "ke_match bs ks"
      "\<not> list_ex has_direct_verbatim bs \<longrightarrow> list_all (\<lambda>k. \<not> has_direct_verbatim k) ks"
    by auto
  show ?case
  proof (cases "b = ''**''")
    case True
    then have "ke_match (b # bs) ks" using ks(2) ke_match_double_wild [of bs ks] by force
    with ks True show ?thesis by auto
  next
    case False
    then have "pat b" using Cons.prems by simp
    then obtain k where "key_chunk k" "chunk_match b k" "has_direct_verbatim k = has_direct_verbatim b"
      using pat_sat by blast
    with ks False show ?thesis by (intro exI [of _ "k # ks"]) auto
  qed
qed

lemma list_inter_double_wild_last:
  assumes "pats bs"
  shows "list_inter [''**''] bs \<longleftrightarrow> \<not> list_ex has_direct_verbatim bs"
proof
  assume "list_inter [''**''] bs"
  then obtain ks where "list_all (\<lambda>k. \<not> has_direct_verbatim k) ks" "ke_match bs ks"
    by (auto simp: list_inter_def ke_match_only_double_wild)
  then show "\<not> list_ex has_direct_verbatim bs"
    using ke_match_verbatim [of bs ks] by (auto simp: list_all_iff list_ex_iff)
next
  assume "\<not> list_ex has_direct_verbatim bs"
  with pats_sat [OF assms] show "list_inter [''**''] bs"
    by (auto simp: list_inter_def ke_match_only_double_wild)
qed

lemma list_inter_chunk:
  assumes "a \<noteq> ''**''" "b \<noteq> ''**''"
  shows "list_inter (a # as) (b # bs) \<longleftrightarrow> chunk_inter a b \<and> list_inter as bs"
proof
  assume "list_inter (a # as) (b # bs)"
  then obtain k ks where "list_all key_chunk (k # ks)" "ke_match (a # as) (k # ks)" "ke_match (b # bs) (k # ks)"
    using assms unfolding list_inter_def by (metis ke_match_Cons_other)
  then show "chunk_inter a b \<and> list_inter as bs"
    using assms by (auto simp: list_inter_def chunk_inter_def)
next
  assume "chunk_inter a b \<and> list_inter as bs"
  then obtain k ks where "key_chunk k" "chunk_match a k" "chunk_match b k"
      "list_all key_chunk ks" "ke_match as ks" "ke_match bs ks"
    by (auto simp: list_inter_def chunk_inter_def)
  with assms show "list_inter (a # as) (b # bs)"
    by (auto simp: list_inter_def intro: exI [of _ "k # ks"])
qed

lemma ke_match_drop: "ke_match ps ks \<Longrightarrow> ke_match (''**'' # ps) ks"
  using ke_match_double_wild [of ps ks] by force

lemma list_inter_double_wild_imp:
  assumes "list_inter (''**'' # as) (b # bs)"
  shows "(\<not> has_direct_verbatim b \<and> list_inter (''**'' # as) bs) \<or> list_inter as (b # bs)"
proof -
  from assms obtain ks where ks: "list_all key_chunk ks" "ke_match (''**'' # as) ks" "ke_match (b # bs) ks"
    by (auto simp: list_inter_def)
  then obtain us vs where uv: "ks = us @ vs" "list_all (\<lambda>k. \<not> has_direct_verbatim k) us" "ke_match as vs"
    unfolding ke_match_double_wild by blast
  show ?thesis
  proof (cases "b = ''**''")
    case True
    obtain us' vs' where uv': "ks = us' @ vs'"
        "list_all (\<lambda>k. \<not> has_direct_verbatim k) us'" "ke_match bs vs'"
      using ks(3) unfolding True ke_match_double_wild by blast
    have "us @ vs = us' @ vs'" using uv(1) uv'(1) by simp
    then consider w where "us' = us @ w" "vs = w @ vs'" | w where "us = us' @ w" "vs' = w @ vs"
      unfolding append_eq_append_conv2 by metis
    then show ?thesis
    proof cases
      case 1
      then have "ke_match (b # bs) vs" using uv' True unfolding True ke_match_double_wild by auto
      with uv ks show ?thesis by (auto simp: list_inter_def)
    next
      case 2
      then have "ke_match (''**'' # as) vs'" using uv unfolding ke_match_double_wild by auto
      with uv' ks True show ?thesis by (auto simp: list_inter_def)
    qed
  next
    case False
    then obtain k kr where k: "ks = k # kr" "chunk_match b k" "ke_match bs kr"
      using ks(3) ke_match_Cons_other by blast
    show ?thesis
    proof (cases us)
      case Nil
      with uv ks show ?thesis by (auto simp: list_inter_def)
    next
      case (Cons u us')
      with uv k have "\<not> has_direct_verbatim b" "kr = us' @ vs" "list_all (\<lambda>k. \<not> has_direct_verbatim k) us'"
        by (auto simp: chunk_match_def split: if_splits)
      moreover have "ke_match (''**'' # as) kr"
        unfolding ke_match_double_wild using calculation uv by blast
      ultimately show ?thesis using k ks(1) by (auto simp: list_inter_def)
    qed
  qed
qed

lemma list_inter_double_wild:
  assumes "pats (b # bs)"
  shows "list_inter (''**'' # as) (b # bs) \<longleftrightarrow>
    (\<not> has_direct_verbatim b \<and> list_inter (''**'' # as) bs) \<or> list_inter as (b # bs)"
proof
  assume "(\<not> has_direct_verbatim b \<and> list_inter (''**'' # as) bs) \<or> list_inter as (b # bs)"
  then show "list_inter (''**'' # as) (b # bs)"
  proof
    assume v: "\<not> has_direct_verbatim b \<and> list_inter (''**'' # as) bs"
    then obtain ks where ks: "list_all key_chunk ks" "ke_match (''**'' # as) ks" "ke_match bs ks"
      by (auto simp: list_inter_def)
    show ?thesis
    proof (cases "b = ''**''")
      case True
      with ks ke_match_drop [of bs ks] show ?thesis by (auto simp: list_inter_def)
    next
      case False
      then have "pat b" using assms by simp
      then obtain k where "key_chunk k" "chunk_match b k" "\<not> has_direct_verbatim k"
        using pat_sat v by metis
      with ks False show ?thesis by (auto simp: list_inter_def intro!: exI [of _ "k # ks"])
    qed
  next
    assume "list_inter as (b # bs)"
    then show ?thesis using ke_match_drop by (auto simp: list_inter_def)
  qed
qed (rule list_inter_double_wild_imp)

lemma list_inter_Nil:
  assumes "canon_ok bs"
  shows "list_inter [] bs \<longleftrightarrow> bs = [] \<or> bs = [''**'']"
  using assms by (cases bs rule: canon_ok.cases) (auto simp: list_inter_def)

lemma list_inter_Nil_right:
  "pats bs \<Longrightarrow> canon_ok bs \<Longrightarrow> list_inter bs [] \<longleftrightarrow> bs = [] \<or> bs = [''**'']"
  using list_inter_Nil [of bs] list_inter_sym [of bs "[]"] by simp

lemma canon_ok_tl: "canon_ok (a # as) \<Longrightarrow> canon_ok as"
  by (cases as) auto

lemma list_intersect_correct:
  assumes "pats as" "pats bs" "canon_ok as" "canon_ok bs"
    "star_dsl \<or> list_all (\<lambda>c. CHR ''$'' \<notin> set c) (as @ bs)"
  shows "list_intersect star_dsl as bs = Some (list_inter as bs)"
  using assms
proof (induction star_dsl as bs rule: list_intersect.induct)
  case (1 star_dsl a as b bs)
  have can: "canon_ok as" "canon_ok bs" using "1.prems" canon_ok_tl by blast+
  have p: "pats as" "pats bs" using "1.prems" by auto
  consider (aw) "a = ''**''" | (bw) "a \<noteq> ''**''" "b = ''**''" | (no) "a \<noteq> ''**''" "b \<noteq> ''**''"
    by blast
  then show ?case
  proof cases
    case aw
    have "list_inter (a # as) (b # bs) \<longleftrightarrow>
      (if as = [] then \<not> list_ex has_direct_verbatim (b # bs)
       else (\<not> has_direct_verbatim b \<and> list_inter (a # as) bs) \<or> list_inter as (b # bs))"
      using aw "1.prems"(2) list_inter_double_wild_last [of "b # bs"] list_inter_double_wild [of b bs as]
      by metis
    then show ?thesis using aw "1.IH"(1) "1.IH"(2) "1.prems" can p
      by (auto simp: list_intersect.simps(1))
  next
    case bw
    have "list_inter (a # as) (b # bs) \<longleftrightarrow>
      (if bs = [] then \<not> list_ex has_direct_verbatim (a # as)
       else (\<not> has_direct_verbatim a \<and> list_inter as (b # bs)) \<or> list_inter (a # as) bs)"
      using bw "1.prems"(1) list_inter_double_wild_last [of "a # as"] list_inter_double_wild [of a as bs]
        list_inter_sym by metis
    then show ?thesis using bw "1.IH"(3) "1.IH"(4) "1.prems" can p
      by (auto simp: list_intersect.simps(1))
  next
    case no
    then have ab: "pat a" "pat b" using "1.prems" by auto
    have "chunk_intersect star_dsl a b = Some (chunk_inter a b)"
      using ab "1.prems"(5) by (intro chunk_intersect_correct) auto
    then show ?thesis using no "1.IH"(5) "1.prems" can p list_inter_chunk [OF no, of as bs]
      by (auto simp: list_intersect.simps(1))
  qed
next
  case "2_1"
  then show ?case by (simp add: list_intersect.simps list_inter_Nil)
next
  case "2_2"
  then show ?case by (simp add: list_intersect.simps list_inter_Nil_right)
qed

section \<open>Key expressions\<close>

lemma match_complexity_from_cases:
  "match_complexity_from w s =
     (if CHR ''$'' \<in> set s then Dsl
      else if w \<or> CHR ''*'' \<in> set s then ChunkWildsOnly else NoWilds)"
  by (induction w s rule: match_complexity_from.induct) auto

lemma match_complexity_cases:
  "match_complexity s =
     (if CHR ''$'' \<in> set s then Dsl else if CHR ''*'' \<in> set s then ChunkWildsOnly else NoWilds)"
  by (simp add: match_complexity_def match_complexity_from_cases)

lemma complexity_or_0:
  "or (complexity_u8 a) (complexity_u8 b) = 0 \<longleftrightarrow> a = NoWilds \<and> b = NoWilds"
  by (cases a; cases b) simp_all

lemma complexity_or_1:
  "or (complexity_u8 a) (complexity_u8 b) = 1 \<longleftrightarrow>
     (a = ChunkWildsOnly \<or> b = ChunkWildsOnly) \<and> a \<noteq> Dsl \<and> b \<noteq> Dsl"
  by (cases a; cases b) simp_all

lemma set_join_chunks: "c \<in> set cs \<Longrightarrow> set c \<subseteq> set (join_chunks cs)"
  by (induction cs rule: join_chunks.induct) auto

lemma ke_ok_pats:
  assumes "ke_ok cs" "verbatim_literal cs"
  shows "pats cs" "canon_ok cs" "list_all plain_chunk cs"
proof -
  show "pats cs" "canon_ok cs"
    using assms by (auto simp: ke_ok_def verbatim_literal_def pats_def pat_def list_all_iff)
  show "list_all plain_chunk cs"
    using assms by (auto simp: ke_ok_def list_all_iff intro: chunk_ok_plain)
qed

lemma pats_nowild_key:
  assumes "pats cs" "CHR ''*'' \<notin> set (join_chunks cs)"
  shows "list_all key_chunk cs"
  unfolding list_all_iff
proof
  fix c assume c: "c \<in> set cs"
  then have star: "CHR ''*'' \<notin> set c" using assms(2) set_join_chunks by blast
  have "c = ''**'' \<or> pat c" using assms(1) c by (auto simp: pats_def list_all_iff)
  with star have "pat c" by auto
  then show "key_chunk c"
    by (cases c rule: pat_cases) (use star dsl_ok_nostar_key in \<open>auto simp: key_chunk_def\<close>)
qed

lemma chunk_match_key_iff:
  assumes "key_chunk c" "key_chunk k"
  shows "chunk_match c k \<longleftrightarrow> c = k"
proof -
  have "c \<noteq> ''*''" using key_chunkD(3) [OF assms(1)] by auto
  then show ?thesis using assms key_chunkD(4) [OF assms(1)] by (auto simp: chunk_match_def dsl_match_self)
qed

lemma ke_match_key_iff:
  "list_all key_chunk cs \<Longrightarrow> list_all key_chunk ks \<Longrightarrow> ke_match cs ks \<longleftrightarrow> cs = ks"
proof (induction cs ks rule: ke_match.induct)
  case (2 p ps)
  then have "p \<noteq> ''**''" using key_chunkD(3) by fastforce
  then show ?case by simp
next
  case (3 p ps k ks)
  then have "p \<noteq> ''**''" using key_chunkD(3) by fastforce
  with 3 show ?case by (simp add: chunk_match_key_iff)
qed auto

text \<open>The empty key list never makes a difference: two different canonical lists that have
  it in common have a longer one in common too.\<close>

lemma list_inter_is_key:
  assumes "pats as" "pats bs" "canon_ok as" "canon_ok bs" "as \<noteq> []" "bs \<noteq> []"
  shows "list_inter as bs \<longleftrightarrow> (\<exists>ks. is_key ks \<and> ke_match as ks \<and> ke_match bs ks)"
proof
  assume "list_inter as bs"
  then obtain ks where ks: "list_all key_chunk ks" "ke_match as ks" "ke_match bs ks"
    by (auto simp: list_inter_def)
  show "\<exists>ks. is_key ks \<and> ke_match as ks \<and> ke_match bs ks"
  proof (cases "ks = []")
    case False
    with ks show ?thesis by (auto simp: is_key_def)
  next
    case True
    then have "list_inter [] as" "list_inter [] bs"
      using ks by (auto simp: list_inter_def)
    then have "as = [''**'']" "bs = [''**'']" using assms by (simp_all add: list_inter_Nil)
    then show ?thesis using key_chunk_x
      by (intro exI [of _ "[''x'']"]) (simp add: is_key_def)
  qed
qed (auto simp: is_key_def list_inter_def)

lemma intersects_list:
  assumes "ke_ok as" "ke_ok bs" "verbatim_literal as" "verbatim_literal bs"
  shows "intersects (join_chunks as) (join_chunks bs) = Some (list_inter as bs)"
proof -
  note a = ke_ok_pats [OF assms(1) assms(3)] and b = ke_ok_pats [OF assms(2) assms(4)]
  have ne: "as \<noteq> []" "bs \<noteq> []" using assms by (auto simp: ke_ok_def)
  have inj: "as = bs" if "join_chunks as = join_chunks bs"
    using that a b ne split_on_join by (metis list_all_iff plain_chunk_def)
  have self: "list_inter as bs" if "as = bs"
    using pats_sat [OF a(1)] that by (auto simp: list_inter_def)
  have nowild: "\<not> list_inter as bs"
    if "as \<noteq> bs" "CHR ''*'' \<notin> set (join_chunks as)" "CHR ''*'' \<notin> set (join_chunks bs)"
    using that pats_nowild_key [OF a(1)] pats_nowild_key [OF b(1)]
    by (auto simp: list_inter_def ke_match_key_iff)
  have nodsl: "it_intersect False (join_chunks as) (join_chunks bs) = Some (list_inter as bs)"
    if "CHR ''$'' \<notin> set (join_chunks as)" "CHR ''$'' \<notin> set (join_chunks bs)"
    unfolding it_intersect_list [OF a(3) b(3)]
    using that set_join_chunks by (intro list_intersect_correct a b) (auto simp: list_all_iff)
  have dsl: "it_intersect True (join_chunks as) (join_chunks bs) = Some (list_inter as bs)"
    unfolding it_intersect_list [OF a(3) b(3)] by (intro list_intersect_correct a b) auto
  show ?thesis
    using inj self nowild nodsl dsl
    by (auto simp: intersects_def Let_def complexity_or_0 complexity_or_1 match_complexity_cases)
qed

lemma intersects_keys:
  assumes "valid_ke a" "valid_ke b"
    and "verbatim_literal (split_on DELIMITER a)" "verbatim_literal (split_on DELIMITER b)"
  shows "intersects a b = Some (ke_keys a \<inter> ke_keys b \<noteq> {})"
proof -
  obtain as bs where as: "a = join_chunks as" "ke_ok as" "split_on (CHR ''/'') a = as"
    and bs: "b = join_chunks bs" "ke_ok bs" "split_on (CHR ''/'') b = bs"
    using assms valid_keE by metis
  have v: "verbatim_literal as" "verbatim_literal bs" using assms as bs by simp_all
  note pa = ke_ok_pats [OF as(2) v(1)] and pb = ke_ok_pats [OF bs(2) v(2)]
  have "intersects a b = Some (list_inter as bs)"
    unfolding as(1) bs(1) using as bs v by (intro intersects_list)
  also have "list_inter as bs \<longleftrightarrow> (\<exists>ks. is_key ks \<and> ke_match as ks \<and> ke_match bs ks)"
    using as(2) bs(2) by (intro list_inter_is_key pa pb) (auto simp: ke_ok_def)
  finally show ?thesis using as(3) bs(3) by (auto simp: ke_keys_def)
qed

text \<open>(C3) On two valid key expressions whose verbatim chunks are literal (without \<open>$*\<close>: \<open>@a$*\<close> is accepted by the
  constructor and intersects itself, but denotes no key), \<open>intersects\<close> returns, without panicking, whether there is a key that
  both denote.\<close>

theorem intersects_iff_common_key:
  assumes "valid_ke a" "valid_ke b"
    and "verbatim_literal (split_on DELIMITER a)" "verbatim_literal (split_on DELIMITER b)"
  shows "intersects a b = Some (ke_keys a \<inter> ke_keys b \<noteq> {})"
  using assms by (rule intersects_keys)

theorem intersects_iff_common_key_witness:
  "intersects ''a/*/c$*'' ''**/b/cd'' = Some True \<and>
   ke_keys ''a/*/c$*'' \<inter> ke_keys ''**/b/cd'' \<noteq> {}"
proof -
  have "valid_ke ''a/*/c$*''" "valid_ke ''**/b/cd''"
    by (simp_all add: valid_ke_ok ke_ok_def chunk_ok_def)
  moreover have "verbatim_literal (split_on DELIMITER ''a/*/c$*'')"
    "verbatim_literal (split_on DELIMITER ''**/b/cd'')"
    by (simp_all add: verbatim_literal_def)
  moreover have "intersects ''a/*/c$*'' ''**/b/cd'' = Some True" by code_simp
  ultimately show ?thesis using intersects_iff_common_key [of "''a/*/c$*''" "''**/b/cd''"] by simp
qed

end
