(* ===== verification/KeyExpr_Include.thy ===== *)
theory KeyExpr_Include
  imports KeyExpr_Intersect
begin

text \<open>
  Key expression inclusion (key_expr/include.rs, \<open>LTRIncluder\<close>) and \<open>keyexpr::includes\<close>.
  The inclusion test is sound with respect to the denoted sets of keys and exact when the right
  operand is a key; it is not complete in general.
\<close>

section \<open>Model\<close>

text \<open>The remaining pieces of a \<open>Splitter\<close> on \<open>$*\<close>, in the order \<open>next\<close> returns them.\<close>

lemma find_sub_less: "find_sub d s = Some i \<Longrightarrow> i < length s"
  by (induction s arbitrary: i) (auto split: if_splits)

function splitter_pieces :: "string option \<Rightarrow> string list" where
  "splitter_pieces st =
     (case splitter_next STAR_DSL st of
        None \<Rightarrow> []
      | Some (ret, st') \<Rightarrow> ret # splitter_pieces st')"
  by pat_completeness auto
termination
  by (relation "measure (\<lambda>st. case st of None \<Rightarrow> 0 | Some s \<Rightarrow> Suc (length s))")
    (auto simp: splitter_next_def try_split_once_def split: option.splits dest: find_sub_less)

declare splitter_pieces.simps [simp del]

text \<open>The loop over the inner needles; \<open>windows(0)\<close> panics.\<close>

fun needles_in :: "string list \<Rightarrow> string \<Rightarrow> bool option" where
  "needles_in [] rchunk = Some True"
| "needles_in (needle # rest) rchunk =
     (if needle = [] then None
      else (case find_sub needle rchunk of
              Some pos \<Rightarrow> needles_in rest (drop (pos + length needle) rchunk)
            | None \<Rightarrow> Some False))"

definition non_double_wild_chunk_includes :: "string \<Rightarrow> string \<Rightarrow> bool option" where
  "non_double_wild_chunk_includes lchunk rchunk =
     (if lchunk = rchunk then Some True
      else if has_direct_verbatim lchunk \<or> has_direct_verbatim rchunk then Some False
      else if lchunk = ''*'' then Some True
      else if CHR ''$'' \<in> set lchunk then
        (case splitter_next STAR_DSL (Some lchunk) of
           None \<Rightarrow> None
         | Some (first, st1) \<Rightarrow>
             (case strip_prefix_slice rchunk first of
                None \<Rightarrow> Some False
              | Some r1 \<Rightarrow>
                  (case splitter_next_back STAR_DSL st1 of
                     None \<Rightarrow> None
                   | Some (lst, st2) \<Rightarrow>
                       (case strip_suffix_slice r1 lst of
                          None \<Rightarrow> Some False
                        | Some r2 \<Rightarrow> needles_in (splitter_pieces st2) r2))))
      else Some False)"

lemma split_once_Nil [simp]: "split_once d [] = ([], [])"
  by (simp add: split_once_def)

lemma split_once_shrinks: "s \<noteq> [] \<Longrightarrow> length (snd (split_once d s)) < length s"
  by (auto simp: split_once_def split: option.splits)

lemma split_once_le: "length (snd (split_once d s)) \<le> length s"
  by (auto simp: split_once_def split: option.splits)

function includes_bytes :: "string \<Rightarrow> string \<Rightarrow> bool option" where
  "includes_bytes left right =
     (let lchunk = fst (split_once DELIMITER left); lrest = snd (split_once DELIMITER left);
          lempty = (lrest = []) in
      if lchunk = DOUBLE_WILD then
        (if lempty \<and> \<not> has_verbatim right then Some True
         else lazy_or (if \<not> lempty then includes_bytes lrest right else Some False)
           (if has_direct_verbatim right then Some False
            else (let right' = snd (split_once DELIMITER right) in
                  if right' = [] then Some False else includes_bytes left right')))
      else
        (let rchunk = fst (split_once DELIMITER right); rrest = snd (split_once DELIMITER right) in
         if rchunk = [] \<or> rchunk = DOUBLE_WILD then Some False
         else (case non_double_wild_chunk_includes lchunk rchunk of
                 None \<Rightarrow> None
               | Some b \<Rightarrow>
                   if \<not> b then Some False
                   else if lempty then Some (rrest = [])
                   else includes_bytes lrest rrest)))"
  by pat_completeness (erule Pair_inject, simp only:)
termination
proof (relation "measure (\<lambda>(l, r). length l + length r)", goal_cases)
  case 1
  show ?case by simp
next
  case (2 left right lchunk lrest lempty)
  then show ?case using split_once_shrinks [of left "CHR ''/''"]
    by (cases "left = []") (simp_all del: length_0_conv length_greater_0_conv)
next
  case (3 left right lchunk lrest lempty right')
  then show ?case using split_once_shrinks [of right "CHR ''/''"]
    by (cases "right = []") (simp_all del: length_0_conv length_greater_0_conv)
next
  case (4 left right lchunk lrest lempty rchunk rrest b)
  then show ?case
    using split_once_shrinks [of left "CHR ''/''"] split_once_le [of "CHR ''/''" right]
    by (cases "left = []") (simp_all add: add_less_le_mono)
qed

declare includes_bytes.simps [simp del]

definition ke_includes :: "string \<Rightarrow> string \<Rightarrow> bool option" where
  "ke_includes left right = (if left = right then Some True else includes_bytes left right)"

section \<open>Chunk inclusion\<close>

text \<open>Every \<open>$\<close> is followed by a \<open>*\<close>.\<close>

fun dsl_closed :: "string \<Rightarrow> bool" where
  "dsl_closed [] = True"
| "dsl_closed (c # s) =
     (if c = CHR ''$'' then s \<noteq> [] \<and> hd s = CHR ''*'' \<and> dsl_closed (tl s) else dsl_closed s)"

text \<open>The pieces of a chunk between its \<open>$*\<close>, and the chunk they come from.\<close>

fun pieces :: "string \<Rightarrow> string list" where
  "pieces [] = [[]]"
| "pieces (c # p) =
     (if c = CHR ''$'' then [] # pieces (tl p)
      else (case pieces p of [] \<Rightarrow> [] | q # qs \<Rightarrow> (c # q) # qs))"

fun unsplit :: "string list \<Rightarrow> string" where
  "unsplit [] = []"
| "unsplit [p] = p"
| "unsplit (p # q # ps) = p @ CHR ''$'' # CHR ''*'' # unsplit (q # ps)"

text \<open>The needles occur in order and without overlap.\<close>

fun needles_match :: "string list \<Rightarrow> string \<Rightarrow> bool" where
  "needles_match [] k = True"
| "needles_match (n # ns) k = (\<exists>u v. k = u @ n @ v \<and> needles_match ns v)"

definition lit :: "string \<Rightarrow> bool" where
  "lit n \<longleftrightarrow> CHR ''$'' \<notin> set n \<and> CHR ''*'' \<notin> set n"

lemma lit_simps [simp]: "lit []" "lit (c # n) \<longleftrightarrow> c \<noteq> CHR ''$'' \<and> c \<noteq> CHR ''*'' \<and> lit n"
  by (auto simp: lit_def)

lemma dsl_ok_closed: "dsl_ok p \<Longrightarrow> dsl_closed p"
proof (induction p rule: length_induct)
  case (1 p)
  show ?case
  proof (cases p)
    case (Cons c s)
    show ?thesis
    proof (cases "c = CHR ''$''")
      case True
      with "1.prems" Cons obtain r where r: "s = CHR ''*'' # r" "dsl_ok r"
        using dsl_ok_dollar by blast
      with 1 True Cons show ?thesis by simp
    next
      case False
      with "1.prems" Cons have "dsl_ok s" using dsl_ok_lit [of c s] by blast
      with 1 False Cons show ?thesis by simp
    qed
  qed simp
qed

lemma dsl_closed_append:
  assumes "dsl_closed (u @ c # w)" "c \<noteq> CHR ''*''"
  shows "dsl_closed u \<and> dsl_closed (c # w)"
  using assms(1)
proof (induction u rule: dsl_closed.induct)
  case (2 d s)
  show ?case
  proof (cases "d = CHR ''$''")
    case True
    then show ?thesis using 2 assms(2) by (cases s) auto
  next
    case False
    then show ?thesis using 2 by simp
  qed
qed simp

lemma dsl_closed_lit_append [simp]: "lit n \<Longrightarrow> dsl_closed (n @ w) = dsl_closed w"
  by (induction n) auto

lemma dsl_closed_before: "dsl_closed (u @ n @ w) \<Longrightarrow> lit n \<Longrightarrow> n \<noteq> [] \<Longrightarrow> dsl_closed u \<and> dsl_closed w"
  using dsl_closed_append [of u "hd n" "tl n @ w"] dsl_closed_lit_append [of n w]
  by (cases n) auto

lemma dsl_match_append:
  "dsl_closed x \<Longrightarrow> dsl_match (x @ y) k \<longleftrightarrow> (\<exists>u v. k = u @ v \<and> dsl_match x u \<and> dsl_match y v)"
proof (induction x arbitrary: k rule: dsl_closed.induct)
  case (2 c s)
  show ?case
  proof (cases "c = CHR ''$''")
    case True
    with "2.prems" obtain r where r: "s = CHR ''*'' # r" "dsl_closed r" by (cases s) auto
    with 2 True have "dsl_match (r @ y) v \<longleftrightarrow> (\<exists>u' v'. v = u' @ v' \<and> dsl_match r u' \<and> dsl_match y v')" for v
      by simp
    then show ?thesis unfolding True r append_Cons dsl_match_star_iff by (metis append.assoc)
  next
    case False
    with 2 show ?thesis by (simp add: dsl_match_lit) (metis append_Cons)
  qed
qed simp

lemma dsl_match_lit_append:
  "lit n \<Longrightarrow> dsl_match (n @ y) k \<longleftrightarrow> (\<exists>v. k = n @ v \<and> dsl_match y v)"
  by (induction n arbitrary: k) (auto simp: dsl_match_lit)

lemma pieces_ne [simp]: "pieces p \<noteq> []"
  by (induction p rule: pieces.induct) (auto split: list.splits)

lemma unsplit_Cons_char: "unsplit ((c # q) # qs) = c # unsplit (q # qs)"
  by (cases qs) auto

lemma unsplit_pieces:
  "dsl_ok p \<Longrightarrow> unsplit (pieces p) = p \<and> list_all lit (pieces p) \<and>
     list_all (\<lambda>n. n \<noteq> []) (butlast (tl (pieces p))) \<and>
     (p \<noteq> [] \<and> hd p \<noteq> CHR ''$'' \<longrightarrow> hd (pieces p) \<noteq> [])"
proof (induction p rule: length_induct)
  case (1 p)
  show ?case
  proof (cases p)
    case (Cons c s)
    show ?thesis
    proof (cases "c = CHR ''$''")
      case True
      with "1.prems" Cons obtain r where r: "s = CHR ''*'' # r" "dsl_ok r" "r = [] \<or> hd r \<noteq> CHR ''$''"
        using dsl_ok_dollar by blast
      with "1.IH" Cons have IH: "unsplit (pieces r) = r" "list_all lit (pieces r)"
        "list_all (\<lambda>n. n \<noteq> []) (butlast (tl (pieces r)))" "r \<noteq> [] \<Longrightarrow> hd (pieces r) \<noteq> []" by auto
      obtain q qs where q: "pieces r = q # qs" using pieces_ne by (meson neq_Nil_conv)
      show ?thesis using IH q Cons True r by (cases r) auto
    next
      case False
      with "1.prems" Cons have "dsl_ok s" "key_char c" using dsl_ok_lit [of c s] by blast+
      with "1.IH" Cons have IH: "unsplit (pieces s) = s" "list_all lit (pieces s)"
        "list_all (\<lambda>n. n \<noteq> []) (butlast (tl (pieces s)))" by auto
      obtain q qs where q: "pieces s = q # qs" using pieces_ne by (meson neq_Nil_conv)
      show ?thesis using IH q Cons False \<open>key_char c\<close>
        by (simp add: unsplit_Cons_char key_char_def)
    qed
  qed simp
qed

lemma starts_with_append: "starts_with xs ys \<longleftrightarrow> (\<exists>zs. xs = ys @ zs)"
  unfolding starts_with_def by (metis append_eq_conv_conj append_take_drop_id length_append le_add1)

lemma ends_with_append: "ends_with xs ys \<longleftrightarrow> (\<exists>zs. xs = zs @ ys)"
proof
  assume "ends_with xs ys"
  then show "\<exists>zs. xs = zs @ ys" unfolding ends_with_def by (metis append_take_drop_id)
qed (auto simp: ends_with_def)

lemma find_sub_lit: "lit n \<Longrightarrow> find_sub ''$*'' n = None"
  by (induction n) (auto simp: starts_with_append)

lemma find_sub_star: "lit n \<Longrightarrow> find_sub ''$*'' (n @ CHR ''$'' # CHR ''*'' # y) = Some (length n)"
  by (induction n) (auto simp: starts_with_append)

lemma try_split_once_unsplit:
  assumes "lit p"
  shows "try_split_once (unsplit (p # ps)) ''$*'' = (p, if ps = [] then None else Some (unsplit ps))"
  using assms by (cases ps) (auto simp: try_split_once_def find_sub_lit find_sub_star)

lemma splitter_pieces_None [simp]: "splitter_pieces None = []"
  by (subst splitter_pieces.simps) (simp add: splitter_next_def)

lemma splitter_pieces_unsplit:
  "list_all lit ps \<Longrightarrow> ps \<noteq> [] \<Longrightarrow> splitter_pieces (Some (unsplit ps)) = ps"
proof (induction ps)
  case (Cons p ps)
  then show ?case
    by (subst splitter_pieces.simps) (simp add: splitter_next_def try_split_once_unsplit)
qed simp

lemma rfind_sub_lit:
  assumes "lit n" "i \<le> length n" "x = [] \<or> last x = CHR ''*''"
  shows "rfind_sub ''$*'' (x @ n) (length x + i) = rfind_sub ''$*'' (x @ n) (length x)"
  using assms(2)
proof (induction i)
  case (Suc i)
  have "\<not> ends_with (take (length x + Suc i) (x @ n)) ''$*''"
  proof
    assume "ends_with (take (length x + Suc i) (x @ n)) ''$*''"
    then obtain zs where "x @ take (Suc i) n = (zs @ ''$'') @ ''*''"
      by (auto simp: ends_with_append)
    then have "last (x @ take (Suc i) n) = CHR ''*''" by simp
    moreover have "take (Suc i) n \<noteq> []" using Suc by auto
    ultimately have "CHR ''*'' \<in> set (take (Suc i) n)" by (metis last_appendR last_in_set)
    then show False using assms(1) set_take_subset [of "Suc i" n] by (auto simp: lit_def)
  qed
  moreover have "Suc (length x + i) \<ge> 2 \<or> (x = [] \<and> i = 0)" by (cases x; cases i) auto
  ultimately show ?case using Suc by auto
qed simp


lemma try_rsplit_once_lit: "lit n \<Longrightarrow> try_rsplit_once n ''$*'' = (None, n)"
  using rfind_sub_lit [of n "length n" "[]"] by (simp add: try_rsplit_once_def)

lemma try_rsplit_once_star:
  assumes "lit n"
  shows "try_rsplit_once (y @ CHR ''$'' # CHR ''*'' # n) ''$*'' = (Some y, n)"
proof -
  have "rfind_sub ''$*'' ((y @ ''$*'') @ n) (length (y @ ''$*'') + length n) =
      rfind_sub ''$*'' ((y @ ''$*'') @ n) (length (y @ ''$*''))"
    using assms by (intro rfind_sub_lit) auto
  also have "\<dots> = Some (length (y @ ''$*''))" by (simp add: ends_with_append)
  finally have "rfind_sub ''$*'' (y @ CHR ''$'' # CHR ''*'' # n) (Suc (Suc (length y + length n))) =
      Some (Suc (Suc (length y)))" by simp
  then show ?thesis by (simp add: try_rsplit_once_def)
qed

lemma unsplit_snoc: "ps \<noteq> [] \<Longrightarrow> unsplit (ps @ [n]) = unsplit ps @ CHR ''$'' # CHR ''*'' # n"
  by (induction ps rule: unsplit.induct) auto

lemma splitter_next_back_unsplit:
  assumes "lit n"
  shows "splitter_next_back ''$*'' (Some (unsplit (ps @ [n]))) =
     Some (n, if ps = [] then None else Some (unsplit ps))"
  using assms
  by (auto simp: splitter_next_back_def try_rsplit_once_lit unsplit_snoc try_rsplit_once_star)

text \<open>Greedy search for the needles is complete.\<close>

lemma needles_match_append: "needles_match ns v \<Longrightarrow> needles_match ns (u @ v)"
  by (cases ns) (simp, metis append.assoc needles_match.simps(2))

lemma find_sub_Some: "find_sub n k = Some i \<Longrightarrow> \<exists>v. k = take i k @ n @ v \<and> drop (i + length n) k = v"
proof (induction k arbitrary: i)
  case (Cons c k)
  then show ?case by (auto simp: starts_with_append split: if_splits)
qed simp

lemma find_sub_first: "k = u @ n @ v \<Longrightarrow> n \<noteq> [] \<Longrightarrow> \<exists>i\<le>length u. find_sub n k = Some i"
proof (induction u arbitrary: k)
  case Nil
  then show ?case by (cases n) (auto simp: starts_with_append)
next
  case (Cons c u)
  then show ?case by (auto simp: starts_with_append)
qed

lemma needles_in_correct:
  "list_all (\<lambda>n. n \<noteq> []) ns \<Longrightarrow> needles_in ns k = Some (needles_match ns k)"
proof (induction ns arbitrary: k)
  case (Cons n ns)
  show ?case
  proof (cases "find_sub n k")
    case None
    then have "\<not> needles_match (n # ns) k" using find_sub_first Cons.prems by fastforce
    with None Cons show ?thesis by simp
  next
    case (Some i)
    have "needles_match ns (drop (i + length n) k) \<longleftrightarrow> needles_match (n # ns) k"
    proof
      assume "needles_match ns (drop (i + length n) k)"
      then show "needles_match (n # ns) k" using find_sub_Some [OF Some] by auto
    next
      assume "needles_match (n # ns) k"
      then obtain u v where k: "k = u @ n @ v" "needles_match ns v" by auto
      then have "i \<le> length u" using find_sub_first [of k u n v] Cons.prems Some by auto
      then have "drop (i + length n) k = drop (i + length n) (u @ n) @ v" using k by simp
      with k(2) show "needles_match ns (drop (i + length n) k)" by (simp add: needles_match_append)
    qed
    with Some Cons show ?thesis by simp
  qed
qed simp

lemma needles_match_sound:
  assumes "needles_match ns r" "dsl_match r k" "dsl_closed r" "list_all (\<lambda>n. n \<noteq> [] \<and> lit n) ns"
  shows "needles_match ns k"
  using assms
proof (induction ns arbitrary: r k)
  case (Cons n ns)
  then obtain u v where r: "r = u @ n @ v" "needles_match ns v" by auto
  then have cl: "dsl_closed u" "dsl_closed v" using Cons.prems dsl_closed_before [of u n v] by auto
  with r Cons.prems obtain k1 k2 where "k = k1 @ k2" "dsl_match (n @ v) k2"
    by (auto simp: dsl_match_append)
  with Cons.prems obtain k3 where "k = k1 @ n @ k3" "dsl_match v k3"
    by (auto simp: dsl_match_lit_append)
  with Cons r cl show ?case by auto
qed simp

lemma dsl_match_needles:
  "list_all lit ns \<Longrightarrow> lit e \<Longrightarrow>
   dsl_match (CHR ''$'' # CHR ''*'' # unsplit (ns @ [e])) k \<longleftrightarrow> (\<exists>m. k = m @ e \<and> needles_match ns m)"
proof (induction ns arbitrary: k)
  case Nil
  then show ?case using dsl_match_lit_append [of e "[]"] by (simp add: dsl_match_star_iff)
next
  case (Cons n ns)
  have "unsplit ((n # ns) @ [e]) = n @ CHR ''$'' # CHR ''*'' # unsplit (ns @ [e])"
    by (cases ns) auto
  then have "dsl_match (CHR ''$'' # CHR ''*'' # unsplit ((n # ns) @ [e])) k \<longleftrightarrow>
      (\<exists>u v. k = u @ n @ v \<and> dsl_match (CHR ''$'' # CHR ''*'' # unsplit (ns @ [e])) v)"
    using dsl_match_star_iff [of "CHR ''*''" "n @ CHR ''$'' # CHR ''*'' # unsplit (ns @ [e])" k]
      Cons.prems by (auto simp: dsl_match_lit_append)
  also have "\<dots> \<longleftrightarrow> (\<exists>u m. k = u @ n @ m @ e \<and> needles_match ns m)"
    using Cons by auto
  also have "\<dots> \<longleftrightarrow> (\<exists>m. k = m @ e \<and> needles_match (n # ns) m)"
    by (metis append.assoc needles_match.simps(2))
  finally show ?case .
qed

text \<open>A chunk with a \<open>$*\<close> is \<open>p$*n\<^sub>1$*\<dots>$*e\<close>.\<close>

definition first_piece :: "string \<Rightarrow> string" where
  "first_piece l = hd (pieces l)"

definition inner_pieces :: "string \<Rightarrow> string list" where
  "inner_pieces l = butlast (tl (pieces l))"

definition last_piece :: "string \<Rightarrow> string" where
  "last_piece l = last (pieces l)"

lemma dsl_ok_decompose:
  assumes "dsl_ok l" "CHR ''$'' \<in> set l"
  shows "l = first_piece l @ CHR ''$'' # CHR ''*'' # unsplit (inner_pieces l @ [last_piece l])"
    "lit (first_piece l)" "lit (last_piece l)" "list_all (\<lambda>n. n \<noteq> [] \<and> lit n) (inner_pieces l)"
proof -
  note u = unsplit_pieces [OF assms(1)]
  obtain p ps where p: "pieces l = p # ps" using pieces_ne by (meson neq_Nil_conv)
  have "ps \<noteq> []" using u p assms(2) by (auto simp: lit_def)
  then obtain ns e where ns: "ps = ns @ [e]" by (metis append_butlast_last_id)
  have d: "first_piece l = p" "inner_pieces l = ns" "last_piece l = e"
    using p ns by (simp_all add: first_piece_def inner_pieces_def last_piece_def)
  obtain q qs where q: "ns @ [e] = q # qs" by (cases ns) auto
  show "l = first_piece l @ CHR ''$'' # CHR ''*'' # unsplit (inner_pieces l @ [last_piece l])"
    unfolding d using u p ns q by (metis unsplit.simps(3))
  show "lit (first_piece l)" "lit (last_piece l)" "list_all (\<lambda>n. n \<noteq> [] \<and> lit n) (inner_pieces l)"
    unfolding d using u p ns by (auto simp: list_all_iff)
qed

definition chunk_inc :: "string \<Rightarrow> string \<Rightarrow> bool" where
  "chunk_inc l r \<longleftrightarrow>
     l = r \<or> (\<not> has_direct_verbatim l \<and> \<not> has_direct_verbatim r \<and>
       (l = ''*'' \<or> (CHR ''$'' \<in> set l \<and>
          (\<exists>m. r = first_piece l @ m @ last_piece l \<and> needles_match (inner_pieces l) m))))"

lemma chunk_includes_dsl:
  assumes l: "l = p @ CHR ''$'' # CHR ''*'' # unsplit (ns @ [e])"
    and lit: "lit p" "lit e" "list_all (\<lambda>n. n \<noteq> [] \<and> lit n) ns"
    and ne: "l \<noteq> r" "\<not> has_direct_verbatim l" "\<not> has_direct_verbatim r"
  shows "non_double_wild_chunk_includes l r = Some (\<exists>m. r = p @ m @ e \<and> needles_match ns m)"
proof -
  obtain q qs where q: "ns @ [e] = q # qs" by (cases ns) auto
  have l': "l = unsplit (p # ns @ [e])" unfolding l q by simp
  have first: "splitter_next ''$*'' (Some l) = Some (p, Some (unsplit (ns @ [e])))"
    unfolding l' using lit by (simp add: splitter_next_def try_split_once_unsplit)
  have inner: "splitter_pieces (if ns = [] then None else Some (unsplit ns)) = ns"
    using lit by (auto intro!: splitter_pieces_unsplit simp: list_all_iff)
  have needles: "needles_in ns m = Some (needles_match ns m)" for m
    using lit by (intro needles_in_correct) (simp add: list_all_iff)
  have "l \<noteq> ''*''" "CHR ''$'' \<in> set l" using lit(1) by (auto simp: l append_eq_Cons_conv)
  then show ?thesis
    using ne first lit(2)
    by (auto simp: non_double_wild_chunk_includes_def splitter_next_back_unsplit inner needles
      strip_prefix_slice_def strip_suffix_slice_def starts_with_append ends_with_append)
qed

lemma chunk_includes_inc:
  assumes "chunk_ok l" "l \<noteq> ''**''"
  shows "non_double_wild_chunk_includes l r = Some (chunk_inc l r)"
proof (cases "l = r \<or> has_direct_verbatim l \<or> has_direct_verbatim r \<or> l = ''*''")
  case True
  then show ?thesis by (auto simp: non_double_wild_chunk_includes_def chunk_inc_def)
next
  case F: False
  then have ok: "dsl_ok l" using assms by (auto elim: chunk_ok_cases)
  show ?thesis
  proof (cases "CHR ''$'' \<in> set l")
    case True
    show ?thesis using F True chunk_includes_dsl [OF dsl_ok_decompose [OF ok True]]
      by (auto simp: chunk_inc_def)
  next
    case False
    then show ?thesis using F
      by (auto simp: non_double_wild_chunk_includes_def chunk_inc_def)
  qed
qed

lemma dsl_match_decomposed:
  assumes "lit p" "lit e" "list_all (\<lambda>n. n \<noteq> [] \<and> lit n) ns"
  shows "dsl_match (p @ CHR ''$'' # CHR ''*'' # unsplit (ns @ [e])) k \<longleftrightarrow>
     (\<exists>m. k = p @ m @ e \<and> needles_match ns m)"
  using assms dsl_match_needles [of ns e] by (auto simp: dsl_match_lit_append list_all_iff)

lemma chunk_inc_sound:
  assumes "chunk_inc l r" "chunk_match r k" "chunk_ok l" "chunk_ok r" "l \<noteq> ''**''" "r \<noteq> ''**''"
  shows "chunk_match l k"
proof (cases "l = r \<or> l = ''*''")
  case True
  then show ?thesis using assms by (auto simp: chunk_match_def chunk_inc_def split: if_splits)
next
  case False
  then obtain m where v: "\<not> has_direct_verbatim l" "\<not> has_direct_verbatim r" "CHR ''$'' \<in> set l"
    and r: "r = first_piece l @ m @ last_piece l" "needles_match (inner_pieces l) m"
    using assms(1) unfolding chunk_inc_def by blast
  have "dsl_ok l" using assms False by (auto elim: chunk_ok_cases)
  note l = dsl_ok_decompose(1) [OF this v(3)] and lit = dsl_ok_decompose(2-) [OF this v(3)]
  show ?thesis
  proof (cases "r = ''*''")
    case True
    have "first_piece l \<noteq> ''*''" "last_piece l \<noteq> ''*''" using lit by auto
    with True r lit have "first_piece l = []" "last_piece l = []" "m = ''*''"
      by (auto simp: append_eq_Cons_conv Cons_eq_append_conv)
    moreover from this r lit have "inner_pieces l = []"
      by (cases "inner_pieces l") (auto simp: append_eq_Cons_conv Cons_eq_append_conv)
    ultimately have "l = ''$*''" using l by simp
    then show ?thesis using assms(3) by (simp add: chunk_ok_def)
  next
    case r_star: False
    then have "dsl_ok r" using assms by (auto elim: chunk_ok_cases)
    then have cl: "dsl_closed (m @ last_piece l)" using r lit dsl_ok_closed by fastforce
    then have clm: "dsl_closed m" using lit(2) dsl_closed_before [of m "last_piece l" "[]"] by (cases "last_piece l = []") auto
    have k: "\<not> has_direct_verbatim k" "dsl_match r k"
      using assms(2) v r_star by (auto simp: chunk_match_def split: if_splits)
    then obtain k1 where k1: "k = first_piece l @ k1 @ last_piece l" "dsl_match m k1"
      unfolding r(1) using lit clm dsl_match_lit_append [of "last_piece l" "[]"]
      by (auto simp: dsl_match_lit_append dsl_match_append)
    then have "needles_match (inner_pieces l) k1" using r(2) clm lit needles_match_sound by blast
    then have "dsl_match l k" using lit k1 by (subst l) (auto simp: dsl_match_decomposed)
    with v k show ?thesis by (simp add: chunk_match_def)
  qed
qed


text \<open>On a key the chunk test is exact.\<close>

lemma chunk_inc_key:
  assumes "chunk_ok l" "l \<noteq> ''**''" "key_chunk k"
  shows "chunk_inc l k \<longleftrightarrow> chunk_match l k"
proof (cases "has_direct_verbatim l \<or> has_direct_verbatim k \<or> l = ''*''")
  case True
  then show ?thesis by (auto simp: chunk_inc_def chunk_match_def)
next
  case F: False
  then have ok: "dsl_ok l" using assms by (auto elim: chunk_ok_cases)
  show ?thesis
  proof (cases "CHR ''$'' \<in> set l")
    case True
    note l = dsl_ok_decompose(1) [OF ok True] and lit = dsl_ok_decompose(2-) [OF ok True]
    have "dsl_match l k \<longleftrightarrow> (\<exists>m. k = first_piece l @ m @ last_piece l \<and> needles_match (inner_pieces l) m)"
      by (subst l) (rule dsl_match_decomposed [OF lit])
    moreover have "l \<noteq> k" using True key_chunkD(4) [OF assms(3)] by auto
    ultimately show ?thesis using F True by (auto simp: chunk_inc_def chunk_match_def)
  next
    case False
    then show ?thesis using F by (auto simp: chunk_inc_def chunk_match_def dsl_match_self)
  qed
qed

section \<open>Chunk lists\<close>

fun list_includes :: "string list \<Rightarrow> string list \<Rightarrow> bool" where
  "list_includes [] rs = (rs = [])"
| "list_includes (l # ls) [] = (l = ''**'' \<and> ls = [])"
| "list_includes (l # ls) (r # rs) =
     (if l = ''**'' then
        ls = [] \<and> \<not> list_ex has_direct_verbatim (r # rs) \<or>
        ls \<noteq> [] \<and> list_includes ls (r # rs) \<or>
        \<not> has_direct_verbatim r \<and> rs \<noteq> [] \<and> list_includes (l # ls) rs
      else r \<noteq> ''**'' \<and> chunk_inc l r \<and> (if ls = [] then rs = [] else list_includes ls rs))"

declare list_includes.simps [simp del]

lemma split_once_join': "list_all plain_chunk (c # cs) \<Longrightarrow>
   split_once (CHR ''/'') (join_chunks (c # cs)) = (c, join_chunks cs)"
  by (simp del: join_chunks.simps)

lemma includes_bytes_join:
  assumes "list_all plain_chunk (l # ls)" "list_all plain_chunk (r # rs)"
  shows "includes_bytes (join_chunks (l # ls)) (join_chunks (r # rs)) =
      (if l = ''**'' then
         (if ls = [] \<and> \<not> list_ex has_direct_verbatim (r # rs) then Some True
          else lazy_or (if ls \<noteq> [] then includes_bytes (join_chunks ls) (join_chunks (r # rs)) else Some False)
            (if has_direct_verbatim r then Some False
             else if rs = [] then Some False
             else includes_bytes (join_chunks (l # ls)) (join_chunks rs)))
       else if r = ''**'' then Some False
       else (case non_double_wild_chunk_includes l r of
               None \<Rightarrow> None
             | Some b \<Rightarrow>
                 if \<not> b then Some False
                 else if ls = [] then Some (rs = [])
                 else includes_bytes (join_chunks ls) (join_chunks rs)))"
proof -
  have ne: "join_chunks ls = [] \<longleftrightarrow> ls = []" "join_chunks rs = [] \<longleftrightarrow> rs = []" "r \<noteq> []"
    using assms by (auto simp: join_chunks_Nil_iff plain_chunk_def)
  have v: "has_verbatim (join_chunks (r # rs)) = list_ex has_direct_verbatim (r # rs)"
    using assms by (simp add: has_verbatim_join del: join_chunks.simps)
  have dv: "has_direct_verbatim (join_chunks (r # rs)) = has_direct_verbatim r"
    using assms by (simp add: has_direct_verbatim_join del: join_chunks.simps)
  show ?thesis
    by (subst includes_bytes.simps)
      (simp only: Let_def split_once_join' [OF assms(1)] split_once_join' [OF assms(2)] DELIMITER_def
        DOUBLE_WILD_def fst_conv snd_conv ne v dv simp_thms if_True if_False)
qed

lemma includes_bytes_Nil:
  assumes "list_all plain_chunk (l # ls)" "list_all chunk_ok (l # ls)" "canon_ok (l # ls)"
  shows "includes_bytes (join_chunks (l # ls)) [] = Some (l = ''**'' \<and> ls = [])"
  using assms
proof (induction ls arbitrary: l)
  case Nil
  then show ?case
    by (subst includes_bytes.simps) (simp add: split_once_join' [of _ "[]", simplified] has_verbatim_def)
next
  case (Cons m ls)
  have ne: "join_chunks (m # ls) \<noteq> []"
    using Cons.prems by (simp add: join_chunks_Nil_iff del: join_chunks.simps)
  have "includes_bytes (join_chunks (m # ls)) [] = Some False" if "l = ''**''"
    using Cons that by auto
  then show ?case
    by (subst includes_bytes.simps)
      (simp add: split_once_join' [OF Cons.prems(1)] ne Let_def has_direct_verbatim_def del: join_chunks.simps)
qed

lemma includes_bytes_list:
  assumes "list_all chunk_ok ls" "canon_ok ls" "ls \<noteq> []" "list_all plain_chunk rs"
  shows "includes_bytes (join_chunks ls) (join_chunks rs) = Some (list_includes ls rs)"
  using assms
proof (induction ls rs rule: list_includes.induct)
  case (2 l ls)
  then have "list_all plain_chunk (l # ls)" by (auto simp: list_all_iff intro: chunk_ok_plain)
  with 2 show ?case by (simp add: includes_bytes_Nil list_includes.simps)
next
  case (3 l ls r rs)
  have pl: "list_all plain_chunk (l # ls)" using 3 by (auto simp: list_all_iff intro: chunk_ok_plain)
  have ok: "list_all chunk_ok ls" "canon_ok ls" using "3.prems" by (auto intro: canon_ok_tl)
  note unf = includes_bytes_join [OF pl "3.prems"(4)]
  show ?case
  proof (cases "l = ''**''")
    case True
    then show ?thesis using unf 3 ok
      by (auto simp: list_includes.simps simp del: join_chunks.simps)
  next
    case False
    then have "non_double_wild_chunk_includes l r = Some (chunk_inc l r)"
      using "3.prems" by (intro chunk_includes_inc) auto
    then show ?thesis using False unf "3.IH"(3) "3.prems" ok
      by (auto simp: list_includes.simps simp del: join_chunks.simps)
  qed
qed simp


section \<open>Soundness and exactness\<close>

lemma ke_match_no_verbatim:
  "ke_match rs ks \<Longrightarrow> \<not> list_ex has_direct_verbatim rs \<Longrightarrow> list_all (\<lambda>k. \<not> has_direct_verbatim k) ks"
proof (induction rs ks rule: ke_match.induct)
  case (3 p ps k ks)
  then show ?case by (auto simp: chunk_match_def split: if_splits)
qed auto

lemma ke_match_double_wild_append:
  "ke_match (''**'' # ps) vs \<Longrightarrow> list_all (\<lambda>k. \<not> has_direct_verbatim k) us \<Longrightarrow>
   ke_match (''**'' # ps) (us @ vs)"
  by (induction us) auto

lemma ke_match_double_wild_skip:
  assumes "ke_match (r # rs) ks" "\<not> has_direct_verbatim r"
    and "\<And>vs. ke_match rs vs \<Longrightarrow> ke_match (''**'' # ps) vs"
  shows "ke_match (''**'' # ps) ks"
proof (cases "r = ''**''")
  case True
  with assms(1) show ?thesis
    by (auto simp: ke_match_double_wild [of rs] simp del: ke_match.simps
      intro: assms(3) ke_match_double_wild_append)
next
  case False
  with assms(1) obtain k ks' where "ks = k # ks'" "chunk_match r k" "ke_match rs ks'"
    by (auto simp: ke_match_Cons_other)
  moreover from this assms(2) have "\<not> has_direct_verbatim k"
    by (auto simp: chunk_match_def split: if_splits)
  ultimately show ?thesis using assms(3) by simp
qed

lemma list_includes_sound:
  assumes "list_includes ls rs" "list_all chunk_ok ls" "list_all chunk_ok rs" "ke_match rs ks"
  shows "ke_match ls ks"
  using assms
proof (induction ls rs arbitrary: ks rule: list_includes.induct)
  case (1 rs)
  then show ?case by (simp add: list_includes.simps)
next
  case (2 l ls)
  then show ?case by (simp add: list_includes.simps)
next
  case (3 l ls r rs)
  show ?case
  proof (cases "l = ''**''")
    case True
    with "3.prems"(1) consider
      (all) "ls = []" "\<not> list_ex has_direct_verbatim (r # rs)"
    | (here) "ls \<noteq> []" "list_includes ls (r # rs)"
    | (skip) "\<not> has_direct_verbatim r" "rs \<noteq> []" "list_includes (l # ls) rs"
      by (auto simp: list_includes.simps)
    then show ?thesis
    proof cases
      case all
      then show ?thesis using True ke_match_no_verbatim [OF "3.prems"(4)]
        by (simp add: ke_match_only_double_wild)
    next
      case here
      then show ?thesis using True 3 by (auto intro: ke_match_drop)
    next
      case skip
      then show ?thesis using True 3 by (auto intro: ke_match_double_wild_skip)
    qed
  next
    case False
    then have inc: "r \<noteq> ''**''" "chunk_inc l r" "if ls = [] then rs = [] else list_includes ls rs"
      using "3.prems"(1) by (auto simp: list_includes.simps)
    with "3.prems"(4) obtain k ks' where k: "ks = k # ks'" "chunk_match r k" "ke_match rs ks'"
      by (auto simp: ke_match_Cons_other)
    have "chunk_match l k" using inc k False "3.prems" by (intro chunk_inc_sound [of l r]) auto
    moreover have "ke_match ls ks'" using 3 inc k False by (auto split: if_splits)
    ultimately show ?thesis using False k by simp
  qed
qed

lemma ke_match_Nil_iff: "canon_ok ls \<Longrightarrow> ke_match ls [] \<longleftrightarrow> ls = [] \<or> ls = [''**'']"
  by (induction ls rule: canon_ok.induct) auto

lemma list_includes_key:
  assumes "list_all chunk_ok ls" "canon_ok ls" "list_all key_chunk ks"
  shows "list_includes ls ks \<longleftrightarrow> ke_match ls ks"
  using assms
proof (induction ls ks rule: list_includes.induct)
  case (2 l ls)
  then show ?case using ke_match_Nil_iff [of "l # ls"] by (simp add: list_includes.simps del: ke_match.simps)
next
  case (3 l ls r rs)
  have ok: "list_all chunk_ok ls" "canon_ok ls" using "3.prems" by (auto intro: canon_ok_tl)
  have r: "r \<noteq> ''**''" using "3.prems"(3) by (auto dest: key_chunkD(3))
  show ?case
  proof (cases "l = ''**''")
    case True
    show ?thesis
    proof (cases "ls = []")
      case e: True
      have "list_includes [''**''] (r # rs) \<longleftrightarrow> \<not> list_ex has_direct_verbatim (r # rs)"
        using 3 True e by (auto simp: list_includes.simps(3) ke_match_only_double_wild list_ex_iff list_all_iff)
      then show ?thesis using True e by (auto simp: ke_match_only_double_wild list_ex_iff list_all_iff)
    next
      case ne: False
      have "ls \<noteq> [''**'']" using "3.prems"(2) True by auto
      then have "\<not> ke_match (l # ls) []" using True ne ke_match_Nil_iff ok by simp
      then show ?thesis using 3 True ne ok by (auto simp: list_includes.simps(3))
    qed
  next
    case False
    then have "chunk_inc l r \<longleftrightarrow> chunk_match l r" using "3.prems" by (intro chunk_inc_key) auto
    then show ?thesis using 3 False ok r by (auto simp: list_includes.simps(3))
  qed
qed (simp add: list_includes.simps)

lemma ke_okD: "ke_ok cs \<Longrightarrow> cs \<noteq> [] \<and> list_all chunk_ok cs \<and> canon_ok cs \<and> list_all plain_chunk cs"
  by (auto simp: ke_ok_def list_all_iff intro: chunk_ok_plain)

lemma ke_includes_list:
  assumes "ke_ok as" "ke_ok bs"
  shows "ke_includes (join_chunks as) (join_chunks bs) = Some (as = bs \<or> list_includes as bs)"
proof -
  have "as = bs" if "join_chunks as = join_chunks bs"
    using that ke_okD [OF assms(1)] ke_okD [OF assms(2)] split_on_join
    by (metis list_all_iff plain_chunk_def)
  then show ?thesis using includes_bytes_list [of as bs] ke_okD [OF assms(1)] ke_okD [OF assms(2)]
    by (auto simp: ke_includes_def)
qed

lemma includes_keys:
  assumes "valid_ke a" "valid_ke b"
  shows "\<exists>r. ke_includes a b = Some r \<and> (r \<longrightarrow> ke_keys b \<subseteq> ke_keys a)"
proof -
  obtain as bs where as: "a = join_chunks as" "ke_ok as" "split_on (CHR ''/'') a = as"
    and bs: "b = join_chunks bs" "ke_ok bs" "split_on (CHR ''/'') b = bs"
    using assms valid_keE by metis
  have "ke_match as ks" if "as = bs \<or> list_includes as bs" "ke_match bs ks" for ks
    using that list_includes_sound [of as bs ks] ke_okD [OF as(2)] ke_okD [OF bs(2)] by auto
  then show ?thesis using ke_includes_list [OF as(2) bs(2)] as bs by (auto simp: ke_keys_def)
qed

text \<open>(C19) On valid key expressions \<open>includes\<close> returns without panicking, and a positive answer
  is right: every key the right operand denotes is denoted by the left one.\<close>

theorem includes_sound:
  assumes "valid_ke a" "valid_ke b"
  shows "\<exists>r. ke_includes a b = Some r \<and> (r \<longrightarrow> ke_keys b \<subseteq> ke_keys a)"
  using assms by (rule includes_keys)

theorem includes_sound_witness:
  "ke_includes ''a/**/b$*'' ''a/x/*/bc'' = Some True \<and> ke_keys ''a/x/*/bc'' \<subseteq> ke_keys ''a/**/b$*''"
proof -
  have "valid_ke ''a/**/b$*''" "valid_ke ''a/x/*/bc''"
    by (simp_all add: valid_ke_ok ke_ok_def chunk_ok_def)
  moreover have "ke_includes ''a/**/b$*'' ''a/x/*/bc'' = Some True" by code_simp
  ultimately show ?thesis using includes_sound [of "''a/**/b$*''" "''a/x/*/bc''"] by auto
qed

text \<open>(C20) When the right operand is a key, \<open>includes\<close> decides membership of that key exactly.\<close>

theorem includes_exact_on_keys:
  assumes "valid_ke a" "is_key ks"
  shows "ke_includes a (join_chunks ks) = Some (ks \<in> ke_keys a)"
proof -
  obtain as where as: "a = join_chunks as" "ke_ok as" "split_on (CHR ''/'') a = as"
    using assms valid_keE by metis
  have k: "list_all key_chunk ks" "ks \<noteq> []" using assms by (auto simp: is_key_def)
  have "canon_ok ks" using k(1)
    by (induction ks rule: canon_ok.induct) (auto dest: key_chunkD(3))
  then have ok: "ke_ok ks" using k by (auto simp: ke_ok_def list_all_iff intro: key_chunk_ok)
  show ?thesis
    using ke_includes_list [OF as(2) ok] ke_okD [OF as(2)] list_includes_key [of as ks] k as assms(2)
      ke_match_refl [OF k(1)]
    by (auto simp: ke_keys_def)
qed

theorem includes_exact_on_keys_witness:
  "ke_includes ''a/**/b$*'' ''a/x/bc'' = Some ([''a'', ''x'', ''bc''] \<in> ke_keys ''a/**/b$*'')"
proof -
  have "valid_ke ''a/**/b$*''" by (simp add: valid_ke_ok ke_ok_def chunk_ok_def)
  moreover have "is_key [''a'', ''x'', ''bc'']" by (simp add: is_key_def key_chunk_def key_char_def)
  ultimately show ?thesis using includes_exact_on_keys [of "''a/**/b$*''" "[''a'', ''x'', ''bc'']"] by simp
qed

text \<open>(C40) The test is not complete between two wildcard expressions: every key of \<open>**/a\<close> is one of
  \<open>*/**\<close>, and the answer is negative.\<close>

theorem includes_incomplete:
  "ke_includes ''*/**'' ''**/a'' = Some False \<and> ke_keys ''**/a'' \<subseteq> ke_keys ''*/**''"
proof
  show "ke_includes ''*/**'' ''**/a'' = Some False" by code_simp
  have "ke_match [''*'', ''**''] ks" if "ke_match [''**'', ''a''] ks" for ks
  proof -
    from that obtain us where us: "ks = us @ [''a'']" "list_all (\<lambda>k. \<not> has_direct_verbatim k) us"
      by (auto simp: ke_match_double_wild ke_match_Cons_other chunk_match_def dsl_match_self
        simp del: ke_match.simps(2,3) split: if_splits)
    then have "list_all (\<lambda>k. \<not> has_direct_verbatim k) ks" by simp
    moreover have "ks \<noteq> []" using us by simp
    ultimately show ?thesis by (cases ks) (auto simp: ke_match_only_double_wild chunk_match_def)
  qed
  then show "ke_keys ''**/a'' \<subseteq> ke_keys ''*/**''" by (auto simp: ke_keys_def)
qed

end
