(* ===== verification/KeyExpr_Canon.thy ===== *)
theory KeyExpr_Canon
  imports KeyExpr_Match
begin

text \<open>
  Canonisation of a string in place (\<open>key_expr/canon.rs\<close>), and the constructor that validates the
  result.  A panic is \<open>None\<close>.  The loop over positions of one mutable buffer is shown equal to a
  recursion over chunks.
\<close>

section \<open>The loop over the buffer\<close>

text \<open>\<open>windows(2).take_while(|s| s == b"$*").count()\<close>: the windows overlap.\<close>

fun count_dsl :: "string \<Rightarrow> nat" where
  "count_dsl (x # y # xs) = (if x = CHR ''$'' \<and> y = CHR ''*'' then Suc (count_dsl (y # xs)) else 0)"
| "count_dsl xs = 0"

datatype canon_step = CanonNext string nat nat | CanonReturn string nat

lemma copy_within_length: "copy_within bs i j at = Some bs' \<Longrightarrow> length bs' = length bs"
  by (auto simp: copy_within_def split: option.splits dest: length_blit)

text \<open>The loop that copies a chunk with its delimiter.\<close>

function canon_copy :: "string \<Rightarrow> nat \<Rightarrow> nat \<Rightarrow> nat \<Rightarrow> canon_step option" where
  "canon_copy bs write_start index written =
     (case get bs index of
        None \<Rightarrow>
          do { bs \<leftarrow> copy_within bs write_start index written; Some (CanonReturn bs (written + (index - write_start))) }
      | Some c \<Rightarrow>
          if c = CHR ''/'' then
            do { bs \<leftarrow> copy_within bs write_start (index + 1) written;
                 Some (CanonNext bs (index + 1) (written + (index + 1 - write_start))) }
          else if c = CHR ''$'' \<and> get_range bs (index + 1) (index + 4) = Some ''*$*'' then
            (case copy_within bs write_start (index + 2) written of
               None \<Rightarrow> None
             | Some bs' \<Rightarrow>
                 (case slice_from bs' (index + 2 + 4) of
                    None \<Rightarrow> None
                  | Some rest \<Rightarrow>
                      let next = index + 2 + (1 + count_dsl rest) * 2
                      in canon_copy bs' next next (written + (index + 2 - write_start))))
          else canon_copy bs write_start (index + 1) written)"
  by pat_completeness auto
termination
  by (relation "measure (\<lambda>(bs, ws, i, w). length bs - i)")
    (auto simp: get_Some_iff dest: copy_within_length)

declare canon_copy.simps [simp del]

lemma canon_copy_Next:
  "canon_copy bs ws i w = Some (CanonNext bs' i' w') \<Longrightarrow> length bs' = length bs \<and> i < i' \<and> i' \<le> length bs"
proof (induction bs ws i w rule: canon_copy.induct)
  case (1 bs ws i w)
  show ?case
  proof (cases "get bs i")
    case None
    then show ?thesis using "1.prems" by (subst (asm) canon_copy.simps) (auto simp: Option.bind_eq_Some_conv)
  next
    case (Some c)
    consider "c = CHR ''/''" | "c \<noteq> CHR ''/''" "c = CHR ''$'' \<and> get_range bs (i + 1) (i + 4) = Some ''*$*''"
      | "c \<noteq> CHR ''/''" "\<not> (c = CHR ''$'' \<and> get_range bs (i + 1) (i + 4) = Some ''*$*'')" by blast
    then show ?thesis
    proof cases
      case 1
      then show ?thesis using "1.prems" Some by (subst (asm) canon_copy.simps)
        (auto simp: Option.bind_eq_Some_conv get_Some_iff dest: copy_within_length)
    next
      case 2
      then obtain bs1 rest where b: "copy_within bs ws (i + 2) w = Some bs1" "slice_from bs1 (i + 2 + 4) = Some rest"
        "canon_copy bs1 (i + 2 + (1 + count_dsl rest) * 2) (i + 2 + (1 + count_dsl rest) * 2) (w + (i + 2 - ws)) = Some (CanonNext bs' i' w')"
        using "1.prems" Some by (subst (asm) canon_copy.simps) (auto simp: Let_def split: option.splits)
      from "1.IH"(1) [OF Some 2 b(1,2) refl b(3)] copy_within_length [OF b(1)] show ?thesis by simp
    next
      case 3
      then have "canon_copy bs ws (i + 1) w = Some (CanonNext bs' i' w')"
        using "1.prems" Some by (subst (asm) canon_copy.simps) auto
      from "1.IH"(2) [OF Some 3 this] show ?thesis by simp
    qed
  qed
qed

text \<open>What follows a \<open>*\<close> or a \<open>$*\<close> at the start of a slice.\<close>

definition after_star :: "string \<Rightarrow> string option" where
  "after_star s =
     (if starts_with s ''*'' \<and> (drop 1 s = [] \<or> starts_with (drop 1 s) ''/'') then Some (drop 1 s)
      else if starts_with s ''$*'' \<and> (drop 2 s = [] \<or> starts_with (drop 2 s) ''/'') then Some (drop 2 s)
      else None)"

lemma after_star_length: "after_star s = Some r \<Longrightarrow> length r < length s"
  by (auto simp: after_star_def starts_with_def split: if_splits)

function canonize_loop :: "string \<Rightarrow> nat \<Rightarrow> nat \<Rightarrow> bool \<Rightarrow> (string \<times> nat) option" where
  "canonize_loop bs index written double_wild =
     (case slice_from bs index of
        None \<Rightarrow> None
      | Some s \<Rightarrow>
          if s = ''**'' then do { bs \<leftarrow> blit bs written ''**''; Some (bs, written + 2) }
          else if starts_with s ''**/'' then canonize_loop bs (index + 3) written True
          else (case after_star s of
             Some r \<Rightarrow>
               if r = [] then
                 do { bs \<leftarrow> blit bs written ''*'';
                      if double_wild then do { bs \<leftarrow> blit bs (written + 1) ''/**''; Some (bs, written + 1 + 3) }
                      else Some (bs, written + 1) }
               else (case blit bs written ''*'' of
                  None \<Rightarrow> None
                | Some bs1 \<Rightarrow>
                    (case blit bs1 (written + 1) ''/'' of
                       None \<Rightarrow> None
                     | Some bs2 \<Rightarrow> canonize_loop bs2 (length bs - length r + 1) (written + 1 + 1) double_wild))
           | None \<Rightarrow>
               if starts_with s ''$*$*'' then canonize_loop bs (index + 2) written double_wild
               else (case (if double_wild \<and> s \<noteq> ''**'' then map_option (\<lambda>bs. (bs, written + 3, False)) (blit bs written ''**/'')
                           else Some (bs, written, double_wild)) of
                  None \<Rightarrow> None
                | Some (bs1, written1, double_wild1) \<Rightarrow>
                    (case canon_copy bs1 index index written1 of
                       None \<Rightarrow> None
                     | Some (CanonReturn bs2 n) \<Rightarrow> Some (bs2, n)
                     | Some (CanonNext bs2 index2 written2) \<Rightarrow> canonize_loop bs2 index2 written2 double_wild1))))"
  by pat_completeness auto
termination
  apply (relation "measure (\<lambda>(bs, i, w, d). length bs - i)")
      apply (auto simp: slice_from_def starts_with_def split: if_splits dest!: canon_copy_Next length_blit after_star_length)
  done

declare canonize_loop.simps [simp del]

definition canonize :: "string \<Rightarrow> (string \<times> nat) option" where
  "canonize bs = canonize_loop bs 0 0 False"

text \<open>\<open>canonize\<close> of a \<open>&mut str\<close>, with what is left of the buffer, of a \<open>String\<close>, and \<open>autocanonize\<close>.\<close>

definition str_canonize :: "string \<Rightarrow> (string \<times> string) option" where
  "str_canonize s = map_option (\<lambda>(bs, n). (take n bs, take n bs @ replicate (length bs - n) (CHR 0x00))) (canonize s)"

definition string_canonize :: "string \<Rightarrow> string option" where
  "string_canonize s = map_option (\<lambda>(bs, n). take n bs) (canonize s)"

definition autocanonize :: "string \<Rightarrow> (KeyExprError + string) option" where
  "autocanonize s = map_option try_from (string_canonize s)"

section \<open>The recursion over chunks\<close>

function strip_dsl :: "string \<Rightarrow> string" where
  "strip_dsl s = (if starts_with s ''$*$*'' then strip_dsl (drop 2 s) else s)"
  by pat_completeness auto
termination
  by (relation "measure length") (auto simp: starts_with_def)

declare strip_dsl.simps [simp del]

lemma strip_dsl_step:
  "starts_with c ''$*$*'' \<Longrightarrow> strip_dsl c = strip_dsl (drop 2 c)" "\<not> starts_with c ''$*$*'' \<Longrightarrow> strip_dsl c = c"
  by (subst strip_dsl.simps, simp)+

definition canon_chunk :: "string \<Rightarrow> string" where
  "canon_chunk c = (if strip_dsl c = ''$*'' then ''*'' else strip_dsl c)"

fun canon_list :: "string list \<Rightarrow> bool \<Rightarrow> string list" where
  "canon_list [] dw = (if dw then [''**''] else [])"
| "canon_list (c # cs) dw =
     (let c = canon_chunk c in
      if c = ''**'' then canon_list cs True
      else if c = ''*'' then c # canon_list cs dw
      else (if dw then [''**''] else []) @ c # canon_list cs False)"

text \<open>No \<open>$*\<close> directly after another one.\<close>

fun dsl_apart :: "string \<Rightarrow> bool" where
  "dsl_apart [] = True"
| "dsl_apart (c # s) \<longleftrightarrow> \<not> starts_with (c # s) ''$*$*'' \<and> dsl_apart s"

definition ends_chunk :: "string \<Rightarrow> bool" where
  "ends_chunk t \<longleftrightarrow> t = [] \<or> hd t = CHR ''/''"

lemma starts_with_Cons: "starts_with (x # xs) (y # ys) \<longleftrightarrow> x = y \<and> starts_with xs ys" "starts_with xs []"
    "\<not> starts_with [] (y # ys)"
  by (auto simp: starts_with_def)

lemma starts_with_chunk:
  "ends_chunk t \<Longrightarrow> CHR ''/'' \<notin> set p \<Longrightarrow> starts_with (c @ t) p \<longleftrightarrow> starts_with c p"
proof (induction p arbitrary: c)
  case (Cons x p)
  then show ?case by (cases c; cases t) (auto simp: starts_with_Cons ends_chunk_def)
qed (simp add: starts_with_Cons)

lemma get_range_drop:
  "get bs i = Some c \<Longrightarrow> get_range bs (i + 1) (i + 4) = Some [x, y, z] \<longleftrightarrow> starts_with (drop i bs) [c, x, y, z]"
  by (auto simp: get_range_def starts_with_def get_Some_iff Cons_nth_drop_Suc [symmetric] take_Cons' drop_Suc numeral_eq_Suc
      split: if_splits)

lemma drop_append_eq: "drop i bs = u @ t \<Longrightarrow> i \<le> length bs \<Longrightarrow> drop (i + length u) bs = t \<and> i + length u \<le> length bs"
  by (metis append_eq_conv_conj drop_drop add.commute le_add_diff_inverse length_append length_drop nat_add_left_cancel_le le_add1)

text \<open>Copying a chunk: what was written before is kept, what is still to be read too.\<close>

definition copied :: "string \<Rightarrow> string \<Rightarrow> nat \<Rightarrow> nat \<Rightarrow> string \<Rightarrow> bool" where
  "copied bs bs' written i u \<longleftrightarrow> length bs' = length bs \<and> take (written + length u) bs' = take written bs @ u \<and>
     drop i bs' = drop i bs"

lemma copy_within_copied:
  assumes "drop i bs = u @ t" "written \<le> i" "i \<le> length bs"
  shows "\<exists>bs'. copy_within bs i (i + length u) written = Some bs' \<and> copied bs bs' written (i + length u) u"
proof -
  have l: "i + length u \<le> length bs" using drop_append_eq [OF assms(1,3)] by simp
  then have "get_range bs i (i + length u) = Some u" using assms(1) by (simp add: get_range_def)
  moreover obtain bs' where b: "blit bs written u = Some bs'" using l assms(2) blit_Some [of written u bs] by auto
  moreover have "copied bs bs' written (i + length u) u"
    using length_blit [OF b] take_blit [OF b] drop_blit [OF b] assms(2) by (simp add: copied_def)
  ultimately show ?thesis by (simp add: copy_within_def)
qed

lemma canon_copy_chunk:
  assumes "dsl_apart c" "CHR ''/'' \<notin> set c" "ends_chunk t" "drop i bs = c @ t" "drop ws bs = u @ c @ t" "i = ws + length u"
    "written \<le> ws" "i \<le> length bs"
  shows "\<exists>bs'. (if t = []
      then canon_copy bs ws i written = Some (CanonReturn bs' (written + length (u @ c))) \<and> copied bs bs' written (i + length c) (u @ c)
      else canon_copy bs ws i written = Some (CanonNext bs' (i + length c + 1) (written + length (u @ c @ [CHR ''/'']))) \<and>
        copied bs bs' written (i + length c + 1) (u @ c @ [CHR ''/'']))"
  using assms
proof (induction c arbitrary: i u)
  case Nil
  show ?case
  proof (cases t)
    case tn: Nil
    then have "get bs i = None" using Nil by (simp add: get_None_iff)
    moreover obtain bs' where "copy_within bs ws (ws + length u) written = Some bs'" "copied bs bs' written (ws + length u) u"
      using copy_within_copied [of ws bs u "[]" written] Nil tn by auto
    ultimately show ?thesis using Nil tn by (subst canon_copy.simps) auto
  next
    case (Cons x t')
    then have x: "x = CHR ''/''" using Nil by (simp add: ends_chunk_def)
    have g: "get bs i = Some (CHR ''/'')" using Nil(4) Cons x by (metis append_Nil get_drop get_Cons_0 add.right_neutral)
    obtain bs' where "copy_within bs ws (ws + length (u @ [CHR ''/''])) written = Some bs'"
        "copied bs bs' written (ws + length (u @ [CHR ''/''])) (u @ [CHR ''/''])"
      using copy_within_copied [of ws bs "u @ [CHR ''/'']" t' written] Nil Cons x by auto
    then show ?thesis using Nil Cons g by (subst canon_copy.simps) auto
  qed
next
  case (Cons x c)
  have g: "get bs i = Some x" using Cons.prems(4) by (metis append_Cons get_drop get_Cons_0 add.right_neutral)
  then have il: "i < length bs" by (simp add: get_Some_iff)
  have "\<not> (x = CHR ''$'' \<and> get_range bs (i + 1) (i + 4) = Some ''*$*'')"
    using Cons.prems(1,3,4) get_range_drop [OF g] starts_with_chunk [of t "''$*$*''" "x # c"] by auto
  then have eq: "canon_copy bs ws i written = canon_copy bs ws (i + 1) written"
    using g Cons.prems(2) by (subst canon_copy.simps) auto
  have "drop (i + 1) bs = c @ t" using Cons.prems(4) by (metis append_Cons drop_Suc list.sel(3) tl_drop add.commute plus_1_eq_Suc)
  from Cons.IH [OF _ _ Cons.prems(3) this, of "u @ [x]"] Cons.prems il show ?case unfolding eq by auto
qed

section \<open>The two agree\<close>

lemma blit_copied:
  assumes "written + length u \<le> i" "i \<le> length bs"
  shows "\<exists>bs'. blit bs written u = Some bs' \<and> copied bs bs' written i u"
proof -
  obtain bs' where b: "blit bs written u = Some bs'" using assms blit_Some [of written u bs] by auto
  then show ?thesis using length_blit [OF b] take_blit [OF b] drop_blit [OF b] assms by (auto simp: copied_def)
qed

lemma copied_trans:
  assumes "copied bs bs1 w i u" "copied bs1 bs2 (w + length u) i v"
  shows "copied bs bs2 w i (u @ v)"
  using assms by (simp add: copied_def add.assoc)

lemma copied_later: "copied bs bs' w i u \<Longrightarrow> i \<le> j \<Longrightarrow> drop j bs' = drop j bs"
  unfolding copied_def by (metis drop_drop le_add_diff_inverse2)

lemma strip_dsl_suffix: "\<exists>u. c = u @ strip_dsl c"
proof (induction c rule: strip_dsl.induct)
  case (1 c)
  show ?case
  proof (cases "starts_with c ''$*$*''")
    case True
    then obtain u where "drop 2 c = u @ strip_dsl (drop 2 c)" using 1 by blast
    then have "c = (take 2 c @ u) @ strip_dsl (drop 2 c)" by (metis append.assoc append_take_drop_id)
    then show ?thesis using strip_dsl_step(1) [OF True] by metis
  qed (simp add: strip_dsl_step)
qed

lemma strip_dsl_stuck: "\<not> starts_with (strip_dsl c) ''$*$*''"
  by (induction c rule: strip_dsl.induct) (subst strip_dsl.simps, simp)

lemma strip_dsl_length: "length (strip_dsl c) \<le> length c"
  using strip_dsl_suffix [of c] by (metis length_append le_add2)

text \<open>The leading \<open>$*\<close> of a chunk that starts with two are skipped.\<close>

lemma canonize_loop_strip:
  assumes "drop i bs = c @ t" "ends_chunk t" "i \<le> length bs"
  shows "canonize_loop bs i w dw = canonize_loop bs (i + (length c - length (strip_dsl c))) w dw"
  using assms
proof (induction c arbitrary: i rule: strip_dsl.induct)
  case (1 c)
  show ?case
  proof (cases "starts_with c ''$*$*''")
    case True
    then obtain r where c: "c = ''$*$*'' @ r" by (metis append_take_drop_id starts_with_def)
    have "canonize_loop bs i w dw = canonize_loop bs (i + 2) w dw"
      using "1.prems" c by (subst canonize_loop.simps) (simp add: after_star_def starts_with_def)
    also have "\<dots> = canonize_loop bs (i + 2 + (length (drop 2 c) - length (strip_dsl (drop 2 c)))) w dw"
    proof (rule "1.IH" [OF True])
      show "drop (i + 2) bs = drop 2 c @ t" "i + 2 \<le> length bs"
        using drop_append_eq [of i bs "''$*''" "''$*'' @ r @ t"] "1.prems" c by auto
    qed fact
    also have "i + 2 + (length (drop 2 c) - length (strip_dsl (drop 2 c))) = i + (length c - length (strip_dsl c))"
      using True c strip_dsl_length [of "drop 2 c"] by (simp add: strip_dsl_step)
    finally show ?thesis .
  qed (simp add: strip_dsl_step)
qed

lemma canon_list_ne [simp]: "cs \<noteq> [] \<or> dw \<Longrightarrow> canon_list cs dw \<noteq> []"
  by (induction cs dw rule: canon_list.induct) (auto simp: Let_def)

lemma join_chunks_Cons_ne: "L \<noteq> [] \<Longrightarrow> join_chunks (c # L) = c @ CHR ''/'' # join_chunks L"
  by (cases L) auto

text \<open>What the loop leaves: the canonical chunks after what was written before.\<close>

definition canon_result :: "string \<Rightarrow> nat \<Rightarrow> string list \<Rightarrow> (string \<times> nat) option \<Rightarrow> bool" where
  "canon_result bs w cs r \<longleftrightarrow> (\<exists>bs' n. r = Some (bs', n) \<and> take n bs' = take w bs @ join_chunks cs)"

lemma canon_result_later:
  assumes "copied bs bs1 w i u" "canon_result bs1 (w + length u) cs r" "u @ join_chunks cs = join_chunks ds"
  shows "canon_result bs w ds r"
  using assms by (auto simp: canon_result_def copied_def simp flip: append_assoc) (metis append_assoc)

lemma canon_result_done: "copied bs bs' w i u \<Longrightarrow> u = join_chunks cs \<Longrightarrow> n = w + length u \<Longrightarrow> canon_result bs w cs (Some (bs', n))"
  by (auto simp: canon_result_def copied_def)

lemma loop_double_wild:
  assumes d: "drop i bs = ''**'' @ t" and t: "ends_chunk t" and i: "i \<le> length bs" and w: "w \<le> i"
    and IH: "\<And>r. t = CHR ''/'' # r \<Longrightarrow> canon_result bs w ds (canonize_loop bs (i + 3) w True)"
    and last: "t = [] \<Longrightarrow> ds = [''**'']"
  shows "canon_result bs w ds (canonize_loop bs i w dw)"
proof (cases t)
  case Nil
  obtain bs' where "blit bs w ''**'' = Some bs'" "copied bs bs' w (i + 2) ''**''"
    using blit_copied [of w "''**''" "i + 2" bs] drop_append_eq [OF d i] w by auto
  then show ?thesis using d i Nil last by (subst canonize_loop.simps) (auto intro: canon_result_done)
next
  case (Cons x r)
  then have x: "x = CHR ''/''" using t by (simp add: ends_chunk_def)
  then have "canonize_loop bs i w dw = canonize_loop bs (i + 3) w True"
    using d i Cons by (subst canonize_loop.simps) (simp add: starts_with_def)
  then show ?thesis using IH Cons x by simp
qed

lemma loop_star:
  assumes d: "drop i bs = c @ t" and c: "c = ''*'' \<or> c = ''$*''" and t: "ends_chunk t" and i: "i \<le> length bs"
    and w: "w + (if dw then 3 else 0) \<le> i"
    and IH: "\<And>r bs'. t = CHR ''/'' # r \<Longrightarrow> copied bs bs' w (i + length c + 1) ''*/'' \<Longrightarrow>
      canon_result bs' (w + 2) ds (canonize_loop bs' (i + length c + 1) (w + 2) dw)"
    and ds: "t \<noteq> [] \<Longrightarrow> ds \<noteq> []" and last: "t = [] \<Longrightarrow> ds = (if dw then [''**''] else [])"
  shows "canon_result bs w (''*'' # ds) (canonize_loop bs i w dw)"
proof -
  have a: "after_star (c @ t) = Some t" "c @ t \<noteq> ''**''" "\<not> starts_with (c @ t) ''**/''"
    using c t by (cases t; auto simp: after_star_def starts_with_def ends_chunk_def)+
  note l = drop_append_eq [OF d i]
  have cl: "1 \<le> length c" using c by auto
  show ?thesis
  proof (cases t)
    case Nil
    obtain bs1 where b1: "blit bs w ''*'' = Some bs1" "copied bs bs1 w (i + length c) ''*''"
      using blit_copied [of w "''*''" "i + length c" bs] l w cl by auto
    show ?thesis
    proof (cases dw)
      case True
      have "w + 1 + 3 \<le> i + length c" using w cl True by simp
      then obtain bs2 where b2: "blit bs1 (w + 1) ''/**'' = Some bs2" "copied bs1 bs2 (w + 1) (i + length c) ''/**''"
        using blit_copied [of "w + 1" "''/**''" "i + length c" bs1] l b1(2) by (auto simp: copied_def)
      have "copied bs bs2 w (i + length c) (''*'' @ ''/**'')" using copied_trans [OF b1(2)] b2(2) by simp
      then show ?thesis using d i a Nil b1(1) b2(1) True last
        by (subst canonize_loop.simps) (auto intro: canon_result_done)
    next
      case False
      then show ?thesis using d i a Nil b1 last by (subst canonize_loop.simps) (auto intro: canon_result_done)
    qed
  next
    case (Cons x r)
    then have x: "x = CHR ''/''" using t by (simp add: ends_chunk_def)
    have l1: "i + length c + 1 \<le> length bs" using l Cons by (metis add.commute drop_eq_Nil2 list.distinct(1) not_less_eq_eq plus_1_eq_Suc)
    obtain bs1 where b1: "blit bs w ''*'' = Some bs1" "copied bs bs1 w (i + length c + 1) ''*''"
      using blit_copied [of w "''*''" "i + length c + 1" bs] l1 w by auto
    obtain bs2 where b2: "blit bs1 (w + 1) ''/'' = Some bs2" "copied bs1 bs2 (w + 1) (i + length c + 1) ''/''"
      using blit_copied [of "w + 1" "''/''" "i + length c + 1" bs1] l1 w cl b1(2) by (auto simp: copied_def)
    have cp: "copied bs bs2 w (i + length c + 1) (''*'' @ ''/'')" using copied_trans [OF b1(2)] b2(2) by simp
    have "length bs - length t + 1 = i + length c + 1" using l by (metis add_diff_cancel_right' add.commute le_add_diff_inverse length_drop)
    then have "canonize_loop bs i w dw = canonize_loop bs2 (i + length c + 1) (w + 2) dw"
      using d i a Cons b1(1) b2(1) by (subst canonize_loop.simps) simp
    then show ?thesis using canon_result_later [OF cp] IH [of r bs2] cp Cons x ds by (simp add: join_chunks_Cons_ne)
  qed
qed

lemma literal_arm:
  assumes t: "ends_chunk t" and c: "CHR ''/'' \<notin> set c" "c \<noteq> ''*''" "c \<noteq> ''**''" "c \<noteq> ''$*''" "\<not> starts_with c ''$*$*''"
  shows "c @ t \<noteq> ''**''" "\<not> starts_with (c @ t) ''**/''" "after_star (c @ t) = None" "\<not> starts_with (c @ t) ''$*$*''"
proof -
  show "\<not> starts_with (c @ t) ''$*$*''" using starts_with_chunk [OF t, of "''$*$*''" c] c by simp
  have at: "\<not> (\<exists>r. c @ t = p @ r \<and> ends_chunk r)" if "c \<noteq> p" "CHR ''/'' \<notin> set p" for p
  proof
    assume "\<exists>r. c @ t = p @ r \<and> ends_chunk r"
    then obtain r where r: "c @ t = p @ r" "ends_chunk r" by blast
    have "takeWhile (\<lambda>x. x \<noteq> CHR ''/'') (q @ s) = q" if "CHR ''/'' \<notin> set q" "ends_chunk s" for q s
      using that by (induction q) (cases s; auto simp: ends_chunk_def)+
    from this [OF c(1) t] this [OF \<open>CHR ''/'' \<notin> set p\<close> r(2)] r(1) \<open>c \<noteq> p\<close> show False by simp
  qed
  have e: "ends_chunk r" if "r = [] \<or> starts_with r ''/''" for r using that by (cases r) (auto simp: ends_chunk_def starts_with_Cons)
  show "c @ t \<noteq> ''**''" using at [of "''**''"] c(3) by (auto simp: ends_chunk_def)
  show "\<not> starts_with (c @ t) ''**/''"
  proof
    assume "starts_with (c @ t) ''**/''"
    then have "c @ t = ''**'' @ (CHR ''/'' # drop 3 (c @ t))"
      by (metis append_Cons append_Nil append_take_drop_id starts_with_def length_Cons list.size(3) numeral_3_eq_3)
    then show False using at [of "''**''"] c(3) by (auto simp: ends_chunk_def)
  qed
  have "\<not> (starts_with (c @ t) p \<and> (drop (length p) (c @ t) = [] \<or> starts_with (drop (length p) (c @ t)) ''/''))"
    if "c \<noteq> p" "CHR ''/'' \<notin> set p" for p
    using at [OF that] e by (metis append_take_drop_id starts_with_def)
  from this [of "''*''"] this [of "''$*''"] c show "after_star (c @ t) = None"
    by (simp add: after_star_def numeral_2_eq_2)
qed

lemma loop_literal:
  assumes d: "drop i bs = c @ t" and t: "ends_chunk t" and i: "i \<le> length bs" and w: "w + (if dw then 3 else 0) \<le> i"
    and c: "CHR ''/'' \<notin> set c" "c \<noteq> ''*''" "c \<noteq> ''**''" "c \<noteq> ''$*''" "\<not> starts_with c ''$*$*''" and ap: "dsl_apart c"
    and IH: "\<And>r bs' w'. t = CHR ''/'' # r \<Longrightarrow> length bs' = length bs \<Longrightarrow> drop (i + length c + 1) bs' = drop (i + length c + 1) bs \<Longrightarrow>
      w' \<le> i + length c + 1 \<Longrightarrow> canon_result bs' w' ds (canonize_loop bs' (i + length c + 1) w' False)"
    and ds: "t \<noteq> [] \<Longrightarrow> ds \<noteq> []" and last: "t = [] \<Longrightarrow> ds = []"
  shows "canon_result bs w ((if dw then [''**''] else []) @ c # ds) (canonize_loop bs i w dw)"
proof -
  define u where "u = (if dw then ''**/'' else [])"
  note no = literal_arm [OF t c]
  have "\<exists>bs1. (if dw \<and> c @ t \<noteq> ''**'' then map_option (\<lambda>bs. (bs, w + 3, False)) (blit bs w ''**/'')
        else Some (bs, w, dw)) = Some (bs1, w + length u, False) \<and> copied bs bs1 w i u"
    using blit_copied [of w "''**/''" i bs] i w no(1) by (cases dw) (auto simp: u_def copied_def)
  then obtain bs1 where b1: "(if dw \<and> c @ t \<noteq> ''**'' then map_option (\<lambda>bs. (bs, w + 3, False)) (blit bs w ''**/'')
        else Some (bs, w, dw)) = Some (bs1, w + length u, False)" and cp: "copied bs bs1 w i u" by blast
  have d1: "drop i bs1 = c @ t" "length bs1 = length bs" using d cp by (simp_all add: copied_def)
  have w1: "w + length u \<le> i" using w by (auto simp: u_def split: if_splits)
  have eq: "canonize_loop bs i w dw = (case canon_copy bs1 i i (w + length u) of None \<Rightarrow> None
      | Some (CanonReturn bs2 n) \<Rightarrow> Some (bs2, n) | Some (CanonNext bs2 i2 w2) \<Rightarrow> canonize_loop bs2 i2 w2 False)"
    using d i no b1 by (subst canonize_loop.simps) simp
  note cc = canon_copy_chunk [OF ap c(1) t, of i bs1 i "[]" "w + length u"]
  have u: "u @ join_chunks (c # ds) = join_chunks ((if dw then [''**''] else []) @ c # ds)" by (simp add: u_def)
  show ?thesis
  proof (cases t)
    case Nil
    then obtain bs2 where b2: "canon_copy bs1 i i (w + length u) = Some (CanonReturn bs2 (w + length u + length c))"
        "copied bs1 bs2 (w + length u) (i + length c) c"
      using cc d1 w1 i by auto
    have "canon_result bs1 (w + length u) (c # ds) (canonize_loop bs i w dw)"
      unfolding eq b2(1) using canon_result_done [OF b2(2), of "[c]"] last Nil by simp
    then show ?thesis by (rule canon_result_later [OF cp _ u])
  next
    case (Cons x r)
    then have x: "x = CHR ''/''" using t by (simp add: ends_chunk_def)
    then obtain bs2 where b2: "canon_copy bs1 i i (w + length u) = Some (CanonNext bs2 (i + length c + 1) (w + length u + length (c @ ''/'')))"
        "copied bs1 bs2 (w + length u) (i + length c + 1) (c @ ''/'')"
      using cc d1 w1 i Cons by auto
    have "canon_result bs2 (w + length u + length (c @ ''/'')) ds (canonize_loop bs2 (i + length c + 1) (w + length u + length (c @ ''/'')) False)"
    proof (rule IH)
      show "t = CHR ''/'' # r" using Cons x by simp
      show "length bs2 = length bs" using b2(2) d1(2) by (simp add: copied_def)
      show "drop (i + length c + 1) bs2 = drop (i + length c + 1) bs"
        using b2(2) copied_later [OF cp, of "i + length c + 1"] by (simp add: copied_def)
      show "w + length u + length (c @ ''/'') \<le> i + length c + 1" using w1 by simp
    qed
    from canon_result_later [OF b2(2) this, of "c # ds"] ds Cons
    have "canon_result bs1 (w + length u) (c # ds) (canonize_loop bs i w dw)" unfolding eq b2(1) by (simp add: join_chunks_Cons_ne)
    then show ?thesis by (rule canon_result_later [OF cp _ u])
  qed
qed

lemma canonize_loop_chunks:
  assumes "cs \<noteq> []" "\<forall>c\<in>set cs. CHR ''/'' \<notin> set c \<and> dsl_apart (strip_dsl c)" "drop i bs = join_chunks cs" "i \<le> length bs"
    "w + (if dw then 3 else 0) \<le> i"
  shows "canon_result bs w (canon_list cs dw) (canonize_loop bs i w dw)"
  using assms
proof (induction cs arbitrary: i bs w dw)
  case (Cons c0 cs)
  define t where "t = (if cs = [] then [] else CHR ''/'' # join_chunks cs)"
  define c where "c = strip_dsl c0"
  define j where "j = i + (length c0 - length c)"
  have t: "ends_chunk t" by (simp add: t_def ends_chunk_def)
  obtain u where u: "c0 = u @ c" using strip_dsl_suffix c_def by blast
  have d0: "drop i bs = c0 @ t" using Cons.prems(3) by (simp add: t_def join_chunks_Cons)
  have "length c0 = length u + length c" using u by (metis length_append)
  then have ju: "j = i + length u" by (simp add: j_def)
  have "drop i bs = u @ c @ t" using d0 u by (metis append_assoc)
  from drop_append_eq [OF this Cons.prems(4)] have d: "drop j bs = c @ t" and j: "j \<le> length bs" unfolding ju by blast+
  have eq: "canonize_loop bs i w dw = canonize_loop bs j w dw" using canonize_loop_strip [OF d0 t Cons.prems(4)] by (simp add: j_def c_def)
  have "CHR ''/'' \<notin> set (u @ c)" using Cons.prems(2) u by (metis list.set_intros(1))
  then have c: "CHR ''/'' \<notin> set c" "dsl_apart c" "\<not> starts_with c ''$*$*''"
    using Cons.prems(2) strip_dsl_stuck [of c0] by (simp_all add: c_def)
  have w: "w + (if dw then 3 else 0) \<le> j" using Cons.prems(5) by (simp add: j_def)
  have next': "canon_result bs' w' (canon_list cs dw') (canonize_loop bs' (j + length c + 1) w' dw')"
    if "t = CHR ''/'' # r" "length bs' = length bs" "drop (j + length c + 1) bs' = drop (j + length c + 1) bs"
      "w' + (if dw' then 3 else 0) \<le> j + length c + 1" for bs' w' dw' r
  proof (rule Cons.IH)
    show "cs \<noteq> []" using that(1) by (auto simp: t_def)
    have "drop (j + length (c @ ''/'')) bs = r" "j + length (c @ ''/'') \<le> length bs"
      using drop_append_eq [of j bs "c @ ''/''" r] d j that(1) by auto
    then show "drop (j + length c + 1) bs' = join_chunks cs" "j + length c + 1 \<le> length bs'"
      using that(1-3) by (auto simp: t_def split: if_splits)
  qed (use Cons.prems(2) that(4) in auto)
  have ne: "t \<noteq> [] \<Longrightarrow> canon_list cs dw' \<noteq> []" for dw' by (auto simp: t_def split: if_splits)
  have nil: "t = [] \<Longrightarrow> cs = []" by (auto simp: t_def split: if_splits)
  consider "c = ''**''" | "c = ''*'' \<or> c = ''$*''" | "c \<noteq> ''*''" "c \<noteq> ''**''" "c \<noteq> ''$*''" by blast
  then show ?case
  proof cases
    case 1
    have "canon_result bs w (canon_list cs True) (canonize_loop bs j w dw)"
      by (rule loop_double_wild [OF d [unfolded 1] t j]) (use w next' [of _ bs w True] nil 1 in \<open>auto simp: numeral_3_eq_3 split: if_splits\<close>)
    then show ?thesis using 1 by (simp add: eq canon_chunk_def c_def [symmetric])
  next
    case 2
    have "canon_result bs w (''*'' # canon_list cs dw) (canonize_loop bs j w dw)"
    proof (rule loop_star [OF d 2 t j w])
      fix r bs' assume "t = CHR ''/'' # r" "copied bs bs' w (j + length c + 1) ''*/''"
      then show "canon_result bs' (w + 2) (canon_list cs dw) (canonize_loop bs' (j + length c + 1) (w + 2) dw)"
        using next' [of r bs' "w + 2" dw] w 2 by (auto simp: copied_def)
    qed (use ne nil in auto)
    then show ?thesis using 2 by (auto simp: eq canon_chunk_def c_def [symmetric])
  next
    case 3
    have "canon_result bs w ((if dw then [''**''] else []) @ c # canon_list cs False) (canonize_loop bs j w dw)"
      by (rule loop_literal [OF d t j w c(1) 3(1,2,3) c(3,2)]) (use next' [of _ _ _ False] ne nil in auto)
    then show ?thesis using 3 by (simp add: eq canon_chunk_def c_def [symmetric])
  qed
qed simp

lemma canonize_chunks:
  assumes "\<forall>c\<in>set (split_on (CHR ''/'') s). dsl_apart (strip_dsl c)"
  shows "string_canonize s = Some (join_chunks (canon_list (split_on (CHR ''/'') s) False))"
proof -
  have "canon_result s 0 (canon_list (split_on (CHR ''/'') s) False) (canonize_loop s 0 0 False)"
    by (rule canonize_loop_chunks) (use assms in \<open>auto simp: join_split_on dest: split_on_slashfree\<close>)
  then show ?thesis by (auto simp: string_canonize_def canonize_def canon_result_def)
qed

section \<open>Canonisation keeps the meaning\<close>

lemma starts_dsl: "starts_with c p \<longleftrightarrow> (\<exists>r. c = p @ r)"
proof
  assume "starts_with c p"
  then show "\<exists>r. c = p @ r" using append_take_drop_id [of "length p" c] by (metis starts_with_def)
next
  assume "\<exists>r. c = p @ r"
  then show "starts_with c p" by (auto simp: starts_with_def)
qed

lemma strip_dsl_cases: "strip_dsl c = c \<or> (\<exists>r r'. c = ''$*'' @ r \<and> strip_dsl c = ''$*'' @ r')"
proof (induction c rule: strip_dsl.induct)
  case (1 c)
  show ?case
  proof (cases "starts_with c ''$*$*''")
    case True
    then obtain r where c: "c = ''$*$*'' @ r" by (auto simp: starts_dsl)
    have "strip_dsl c = strip_dsl (''$*'' @ r)" using True c by (simp add: strip_dsl_step)
    moreover have "\<exists>r'. strip_dsl (''$*'' @ r) = ''$*'' @ r'" using 1 [OF True] c by auto
    ultimately have "\<exists>r'. strip_dsl c = ''$*'' @ r'" by simp
    then show ?thesis using c by (intro disjI2) simp
  qed (simp add: strip_dsl_step)
qed

lemma dsl_match_strip: "dsl_match (strip_dsl c) k = dsl_match c k"
proof (induction c rule: strip_dsl.induct)
  case (1 c)
  show ?case
  proof (cases "starts_with c ''$*$*''")
    case True
    then obtain r where c: "c = ''$*$*'' @ r" by (auto simp: starts_dsl)
    have "(\<exists>u v. k = u @ v \<and> (\<exists>u' v'. v = u' @ v' \<and> dsl_match r v')) = (\<exists>u v. k = u @ v \<and> dsl_match r v)"
      by (metis append_Nil append_assoc)
    then have "dsl_match c k = dsl_match (''$*'' @ r) k" unfolding c by (simp add: dsl_match_star_iff)
    then show ?thesis using 1 [OF True] True c by (simp add: strip_dsl_step)
  qed (simp add: strip_dsl_step)
qed

lemma canon_chunk_double_wild [simp]: "canon_chunk c = ''**'' \<longleftrightarrow> c = ''**''"
proof
  assume "canon_chunk c = ''**''"
  then have "strip_dsl c = ''**''" by (simp add: canon_chunk_def split: if_splits)
  then show "c = ''**''" using strip_dsl_cases [of c] by auto
qed (simp add: canon_chunk_def strip_dsl_step starts_with_def)

lemma chunk_match_canon: "chunk_match (canon_chunk c) k = chunk_match c k"
proof -
  have v: "has_direct_verbatim (strip_dsl c) = has_direct_verbatim c" "has_direct_verbatim c \<Longrightarrow> strip_dsl c = c"
    using strip_dsl_cases [of c] by auto
  have n: "strip_dsl c = ''$*'' \<Longrightarrow> \<not> has_direct_verbatim c" using strip_dsl_cases [of c] by auto
  have s: "strip_dsl c = ''*'' \<longleftrightarrow> c = ''*''"
    using strip_dsl_cases [of c] strip_dsl_step(2) [of "''*''"] by (auto simp: starts_with_def)
  have m: "strip_dsl c = ''$*'' \<Longrightarrow> dsl_match c k" using dsl_match_strip [of c k] by (simp add: dsl_match_star_iff)
  show ?thesis using v n s m dsl_match_strip [of c k] by (auto simp: chunk_match_def canon_chunk_def)
qed

lemma ke_match_Cons_cong: "(\<And>ks. ke_match ps ks = ke_match qs ks) \<Longrightarrow> ke_match (p # ps) ks = ke_match (p # qs) ks"
  by (cases "p = ''**''") (simp_all add: ke_match_double_wild ke_match_Cons_other)

lemma ke_match_twice: "ke_match (''**'' # ''**'' # ps) ks = ke_match (''**'' # ps) ks"
proof -
  have "\<exists>us vs. ks = us @ vs \<and> list_all (\<lambda>k. \<not> has_direct_verbatim k) us \<and> ke_match ps vs"
    if "ks = us @ us' @ vs" "list_all (\<lambda>k. \<not> has_direct_verbatim k) us" "list_all (\<lambda>k. \<not> has_direct_verbatim k) us'" "ke_match ps vs" for us us' vs
    using that by (intro exI [of _ "us @ us'"] exI [of _ vs]) simp
  then show ?thesis by (auto simp: ke_match_double_wild) (metis append_Nil list.pred_inject(1))
qed

lemma ke_match_swap: "ke_match (''**'' # ''*'' # ps) ks = ke_match (''*'' # ''**'' # ps) ks"
proof -
  have st: "chunk_match ''*'' k \<longleftrightarrow> \<not> has_direct_verbatim k" for k by (auto simp: chunk_match_def)
  have "(\<exists>us k vs. ks = us @ k # vs \<and> list_all (\<lambda>k. \<not> has_direct_verbatim k) us \<and> \<not> has_direct_verbatim k \<and> ke_match ps vs) \<longleftrightarrow>
      (\<exists>k us vs. ks = k # us @ vs \<and> \<not> has_direct_verbatim k \<and> list_all (\<lambda>k. \<not> has_direct_verbatim k) us \<and> ke_match ps vs)" (is "?L = ?R")
  proof
    assume ?L
    then obtain us k vs where h: "ks = us @ k # vs" "list_all (\<lambda>k. \<not> has_direct_verbatim k) us" "\<not> has_direct_verbatim k" "ke_match ps vs" by blast
    show ?R
    proof (cases us)
      case Nil
      then show ?thesis using h by (intro exI [of _ k] exI [of _ "[]"] exI [of _ vs]) simp
    next
      case (Cons u us')
      then show ?thesis using h by (intro exI [of _ u] exI [of _ "us' @ [k]"] exI [of _ vs]) simp
    qed
  next
    assume ?R
    then obtain us k vs where h: "ks = k # us @ vs" "list_all (\<lambda>k. \<not> has_direct_verbatim k) us" "\<not> has_direct_verbatim k" "ke_match ps vs" by blast
    show ?L
    proof (cases us rule: rev_cases)
      case Nil
      then show ?thesis using h by (intro exI [of _ "[]"] exI [of _ k] exI [of _ vs]) simp
    next
      case (snoc us' u)
      then show ?thesis using h by (intro exI [of _ "k # us'"] exI [of _ u] exI [of _ vs]) simp
    qed
  qed
  then show ?thesis by (simp add: ke_match_double_wild ke_match_Cons_other st) blast
qed

lemma ke_match_canon: "ke_match (canon_list cs dw) ks = ke_match ((if dw then [''**''] else []) @ cs) ks"
proof (induction cs dw arbitrary: ks rule: canon_list.induct)
  case (2 c cs dw)
  consider "c = ''**''" | "c \<noteq> ''**''" "canon_chunk c = ''*''" | "c \<noteq> ''**''" "canon_chunk c \<noteq> ''*''" by blast
  then show ?case
  proof cases
    case 1
    then show ?thesis using "2.IH"(1) [OF refl] by (cases dw) (simp_all add: ke_match_twice)
  next
    case 2
    have e: "ke_match (''*'' # L) ks = ke_match (c # L) ks" for L ks
      using 2 chunk_match_canon [of c] by (simp add: ke_match_Cons_other)
    have "ke_match (''*'' # canon_list cs dw) ks = ke_match (''*'' # (if dw then [''**''] else []) @ cs) ks"
      using "2.IH"(2) [OF refl] 2 by (intro ke_match_Cons_cong) simp
    also have "\<dots> = ke_match ((if dw then [''**''] else []) @ ''*'' # cs) ks" by (simp add: ke_match_swap)
    also have "\<dots> = ke_match ((if dw then [''**''] else []) @ c # cs) ks"
      using e ke_match_Cons_cong [of "''*'' # cs" "c # cs"] by simp
    finally show ?thesis using 2 by simp
  next
    case 3
    have e: "ke_match (canon_chunk c # L) ks = ke_match (c # L) ks" for L ks
      using 3 chunk_match_canon [of c] by (simp add: ke_match_Cons_other)
    have "ke_match (canon_chunk c # canon_list cs False) ks = ke_match (c # cs) ks" for ks
      unfolding e using "2.IH"(3) [OF refl] 3 by (intro ke_match_Cons_cong) simp
    then show ?thesis using 3 ke_match_Cons_cong [of "canon_chunk c # canon_list cs False" "c # cs"] by (simp add: Let_def)
  qed
qed simp

section \<open>Canonisation gives canonical chunks\<close>

lemma canon_ok_Cons: "canon_ok (a # L) \<longleftrightarrow> (a = ''**'' \<longrightarrow> L = [] \<or> hd L \<noteq> ''*'' \<and> hd L \<noteq> ''**'') \<and> canon_ok L"
  by (cases L) auto

lemma canon_list_ok:
  assumes "\<forall>c\<in>set cs. chunk_ok (canon_chunk c)"
  shows "list_all chunk_ok (canon_list cs dw) \<and> canon_ok (canon_list cs dw)"
  using assms
proof (induction cs dw rule: canon_list.induct)
  case (1 dw)
  then show ?case by (simp add: chunk_ok_def)
next
  case (2 c cs dw)
  have w: "chunk_ok ''**''" by (simp add: chunk_ok_def)
  show ?case
  proof (cases "c = ''**''")
    case True
    then show ?thesis using "2.IH"(1) [OF refl] "2.prems" by simp
  next
    case False
    then show ?thesis using 2 w by (cases "canon_chunk c = ''*''") (auto simp: Let_def canon_ok_Cons)
  qed
qed

lemma canon_list_id:
  assumes "list_all chunk_ok cs" "canon_ok ((if dw then [''**''] else []) @ cs)"
  shows "canon_list cs dw = (if dw then [''**''] else []) @ cs"
  using assms
proof (induction cs dw rule: canon_list.induct)
  case (2 c cs dw)
  have "\<not> starts_with c ''$*$*'' \<and> c \<noteq> ''$*''" using 2(4) by (auto simp: starts_dsl chunk_ok_def)
  then have "canon_chunk c = c" by (simp add: canon_chunk_def strip_dsl_step)
  then show ?case using 2 by (auto simp: Let_def canon_ok_Cons split: if_splits)
qed simp

lemma dsl_ok_apart: "dsl_ok c \<Longrightarrow> dsl_apart c"
proof (induction c rule: dsl_ok.induct)
  case (2 c s)
  then show ?case
  proof (cases s)
    case (Cons d s')
    then show ?thesis using 2 by (cases s') (auto simp: starts_with_Cons split: if_splits)
  qed (simp add: starts_with_Cons)
qed simp

lemma chunk_ok_apart: "chunk_ok (canon_chunk c) \<Longrightarrow> dsl_apart (strip_dsl c)"
  by (auto simp: canon_chunk_def chunk_ok_def starts_with_def dsl_ok_apart split: if_splits)

lemma autocanonize_chunks:
  assumes "\<forall>c\<in>set (split_on DELIMITER s). chunk_ok (canon_chunk c)"
  shows "\<exists>k. autocanonize s = Some (Inr k) \<and> valid_ke k \<and> split_on DELIMITER k = canon_list (split_on DELIMITER s) False \<and>
    ke_keys k = ke_keys s \<and> (try_from s = Inr s \<longrightarrow> k = s)"
proof -
  let ?cs = "split_on (CHR ''/'') s" and ?ds = "canon_list (split_on (CHR ''/'') s) False"
  have a: "\<forall>c\<in>set ?cs. chunk_ok (canon_chunk c)" using assms by simp
  then have k: "string_canonize s = Some (join_chunks ?ds)" by (intro canonize_chunks) (auto dest: chunk_ok_apart)
  have ok: "ke_ok ?ds" using canon_list_ok [OF a, of False] by (simp add: ke_ok_def)
  have v: "valid_ke (join_chunks ?ds)" using ok by (rule valid_ke_join)
  then have sp: "split_on (CHR ''/'') (join_chunks ?ds) = ?ds"
    using ok by (intro split_on_join) (auto simp: ke_ok_def list_all_iff plain_chunk_def dest!: chunk_ok_plain)
  have "ke_keys (join_chunks ?ds) = ke_keys s" using ke_match_canon [of ?cs False] sp by (simp add: ke_keys_def)
  moreover have "join_chunks ?ds = s" if "try_from s = Inr s"
    using that canon_list_id [of ?cs False] join_split_on [of s] valid_ke_ok [of s] by (simp add: valid_ke_def ke_ok_def)
  ultimately show ?thesis using k v sp by (simp add: autocanonize_def valid_ke_def)
qed

text \<open>(C12) \<open>autocanonize\<close> is right on every string whose chunks are acceptable once their leading repeated \<open>$*\<close> are
  reduced: it does not panic, the result is accepted as a key expression, it denotes the same keys as the
  string, and a string that is canonical already is left as it is.\<close>

theorem autocanonize_correct:
  assumes "\<forall>c\<in>set (split_on DELIMITER s). chunk_ok (canon_chunk c)"
  shows "\<exists>k. autocanonize s = Some (Inr k) \<and> ke_keys k = ke_keys s \<and> (try_from s = Inr s \<longrightarrow> k = s)"
  using autocanonize_chunks [OF assms] by blast

theorem autocanonize_correct_witness:
  "\<exists>k. autocanonize ''a/**/$*$*/**/$*$*b$*'' = Some (Inr k) \<and> ke_keys k = ke_keys ''a/**/$*$*/**/$*$*b$*'' \<and>
     (try_from ''a/**/$*$*/**/$*$*b$*'' = Inr ''a/**/$*$*/**/$*$*b$*'' \<longrightarrow> k = ''a/**/$*$*/**/$*$*b$*'')"
  by (rule autocanonize_correct) code_simp

section \<open>Repeated \<open>$*\<close> inside a chunk\<close>

abbreviation plain :: "string \<Rightarrow> bool" where
  "plain u \<equiv> set u \<inter> {CHR ''/'', CHR ''$'', CHR ''*''} = {}"

lemma canon_copy_plain:
  assumes "drop i bs = u @ t" "plain u"
  shows "canon_copy bs ws i w = canon_copy bs ws (i + length u) w"
  using assms
proof (induction u arbitrary: i)
  case (Cons x u)
  have g: "get bs i = Some x" using Cons.prems(1) by (metis append_Cons get_drop get_Cons_0 add.right_neutral)
  have "canon_copy bs ws i w = canon_copy bs ws (i + 1) w"
    using g Cons.prems(2) by (subst canon_copy.simps) auto
  also have "\<dots> = canon_copy bs ws (i + 1 + length u) w"
    using Cons.prems by (intro Cons.IH) (simp_all add: drop_Suc drop_tl)
  finally show ?case by simp
qed simp

text \<open>The first two \<open>$*\<close>: the buffer is as it was, and the look-ahead starts two bytes after them.\<close>

lemma canonize_two_dsl:
  assumes u: "u \<noteq> []" "plain u" and bs: "bs = u @ ''$*$*'' @ r"
  shows "canonize bs =
    (if length r < 2 then None
     else let next = length u + 4 + 2 * count_dsl (drop 2 r) in
       case canon_copy bs next next (length u + 2) of None \<Rightarrow> None
       | Some (CanonReturn bs2 n) \<Rightarrow> Some (bs2, n) | Some (CanonNext bs2 index2 written2) \<Rightarrow> canonize_loop bs2 index2 written2 False)"
proof -
  obtain x v where xv: "u = x # v" "x \<noteq> CHR ''/''" "x \<noteq> CHR ''$''" "x \<noteq> CHR ''*''" using u by (cases u) auto
  have g: "get bs (length u) = Some (CHR ''$'')" "get_range bs (length u + 1) (length u + 4) = Some ''*$*''"
    by (simp_all add: bs get_Some_iff get_range_def nth_append)
  have c: "copy_within bs 0 (length u + 2) 0 = Some bs" by (simp add: bs copy_within_def get_range_def blit_def)
  have s: "slice_from bs (length u + 2 + 4) = (if length r < 2 then None else Some (drop 2 r))"
    by (auto simp: bs slice_from_def)
  have "canon_copy bs 0 0 0 = canon_copy bs 0 (length u) 0" using canon_copy_plain [of 0 bs u _ 0 0] u(2) bs by simp
  also have "\<dots> = (if length r < 2 then None else
      let next = length u + 4 + 2 * count_dsl (drop 2 r) in canon_copy bs next next (length u + 2))"
    using g c s by (subst canon_copy.simps) (simp add: Let_def numeral_eq_Suc)
  finally have cc: "canon_copy bs 0 0 0 = (if length r < 2 then None else
      let next = length u + 4 + 2 * count_dsl (drop 2 r) in canon_copy bs next next (length u + 2))" .
  have "slice_from bs 0 = Some bs" "bs \<noteq> ''**''" "\<not> starts_with bs ''**/''" "after_star bs = None" "\<not> starts_with bs ''$*$*''"
    using xv bs by (auto simp: slice_from_def after_star_def starts_with_Cons)
  then show ?thesis unfolding canonize_def by (subst canonize_loop.simps) (simp add: cc Let_def)
qed

text \<open>The chunk ends with the string: what follows is moved up behind what was written.\<close>

lemma canonize_dsl_rest:
  assumes u: "u \<noteq> []" "plain u" and bs: "bs = u @ ''$*$*'' @ r" and n: "2 \<le> length r" "next = length u + 4 + 2 * count_dsl (drop 2 r)"
    and d: "drop next bs = d" "next \<le> length bs" "dsl_apart d" "CHR ''/'' \<notin> set d"
  shows "string_canonize bs = Some (u @ ''$*'' @ d)"
proof -
  from canon_copy_chunk [of d "[]" "next" bs "next" "[]" "length u + 2"] d n obtain bs' where
    k: "canon_copy bs next next (length u + 2) = Some (CanonReturn bs' (length u + 2 + length d))"
    "copied bs bs' (length u + 2) (next + length d) d" by (auto simp: ends_chunk_def)
  have "take (length u + 2 + length d) bs' = u @ ''$*'' @ d" using k(2) by (simp add: copied_def bs)
  then show ?thesis using canonize_two_dsl [OF u bs] k(1) n by (simp add: string_canonize_def Let_def)
qed

lemma dsl_apart_plain: "plain r \<Longrightarrow> dsl_apart r" "plain r \<Longrightarrow> dsl_apart (''$*'' @ r)"
proof -
  show a: "plain r \<Longrightarrow> dsl_apart r" for r by (induction r) (auto simp: starts_with_Cons)
  show "plain r \<Longrightarrow> dsl_apart (''$*'' @ r)" using a [of r] by (cases r) (auto simp: starts_with_Cons)
qed

lemma count_dsl_plain [simp]: "x \<noteq> CHR ''$'' \<Longrightarrow> count_dsl (x # r) = 0" "CHR ''$'' \<notin> set r \<Longrightarrow> count_dsl r = 0"
  by (cases r rule: count_dsl.cases; auto)+

lemma two_dsl_refused:
  assumes "plain u" "plain r" "u \<noteq> []"
  shows "\<exists>e. try_from (u @ ''$*$*'' @ r) = Inl e"
proof -
  let ?c = "u @ ''$*$*'' @ r"
  have "split_on (CHR ''/'') ?c = [?c]" using assms by (intro split_on_noslash) auto
  moreover have "\<not> dsl_ok ?c" using assms(1) by (induction u) auto
  then have "\<not> chunk_ok ?c" using assms by (auto simp: chunk_ok_def)
  ultimately have "\<not> valid_ke ?c" by (simp add: valid_ke_ok ke_ok_def)
  then show ?thesis by (cases "try_from ?c") (auto simp: valid_ke_def dest: try_from_Inr)
qed

text \<open>(C38) Repeated \<open>$*\<close> after other characters of a chunk are not canonised as documented (\<open>u$*$*r\<close> should become \<open>u$*r\<close>, for
  any non-empty literal \<open>u\<close> and any literal \<open>r\<close>): two of them with less than two bytes after them make \<open>canonize\<close> panic; three are
  reduced to two, so that \<open>autocanonize\<close> refuses the string; and of two groups with two bytes in between, whatever these are, the
  bytes are lost.\<close>

theorem canonize_repeated_dsl:
  assumes "u \<noteq> []" "plain u" "plain r"
  shows "(length r < 2 \<longrightarrow> string_canonize (u @ ''$*$*'' @ r) = None) \<and>
    string_canonize (u @ ''$*$*$*'' @ r) = Some (u @ ''$*$*'' @ r) \<and>
    (\<exists>e. autocanonize (u @ ''$*$*$*'' @ r) = Some (Inl e)) \<and>
    string_canonize (u @ ''$*$*'' @ [b, c] @ ''$*'' @ r) = Some (u @ ''$*$*'' @ r)"
proof -
  have pan: "string_canonize (u @ ''$*$*'' @ r) = None" if "length r < 2"
    using that canonize_two_dsl [OF assms(1,2) refl, of r] by (simp add: string_canonize_def)
  have d: "dsl_apart (''$*'' @ r)" "CHR ''/'' \<notin> set (''$*'' @ r)" using assms(3) dsl_apart_plain(2) by auto
  have three: "string_canonize (u @ ''$*$*$*'' @ r) = Some (u @ ''$*$*'' @ r)"
    using canonize_dsl_rest [of u "u @ ''$*$*$*'' @ r" "''$*'' @ r" "length u + 4", OF assms(1,2) _ _ _ _ _ d] assms(3) by simp
  have lost: "string_canonize (u @ ''$*$*'' @ [b, c] @ ''$*'' @ r) = Some (u @ ''$*$*'' @ r)"
    using canonize_dsl_rest [of u "u @ ''$*$*'' @ [b, c] @ ''$*'' @ r" "[b, c] @ ''$*'' @ r" "length u + 6", OF assms(1,2) _ _ _ _ _ d]
      assms(3) by simp
  show ?thesis using pan three lost two_dsl_refused [OF assms(2,3,1)] by (auto simp: autocanonize_def)
qed

theorem canonize_repeated_dsl_witness:
  "string_canonize ''foo$*$*x'' = None \<and> string_canonize ''foo$*$*$*x'' = Some ''foo$*$*x'' \<and>
   string_canonize ''foo$*$*ab$*x'' = Some ''foo$*$*x''"
  using canonize_repeated_dsl [of "''foo''" "''x''" "CHR ''a''" "CHR ''b''"] by simp

end
