(* ===== verification/KeyExpr_Ops.thy ===== *)
theory KeyExpr_Ops
  imports KeyExpr_Include KeyExpr_Canon
begin

text \<open>
  The other operations of \<open>keyexpr\<close> (\<open>key_expr/borrowed.rs\<close>): joining, the relation between two
  expressions, wildcard-free prefixes, and the removal of a prefix.
\<close>

section \<open>Joining and relations\<close>

definition ke_join :: "string \<Rightarrow> string \<Rightarrow> (KeyExprError + string) option" where
  "ke_join self other = autocanonize (self @ ''/'' @ other)"

text \<open>\<open>self / other\<close>, with the \<open>unwrap\<close>.\<close>

definition ke_div :: "string \<Rightarrow> string \<Rightarrow> string option" where
  "ke_div self rhs = (case ke_join self rhs of Some (Inr k) \<Rightarrow> Some k | _ \<Rightarrow> None)"

datatype SetIntersectionLevel = Disjoint | Intersects | Includes | Equals

definition relation_to :: "string \<Rightarrow> string \<Rightarrow> SetIntersectionLevel option" where
  "relation_to self other =
     do { i \<leftarrow> intersects self other;
          if i then
            if self = other then Some Equals
            else do { c \<leftarrow> ke_includes self other; Some (if c then Includes else Intersects) }
          else Some Disjoint }"

definition is_wild :: "string \<Rightarrow> bool" where
  "is_wild s \<longleftrightarrow> SINGLE_WILD \<in> set s"

definition is_double_wild :: "string \<Rightarrow> bool" where
  "is_double_wild s \<longleftrightarrow> length s = 2 \<and> get s 0 = Some CHR ''*''"

section \<open>Prefixes\<close>

definition get_nonwild_prefix :: "string \<Rightarrow> string option" where
  "get_nonwild_prefix self =
     (case position (\<lambda>c. c = CHR ''*'') self of
        Some i \<Rightarrow>
          (case rposition (\<lambda>c. c = CHR ''/'') (take i self) of
             Some j \<Rightarrow> Some (take j self)
           | None \<Rightarrow> None)
      | None \<Rightarrow> Some self)"

text \<open>\<open>Vec::swap_remove\<close>, in range.\<close>

definition swap_remove :: "'a list \<Rightarrow> nat \<Rightarrow> 'a list" where
  "swap_remove xs i = butlast (xs[i := last xs])"

text \<open>The loop over the results found so far: \<open>True\<close> when one of them includes the new one, with the
  results that are left.\<close>

fun prune :: "nat \<Rightarrow> string list \<Rightarrow> string \<Rightarrow> (bool \<times> string list) option" where
  "prune 0 result remaining = Some (False, result)"
| "prune (Suc i) result remaining =
     (case ke_includes (result ! i) remaining of
        None \<Rightarrow> None
      | Some True \<Rightarrow> Some (True, result)
      | Some False \<Rightarrow>
          (case ke_includes remaining (result ! i) of
             None \<Rightarrow> None
           | Some c \<Rightarrow> prune i (if c then swap_remove result i else result) remaining))"

text \<open>The loop over positions from the end; the first argument is the next position plus one.\<close>

fun strip_loop :: "nat \<Rightarrow> string \<Rightarrow> string \<Rightarrow> string list \<Rightarrow> string list option" where
  "strip_loop 0 self prefix result = Some result"
| "strip_loop (Suc i) self prefix result =
     (if (if i = length self then ends_with self ''**'' else self ! i = CHR ''/'') then
        (case try_from (take i self) of
           Inl _ \<Rightarrow> None
         | Inr sub_part \<Rightarrow>
             (case intersects sub_part prefix of
                None \<Rightarrow> None
              | Some False \<Rightarrow> strip_loop i self prefix result
              | Some True \<Rightarrow>
                  (case slice_from self (if ends_with sub_part ''**'' then i - 2 else i + 1) of
                     None \<Rightarrow> None
                   | Some r \<Rightarrow>
                       if r = [] then strip_loop i self prefix result
                       else (case try_from r of
                          Inl _ \<Rightarrow> None
                        | Inr remaining \<Rightarrow>
                            if remaining = ''**'' then Some [remaining]
                            else (case prune (length result) result remaining of
                               None \<Rightarrow> None
                             | Some (True, result') \<Rightarrow> strip_loop i self prefix result'
                             | Some (False, result') \<Rightarrow> strip_loop i self prefix (result' @ [remaining]))))))
      else strip_loop i self prefix result)"

definition strip_prefix :: "string \<Rightarrow> string \<Rightarrow> string list option" where
  "strip_prefix self prefix = strip_loop (length self + 1) self prefix []"

section \<open>Lists of chunks\<close>

lemma ke_match_append:
  "ke_match (as @ bs) ks \<longleftrightarrow> (\<exists>us vs. ks = us @ vs \<and> ke_match as us \<and> ke_match bs vs)"
proof (induction as arbitrary: ks)
  case (Cons a as)
  show ?case
  proof (cases "a = ''**''")
    case True
    show ?thesis unfolding append_Cons True ke_match_double_wild Cons.IH by (metis append_assoc)
  next
    case False
    then show ?thesis by (simp add: ke_match_Cons_other Cons.IH) (metis append_Cons)
  qed
qed simp

text \<open>A match of a concatenation of keys splits the pattern, inside a \<open>**\<close> or between two chunks.\<close>

lemma ke_match_split:
  "ke_match cs (us @ vs) \<Longrightarrow>
    (\<exists>as bs. cs = as @ bs \<and> ke_match as us \<and> ke_match bs vs) \<or>
    (\<exists>as bs. cs = as @ ''**'' # bs \<and> ke_match (as @ [''**'']) us \<and> ke_match (''**'' # bs) vs)"
proof (induction cs arbitrary: us)
  case (Cons c cs)
  show ?case
  proof (cases "c = ''**''")
    case True
    with Cons.prems obtain xs ys where x: "us @ vs = xs @ ys" "list_all (\<lambda>k. \<not> has_direct_verbatim k) xs" "ke_match cs ys"
      by (auto simp: ke_match_double_wild)
    from x(1) consider (inside) zs where "xs = us @ zs" "vs = zs @ ys" | (after) zs where "us = xs @ zs" "ys = zs @ vs"
      by (auto simp: append_eq_append_conv2)
    then show ?thesis
    proof cases
      case inside
      have "ke_match ([] @ [''**'']) us" "ke_match (''**'' # cs) vs"
        using inside x(2,3) by (auto simp: ke_match_double_wild ke_match_only_double_wild)
      then show ?thesis using True by (intro disjI2 exI [of _ "[]"] exI [of _ cs]) simp
    next
      case after
      have ext: "ke_match (''**'' # as) us" if "ke_match as zs" for as
        using that after(1) x(2) by (auto simp: ke_match_double_wild)
      from Cons.IH [of zs] x(3) after(2) consider as bs where "cs = as @ bs" "ke_match as zs" "ke_match bs vs"
        | as bs where "cs = as @ ''**'' # bs" "ke_match (as @ [''**'']) zs" "ke_match (''**'' # bs) vs" by auto
      then show ?thesis
      proof cases
        case 1
        then show ?thesis using True ext by (intro disjI1 exI [of _ "''**'' # as"] exI [of _ bs]) simp
      next
        case 2
        then show ?thesis using True ext [of "as @ [''**'']"] by (intro disjI2 exI [of _ "''**'' # as"] exI [of _ bs]) simp
      qed
    qed
  next
    case False
    show ?thesis
    proof (cases us)
      case Nil
      then show ?thesis using Cons.prems by (intro disjI1 exI [of _ "[]"] exI [of _ "c # cs"]) simp
    next
      case u: (Cons u us')
      then have h: "chunk_match c u" "ke_match cs (us' @ vs)" using Cons.prems False by (auto simp: ke_match_Cons_other)
      have ext: "ke_match (c # as) us" if "ke_match as us'" for as using that h(1) u False by (simp add: ke_match_Cons_other)
      from Cons.IH [OF h(2)] consider as bs where "cs = as @ bs" "ke_match as us'" "ke_match bs vs"
        | as bs where "cs = as @ ''**'' # bs" "ke_match (as @ [''**'']) us'" "ke_match (''**'' # bs) vs" by auto
      then show ?thesis
      proof cases
        case 1
        then show ?thesis using ext by (intro disjI1 exI [of _ "c # as"] exI [of _ bs]) simp
      next
        case 2
        then show ?thesis using ext [of "as @ [''**'']"] by (intro disjI2 exI [of _ "c # as"] exI [of _ bs]) simp
      qed
    qed
  qed
qed simp

lemma split_on_slash: "split_on d (u @ d # v) = split_on d u @ split_on d v"
  by (induction u) (auto split: list.splits)

definition vcount :: "string list \<Rightarrow> nat" where
  "vcount cs = length (filter has_direct_verbatim cs)"

lemma vcount_simps [simp]:
  "vcount [] = 0" "vcount (c # cs) = (if has_direct_verbatim c then 1 else 0) + vcount cs" "vcount (as @ bs) = vcount as + vcount bs"
  by (simp_all add: vcount_def)

lemma vcount_none: "vcount ks = 0 \<longleftrightarrow> list_all (\<lambda>k. \<not> has_direct_verbatim k) ks"
  by (induction ks) auto

text \<open>Wildcards do not match verbatim chunks.\<close>

lemma ke_match_vcount: "ke_match cs ks \<Longrightarrow> vcount cs = vcount ks"
proof (induction cs arbitrary: ks)
  case (Cons c cs)
  show ?case
  proof (cases "c = ''**''")
    case True
    then obtain us vs where "ks = us @ vs" "vcount us = 0" "ke_match cs vs"
      using Cons.prems by (auto simp: ke_match_double_wild vcount_none)
    then show ?thesis using Cons.IH True by simp
  next
    case False
    then obtain k ks' where k: "ks = k # ks'" "chunk_match c k" "ke_match cs ks'" using Cons.prems by (auto simp: ke_match_Cons_other)
    then have "has_direct_verbatim c = has_direct_verbatim k" by (auto simp: chunk_match_def split: if_splits)
    then show ?thesis using Cons.IH [OF k(3)] k(1) by simp
  qed
qed simp

lemma canon_ok_append: "canon_ok (as @ bs) \<Longrightarrow> canon_ok as \<and> canon_ok bs"
proof (induction as)
  case (Cons a as)
  then show ?case by (cases as; cases bs) (auto simp: canon_ok_Cons)
qed simp

lemma ke_ok_append: "ke_ok (as @ bs) \<Longrightarrow> (as \<noteq> [] \<longrightarrow> ke_ok as) \<and> (bs \<noteq> [] \<longrightarrow> ke_ok bs)"
  using canon_ok_append [of as bs] by (auto simp: ke_ok_def)

lemma dsl_ok_no_double: "dsl_ok c \<Longrightarrow> c \<noteq> u @ ''**''"
proof (induction c arbitrary: u rule: dsl_ok.induct)
  case (2 c s)
  show ?case
  proof (cases u)
    case Nil
    then show ?thesis using "2.prems" by auto
  next
    case (Cons x u')
    show ?thesis
    proof (cases "c = CHR ''$''")
      case True
      then obtain s' where s: "s = CHR ''*'' # s'" "dsl_ok s'" using "2.prems" by (auto split: list.splits)
      show ?thesis
      proof (cases u')
        case Nil
        then show ?thesis using s Cons by auto
      next
        case c2: (Cons y u2)
        have "s' \<noteq> u2 @ ''**''" using "2.IH"(1) [OF True s(1) s(2)] .
        then show ?thesis using Cons c2 s(1) by auto
      qed
    next
      case False
      then have "s \<noteq> u' @ ''**''" using "2.IH"(2) "2.prems" by auto
      then show ?thesis using Cons by auto
    qed
  qed
qed simp

lemma ends_with_ex: "ends_with s p \<longleftrightarrow> (\<exists>u. s = u @ p)"
proof
  assume e: "ends_with s p"
  have "take (length s - length p) s @ drop (length s - length p) s = s" by simp
  then show "\<exists>u. s = u @ p" using e unfolding ends_with_def by metis
next
  assume "\<exists>u. s = u @ p"
  then show "ends_with s p" by (auto simp: ends_with_def)
qed

lemma join_chunks_append: "as \<noteq> [] \<Longrightarrow> bs \<noteq> [] \<Longrightarrow> join_chunks (as @ bs) = join_chunks as @ CHR ''/'' # join_chunks bs"
proof (induction as)
  case (Cons a as)
  then show ?case by (cases as) (simp_all add: join_chunks_Cons)
qed simp

lemma chunk_ok_ends_double: "chunk_ok c \<Longrightarrow> c = u @ ''**'' \<Longrightarrow> c = ''**''"
  unfolding chunk_ok_def using dsl_ok_no_double by (auto simp: append_eq_Cons_conv)

lemma ends_with_double:
  assumes "ke_ok as"
  shows "ends_with (join_chunks as) ''**'' \<longleftrightarrow> last as = ''**''"
proof -
  obtain xs c where as: "as = xs @ [c]" using assms by (cases as rule: rev_cases) (auto simp: ke_ok_def)
  have c: "chunk_ok c" using assms as by (simp add: ke_ok_def)
  obtain w where j: "join_chunks as = w @ c" "w = [] \<or> last w = CHR ''/''"
    using as join_chunks_append [of xs "[c]"] by (cases xs) auto
  show ?thesis
  proof
    assume "ends_with (join_chunks as) ''**''"
    then obtain u where u: "w @ c = u @ ''**''" using j by (auto simp: ends_with_ex)
    from u consider v where "c = v @ ''**''" | v where "v @ c = ''**''" "w = u @ v" by (auto simp: append_eq_append_conv2)
    then show "last as = ''**''"
    proof cases
      case 1
      then show ?thesis using chunk_ok_ends_double [OF c] as by simp
    next
      case 2
      then show ?thesis using c j(2) as by (cases v rule: rev_cases) (auto simp: chunk_ok_def append_eq_Cons_conv Cons_eq_append_conv)
    qed
  next
    assume "last as = ''**''"
    then show "ends_with (join_chunks as) ''**''" using j as by (auto simp: ends_with_ex)
  qed
qed

section \<open>The places where a prefix may end\<close>

definition at_cut :: "string \<Rightarrow> nat \<Rightarrow> bool" where
  "at_cut s i \<longleftrightarrow> (if i = length s then ends_with s ''**'' else i < length s \<and> s ! i = CHR ''/'')"

definition cand :: "string \<Rightarrow> nat \<Rightarrow> string" where
  "cand s i = (if ends_with (take i s) ''**'' then drop (i - 2) s else drop (i + 1) s)"

lemma at_cut_chunks:
  assumes s: "valid_ke s" and i: "at_cut s i"
  obtains as bs where "split_on (CHR ''/'') s = as @ bs" "ke_ok (as @ bs)" "as \<noteq> []" "split_on (CHR ''/'') (take i s) = as"
    "bs = [] \<Longrightarrow> last as = ''**''" "split_on (CHR ''/'') (cand s i) = (if last as = ''**'' then ''**'' # bs else bs)"
    "ends_with (take i s) ''**'' \<longleftrightarrow> last as = ''**''" "i \<le> length s"
proof -
  let ?sp = "split_on (CHR ''/'')"
  have ok: "ke_ok (?sp s)" using s by (simp add: valid_ke_ok)
  have dbl: "drop (i - 2) s = ''**'' @ drop i s" if e: "ends_with (take i s) ''**''" "i \<le> length s"
  proof -
    obtain u where u: "take i s = u @ ''**''" using e(1) by (auto simp: ends_with_ex)
    then have "i = length u + 2" using e(2) by (metis length_append length_take min.absorb2 length_Cons list.size(3) numeral_2_eq_2)
    moreover have "s = u @ ''**'' @ drop i s" using u append_take_drop_id [of i s] by (metis append_assoc)
    ultimately show ?thesis by (metis add_diff_cancel_right' append_eq_conv_conj)
  qed
  show thesis
  proof (cases "i = length s")
    case True
    then have e: "ends_with s ''**''" using i by (simp add: at_cut_def)
    then have "last (?sp s) = ''**''" using ends_with_double [OF ok] by (simp add: join_split_on)
    then show thesis using that [of "?sp s" "[]"] ok e True dbl by (simp add: cand_def split_on_noslash)
  next
    case False
    then have i': "i < length s" "s ! i = CHR ''/''" using i by (auto simp: at_cut_def split: if_splits)
    then have s': "s = take i s @ CHR ''/'' # drop (i + 1) s" by (metis Suc_eq_plus1 id_take_nth_drop)
    let ?as = "?sp (take i s)" and ?bs = "?sp (drop (i + 1) s)"
    have "?sp s = ?sp (take i s @ CHR ''/'' # drop (i + 1) s)" using s' by (rule arg_cong)
    also have "\<dots> = ?as @ ?bs" by (rule split_on_slash)
    finally have sp: "?sp s = ?as @ ?bs" .
    have ok': "ke_ok ?as" using ke_ok_append [of ?as ?bs] ok unfolding sp by simp
    have e: "ends_with (take i s) ''**'' \<longleftrightarrow> last ?as = ''**''" using ends_with_double [OF ok'] by (simp add: join_split_on)
    have "drop i s = CHR ''/'' # drop (i + 1) s" using i' by (metis Cons_nth_drop_Suc Suc_eq_plus1)
    then have "?sp (''**'' @ drop i s) = ''**'' # ?bs" using split_on_slash [of "CHR ''/''" "''**''" "drop (i + 1) s"] by (simp add: split_on_noslash)
    moreover have "cand s i = (if last ?as = ''**'' then ''**'' @ drop i s else drop (i + 1) s)"
      unfolding cand_def e using dbl [unfolded e] i'(1) by (intro if_cong) auto
    ultimately have cd: "?sp (cand s i) = (if last ?as = ''**'' then ''**'' # ?bs else ?bs)" by (simp only: split: if_split) blast
    have "ke_ok (?as @ ?bs)" using ok sp by metis
    then show thesis using that [OF sp _ _ refl _ cd e] i'(1) by simp
  qed
qed

text \<open>What is left of \<open>s\<close> after a prefix that \<open>p\<close> denotes.\<close>

definition rests :: "string \<Rightarrow> string \<Rightarrow> string list set" where
  "rests s p = {ks. is_key ks \<and> (\<exists>pk\<in>ke_keys p. pk @ ks \<in> ke_keys s)}"

definition hit :: "string \<Rightarrow> string \<Rightarrow> nat \<Rightarrow> bool" where
  "hit s p i \<longleftrightarrow> at_cut s i \<and> ke_keys (take i s) \<inter> ke_keys p \<noteq> {}"

lemma is_key_append: "is_key us \<Longrightarrow> is_key vs \<Longrightarrow> is_key (us @ vs)"
  by (auto simp: is_key_def)

lemma cand_valid:
  assumes s: "valid_ke s" and i: "at_cut s i"
  shows "valid_ke (cand s i)" "cand s i \<noteq> []" "valid_ke (take i s)"
    "verbatim_literal (split_on (CHR ''/'') s) \<Longrightarrow> verbatim_literal (split_on (CHR ''/'') (take i s))"
proof -
  obtain as bs where c: "split_on (CHR ''/'') s = as @ bs" "ke_ok (as @ bs)" "as \<noteq> []" "split_on (CHR ''/'') (take i s) = as"
    "bs = [] \<Longrightarrow> last as = ''**''" "split_on (CHR ''/'') (cand s i) = (if last as = ''**'' then ''**'' # bs else bs)"
    using at_cut_chunks [OF s i] by metis
  have "ke_ok (''**'' # bs)" if "last as = ''**''"
    using c(2,3) that ke_ok_append [of "butlast as" "last as # bs"] by (metis append_assoc append_butlast_last_id append_Cons append_Nil list.distinct(1))
  then have "ke_ok (if last as = ''**'' then ''**'' # bs else bs)" using ke_ok_append [OF c(2)] c(5) by auto
  then show v: "valid_ke (cand s i)" using c(6) by (simp add: valid_ke_ok)
  then show "cand s i \<noteq> []" by (auto simp: valid_ke_def try_from_def)
  show "valid_ke (take i s)" using ke_ok_append [OF c(2)] c(3,4) by (simp add: valid_ke_ok)
  show "verbatim_literal (split_on (CHR ''/'') s) \<Longrightarrow> verbatim_literal (split_on (CHR ''/'') (take i s))"
    using c(1,4) by (simp add: verbatim_literal_def)
qed

lemma cand_sound:
  assumes s: "valid_ke s" and h: "hit s p i"
  shows "ke_keys (cand s i) \<subseteq> rests s p"
proof
  fix ks assume ks: "ks \<in> ke_keys (cand s i)"
  have i: "at_cut s i" using h by (simp add: hit_def)
  obtain as bs where c: "split_on (CHR ''/'') s = as @ bs" "as \<noteq> []" "split_on (CHR ''/'') (take i s) = as"
    "split_on (CHR ''/'') (cand s i) = (if last as = ''**'' then ''**'' # bs else bs)"
    using at_cut_chunks [OF s i] by metis
  obtain pk where pk: "pk \<in> ke_keys p" "is_key pk" "ke_match as pk" using h c(3) by (auto simp: hit_def ke_keys_def)
  have "ke_match (as @ bs) (pk @ ks)"
  proof (cases "last as = ''**''")
    case True
    then have as: "as = butlast as @ [''**'']" using c(2) by (metis append_butlast_last_id)
    obtain us vs where v: "ks = us @ vs" "list_all (\<lambda>k. \<not> has_direct_verbatim k) us" "ke_match bs vs"
      using ks c(4) True by (auto simp: ke_keys_def ke_match_double_wild)
    obtain p1 p2 where q: "pk = p1 @ p2" "ke_match (butlast as) p1" "list_all (\<lambda>k. \<not> has_direct_verbatim k) p2"
      using pk(3) as by (metis ke_match_append ke_match_only_double_wild)
    have "ke_match [''**''] (p2 @ us)" using v(2) q(3) by (simp add: ke_match_only_double_wild)
    then have "ke_match as (p1 @ p2 @ us)" using as q(2) ke_match_append [of "butlast as" "[''**'']"] by metis
    then show ?thesis using v q(1) ke_match_append [of as bs] by (metis append_assoc)
  next
    case False
    then show ?thesis using ks c(4) pk(3) by (auto simp: ke_keys_def ke_match_append)
  qed
  then show "ks \<in> rests s p" using pk ks c(1) by (auto simp: rests_def ke_keys_def intro: is_key_append)
qed

lemma at_cut_join:
  assumes s: "valid_ke s" and c: "split_on (CHR ''/'') s = as @ bs" "as \<noteq> []" "bs = [] \<Longrightarrow> last as = ''**''"
  shows "\<exists>i. at_cut s i \<and> split_on (CHR ''/'') (take i s) = as"
proof (cases "bs = []")
  case True
  have "ke_ok as" using s c True by (simp add: valid_ke_ok)
  then have "ends_with s ''**''" using ends_with_double [of as] c True join_split_on [of s] by simp
  then show ?thesis using c True by (intro exI [of _ "length s"]) (simp add: at_cut_def)
next
  case False
  have sj: "s = join_chunks as @ CHR ''/'' # join_chunks bs" using join_split_on [of s] c False by (simp add: join_chunks_append)
  have "split_on (CHR ''/'') (join_chunks as) = as"
    using c split_on_slashfree [of _ "CHR ''/''" s] by (intro split_on_join) auto
  then show ?thesis using sj by (intro exI [of _ "length (join_chunks as)"]) (auto simp: at_cut_def nth_append)
qed

lemma cand_complete:
  assumes s: "valid_ke s" and ks: "ks \<in> rests s p"
  shows "\<exists>i. hit s p i \<and> ks \<in> ke_keys (cand s i)"
proof -
  obtain pk where pk: "is_key ks" "pk \<in> ke_keys p" "is_key pk" "ke_match (split_on (CHR ''/'') s) (pk @ ks)"
    using ks by (auto simp: rests_def ke_keys_def)
  have ne: "pk \<noteq> []" "ks \<noteq> []" using pk by (auto simp: is_key_def)
  have "\<exists>as bs. split_on (CHR ''/'') s = as @ bs \<and> as \<noteq> [] \<and> (bs = [] \<longrightarrow> last as = ''**'') \<and> ke_match as pk \<and>
      ke_match (if last as = ''**'' then ''**'' # bs else bs) ks"
    using ke_match_split [OF pk(4)]
  proof (elim disjE exE conjE)
    fix as bs assume h: "split_on (CHR ''/'') s = as @ bs" "ke_match as pk" "ke_match bs ks"
    have "as \<noteq> []" "bs \<noteq> []" using h ne by auto
    moreover have "ke_match (''**'' # bs) ks" using h(3) ne by (cases ks) simp_all
    ultimately show ?thesis using h by auto
  next
    fix as bs assume h: "split_on (CHR ''/'') s = as @ ''**'' # bs" "ke_match (as @ [''**'']) pk" "ke_match (''**'' # bs) ks"
    then show ?thesis by (intro exI [of _ "as @ [''**'']"] exI [of _ bs]) simp
  qed
  then obtain as bs where c: "split_on (CHR ''/'') s = as @ bs" "as \<noteq> []" "bs = [] \<longrightarrow> last as = ''**''" "ke_match as pk"
      "ke_match (if last as = ''**'' then ''**'' # bs else bs) ks" by blast
  obtain i where i: "at_cut s i" "split_on (CHR ''/'') (take i s) = as" using at_cut_join [OF s c(1,2)] c(3) by blast
  have "split_on (CHR ''/'') (cand s i) = (if last as = ''**'' then ''**'' # bs else bs)"
    using at_cut_chunks [OF s i(1)] i(2) c(1) by (metis same_append_eq)
  then have "ks \<in> ke_keys (cand s i)" using c(5) pk(1) by (simp add: ke_keys_def)
  moreover have "hit s p i" using i c(4) pk by (auto simp: hit_def ke_keys_def)
  ultimately show ?thesis by blast
qed

lemma rests_no_verbatim:
  assumes s: "valid_ke s" and h: "hit s p i" and c: "cand s i = ''**''" and ks: "ks \<in> rests s p"
  shows "ks \<in> ke_keys ''**''"
proof -
  obtain as bs where d: "split_on (CHR ''/'') s = as @ bs" "split_on (CHR ''/'') (take i s) = as"
    "split_on (CHR ''/'') (cand s i) = (if last as = ''**'' then ''**'' # bs else bs)"
    using at_cut_chunks [OF s, of i] h by (metis hit_def)
  have "vcount bs = 0" using d(3) c by (auto simp: split_on_noslash split: if_splits)
  moreover have "vcount as = vcount (split_on (CHR ''/'') p)"
    using h d(2) ke_match_vcount by (fastforce simp: hit_def ke_keys_def)
  moreover obtain pk where pk: "is_key ks" "ke_match (split_on (CHR ''/'') p) pk" "ke_match (split_on (CHR ''/'') s) (pk @ ks)"
    using ks by (auto simp: rests_def ke_keys_def)
  ultimately have "vcount ks = 0" using ke_match_vcount [OF pk(2)] ke_match_vcount [OF pk(3)] d(1) by simp
  then show ?thesis using pk(1) by (simp add: ke_keys_def split_on_noslash ke_match_only_double_wild vcount_none)
qed

section \<open>Removing a prefix\<close>

abbreviation keys_of :: "string list \<Rightarrow> string list set" where
  "keys_of rs \<equiv> (\<Union>r\<in>set rs. ke_keys r)"

lemma swap_remove_set:
  assumes "i < length xs"
  shows "set xs = insert (xs ! i) (set (swap_remove xs i))" "length (swap_remove xs i) = length xs - 1"
proof -
  have ne: "xs \<noteq> []" using assms by auto
  have "set xs \<subseteq> insert (xs ! i) (set (swap_remove xs i))"
  proof
    fix x assume "x \<in> set xs"
    then obtain j where j: "j < length xs" "x = xs ! j" by (auto simp: in_set_conv_nth)
    consider "j = i" | "j \<noteq> i" "j < length xs - 1" | "j \<noteq> i" "j = length xs - 1" using j(1) by linarith
    then show "x \<in> insert (xs ! i) (set (swap_remove xs i))"
    proof cases
      case 2
      then have "swap_remove xs i ! j = x" using j by (simp add: swap_remove_def nth_butlast)
      then show ?thesis using 2 nth_mem [of j "swap_remove xs i"] by (simp add: swap_remove_def)
    next
      case 3
      then have "i < length xs - 1" "swap_remove xs i ! i = x" using assms j ne by (simp_all add: swap_remove_def nth_butlast last_conv_nth)
      then show ?thesis using nth_mem [of i "swap_remove xs i"] by (simp add: swap_remove_def)
    qed (use j in simp)
  qed
  moreover have "set (swap_remove xs i) \<subseteq> set xs"
    using set_update_subset_insert [of xs i "last xs"] ne by (auto simp: swap_remove_def dest!: in_set_butlastD)
  ultimately show "set xs = insert (xs ! i) (set (swap_remove xs i))" using assms by auto
qed (simp add: swap_remove_def)

lemma prune_ok:
  assumes "n \<le> length rs" "list_all valid_ke rs" "valid_ke r"
  shows "\<exists>b rs'. prune n rs r = Some (b, rs') \<and> set rs' \<subseteq> set rs \<and> keys_of rs \<subseteq> keys_of rs' \<union> ke_keys r \<and> (b \<longrightarrow> ke_keys r \<subseteq> keys_of rs')"
  using assms
proof (induction n arbitrary: rs)
  case 0
  show ?case by (intro exI [of _ False] exI [of _ rs]) simp
next
  case (Suc i)
  then have i: "i < length rs" and v: "valid_ke (rs ! i)" by (auto simp: list_all_length)
  obtain c where c: "ke_includes (rs ! i) r = Some c" "c \<longrightarrow> ke_keys r \<subseteq> ke_keys (rs ! i)" using includes_keys [OF v Suc.prems(3)] by blast
  obtain d where d: "ke_includes r (rs ! i) = Some d" "d \<longrightarrow> ke_keys (rs ! i) \<subseteq> ke_keys r" using includes_keys [OF Suc.prems(3) v] by blast
  show ?case
  proof (cases c)
    case True
    then have "ke_keys r \<subseteq> keys_of rs" using c(2) nth_mem [OF i] by blast
    then show ?thesis using c(1) True by auto
  next
    case False
    show ?thesis
    proof (cases d)
      case True
      let ?rs = "swap_remove rs i"
      note sw = swap_remove_set [OF i]
      have "i \<le> length ?rs" "list_all valid_ke ?rs" using sw i Suc.prems(2) by (auto simp: list_all_iff)
      from Suc.IH [OF this Suc.prems(3)] obtain b rs' where
        p: "prune i ?rs r = Some (b, rs')" "set rs' \<subseteq> set ?rs" "keys_of ?rs \<subseteq> keys_of rs' \<union> ke_keys r" "b \<longrightarrow> ke_keys r \<subseteq> keys_of rs'"
        by blast
      have "keys_of rs \<subseteq> keys_of rs' \<union> ke_keys r" using p(3) d(2) True unfolding sw(1) by auto
      then show ?thesis using p c(1) d(1) False True sw(1) by auto
    next
      case nd: False
      from Suc.IH [OF _ Suc.prems(2,3)] Suc.prems(1) obtain b rs' where
        "prune i rs r = Some (b, rs')" "set rs' \<subseteq> set rs" "keys_of rs \<subseteq> keys_of rs' \<union> ke_keys r" "b \<longrightarrow> ke_keys r \<subseteq> keys_of rs'"
        by auto
      then show ?thesis using c(1) d(1) False nd by auto
    qed
  qed
qed

definition strip_ok :: "string \<Rightarrow> string \<Rightarrow> nat \<Rightarrow> string list \<Rightarrow> string list option \<Rightarrow> bool" where
  "strip_ok s p n rs r \<longleftrightarrow> (\<exists>out. r = Some out \<and> list_all valid_ke out \<and>
     (keys_of out = keys_of rs \<union> (\<Union>i\<in>{i. i < n \<and> hit s p i}. ke_keys (cand s i)) \<or>
      out = [''**''] \<and> (\<exists>i. hit s p i \<and> cand s i = ''**'')))"

lemma strip_ok_skip:
  assumes "strip_ok s p i rs' r" "keys_of rs' = keys_of rs \<union> (if hit s p i then ke_keys (cand s i) else {})"
  shows "strip_ok s p (Suc i) rs r"
proof -
  have "{j. j < Suc i \<and> hit s p j} = {j. j < i \<and> hit s p j} \<union> (if hit s p i then {i} else {})" by (auto simp: less_Suc_eq)
  then have "keys_of rs' \<union> (\<Union>j\<in>{j. j < i \<and> hit s p j}. ke_keys (cand s j)) =
      keys_of rs \<union> (\<Union>j\<in>{j. j < Suc i \<and> hit s p j}. ke_keys (cand s j))" using assms(2) by auto
  then show ?thesis using assms(1) unfolding strip_ok_def by (simp only:)
qed

lemma strip_loop_ok:
  assumes s: "valid_ke s" "verbatim_literal (split_on (CHR ''/'') s)" and p: "valid_ke p" "verbatim_literal (split_on (CHR ''/'') p)"
  shows "n \<le> length s + 1 \<Longrightarrow> list_all valid_ke rs \<Longrightarrow> strip_ok s p n rs (strip_loop n s p rs)"
proof (induction n arbitrary: rs)
  case (Suc i)
  have IH: "strip_ok s p i rs' (strip_loop i s p rs')" if "list_all valid_ke rs'" for rs' using Suc that by simp
  have cut: "(if i = length s then ends_with s ''**'' else s ! i = CHR ''/'') \<longleftrightarrow> at_cut s i" using Suc.prems(1) by (auto simp: at_cut_def)
  show ?case
  proof (cases "at_cut s i")
    case False
    then show ?thesis using strip_ok_skip [OF IH [OF Suc.prems(2)], of rs] cut by (simp add: hit_def)
  next
    case True
    note v = cand_valid [OF s(1) True]
    have inter: "intersects (take i s) p = Some (hit s p i)"
      using intersects_keys [OF v(3) p(1)] v(4) s(2) p(2) True by (simp add: hit_def)
    have t: "try_from (take i s) = Inr (take i s)" "try_from (cand s i) = Inr (cand s i)" using v(1,3) by (simp_all add: valid_ke_def)
    have "ends_with (take i s) ''**'' \<Longrightarrow> i - 2 \<le> length s" "\<not> ends_with (take i s) ''**'' \<Longrightarrow> i + 1 \<le> length s"
      using Suc.prems(1) True by (auto simp: at_cut_def split: if_splits)
    then have sl: "slice_from s (if ends_with (take i s) ''**'' then i - 2 else i + 1) = Some (cand s i)" by (simp add: cand_def)
    show ?thesis
    proof (cases "hit s p i")
      case False
      then show ?thesis using strip_ok_skip [OF IH [OF Suc.prems(2)], of rs] cut True t inter by simp
    next
      case hit: True
      show ?thesis
      proof (cases "cand s i = ''**''")
        case dw: True
        then have "strip_loop (Suc i) s p rs = Some [''**'']" using cut True t inter sl hit by simp
        moreover have "valid_ke ''**''" using v(1) dw by simp
        ultimately show ?thesis using hit dw by (auto simp: strip_ok_def)
      next
        case False
        obtain b rs' where pr: "prune (length rs) rs (cand s i) = Some (b, rs')" "set rs' \<subseteq> set rs"
            "keys_of rs \<subseteq> keys_of rs' \<union> ke_keys (cand s i)" "b \<longrightarrow> ke_keys (cand s i) \<subseteq> keys_of rs'"
          using prune_ok [OF order.refl Suc.prems(2) v(1)] by blast
        have eq: "strip_loop (Suc i) s p rs = strip_loop i s p (if b then rs' else rs' @ [cand s i])"
          using cut True t inter sl hit v(2) False pr(1) by simp
        have "list_all valid_ke (if b then rs' else rs' @ [cand s i])" using pr(2) Suc.prems(2) v(1) by (auto simp: list_all_iff)
        then show ?thesis unfolding eq using pr hit by (intro strip_ok_skip [OF IH]) auto
      qed
    qed
  qed
qed (simp add: strip_ok_def)

text \<open>(C4) \<open>strip_prefix\<close> is exact: on valid key expressions whose verbatim chunks are literal (without \<open>$*\<close>) it does not panic, its
  results are valid, and together they denote exactly the keys \<open>ks\<close> such that the expression contains
  \<open>pk/ks\<close> for some key \<open>pk\<close> of the prefix.  In particular nothing is lost when a lone \<open>**\<close> replaces all
  other results, nor when results are dropped because others include them.\<close>

theorem strip_prefix_exact:
  assumes s: "valid_ke s" "verbatim_literal (split_on DELIMITER s)" and p: "valid_ke p" "verbatim_literal (split_on DELIMITER p)"
  shows "\<exists>rs. strip_prefix s p = Some rs \<and> (\<forall>r\<in>set rs. valid_ke r) \<and>
    (\<Union>r\<in>set rs. ke_keys r) = {ks. is_key ks \<and> (\<exists>pk\<in>ke_keys p. pk @ ks \<in> ke_keys s)}"
proof -
  have "strip_ok s p (length s + 1) [] (strip_prefix s p)"
    unfolding strip_prefix_def using s p by (intro strip_loop_ok) simp_all
  then obtain rs where rs: "strip_prefix s p = Some rs" "list_all valid_ke rs"
    "keys_of rs = (\<Union>i\<in>{i. i < length s + 1 \<and> hit s p i}. ke_keys (cand s i)) \<or> rs = [''**''] \<and> (\<exists>i. hit s p i \<and> cand s i = ''**'')"
    by (auto simp: strip_ok_def)
  have le: "hit s p i \<Longrightarrow> i < length s + 1" for i by (auto simp: hit_def at_cut_def split: if_splits)
  have all: "(\<Union>i\<in>{i. i < length s + 1 \<and> hit s p i}. ke_keys (cand s i)) = rests s p"
    using cand_sound [OF s(1)] cand_complete [OF s(1)] le by fastforce
  have "keys_of rs = rests s p"
    using rs(3)
  proof
    assume "rs = [''**''] \<and> (\<exists>i. hit s p i \<and> cand s i = ''**'')"
    then obtain i where i: "rs = [''**'']" "hit s p i" "cand s i = ''**''" by blast
    then show ?thesis using cand_sound [OF s(1) i(2)] rests_no_verbatim [OF s(1) i(2,3)] by auto
  qed (unfold all)
  then show ?thesis using rs(1,2) by (simp add: rests_def list_all_iff)
qed

theorem strip_prefix_exact_witness:
  "\<exists>rs. strip_prefix ''a/**/b'' ''a/b'' = Some rs \<and> (\<forall>r\<in>set rs. valid_ke r) \<and>
    (\<Union>r\<in>set rs. ke_keys r) = {ks. is_key ks \<and> (\<exists>pk\<in>ke_keys ''a/b''. pk @ ks \<in> ke_keys ''a/**/b'')}"
  by (rule strip_prefix_exact) (simp_all add: valid_ke_ok ke_ok_def chunk_ok_def verbatim_literal_def)

section \<open>Joining\<close>

lemma canon_chunk_ok: "chunk_ok c \<Longrightarrow> canon_chunk c = c"
  using canon_list_id [of "[c]" False] by (auto simp: Let_def split: if_splits)

lemma ke_join_chunks:
  assumes a: "valid_ke a" and b: "valid_ke b"
  shows "\<exists>k. ke_join a b = Some (Inr k) \<and> valid_ke k \<and>
    (\<forall>ks. ke_match (split_on DELIMITER k) ks \<longleftrightarrow> ke_match (split_on DELIMITER a @ split_on DELIMITER b) ks)"
proof -
  let ?cs = "split_on (CHR ''/'') (a @ ''/'' @ b)"
  have sp: "?cs = split_on (CHR ''/'') a @ split_on (CHR ''/'') b" by (simp add: split_on_slash)
  have "\<forall>c\<in>set ?cs. chunk_ok (canon_chunk c)"
    unfolding sp using a b by (auto simp: valid_ke_ok ke_ok_def list_all_iff canon_chunk_ok)
  from autocanonize_chunks [of "a @ ''/'' @ b"] this obtain k where
    k: "autocanonize (a @ ''/'' @ b) = Some (Inr k)" "valid_ke k" "split_on DELIMITER k = canon_list ?cs False" by auto
  then show ?thesis using ke_match_canon [of ?cs False] by (simp add: ke_join_def split_on_slash)
qed

lemma ke_match_empty:
  assumes "valid_ke a"
  shows "ke_match (split_on DELIMITER a) [] \<longleftrightarrow> a = ''**''"
proof -
  have ok: "ke_ok (split_on (CHR ''/'') a)" using assms by (simp add: valid_ke_ok)
  have "cs = [''**'']" if "ke_ok cs" "ke_match cs []" for cs
    using that by (cases cs rule: canon_ok.cases) (auto simp: ke_ok_def)
  from this [OF ok] show ?thesis using join_split_on [of a] by (auto simp: split_on_noslash)
qed

text \<open>The keys of an expression, and the empty key where \<open>**\<close> stands for nothing.\<close>

definition ke_part :: "string \<Rightarrow> string list \<Rightarrow> bool" where
  "ke_part a us \<longleftrightarrow> us \<in> ke_keys a \<or> a = ''**'' \<and> us = []"

lemma ke_part_match:
  assumes "valid_ke a"
  shows "ke_part a us \<longleftrightarrow> ke_match (split_on DELIMITER a) us \<and> list_all key_chunk us"
  using ke_match_empty [OF assms] by (cases "us = []") (auto simp: ke_part_def ke_keys_def is_key_def)

text \<open>(C21) Joining two valid key expressions with \<open>/\<close> never fails, although \<open>Div::div\<close> unwraps the result
  of a canonisation: the result is valid and denotes exactly the keys that are a key of the left operand followed
  by a key of the right one, where an operand \<open>**\<close> may also contribute nothing.\<close>

theorem ke_div_keys:
  assumes "valid_ke a" "valid_ke b"
  shows "\<exists>k. ke_div a b = Some k \<and> valid_ke k \<and>
    ke_keys k = {us @ vs | us vs. us @ vs \<noteq> [] \<and> (us \<in> ke_keys a \<or> a = ''**'' \<and> us = []) \<and> (vs \<in> ke_keys b \<or> b = ''**'' \<and> vs = [])}"
proof -
  obtain k where k: "ke_join a b = Some (Inr k)" "valid_ke k"
      "\<And>ks. ke_match (split_on DELIMITER k) ks \<longleftrightarrow> ke_match (split_on DELIMITER a @ split_on DELIMITER b) ks"
    using ke_join_chunks [OF assms] by blast
  have "ks \<in> ke_keys k \<longleftrightarrow> (\<exists>us vs. ks = us @ vs \<and> us @ vs \<noteq> [] \<and> ke_part a us \<and> ke_part b vs)" for ks
  proof -
    have "ks \<in> ke_keys k \<longleftrightarrow> ks \<noteq> [] \<and> list_all key_chunk ks \<and>
        (\<exists>us vs. ks = us @ vs \<and> ke_match (split_on DELIMITER a) us \<and> ke_match (split_on DELIMITER b) vs)"
      using k(3) [of ks] unfolding ke_keys_def is_key_def ke_match_append by blast
    then show ?thesis unfolding ke_part_match [OF assms(1)] ke_part_match [OF assms(2)] by (metis list_all_append)
  qed
  then have "ke_keys k = {us @ vs | us vs. us @ vs \<noteq> [] \<and> ke_part a us \<and> ke_part b vs}" by blast
  then show ?thesis using k(1,2) unfolding ke_part_def by (simp add: ke_div_def)
qed

theorem ke_div_keys_witness:
  "\<exists>k. ke_div ''a/**'' ''*/b'' = Some k \<and> valid_ke k \<and>
    ke_keys k = {us @ vs | us vs. us @ vs \<noteq> [] \<and> (us \<in> ke_keys ''a/**'' \<or> ''a/**'' = ''**'' \<and> us = []) \<and>
      (vs \<in> ke_keys ''*/b'' \<or> ''*/b'' = ''**'' \<and> vs = [])}"
  by (rule ke_div_keys) (simp_all add: valid_ke_ok ke_ok_def chunk_ok_def)

section \<open>Relations\<close>

text \<open>(C31) \<open>relation_to\<close> answers on all valid key expressions with literal verbatim chunks (without \<open>$*\<close>); \<open>Disjoint\<close>
  is returned exactly when no key is common, \<open>Equals\<close> exactly for the same expression (where it has a key at all),
  and after \<open>Includes\<close> every key of the other expression is a key of this one.\<close>

theorem relation_to_keys:
  assumes "valid_ke a" "verbatim_literal (split_on DELIMITER a)" and "valid_ke b" "verbatim_literal (split_on DELIMITER b)"
  shows "\<exists>l. relation_to a b = Some l \<and> (l = Disjoint \<longleftrightarrow> ke_keys a \<inter> ke_keys b = {}) \<and>
    (l = Equals \<longleftrightarrow> a = b \<and> ke_keys a \<noteq> {}) \<and> (l = Includes \<longrightarrow> a \<noteq> b \<and> ke_keys b \<subseteq> ke_keys a)"
proof -
  have i: "intersects a b = Some (ke_keys a \<inter> ke_keys b \<noteq> {})" using assms by (intro intersects_keys)
  obtain c where "ke_includes a b = Some c" "c \<longrightarrow> ke_keys b \<subseteq> ke_keys a" using includes_keys [OF assms(1,3)] by blast
  then show ?thesis by (cases c) (auto simp: relation_to_def i)
qed

theorem relation_to_keys_witness:
  "\<exists>l. relation_to ''a/*'' ''a/b'' = Some l \<and> (l = Disjoint \<longleftrightarrow> ke_keys ''a/*'' \<inter> ke_keys ''a/b'' = {}) \<and>
    (l = Equals \<longleftrightarrow> ''a/*'' = ''a/b'' \<and> ke_keys ''a/*'' \<noteq> {}) \<and>
    (l = Includes \<longrightarrow> ''a/*'' \<noteq> ''a/b'' \<and> ke_keys ''a/b'' \<subseteq> ke_keys ''a/*'')"
  by (rule relation_to_keys) (simp_all add: valid_ke_ok ke_ok_def chunk_ok_def verbatim_literal_def)

section \<open>Prefixes without wildcards\<close>

lemma position_None: "position P xs = None \<longleftrightarrow> (\<forall>x\<in>set xs. \<not> P x)"
  by (induction xs) auto

lemma position_Some: "position P xs = Some i \<Longrightarrow> i < length xs \<and> P (xs ! i) \<and> (\<forall>x\<in>set (take i xs). \<not> P x)"
  by (induction xs arbitrary: i) (auto split: if_splits)

lemma rposition_Some: "rposition P xs = Some i \<Longrightarrow> i < length xs \<and> P (xs ! i)"
  by (induction xs arbitrary: i) (auto split: if_splits option.splits)

lemma literal_keys:
  assumes "ke_ok cs" "CHR ''*'' \<notin> set (join_chunks cs)" "ke_match cs us" "list_all key_chunk us"
  shows "us = cs"
proof -
  have "verbatim_literal cs" using assms(2) set_join_chunks [of _ cs] by (auto simp: verbatim_literal_def list_all_iff)
  then have "list_all key_chunk cs" using pats_nowild_key ke_ok_pats(1) [OF assms(1)] assms(2) by blast
  then show ?thesis using ke_match_key_iff assms(3,4) by metis
qed

text \<open>(C32) The prefix that \<open>get_nonwild_prefix\<close> builds without checks is a key expression: of a valid expression it is valid, has
  no wildcard, and every key of the expression starts with it.\<close>

theorem get_nonwild_prefix_valid:
  assumes "valid_ke s" "get_nonwild_prefix s = Some p"
  shows "valid_ke p \<and> \<not> is_wild p \<and> (\<forall>ks\<in>ke_keys s. \<exists>rest. ks = split_on DELIMITER p @ rest)"
proof (cases "position (\<lambda>c. c = CHR ''*'') s")
  case None
  then have p: "p = s" using assms(2) by (simp add: get_nonwild_prefix_def)
  have w: "CHR ''*'' \<notin> set s" using None unfolding position_None by blast
  have "ks = split_on (CHR ''/'') s" if "ks \<in> ke_keys s" for ks
    using that assms(1) w by (intro literal_keys) (simp_all add: ke_keys_def is_key_def valid_ke_ok join_split_on)
  then show ?thesis using assms(1) p w by (simp add: is_wild_def)
next
  case (Some i)
  then obtain j where j: "rposition (\<lambda>c. c = CHR ''/'') (take i s) = Some j" "p = take j s"
    using assms(2) by (auto simp: get_nonwild_prefix_def split: option.splits)
  note i = position_Some [OF Some] and jj = rposition_Some [OF j(1)]
  have "j < i" "j < length s" using jj by simp_all
  moreover from this have "s ! j = CHR ''/''" using jj nth_take [of j i s] by simp
  ultimately have "s = take j s @ CHR ''/'' # drop (Suc j) s" using id_take_nth_drop [of j s] by metis
  then have sp: "split_on (CHR ''/'') s = split_on (CHR ''/'') p @ split_on (CHR ''/'') (drop (Suc j) s)"
    using split_on_slash [of "CHR ''/''" "take j s" "drop (Suc j) s"] j(2) by simp
  have nw: "CHR ''*'' \<notin> set p" using i jj j(2) set_take_subset_set_take [of j i s] by auto
  have ok: "ke_ok (split_on (CHR ''/'') p)"
    using ke_ok_append [of "split_on (CHR ''/'') p"] assms(1) unfolding valid_ke_ok sp by simp
  have "\<exists>rest. ks = split_on (CHR ''/'') p @ rest" if ks: "ks \<in> ke_keys s" for ks
  proof -
    have "list_all key_chunk ks" "ke_match (split_on (CHR ''/'') p @ split_on (CHR ''/'') (drop (Suc j) s)) ks"
      using ks by (simp_all add: ke_keys_def sp is_key_def)
    then obtain us vs where "ks = us @ vs" "ke_match (split_on (CHR ''/'') p) us" "list_all key_chunk us"
      unfolding ke_match_append by auto
    then show ?thesis using literal_keys [OF ok] nw by (auto simp: join_split_on)
  qed
  then show ?thesis using ok nw by (simp add: valid_ke_ok is_wild_def)
qed

theorem get_nonwild_prefix_valid_witness:
  "\<exists>p. get_nonwild_prefix ''demo/**/test'' = Some p \<and> valid_ke p \<and> \<not> is_wild p \<and>
    (\<forall>ks\<in>ke_keys ''demo/**/test''. \<exists>rest. ks = split_on DELIMITER p @ rest)"
proof -
  have "valid_ke ''demo/**/test''" "get_nonwild_prefix ''demo/**/test'' = Some ''demo''"
    by (simp_all add: valid_ke_ok ke_ok_def chunk_ok_def get_nonwild_prefix_def)
  then show ?thesis using get_nonwild_prefix_valid [of "''demo/**/test''"] by blast
qed

end
