(* ===== verification/KeyExpr_Strip.thy ===== *)
theory KeyExpr_Strip
  imports KeyExpr_Ops
begin

text \<open>
  \<open>keyexpr::strip_nonwild_prefix\<close> (\<open>key_expr/borrowed.rs\<close>), which the namespaces of the routing
  layer use: the removal of a prefix without wildcards.  The two slices are the suffixes that their
  indices leave; the outer option is \<open>None\<close> when the code panics.
\<close>

section \<open>Matching one chunk\<close>

definition verbatim_apart :: "string \<Rightarrow> string \<Rightarrow> bool" where
  "verbatim_apart target prefix \<longleftrightarrow> get prefix 0 = Some CHR ''@'' \<and> get target 0 \<noteq> Some CHR ''@''"

text \<open>The \<open>while\<close> loop of \<open>is_chunk_matching\<close> with the tests that follow it; the second argument is
  \<open>target_prev\<close>.\<close>

fun chunk_loop :: "string \<Rightarrow> char \<Rightarrow> string \<Rightarrow> bool" where
  "chunk_loop [] prev prefix \<longleftrightarrow> prefix = []"
| "chunk_loop (c # target) prev prefix \<longleftrightarrow>
     (if prefix = [] then length (c # target) = 2 \<and> c = CHR ''$''
      else if c = CHR ''*'' then
        if prev = CHR ''*'' \<or> target = [] then True
        else if prev = CHR ''$'' \<and>
            list_ex (\<lambda>i. \<not> verbatim_apart target (drop i prefix) \<and> chunk_loop target (CHR ''/'') (drop i prefix))
              [0..<length prefix - 1] then True
        else chunk_loop target c prefix
      else if c = hd prefix then chunk_loop target c (tl prefix)
      else if c \<noteq> CHR ''$'' then False
      else chunk_loop target c prefix)"

definition is_chunk_matching :: "string \<Rightarrow> string \<Rightarrow> bool" where
  "is_chunk_matching target prefix \<longleftrightarrow> \<not> verbatim_apart target prefix \<and> chunk_loop target (CHR ''/'') prefix"

section \<open>The prefix\<close>

text \<open>The search for the beginning of the chunk that ends at a position.\<close>

fun chunk_start :: "string \<Rightarrow> nat \<Rightarrow> nat" where
  "chunk_start p 0 = 0"
| "chunk_start p (Suc i) = (if p ! i \<noteq> CHR ''/'' then chunk_start p i else Suc i)"

lemma chunk_start_le: "chunk_start p i \<le> i"
  by (induction i) auto

definition chunk_end :: "string \<Rightarrow> nat" where
  "chunk_end t = (case position (\<lambda>i. i = CHR ''/'') t of Some n \<Rightarrow> n | None \<Rightarrow> length t)"

text \<open>The \<open>loop\<close> behind a \<open>**\<close> (\<open>strip_back\<close>) subtracts 2 from a position that is not 0: on 1 the
  subtraction overflows, and without overflow checks the index that follows is out of range.\<close>

function strip_inner :: "string \<Rightarrow> string \<Rightarrow> string option option"
  and strip_back :: "string \<Rightarrow> string \<Rightarrow> nat \<Rightarrow> string option option" where
  "strip_inner target prefix =
     (if target = [] \<or> prefix = [] then Some None
      else let te = chunk_end target; pe = chunk_end prefix in
        if te = 2 \<and> hd target = CHR ''*'' then
          (case position (\<lambda>x. x = CHR ''@'') prefix of
             Some p \<Rightarrow> if te + 1 \<ge> length target then Some None else strip_back (drop (te + 1) target) prefix p
           | None \<Rightarrow> Some (Some target))
        else if te = length target then Some None
        else if \<not> is_chunk_matching (take te target) (take pe prefix) then Some None
        else if pe = length prefix then Some (Some (drop (te + 1) target))
        else strip_inner (drop (te + 1) target) (drop (pe + 1) prefix))"
| "strip_back target remaining p =
     (case strip_inner target (drop p remaining) of
        None \<Rightarrow> None
      | Some (Some ke) \<Rightarrow> Some (Some ke)
      | Some None \<Rightarrow>
          if p = 0 then Some None
          else if p < 2 then None
          else strip_back target remaining (chunk_start remaining (p - 2)))"
  by pat_completeness auto
termination
  by (relation "inv_image (less_than <*lex*> less_than <*lex*> less_than)
      (\<lambda>x. case x of Inl (t, p) \<Rightarrow> (length t, 0, 0) | Inr (t, p, q) \<Rightarrow> (length t, Suc 0, q))")
    (auto intro!: le_less_trans [OF chunk_start_le])

declare strip_inner.simps [simp del] strip_back.simps [simp del]

definition strip_nonwild_prefix :: "string \<Rightarrow> string \<Rightarrow> string option option" where
  "strip_nonwild_prefix self prefix = strip_inner self prefix"

section \<open>Chunks\<close>

lemma verbatim_apart_iff: "prefix \<noteq> [] \<Longrightarrow> verbatim_apart target prefix \<longleftrightarrow> has_direct_verbatim prefix \<and> \<not> has_direct_verbatim target"
  by (cases prefix; cases target) (auto simp: verbatim_apart_def)

lemma chunk_loop_sound:
  "dsl_ok t \<Longrightarrow> list_all key_char p \<Longrightarrow> chunk_loop t prev p \<Longrightarrow> dsl_match t p"
proof (induction "length t" arbitrary: t prev p rule: less_induct)
  case less
  show ?case
  proof (cases t)
    case (Cons c t')
    show ?thesis
    proof (cases "c = CHR ''$''")
      case False
      then have "c \<noteq> CHR ''*''" "dsl_ok t'" using less.prems(1) Cons by auto
      moreover from this False have "p = c # tl p" "chunk_loop t' c (tl p)"
        using less.prems(3) Cons by (auto split: if_splits simp: neq_Nil_conv)
      moreover have "list_all key_char (tl p)" using less.prems(2) by (cases p) auto
      ultimately have "dsl_match t' (tl p)" using less.hyps Cons by simp
      with False \<open>p = c # tl p\<close> show ?thesis using Cons dsl_match_lit [of c t' p] by metis
    next
      case True
      then obtain u where u: "t' = CHR ''*'' # u" "dsl_ok u" using less.prems(1) Cons by (auto split: list.splits)
      have IH: "dsl_match u q" if "list_all key_char q" "chunk_loop u pr q" for q pr using less.hyps u(2) that Cons u(1) by simp
      have "\<exists>i. dsl_match u (drop i p)"
      proof (cases "u = []")
        case True
        then show ?thesis by (intro exI [of _ "length p"]) simp
      next
        case False
        then have ne: "p \<noteq> []" using less.prems(3) Cons True u by auto
        then have "hd p \<noteq> CHR ''$''" using less.prems(2) by (cases p) (auto simp: key_char_def)
        then have "chunk_loop u (CHR ''*'') p \<or> (\<exists>i. chunk_loop u (CHR ''/'') (drop i p))"
          using less.prems(3) False ne unfolding Cons True u(1) by (auto simp: list_ex_iff split: if_splits)
        moreover have "list_all key_char (drop i p)" for i using less.prems(2) by (auto simp: list_all_iff dest: in_set_dropD)
        ultimately show ?thesis using IH by (metis drop_0)
      qed
      then show ?thesis using dsl_match_skip [of u _ "CHR ''*''" "take _ p"] unfolding Cons True u(1) by (metis append_take_drop_id)
    qed
  qed (use less.prems in simp)
qed

lemma chunk_loop_self: "list_all key_char k \<Longrightarrow> chunk_loop k prev k"
  by (induction k arbitrary: prev) (auto simp: key_char_def)

lemma is_chunk_matching_sound:
  assumes c: "chunk_ok c" "c \<noteq> ''**''" "has_direct_verbatim c \<longrightarrow> CHR ''*'' \<notin> set c" and k: "key_chunk k"
    and m: "is_chunk_matching c k"
  shows "chunk_match c k"
  using c(1)
proof (cases rule: chunk_ok_cases)
  case 1
  then show ?thesis using m k by (auto simp: is_chunk_matching_def verbatim_apart_iff chunk_match_def key_chunk_def)
next
  case 3
  have d: "dsl_match c k" using chunk_loop_sound [OF 3(3)] m k by (auto simp: is_chunk_matching_def key_chunk_def)
  have v: "has_direct_verbatim k \<longrightarrow> has_direct_verbatim c" using m k by (simp add: is_chunk_matching_def verbatim_apart_iff key_chunk_def)
  show ?thesis
  proof (cases "has_direct_verbatim c")
    case True
    then have "CHR ''$'' \<notin> set c" using c(3) dsl_ok_nostar_key [OF 3(3)] key_chars_notin [of c] by blast
    then show ?thesis using d by (simp add: chunk_match_def dsl_match_self)
  next
    case False
    then show ?thesis using d v by (simp add: chunk_match_def)
  qed
qed (use c in simp)

lemma is_chunk_matching_complete:
  assumes c: "chunk_ok c" "c \<noteq> ''**''" "CHR ''$'' \<notin> set c" and k: "key_chunk k" and m: "chunk_match c k"
  shows "is_chunk_matching c k"
proof (cases "c = ''*''")
  case True
  then show ?thesis using m k by (auto simp: is_chunk_matching_def verbatim_apart_iff chunk_match_def key_chunk_def)
next
  case False
  then have "c = k" using m c(3) by (auto simp: chunk_match_def dsl_match_self split: if_splits)
  then show ?thesis using k chunk_loop_self [of k] by (simp add: is_chunk_matching_def verbatim_apart_iff key_chunk_def)
qed

section \<open>Lists of chunks\<close>

text \<open>What stands before the chunks that follow \<open>us\<close>.\<close>

definition pre :: "string list \<Rightarrow> string" where
  "pre us = (if us = [] then [] else join_chunks us @ ''/'')"

lemma join_pre: "vs \<noteq> [] \<Longrightarrow> join_chunks (us @ vs) = pre us @ join_chunks vs"
  by (cases "us = []") (simp_all add: pre_def join_chunks_append)

lemma drop_pre: "vs \<noteq> [] \<Longrightarrow> drop (length (pre us)) (join_chunks (us @ vs)) = join_chunks vs"
  by (simp add: join_pre)

lemma pre_snoc: "pre (us @ [u]) = pre us @ u @ ''/''"
  by (simp add: pre_def join_chunks_append)

lemma pre_Cons: "pre (u # us) = u @ CHR ''/'' # pre us"
  by (simp add: pre_def join_chunks_Cons)

lemma chunk_start_plain:
  assumes "CHR ''/'' \<notin> set w" "x = [] \<or> last x = CHR ''/''" "i \<le> length w"
  shows "chunk_start (x @ w @ y) (length x + i) = length x"
  using assms(3)
proof (induction i)
  case 0
  show ?case
  proof (cases x rule: rev_cases)
    case (snoc x' c)
    then have "c = CHR ''/''" using assms(2) by simp
    then show ?thesis unfolding snoc by (simp add: nth_append)
  qed simp
next
  case (Suc i)
  then have "(x @ w @ y) ! (length x + i) = w ! i" "w ! i \<noteq> CHR ''/''"
    using assms(1) nth_mem [of i w] Suc.prems by (auto simp: nth_append simp del: nth_mem)
  with Suc show ?case by simp
qed

lemma chunk_start_pre:
  assumes "plain_chunk u"
  shows "chunk_start (join_chunks (us @ u # vs)) (length (pre (us @ [u])) - 2) = length (pre us)" "2 \<le> length (pre (us @ [u]))"
proof -
  obtain y where y: "join_chunks (u # vs) = u @ y" by (cases "vs = []") (simp_all add: join_chunks_Cons)
  have "length (pre (us @ [u])) - 2 = length (pre us) + (length u - 1)" using assms by (cases u) (auto simp: pre_snoc plain_chunk_def)
  moreover have "pre us = [] \<or> last (pre us) = CHR ''/''" by (simp add: pre_def)
  ultimately show "chunk_start (join_chunks (us @ u # vs)) (length (pre (us @ [u])) - 2) = length (pre us)"
    using chunk_start_plain [of u "pre us" "length u - 1" y] assms y by (simp add: join_pre plain_chunk_def)
  show "2 \<le> length (pre (us @ [u]))" using assms by (cases u) (auto simp: pre_snoc plain_chunk_def)
qed

lemma chunk_join:
  assumes "plain_chunk c"
  shows "chunk_end (join_chunks (c # cs)) = length c" "take (length c) (join_chunks (c # cs)) = c"
    "drop (length c + 1) (join_chunks (c # cs)) = join_chunks cs" "length c = length (join_chunks (c # cs)) \<longleftrightarrow> cs = []"
    "join_chunks (c # cs) \<noteq> []" "hd (join_chunks (c # cs)) = hd c"
    "length c + 1 \<ge> length (join_chunks (c # cs)) \<longleftrightarrow> cs = [] \<or> join_chunks cs = []"
proof -
  have n: "\<forall>x\<in>set c. x \<noteq> CHR ''/''" using assms by (auto simp: plain_chunk_def)
  have "position (\<lambda>i. i = CHR ''/'') c = None" using position_append [of c "\<lambda>i. i = CHR ''/''" "[]"] n by simp
  then show "chunk_end (join_chunks (c # cs)) = length c"
    using position_append [of c "\<lambda>i. i = CHR ''/''"] n by (simp add: chunk_end_def join_chunks_Cons)
qed (use assms in \<open>auto simp: join_chunks_Cons plain_chunk_def\<close>)

text \<open>A chunk with \<open>@\<close> at its beginning only.\<close>

definition at_start :: "string \<Rightarrow> bool" where
  "at_start k \<longleftrightarrow> CHR ''@'' \<notin> set (tl k)"

lemma position_verbatim:
  assumes "list_all key_chunk ks" "list_all at_start ks"
  shows "case position (\<lambda>x. x = CHR ''@'') (join_chunks ks) of
      None \<Rightarrow> list_all (\<lambda>k. \<not> has_direct_verbatim k) ks
    | Some p \<Rightarrow> \<exists>us v vs. ks = us @ v # vs \<and> list_all (\<lambda>k. \<not> has_direct_verbatim k) us \<and> has_direct_verbatim v \<and> p = length (pre us)"
  using assms
proof (induction ks)
  case (Cons k ks)
  show ?case
  proof (cases "has_direct_verbatim k")
    case True
    then have "position (\<lambda>x. x = CHR ''@'') (join_chunks (k # ks)) = Some 0" by (cases k) (auto simp: join_chunks_Cons)
    then show ?thesis using True by (auto intro!: exI [of _ "[]"] simp: pre_def)
  next
    case False
    then have n: "\<forall>x\<in>set k. x \<noteq> CHR ''@''" using Cons.prems by (cases k) (auto simp: at_start_def)
    have "position (\<lambda>x. x = CHR ''@'') (join_chunks (k # ks)) =
        map_option (\<lambda>n. length k + 1 + n) (position (\<lambda>x. x = CHR ''@'') (join_chunks ks))"
      using position_append [of k "\<lambda>x. x = CHR ''@''"] position_append [of k "\<lambda>x. x = CHR ''@''" "[]"] n
      by (cases "ks = []") (simp_all add: join_chunks_Cons option.map_comp comp_def)
    moreover have "case position (\<lambda>x. x = CHR ''@'') (join_chunks ks) of
      None \<Rightarrow> list_all (\<lambda>k. \<not> has_direct_verbatim k) ks
    | Some p \<Rightarrow> \<exists>us v vs. ks = us @ v # vs \<and> list_all (\<lambda>k. \<not> has_direct_verbatim k) us \<and> has_direct_verbatim v \<and> p = length (pre us)"
      using Cons by simp
    moreover have "\<exists>us' v' vs'. k # us @ v # vs = us' @ v' # vs' \<and> list_all (\<lambda>k. \<not> has_direct_verbatim k) us' \<and>
        has_direct_verbatim v' \<and> length k + 1 + length (pre us) = length (pre us')"
      if "list_all (\<lambda>k. \<not> has_direct_verbatim k) us" "has_direct_verbatim v" for us v vs
      using that False by (intro exI [of _ "k # us"] exI [of _ v] exI [of _ vs]) (simp add: pre_Cons)
    ultimately show ?thesis using False by (auto split: option.splits)
  qed
qed simp

section \<open>Removing the prefix\<close>

definition no_dollar :: "string list \<Rightarrow> bool" where
  "no_dollar cs \<longleftrightarrow> list_all (\<lambda>c. CHR ''$'' \<notin> set c) cs"

definition suffix_ok :: "string list \<Rightarrow> string list \<Rightarrow> string \<Rightarrow> bool" where
  "suffix_ok cs ks k \<longleftrightarrow> (\<exists>ds. k = join_chunks ds \<and> ke_ok ds \<and> (\<forall>ws. ke_match ds ws \<longrightarrow> ke_match cs (ks @ ws)))"

text \<open>A result of the code for the chunks \<open>cs\<close> and the prefix \<open>ks\<close>: there is no panic, a suffix is sound, and if there
  is none (and no \<open>$*\<close>) nothing matches.\<close>

definition strip_spec :: "string list \<Rightarrow> string list \<Rightarrow> string option option \<Rightarrow> bool" where
  "strip_spec cs ks r \<longleftrightarrow> (\<exists>r'. r = Some r' \<and> (\<forall>k. r' = Some k \<longrightarrow> suffix_ok cs ks k) \<and>
     (r' = None \<longrightarrow> no_dollar cs \<longrightarrow> (\<forall>ws. ws \<noteq> [] \<longrightarrow> \<not> ke_match cs (ks @ ws))))"

lemma strip_specI:
  "suffix_ok cs ks k \<Longrightarrow> strip_spec cs ks (Some (Some k))"
  "(\<And>ws. no_dollar cs \<Longrightarrow> ws \<noteq> [] \<Longrightarrow> \<not> ke_match cs (ks @ ws)) \<Longrightarrow> strip_spec cs ks (Some None)"
  by (auto simp: strip_spec_def)

lemma strip_spec_cases:
  assumes "strip_spec cs ks r"
  obtains k where "r = Some (Some k)" "suffix_ok cs ks k"
  | "r = Some None" "no_dollar cs \<Longrightarrow> (\<forall>ws. ws \<noteq> [] \<longrightarrow> \<not> ke_match cs (ks @ ws))"
  using assms unfolding strip_spec_def by (metis not_None_eq)

lemma strip_back_ok:
  assumes sub: "\<forall>us vs. ks = us @ vs \<longrightarrow> vs \<noteq> [] \<longrightarrow> strip_spec cs vs (strip_inner (join_chunks cs) (join_chunks vs))"
    and "list_all plain_chunk ks" "ks = us @ vs" "vs \<noteq> []" "list_all (\<lambda>k. \<not> has_direct_verbatim k) us"
  shows "\<exists>r. strip_back (join_chunks cs) (join_chunks ks) (length (pre us)) = Some r \<and>
    (\<forall>k. r = Some k \<longrightarrow> suffix_ok (''**'' # cs) ks k) \<and>
    (r = None \<longrightarrow> no_dollar cs \<longrightarrow> (\<forall>us1 us2 ws. us = us1 @ us2 \<longrightarrow> ws \<noteq> [] \<longrightarrow> \<not> ke_match cs (us2 @ vs @ ws)))"
  using assms(3-5)
proof (induction us arbitrary: vs rule: rev_induct)
  case Nil
  then have ks: "ks = vs" by simp
  from sub [rule_format, OF Nil(1,2)] show ?case
  proof (cases rule: strip_spec_cases)
    case (1 k)
    have "ke_match (''**'' # cs) xs" if "ke_match cs xs" for xs using that by (cases xs) auto
    then have "suffix_ok (''**'' # cs) ks k" using 1(2) unfolding suffix_ok_def ks by blast
    with 1(1) show ?thesis by (simp add: strip_back.simps pre_def ks)
  qed (simp add: strip_back.simps pre_def ks)
next
  case (snoc u us)
  let ?r = "strip_inner (join_chunks cs) (join_chunks vs)"
  have u: "plain_chunk u" using snoc.prems(1) assms(2) by simp
  have dr: "drop (length (pre (us @ [u]))) (join_chunks ks) = join_chunks vs" unfolding snoc.prems(1) by (rule drop_pre) (fact snoc.prems(2))
  from sub [rule_format, OF snoc.prems(1,2)] show ?case
  proof (cases rule: strip_spec_cases)
    case (1 k)
    have "ke_match (''**'' # cs) (ks @ ws)" if "ke_match cs (vs @ ws)" for ws
      unfolding ke_match_double_wild using that snoc.prems(1,3) by (intro exI [of _ "us @ [u]"] exI [of _ "vs @ ws"]) simp
    then have "suffix_ok (''**'' # cs) ks k" using 1(2) by (auto simp: suffix_ok_def)
    then show ?thesis using 1(1) by (simp add: strip_back.simps dr)
  next
    case 2
    have next_chunk: "strip_back (join_chunks cs) (join_chunks ks) (length (pre (us @ [u]))) =
        strip_back (join_chunks cs) (join_chunks ks) (length (pre us))"
      using chunk_start_pre(1) [OF u, of us vs] chunk_start_pre(2) [OF u, of us] 2(1) dr snoc.prems(1) by (subst strip_back.simps) auto
    obtain r where r: "strip_back (join_chunks cs) (join_chunks ks) (length (pre us)) = Some r"
        "\<forall>k. r = Some k \<longrightarrow> suffix_ok (''**'' # cs) ks k"
        "r = None \<longrightarrow> no_dollar cs \<longrightarrow> (\<forall>us1 us2 ws. us = us1 @ us2 \<longrightarrow> ws \<noteq> [] \<longrightarrow> \<not> ke_match cs (us2 @ (u # vs) @ ws))"
      using snoc.IH [of "u # vs"] snoc.prems by auto
    have "\<not> ke_match cs (us2 @ vs @ ws)" if "r = None" "no_dollar cs" "us @ [u] = us1 @ us2" "ws \<noteq> []" for us1 us2 ws
    proof (cases us2 rule: rev_cases)
      case Nil
      then show ?thesis using 2(2) that by simp
    next
      case (snoc us3 u')
      then show ?thesis using r(3) that by simp
    qed
    with r(1,2) next_chunk show ?thesis by auto
  qed
qed

lemma ke_match_verbatim_block:
  assumes "ke_match (''**'' # cs) (us @ v # vs)" "has_direct_verbatim v"
  shows "\<exists>us1 us2. us = us1 @ us2 \<and> ke_match cs (us2 @ v # vs)"
proof -
  obtain xs ys where x: "us @ v # vs = xs @ ys" "list_all (\<lambda>k. \<not> has_direct_verbatim k) xs" "ke_match cs ys"
    using assms(1) unfolding ke_match_double_wild by blast
  then obtain zs where "us = xs @ zs \<and> ys = zs @ v # vs \<or> xs = us @ zs \<and> zs @ ys = v # vs"
    by (metis append_eq_append_conv2)
  then show ?thesis
  proof
    assume "xs = us @ zs \<and> zs @ ys = v # vs"
    then have "xs = us" "ys = v # vs" using x(2) assms(2) by (cases zs; auto)+
    then show ?thesis using x(3) by (metis append_Nil append_Nil2)
  qed (use x(3) in blast)
qed

definition key_prefix :: "string list \<Rightarrow> bool" where
  "key_prefix ks \<longleftrightarrow> ks \<noteq> [] \<and> list_all key_chunk ks \<and> list_all at_start ks"

lemma key_prefix_plain: "key_prefix ks \<Longrightarrow> list_all plain_chunk ks"
  by (auto simp: key_prefix_def list_all_iff key_chunk_plain)

lemma strip_inner_double_wild:
  assumes ok: "ke_ok (''**'' # cs)" and ks: "key_prefix ks"
    and IH: "cs \<noteq> [] \<longrightarrow> (\<forall>us vs. ks = us @ vs \<longrightarrow> vs \<noteq> [] \<longrightarrow> strip_spec cs vs (strip_inner (join_chunks cs) (join_chunks vs)))"
  shows "strip_spec (''**'' # cs) ks (strip_inner (join_chunks (''**'' # cs)) (join_chunks ks))"
proof -
  obtain k ks' where k: "ks = k # ks'" "plain_chunk k" using ks key_prefix_plain [OF ks] by (cases ks) (auto simp: key_prefix_def)
  have c: "plain_chunk ''**''" using ok by (simp add: ke_ok_def chunk_ok_plain)
  note cj = chunk_join [OF c, of cs] and kj = chunk_join [OF k(2), of ks'] and pv = position_verbatim [of ks]
  have ne: "cs \<noteq> [] \<Longrightarrow> join_chunks cs \<noteq> []"
    using ok join_chunks_Nil_iff [of cs] by (auto simp: ke_ok_def list_all_iff chunk_ok_plain)
  show ?thesis
  proof (cases "position (\<lambda>x. x = CHR ''@'') (join_chunks ks)")
    case None
    then have nv: "list_all (\<lambda>k. \<not> has_direct_verbatim k) ks" using pv ks by (simp add: key_prefix_def)
    have "strip_inner (join_chunks (''**'' # cs)) (join_chunks ks) = Some (Some (join_chunks (''**'' # cs)))"
      using None cj kj by (subst strip_inner.simps) (simp add: Let_def k(1))
    moreover have "suffix_ok (''**'' # cs) ks (join_chunks (''**'' # cs))"
      unfolding suffix_ok_def using ok nv by (blast intro: ke_match_double_wild_append)
    ultimately show ?thesis by (simp only: strip_specI(1))
  next
    case (Some p)
    then obtain us v vs where u: "ks = us @ v # vs" "list_all (\<lambda>k. \<not> has_direct_verbatim k) us" "has_direct_verbatim v" "p = length (pre us)"
      using pv ks by (auto simp: key_prefix_def)
    show ?thesis
    proof (cases "cs = []")
      case True
      then have "strip_inner (join_chunks (''**'' # cs)) (join_chunks ks) = Some None"
        using Some cj kj by (subst strip_inner.simps) (simp add: Let_def k(1))
      then show ?thesis using u True by (auto intro!: strip_specI(2) simp: ke_match_only_double_wild)
    next
      case False
      have eq: "strip_inner (join_chunks (''**'' # cs)) (join_chunks ks) = strip_back (join_chunks cs) (join_chunks ks) (length (pre us))"
        using Some cj kj False ne u(4) by (subst strip_inner.simps) (simp add: Let_def k(1))
      obtain r where r: "strip_back (join_chunks cs) (join_chunks ks) (length (pre us)) = Some r"
          "\<forall>k. r = Some k \<longrightarrow> suffix_ok (''**'' # cs) ks k"
          "r = None \<longrightarrow> no_dollar cs \<longrightarrow> (\<forall>us1 us2 ws. us = us1 @ us2 \<longrightarrow> ws \<noteq> [] \<longrightarrow> \<not> ke_match cs (us2 @ (v # vs) @ ws))"
        using strip_back_ok [OF mp [OF IH False] key_prefix_plain [OF ks] u(1) _ u(2)] by blast
      have "\<not> ke_match (''**'' # cs) (ks @ ws)" if "r = None" "no_dollar (''**'' # cs)" "ws \<noteq> []" for ws
        using ke_match_verbatim_block [of cs us v "vs @ ws"] u(1,3) r(3) that by (auto simp: no_dollar_def)
      with r(1,2) show ?thesis unfolding eq by (auto simp: strip_spec_def)
    qed
  qed
qed

lemma strip_inner_chunk:
  assumes ok: "ke_ok (c # cs)" "verbatim_literal (c # cs)" and c: "c \<noteq> ''**''" and ks: "key_prefix (k # ks)"
    and IH: "cs \<noteq> [] \<longrightarrow> ks \<noteq> [] \<longrightarrow> strip_spec cs ks (strip_inner (join_chunks cs) (join_chunks ks))"
  shows "strip_spec (c # cs) (k # ks) (strip_inner (join_chunks (c # cs)) (join_chunks (k # ks)))"
proof -
  have co: "chunk_ok c" and pc: "plain_chunk c" and ko: "key_chunk k" and pk: "plain_chunk k"
    using ok ks by (auto simp: ke_ok_def chunk_ok_plain key_prefix_def key_chunk_plain)
  have "\<not> (length c = 2 \<and> hd c = CHR ''*'')" using co c by (cases rule: chunk_ok_cases) (auto simp: neq_Nil_conv)
  then have step: "strip_inner (join_chunks (c # cs)) (join_chunks (k # ks)) =
      (if cs = [] \<or> \<not> is_chunk_matching c k then Some None
       else if ks = [] then Some (Some (join_chunks cs)) else strip_inner (join_chunks cs) (join_chunks ks))"
    using chunk_join [OF pc, of cs] chunk_join [OF pk, of ks] by (subst strip_inner.simps) (auto simp: Let_def)
  show ?thesis
  proof (cases "cs = [] \<or> \<not> is_chunk_matching c k")
    case True
    then show ?thesis unfolding step using c is_chunk_matching_complete [OF co c _ ko]
      by (auto intro!: strip_specI(2) simp: no_dollar_def)
  next
    case False
    have m: "chunk_match c k" using is_chunk_matching_sound [OF co c _ ko] ok(2) False by (simp add: verbatim_literal_def)
    have "ke_ok cs" using ke_ok_append [of "[c]" cs] ok(1) False by simp
    then have "suffix_ok (c # cs) [k] (join_chunks cs)" using m c by (auto simp: suffix_ok_def)
    moreover have "strip_spec (c # cs) (k # ks) r" if "strip_spec cs ks r" for r
      using that m c by (auto simp: strip_spec_def suffix_ok_def no_dollar_def)
    ultimately show ?thesis unfolding step using False IH by (auto intro: strip_specI(1))
  qed
qed

lemma strip_inner_ok:
  assumes "ke_ok cs" "verbatim_literal cs" "key_prefix ks"
  shows "strip_spec cs ks (strip_inner (join_chunks cs) (join_chunks ks))"
  using assms
proof (induction cs arbitrary: ks)
  case (Cons c cs)
  have IH: "strip_spec cs vs (strip_inner (join_chunks cs) (join_chunks vs))" if "cs \<noteq> []" "key_prefix vs" for vs
    using Cons.IH that Cons.prems(1,2) ke_ok_append [of "[c]" cs] by (simp add: verbatim_literal_def)
  have sub: "key_prefix vs" if "ks = us @ vs" "vs \<noteq> []" for us vs using Cons.prems(3) that by (simp add: key_prefix_def)
  obtain k ks' where k: "ks = k # ks'" using Cons.prems(3) by (cases ks) (auto simp: key_prefix_def)
  show ?case
  proof (cases "c = ''**''")
    case True
    then show ?thesis using strip_inner_double_wild [of cs ks] Cons.prems(1,3) IH sub by blast
  next
    case False
    then show ?thesis using strip_inner_chunk [of c cs k ks'] Cons.prems k IH sub [of "[k]" ks'] by simp
  qed
qed (simp add: ke_ok_def)

lemma strip_keys:
  assumes s: "valid_ke s" "verbatim_literal (split_on DELIMITER s)"
    and p: "is_key (split_on DELIMITER p)" "list_all at_start (split_on DELIMITER p)"
  shows "\<exists>r. strip_nonwild_prefix s p = Some r \<and>
    (\<forall>k. r = Some k \<longrightarrow> valid_ke k \<and> (\<forall>ks\<in>ke_keys k. split_on DELIMITER p @ ks \<in> ke_keys s)) \<and>
    (r = None \<and> CHR ''$'' \<notin> set s \<longrightarrow> (\<forall>ks. is_key ks \<longrightarrow> split_on DELIMITER p @ ks \<notin> ke_keys s))"
proof -
  let ?cs = "split_on (CHR ''/'') s" and ?ks = "split_on (CHR ''/'') p"
  have "strip_spec ?cs ?ks (strip_inner (join_chunks ?cs) (join_chunks ?ks))"
    using s p by (intro strip_inner_ok) (auto simp: valid_ke_ok is_key_def key_prefix_def)
  then have sp: "strip_spec ?cs ?ks (strip_nonwild_prefix s p)" by (simp add: strip_nonwild_prefix_def join_split_on)
  have ok: "valid_ke k \<and> (\<forall>ks\<in>ke_keys k. ?ks @ ks \<in> ke_keys s)" if k: "suffix_ok ?cs ?ks k" for k
  proof -
    obtain ds where ds: "k = join_chunks ds" "ke_ok ds" "\<forall>ws. ke_match ds ws \<longrightarrow> ke_match ?cs (?ks @ ws)"
      using k unfolding suffix_ok_def by blast
    have "split_on (CHR ''/'') k = ds" unfolding ds(1)
      using ds(2) by (intro split_on_join) (auto simp: ke_ok_def list_all_iff plain_chunk_def dest!: chunk_ok_plain)
    then show ?thesis using ds p(1) by (auto simp: valid_ke_join ke_keys_def intro: is_key_append)
  qed
  have nd: "no_dollar ?cs" if "CHR ''$'' \<notin> set s"
    using that set_join_chunks [of _ ?cs] by (auto simp: no_dollar_def list_all_iff join_split_on)
  from sp show ?thesis
  proof (cases rule: strip_spec_cases)
    case (1 k)
    then show ?thesis using ok by simp
  next
    case 2
    then show ?thesis using nd by (auto simp: ke_keys_def is_key_def)
  qed
qed

text \<open>(C24) \<open>strip_nonwild_prefix\<close> on a valid expression with literal verbatim chunks (without \<open>$*\<close>) and a prefix whose chunks
  have \<open>@\<close> at their beginning only: it does not panic; a result is a valid key expression, all of whose keys give, after the
  prefix, a key of the expression; and when there is no result and the expression has no \<open>$*\<close>, no key of the expression
  continues the prefix.\<close>

theorem strip_nonwild_prefix_keys:
  assumes s: "valid_ke s" "verbatim_literal (split_on DELIMITER s)"
    and p: "is_key (split_on DELIMITER p)" "list_all at_start (split_on DELIMITER p)"
  shows "\<exists>r. strip_nonwild_prefix s p = Some r \<and>
    (\<forall>k. r = Some k \<longrightarrow> valid_ke k \<and> (\<forall>ks\<in>ke_keys k. split_on DELIMITER p @ ks \<in> ke_keys s)) \<and>
    (r = None \<and> CHR ''$'' \<notin> set s \<longrightarrow> (\<forall>ks. is_key ks \<longrightarrow> split_on DELIMITER p @ ks \<notin> ke_keys s))"
  using s p by (rule strip_keys)

theorem strip_nonwild_prefix_keys_witness:
  "\<exists>r. strip_nonwild_prefix ''a/**/@v/*'' ''a/b/@v'' = Some r \<and>
    (\<forall>k. r = Some k \<longrightarrow> valid_ke k \<and> (\<forall>ks\<in>ke_keys k. split_on DELIMITER ''a/b/@v'' @ ks \<in> ke_keys ''a/**/@v/*'')) \<and>
    (r = None \<and> CHR ''$'' \<notin> set ''a/**/@v/*'' \<longrightarrow>
      (\<forall>ks. is_key ks \<longrightarrow> split_on DELIMITER ''a/b/@v'' @ ks \<notin> ke_keys ''a/**/@v/*''))"
  by (rule strip_nonwild_prefix_keys)
    (simp_all add: valid_ke_ok ke_ok_def chunk_ok_def verbatim_literal_def is_key_def key_chunk_def key_char_def at_start_def)

section \<open>Outside these conditions\<close>












end
