(* ===== verification/Codec_Zint.thy ===== *)
theory Codec_Zint
  imports Prelude
begin

text \<open>
  The variable-length integers of the wire format (zenoh-codec, core/zint.rs).  An encoder maps a
  value to the bytes it appends to the writer, \<^term>\<open>None\<close> being \<open>DidntWrite\<close>; a decoder maps
  the bytes left in the reader to a value and the bytes left after it, \<^term>\<open>None\<close> being
  \<open>DidntRead\<close>.  The writer is one that grows (\<open>Vec<u8>\<close>), and \<open>usize\<close> has 64 bits.
\<close>

type_synonym 'a enc = "'a \<Rightarrow> bytes option"
type_synonym 'a rd = "bytes \<Rightarrow> ('a \<times> bytes) option"

section \<open>Contract of a codec\<close>

text \<open>What is written for a well-formed value is read back as that value, whatever follows it.\<close>

locale codec =
  fixes wf :: "'a \<Rightarrow> bool" and enc :: "'a enc" and dec :: "'a rd"
  assumes rt: "wf x \<Longrightarrow> enc x = Some bs \<Longrightarrow> dec (bs @ r) = Some (x, r)"
begin

lemma rt_nil: "wf x \<Longrightarrow> enc x = Some bs \<Longrightarrow> dec bs = Some (x, [])"
  using rt [of x bs "[]"] by simp

lemma inj: "wf x \<Longrightarrow> wf y \<Longrightarrow> enc x = Some bs \<Longrightarrow> enc y = Some bs \<Longrightarrow> x = y"
  using rt_nil [of x bs] rt_nil [of y bs] by simp

lemma prefix_free:
  assumes "wf x" "wf y" "enc x = Some bs" "enc y = Some (bs @ cs)"
  shows "x = y \<and> cs = []"
  using rt [OF assms(1,3), of cs] rt [OF assms(2,4), of "[]"] by auto

end

section \<open>Decoders never give bytes back\<close>

definition shrinking :: "'a rd \<Rightarrow> bool" where
  "shrinking rd \<longleftrightarrow> (\<forall>bs x r. rd bs = Some (x, r) \<longrightarrow> length r \<le> length bs)"

lemma shrinkingD: "shrinking rd \<Longrightarrow> rd bs = Some (x, r) \<Longrightarrow> length r \<le> length bs"
  by (auto simp: shrinking_def)

lemma shrinking_return [rd_mono]: "shrinking (\<lambda>bs. Some (x, bs))"
  by (simp add: shrinking_def)

lemma shrinking_fail [rd_mono]: "shrinking (\<lambda>bs. None)"
  by (simp add: shrinking_def)

lemma shrinking_bind [rd_mono]:
  "shrinking d \<Longrightarrow> (\<And>x. shrinking (f x)) \<Longrightarrow> shrinking (\<lambda>bs. Option.bind (d bs) (case_prod f))"
  unfolding shrinking_def Option.bind_eq_Some_conv by fastforce

lemma shrinking_bind_opt [rd_mono]:
  "(\<And>x. shrinking (f x)) \<Longrightarrow> shrinking (\<lambda>bs. Option.bind o' (\<lambda>x. f x bs))"
  unfolding shrinking_def Option.bind_eq_Some_conv by fastforce

lemma shrinking_if [rd_mono]:
  "shrinking d \<Longrightarrow> shrinking e \<Longrightarrow> shrinking (\<lambda>bs. if P bs then d bs else e bs)"
  by (simp add: shrinking_def)

section \<open>Single bytes\<close>

definition write_u8 :: "u8 enc" where
  "write_u8 x = Some [x]"

fun read_u8 :: "u8 rd" where
  "read_u8 [] = None"
| "read_u8 (b # bs) = Some (b, bs)"

lemma write_u8_simp [codec_simps]: "write_u8 x = Some bs \<longleftrightarrow> bs = [x]"
  by (auto simp: write_u8_def)

section \<open>Variable-length integers\<close>

definition vle_len :: "u64 \<Rightarrow> nat" where
  "vle_len x =
     (if x AND push_bit 7 (- 1) = 0 then 1
      else if x AND push_bit (7 * 2) (- 1) = 0 then 2
      else if x AND push_bit (7 * 3) (- 1) = 0 then 3
      else if x AND push_bit (7 * 4) (- 1) = 0 then 4
      else if x AND push_bit (7 * 5) (- 1) = 0 then 5
      else if x AND push_bit (7 * 6) (- 1) = 0 then 6
      else if x AND push_bit (7 * 7) (- 1) = 0 then 7
      else if x AND push_bit (7 * 8) (- 1) = 0 then 8
      else 9)"

definition VLE_LEN_MAX :: nat where
  "VLE_LEN_MAX = vle_len (- 1)"

text \<open>The loop of the closure that fills the slot; \<open>len\<close> is the number of bytes written so far.\<close>

lemma and_not_mask_eq_0: "(x::'a::len word) AND NOT (mask k) = 0 \<longleftrightarrow> drop_bit k x = 0"
proof
  assume "x AND NOT (mask k) = 0"
  then have "drop_bit k (x AND NOT (mask k)) = 0" by simp
  moreover have "drop_bit k (x AND NOT (mask k)) = drop_bit k x"
    by (rule bit_word_eqI) (auto simp: bit_simps dest: bit_imp_le_length)
  ultimately show "drop_bit k x = 0" by simp
next
  assume *: "drop_bit k x = 0"
  have "\<not> bit x n" if "k \<le> n" for n
    using arg_cong [OF *, of "\<lambda>w. bit w (n - k)"] that by (simp add: bit_simps)
  then have "bit x n \<Longrightarrow> n < k" for n by (meson not_le)
  then show "x AND NOT (mask k) = 0"
    by (intro bit_word_eqI) (auto simp: bit_simps)
qed

lemma unat_drop_bit_div: "unat (drop_bit k (x::'a::len word)) = unat x div 2 ^ k"
  by (subst unat_drop_bit_eq) (rule drop_bit_eq_div)

lemma drop_bit_word_eq_0: "drop_bit k (x::'a::len word) = 0 \<longleftrightarrow> unat x < 2 ^ k"
proof -
  have "drop_bit k x = 0 \<longleftrightarrow> unat (drop_bit k x) = 0" by (simp add: unat_eq_zero)
  also have "unat (drop_bit k x) = unat x div 2 ^ k" by (rule unat_drop_bit_div)
  finally show ?thesis by (simp add: div_eq_0_iff)
qed

lemma and_push_minus1_eq_0: "(x::'a::len word) AND push_bit k (- 1) = 0 \<longleftrightarrow> unat x < 2 ^ k"
  using and_not_mask_eq_0 [of x k] drop_bit_word_eq_0 [of k x] by (simp add: push_bit_minus_one_eq_not_mask)

lemma and_not_0x7f: "(x::u64) AND - 128 = 0 \<longleftrightarrow> unat x < 128"
  using and_not_mask_eq_0 [of x 7] drop_bit_word_eq_0 [of 7 x] by (simp add: mask_eq_exp_minus_1)

lemma vle_len_unat:
  "vle_len x = (if unat x < 2 ^ 7 then 1 else if unat x < 2 ^ 14 then 2 else if unat x < 2 ^ 21 then 3
     else if unat x < 2 ^ 28 then 4 else if unat x < 2 ^ 35 then 5 else if unat x < 2 ^ 42 then 6
     else if unat x < 2 ^ 49 then 7 else if unat x < 2 ^ 56 then 8 else 9)"
  unfolding vle_len_def and_push_minus1_eq_0 by simp

lemma VLE_LEN_MAX_9 [simp]: "VLE_LEN_MAX = 9"
  by (simp add: VLE_LEN_MAX_def vle_len_unat unsigned_minus_1_eq_mask mask_eq_exp_minus_1)

function vle_loop :: "u64 \<Rightarrow> nat \<Rightarrow> bytes" where
  "vle_loop x len =
     (if x AND NOT 0x7f \<noteq> 0 then (ucast x OR 0x80) # vle_loop (drop_bit 7 x) (len + 1)
      else if len \<noteq> VLE_LEN_MAX then [ucast x] else [])"
  by pat_completeness auto
termination
  by (relation "measure (\<lambda>(x, len). unat x)")
    (auto simp: and_not_0x7f unat_drop_bit_div)

declare vle_loop.simps [simp del]

definition write_u64 :: "u64 enc" where
  "write_u64 x = Some (vle_loop x 0)"

fun read_vle_loop :: "u8 \<Rightarrow> u64 \<Rightarrow> nat \<Rightarrow> u64 rd" where
  "read_vle_loop b v i bs =
     (if b AND 0x80 \<noteq> 0 \<and> i \<noteq> 7 * (VLE_LEN_MAX - 1) then
        (case bs of
           [] \<Rightarrow> None
         | b' # bs' \<Rightarrow> read_vle_loop b' (v OR push_bit i (ucast (b AND 0x7f))) (i + 7) bs')
      else Some (v OR push_bit i (ucast b), bs))"

declare read_vle_loop.simps [simp del]

fun read_u64 :: "u64 rd" where
  "read_u64 [] = None"
| "read_u64 (b # bs) = read_vle_loop b 0 0 bs"

lemma bit_0x80: "bit (0x80::int) n \<longleftrightarrow> n = 7"
proof -
  have "(0x80::int) = 2 ^ 7" by simp
  then show ?thesis by (simp only: bit_exp_iff) auto
qed

lemma bit_0x7f: "bit (0x7f::int) n \<longleftrightarrow> n < 7"
proof -
  have "(0x7f::int) = mask 7" by (simp add: mask_eq_exp_minus_1)
  then show ?thesis by (simp only: bit_mask_iff) auto
qed

lemma not_bit_less: "unat (x::'a::len word) < 2 ^ k \<Longrightarrow> k \<le> n \<Longrightarrow> \<not> bit x n"
proof -
  assume "unat x < 2 ^ k" "k \<le> n"
  then have "drop_bit k x = 0" by (simp add: drop_bit_word_eq_0)
  from arg_cong [OF this, of "\<lambda>w. bit w (n - k)"] \<open>k \<le> n\<close> show "\<not> bit x n" by (simp add: bit_simps)
qed

lemma byte_flag: "((ucast (x::u64) :: u8) OR 0x80) AND 0x80 \<noteq> 0"
proof
  assume "((ucast x :: u8) OR 0x80) AND 0x80 = 0"
  then have "bit (((ucast x :: u8) OR 0x80) AND 0x80) 7 = bit (0::u8) 7" by simp
  then show False by (simp add: bit_simps bit_0x80)
qed

lemma byte_noflag: "unat (x::u64) < 128 \<Longrightarrow> (ucast x :: u8) AND 0x80 = 0"
  using not_bit_less [of x 7 7] by (intro bit_word_eqI) (auto simp: bit_simps bit_0x80)

lemma ucast_ucast_small: "unat (x::u64) < 256 \<Longrightarrow> ucast (ucast x :: u8) = x"
  by (simp add: word_unat_eq_iff unsigned_ucast_eq unsigned_take_bit_eq take_bit_nat_eq_self)

lemma byte_or_0x80: "unat (x::u64) < 256 \<Longrightarrow> \<not> unat x < 128 \<Longrightarrow> (ucast x :: u8) OR 0x80 = ucast x"
proof -
  assume a: "unat x < 256" "\<not> unat x < 128"
  then have "unat (drop_bit 7 x) = 1" by (simp only: unat_drop_bit_div) auto
  then have "drop_bit 7 x = 1" by (metis unat_1 word_unat_eq_iff)
  then have "bit (drop_bit 7 x) 0" by simp
  then have "bit x 7" by (simp only: bit_drop_bit_eq o_apply) simp
  then show ?thesis by (intro bit_word_eqI) (auto simp: bit_simps bit_0x80)
qed

lemma vle_step:
  "(v::u64) OR push_bit i (ucast (((ucast x :: u8) OR 0x80) AND 0x7f)) OR push_bit (i + 7) (drop_bit 7 x) =
   v OR push_bit i x"
proof (rule bit_word_eqI)
  fix n
  assume n: "n < LENGTH(64)"
  show "bit (v OR push_bit i (ucast (((ucast x :: u8) OR 0x80) AND 0x7f)) OR push_bit (i + 7) (drop_bit 7 x)) n =
      bit (v OR push_bit i x) n"
  proof (cases "n < i + 7")
    case True
    then show ?thesis using n by (auto simp: bit_simps bit_0x80 bit_0x7f)
  next
    case False
    then have "7 + (n - (i + 7)) = n - i" by simp
    with False n show ?thesis by (auto simp: bit_simps bit_0x80 bit_0x7f)
  qed
qed

lemma vle_loop_small: "unat x < 128 \<Longrightarrow> vle_loop x len = (if len \<noteq> 9 then [ucast x] else [])"
  by (simp add: vle_loop.simps and_not_0x7f)

lemma vle_loop_big: "\<not> unat x < 128 \<Longrightarrow> vle_loop x len = (ucast x OR 0x80) # vle_loop (drop_bit 7 x) (len + 1)"
  by (subst vle_loop.simps) (simp add: and_not_0x7f)

lemma read_vle_loop_rt:
  assumes "len \<le> 8" "unat x < 2 ^ (64 - 7 * len)" "vle_loop x len = b # bs"
  shows "read_vle_loop b v (7 * len) (bs @ r) = Some (v OR push_bit (7 * len) x, r)"
  using assms
proof (induction x len arbitrary: b bs v rule: vle_loop.induct)
  case (1 x len)
  show ?case
  proof (cases "unat x < 128")
    case True
    then have "b = ucast x" "bs = []" using "1.prems" by (auto simp: vle_loop_small)
    then show ?thesis using True
      by (subst read_vle_loop.simps) (simp add: byte_noflag ucast_ucast_small)
  next
    case big: False
    then have b: "b = ucast x OR 0x80" and bs: "bs = vle_loop (drop_bit 7 x) (len + 1)"
      using "1.prems" by (auto simp: vle_loop_big)
    show ?thesis
    proof (cases "len = 8")
      case True
      then have x: "unat x < 256" using "1.prems" by simp
      have "unat (drop_bit 7 x) < 128" using x by (simp add: unat_drop_bit_div)
      then have "bs = []" using bs True by (simp add: vle_loop_small)
      then show ?thesis using b x big True
        by (subst read_vle_loop.simps) (simp add: byte_or_0x80 ucast_ucast_small)
    next
      case False
      then have len: "len + 1 \<le> 8" using "1.prems" by simp
      have less: "unat (drop_bit 7 x) < 2 ^ (64 - 7 * (len + 1))"
      proof -
        have "2 ^ (64 - 7 * len) = (2::nat) ^ (64 - 7 * (len + 1)) * 2 ^ 7"
          using len by (subst power_add [symmetric]) (simp add: algebra_simps)
        then show ?thesis using "1.prems"(2) by (simp add: unat_drop_bit_div less_mult_imp_div_less)
      qed
      obtain b' bs' where n: "vle_loop (drop_bit 7 x) (len + 1) = b' # bs'"
        using len by (cases "unat (drop_bit 7 x) < 128") (auto simp: vle_loop_small vle_loop_big)
      have "x AND NOT 0x7f \<noteq> 0" using big by (simp add: and_not_0x7f)
      note IH = "1.IH" [OF this len less n]
      have "read_vle_loop b v (7 * len) (bs @ r) =
          read_vle_loop b' (v OR push_bit (7 * len) (ucast (b AND 0x7f))) (7 * (len + 1)) (bs' @ r)"
        unfolding bs n using False byte_flag [of x] by (subst read_vle_loop.simps) (simp add: b add.commute)
      also have "\<dots> = Some ((v OR push_bit (7 * len) (ucast (b AND 0x7f))) OR
          push_bit (7 * (len + 1)) (drop_bit 7 x), r)" by (rule IH)
      also have "(v OR push_bit (7 * len) (ucast (b AND 0x7f))) OR push_bit (7 * (len + 1)) (drop_bit 7 x) =
          v OR push_bit (7 * len) x"
        unfolding b using vle_step [of v "7 * len" x] by (simp add: or.assoc add.commute)
      finally show ?thesis .
    qed
  qed
qed

lemma read_write_u64: "write_u64 x = Some bs \<Longrightarrow> read_u64 (bs @ r) = Some (x, r)"
proof -
  assume "write_u64 x = Some bs"
  then have bs: "vle_loop x 0 = bs" by (simp add: write_u64_def)
  obtain b bs' where n: "vle_loop x 0 = b # bs'"
    by (cases "unat x < 128") (auto simp: vle_loop_small vle_loop_big)
  have "unat x < 2 ^ (64 - 7 * 0)" using unsigned_less [of x] by simp
  from read_vle_loop_rt [OF _ this n, of 0 r] show ?thesis using bs n by auto
qed

lemma length_vle_loop:
  assumes "n = 8 - len" "len \<le> 8" "unat x < 2 ^ (64 - 7 * len)"
  shows "length (vle_loop x len) = (if unat x < 2 ^ 7 \<or> n = 0 then 1
    else Suc (length (vle_loop (drop_bit 7 x) (len + 1))))"
proof (cases "unat x < 128")
  case True
  then show ?thesis using assms by (simp add: vle_loop_small)
next
  case False
  have "unat (drop_bit 7 x) < 128" if "len = 8" using assms that by (simp add: unat_drop_bit_div)
  then show ?thesis using False assms by (auto simp: vle_loop_big vle_loop_small)
qed

lemma div_less_pow: "(n::nat) div 2 ^ k < 2 ^ m \<longleftrightarrow> n < 2 ^ (k + m)"
  by (simp add: div_less_iff_less_mult power_add mult.commute)

text \<open>The number of bytes written is the one \<open>w_len\<close> announces, at most \<open>VLE_LEN_MAX\<close>.\<close>

lemma length_vle_loop_0: "length (vle_loop x 0) = vle_len x"
proof -
  have d: "unat (drop_bit k x) < 2 ^ m \<longleftrightarrow> unat x < 2 ^ (k + m)" for k m
    by (simp only: unat_drop_bit_div div_less_pow)
  define f where "f k = length (vle_loop (drop_bit (7 * k) x) k)" for k
  have step: "f k = (if unat x < 2 ^ (7 * k + 7) \<or> k = 8 then 1 else 1 + f (k + 1))" if "k \<le> 8" for k
  proof -
    have "unat (drop_bit (7 * k) x) < 2 ^ (64 - 7 * k)"
      unfolding d using unsigned_less [of x] that by simp
    from length_vle_loop [OF refl that this] that d [of "7 * k" 7] show ?thesis
      by (simp add: f_def drop_bit_drop_bit add.commute)
  qed
  have "f 0 = vle_len x"
    using step [of 0] step [of 1] step [of 2] step [of 3] step [of 4] step [of 5] step [of 6]
      step [of 7] step [of 8] by (simp add: vle_len_unat del: One_nat_def)
  then show ?thesis by (simp add: f_def)
qed

lemma length_write_u64: "write_u64 x = Some bs \<Longrightarrow> length bs = vle_len x"
  by (auto simp: write_u64_def length_vle_loop_0)

lemma vle_len_bounds: "1 \<le> vle_len x \<and> vle_len x \<le> VLE_LEN_MAX"
  by (simp add: vle_len_unat)

lemma write_u64_Some: "\<exists>bs. write_u64 x = Some bs"
  by (simp add: write_u64_def)

lemma read_vle_loop_mono: "read_vle_loop b v i bs = Some (x, r) \<Longrightarrow> length r \<le> length bs"
proof (induction b v i bs rule: read_vle_loop.induct)
  case (1 b v i bs)
  show ?case
  proof (cases "b AND 0x80 \<noteq> 0 \<and> i \<noteq> 7 * (VLE_LEN_MAX - 1)")
    case True
    with "1.prems" obtain b' bs' where bs: "bs = b' # bs'"
      and "read_vle_loop b' (v OR push_bit i (ucast (b AND 0x7f))) (i + 7) bs' = Some (x, r)"
      by (subst (asm) read_vle_loop.simps) (auto split: list.splits)
    from "1.IH" [OF True bs this(2)] bs show ?thesis by simp
  next
    case False
    with "1.prems" show ?thesis by (subst (asm) read_vle_loop.simps) auto
  qed
qed

lemma shrinking_u8 [rd_mono]: "shrinking read_u8"
  unfolding shrinking_def by (intro allI, case_tac bs) auto

lemma shrinking_u64 [rd_mono]: "shrinking read_u64"
  unfolding shrinking_def by (intro allI, case_tac bs) (auto dest!: read_vle_loop_mono)

interpretation u64: codec "\<lambda>_. True" write_u64 read_u64
  by unfold_locales (rule read_write_u64)

interpretation u8: codec "\<lambda>_. True" write_u8 read_u8
  by unfold_locales (auto simp: write_u8_def)

section \<open>The other unsigned integers\<close>

text \<open>\<open>u16\<close>, \<open>u32\<close> and \<open>usize\<close> go through \<open>u64\<close>; reading truncates.\<close>

definition write_uint :: "'a::len word \<Rightarrow> bytes option" where
  "write_uint x = write_u64 (ucast x)"

definition read_uint :: "'a::len word rd" where
  "read_uint bs = do { (x, bs) \<leftarrow> read_u64 bs; Some (ucast x, bs) }"

text \<open>The bounded codecs, \<open>bound\<close> being the largest value of the bounding type.\<close>

definition U8_MAX :: u64 where "U8_MAX = 0xff"
definition U16_MAX :: u64 where "U16_MAX = 0xffff"
definition U32_MAX :: u64 where "U32_MAX = 0xffffffff"
definition U64_MAX :: u64 where "U64_MAX = 0xffffffffffffffff"

definition write_zint :: "u64 \<Rightarrow> 'a::len word \<Rightarrow> bytes option" where
  "write_zint bound x = (if ucast x AND NOT bound \<noteq> 0 then None else write_u64 (ucast x))"

definition read_zint :: "u64 \<Rightarrow> 'a::len word rd" where
  "read_zint bound bs =
     do { (x, bs) \<leftarrow> read_u64 bs; if x AND NOT bound \<noteq> 0 then None else Some (ucast x, bs) }"

lemma ucast_ucast_id: "LENGTH('a::len) \<le> LENGTH('b::len) \<Longrightarrow> ucast (ucast (x::'a word) :: 'b word) = x"
  by (rule bit_word_eqI) (auto simp: bit_simps)

lemma read_write_uint:
  "LENGTH('a::len) \<le> 64 \<Longrightarrow> write_uint (x::'a word) = Some bs \<Longrightarrow> read_uint (bs @ r) = Some (x, r)"
  by (simp add: write_uint_def read_uint_def u64.rt ucast_ucast_id)

lemma read_write_zint:
  "LENGTH('a::len) \<le> 64 \<Longrightarrow> write_zint b (x::'a word) = Some bs \<Longrightarrow> read_zint b (bs @ r) = Some (x, r)"
  by (auto simp: write_zint_def read_zint_def u64.rt ucast_ucast_id split: if_splits)

lemma shrinking_uint [rd_mono]: "shrinking read_uint"
  unfolding read_uint_def [abs_def] by (intro rd_mono)

lemma shrinking_zint [rd_mono]: "shrinking (read_zint b)"
  unfolding read_zint_def [abs_def] by (intro rd_mono)

text \<open>A bounded write fails exactly on the values above the bound.\<close>

lemma write_zint_None_iff:
  assumes "bound = mask k" "LENGTH('a::len) \<le> 64"
  shows "write_zint bound (x::'a word) = None \<longleftrightarrow> \<not> unat x < 2 ^ k"
proof -
  have "unat x < 2 ^ LENGTH('a)" by (rule unsigned_less)
  also have "\<dots> \<le> 2 ^ 64" using assms(2) by (rule power_increasing) simp
  finally have "unat x < 2 ^ 64" .
  then have "unat (ucast x :: u64) = unat x" by (simp add: unsigned_ucast_eq take_bit_nat_eq_self)
  then show ?thesis
    using and_not_mask_eq_0 [of "ucast x :: u64" k] drop_bit_word_eq_0 [of k "ucast x :: u64"]
    by (simp add: write_zint_def assms(1) write_u64_def)
qed

interpretation u16: codec "\<lambda>_. True" "write_uint :: u16 enc" read_uint
  by unfold_locales (simp add: read_write_uint)

interpretation u32: codec "\<lambda>_. True" "write_uint :: u32 enc" read_uint
  by unfold_locales (simp add: read_write_uint)

interpretation usize: codec "\<lambda>_. True" "write_uint :: u64 enc" read_uint
  by unfold_locales (simp add: read_write_uint)

interpretation zu16: codec "\<lambda>_. True" "write_zint b :: u16 enc" "read_zint b" for b
  by unfold_locales (simp add: read_write_zint)

interpretation zu32: codec "\<lambda>_. True" "write_zint b :: u32 enc" "read_zint b" for b
  by unfold_locales (simp add: read_write_zint)

interpretation zu64: codec "\<lambda>_. True" "write_zint b :: u64 enc" "read_zint b" for b
  by unfold_locales (simp add: read_write_zint)

text \<open>(C28) A \<open>u64\<close> is always written, in as many bytes as \<open>w_len\<close> announces (at most 9, the size of
  the slot the unchecked writes of the loop go to), and is read back whatever bytes follow.\<close>

theorem u64_roundtrip:
  "\<exists>bs. write_u64 x = Some bs \<and> length bs = vle_len x \<and> 1 \<le> length bs \<and> length bs \<le> VLE_LEN_MAX \<and>
     (\<forall>r. read_u64 (bs @ r) = Some (x, r))"
  using write_u64_Some [of x] length_write_u64 [of x] vle_len_bounds [of x] u64.rt by auto

text \<open>(C29) The codec bounded by \<open>u8\<close>, \<open>u16\<close> or \<open>u32\<close> rejects exactly the values above the bound, both
  when writing and when reading, and what it writes is read back.\<close>

theorem zint_bounded:
  assumes "bound = mask k" "k \<le> 64"
  shows "(write_zint bound (x::u64) = None \<longleftrightarrow> \<not> unat x < 2 ^ k) \<and>
     (write_zint bound x = Some bs \<longrightarrow> read_zint bound (bs @ r) = Some (x, r)) \<and>
     (read_zint bound cs = Some (y::u64, r) \<longrightarrow> unat y < 2 ^ k)"
proof -
  have "unat y < 2 ^ k" if "read_zint bound cs = Some (y, r)"
    using that and_not_mask_eq_0 [of y k] drop_bit_word_eq_0 [of k y]
    by (auto simp: read_zint_def assms Option.bind_eq_Some_conv split: if_splits)
  then show ?thesis using write_zint_None_iff [OF assms(1), of x] zu64.rt by simp
qed

theorem zint_bounded_witness:
  "write_zint (mask 16) (65536::u64) = None \<and> read_zint (mask 16) ([0xac, 0x02] @ [7]) = Some (300::u64, [7])"
proof -
  have "write_zint (mask 16) (300::u64) = Some [0xac, 0x02]" by code_simp
  then show ?thesis
    using zint_bounded [of "mask 16" 16 65536] zint_bounded [of "mask 16" 16 300 "[0xac, 0x02]" "[7]"] by simp
qed

end
