(* ===== verification/Codec_Core.thy ===== *)
theory Codec_Core
  imports Codec_Zint
begin

text \<open>
  Byte sequences, strings and the basic protocol values (zenoh-codec, core/*.rs), read from a
  \<open>&[u8]\<close> reader and written to a \<open>Vec<u8>\<close> writer (zenoh-buffers).  A \<open>ZSlice\<close> or \<open>ZBuf\<close> is
  its byte content, a \<open>String\<close> its UTF-8 bytes.  An identifier (\<open>uhlc::ID\<close>, a third-party type) is
  its significant little-endian bytes \<open>to_le_bytes()[..size()]\<close>, and \<open>ID::try_from\<close> on a byte slice is
  the parameter \<open>idf\<close> of the decoders that use it.
\<close>

section \<open>Sequencing\<close>

text \<open>A sequence of \<open>write(...)?\<close> calls.\<close>

fun wcat :: "bytes option list \<Rightarrow> bytes option" where
  "wcat [] = Some []"
| "wcat (a # as) = do { x \<leftarrow> a; y \<leftarrow> wcat as; Some (x @ y) }"

text \<open>A write or a read that is made under a condition.\<close>

definition wr_when :: "bool \<Rightarrow> bytes option \<Rightarrow> bytes option" where
  "wr_when b w = (if b then w else Some [])"

definition wr_opt :: "('a \<Rightarrow> bytes option) \<Rightarrow> 'a option \<Rightarrow> bytes option" where
  "wr_opt w o' = (case o' of None \<Rightarrow> Some [] | Some x \<Rightarrow> w x)"

definition rd_when :: "bool \<Rightarrow> 'a \<Rightarrow> 'a rd \<Rightarrow> 'a rd" where
  "rd_when b d rd bs = (if b then rd bs else Some (d, bs))"

definition rd_opt :: "bool \<Rightarrow> 'a rd \<Rightarrow> 'a option rd" where
  "rd_opt b rd bs = (if b then do { (x, bs) \<leftarrow> rd bs; Some (Some x, bs) } else Some (None, bs))"

lemma wcat_Nil_Some [codec_simps]: "wcat [] = Some bs \<longleftrightarrow> bs = []"
  by auto

lemma wcat_Cons_Some [codec_simps]:
  "wcat (a # as) = Some bs \<longleftrightarrow> (\<exists>x y. a = Some x \<and> wcat as = Some y \<and> bs = x @ y)"
  by (auto simp: Option.bind_eq_Some_conv)

declare wcat.simps [simp del]

text \<open>Reading back what a conditional write wrote.\<close>

lemma rd_when_rt:
  assumes "wr_when b (w x) = Some bs" "b \<Longrightarrow> w x = Some bs \<Longrightarrow> \<forall>r. rd (bs @ r) = Some (x, r)"
    and "\<not> b \<Longrightarrow> x = d"
  shows "\<forall>r. rd_when b d rd (bs @ r) = Some (x, r)"
  using assms by (auto simp: wr_when_def rd_when_def split: if_splits)

lemma rd_opt_rt:
  assumes "wr_opt w o' = Some bs" "\<And>x. o' = Some x \<Longrightarrow> w x = Some bs \<Longrightarrow> \<forall>r. rd (bs @ r) = Some (x, r)"
  shows "\<forall>r. rd_opt (o' \<noteq> None) rd (bs @ r) = Some (o', r)"
  using assms by (auto simp: wr_opt_def rd_opt_def split: option.splits)

lemma shrinking_when [rd_mono]: "shrinking rd \<Longrightarrow> shrinking (rd_when b d rd)"
  unfolding rd_when_def [abs_def] by (intro rd_mono)

lemma shrinking_opt [rd_mono]: "shrinking rd \<Longrightarrow> shrinking (rd_opt b rd)"
  unfolding rd_opt_def [abs_def] by (intro rd_mono)

context codec
begin

lemma rt_all: "wf x \<Longrightarrow> enc x = Some bs \<Longrightarrow> \<forall>r. dec (bs @ r) = Some (x, r)"
  using rt by blast

lemma rt_opt: "wr_opt enc o' = Some bs \<Longrightarrow> pred_option wf o' \<Longrightarrow> \<forall>r. rd_opt (o' \<noteq> None) dec (bs @ r) = Some (o', r)"
  by (rule rd_opt_rt) (auto simp: rt)

lemma rt_when:
  "wr_when b (enc x) = Some bs \<Longrightarrow> (b \<Longrightarrow> wf x) \<Longrightarrow> (\<not> b \<Longrightarrow> x = d) \<Longrightarrow>
   \<forall>r. rd_when b d dec (bs @ r) = Some (x, r)"
  by (rule rd_when_rt) (auto simp: rt)

end

section \<open>Reader and writer\<close>

text \<open>\<open>usize\<close> has 64 bits: a longer list is the content of no slice.\<close>

definition slice_len :: "'a list \<Rightarrow> u64 option" where
  "slice_len xs = (if length xs < 2 ^ 64 then Some (of_nat (length xs)) else None)"

lemma less_2_64: "n < 2 ^ 64 \<longleftrightarrow> int n < 0x10000000000000000"
  by simp

lemma slice_len_code [code]:
  "slice_len xs = (if int (length xs) < 0x10000000000000000 then Some (of_nat (length xs)) else None)"
  unfolding slice_len_def less_2_64 ..

definition read_exact :: "nat \<Rightarrow> bytes rd" where
  "read_exact n bs = (if length bs < n then None else Some (take n bs, drop n bs))"

definition write_exact :: "bytes enc" where
  "write_exact x = Some x"

text \<open>\<open>read_zslice\<close> and \<open>read_zbuf\<close> copy the bytes out of the reader.\<close>

definition read_zslice_n :: "u64 \<Rightarrow> bytes rd" where
  "read_zslice_n n bs = (if length bs < unat n then None else read_exact (unat n) bs)"

lemma read_exact_append [simp]: "length x = n \<Longrightarrow> read_exact n (x @ r) = Some (x, r)"
  by (simp add: read_exact_def)

lemma slice_len_Some: "slice_len xs = Some n \<Longrightarrow> unat n = length xs"
  by (auto simp: slice_len_def unat_of_nat take_bit_nat_eq_self split: if_splits)

lemma read_zslice_n_append [simp]: "unat n = length x \<Longrightarrow> read_zslice_n n (x @ r) = Some (x, r)"
  by (simp add: read_zslice_n_def)

lemma shrinking_exact [rd_mono]: "shrinking (read_exact n)"
  by (auto simp: shrinking_def read_exact_def split: if_splits)

lemma shrinking_zslice_n [rd_mono]: "shrinking (read_zslice_n n)"
  unfolding read_zslice_n_def [abs_def] by (intro rd_mono)

section \<open>Byte slices\<close>

definition write_slice :: "u64 \<Rightarrow> bytes enc" where
  "write_slice bound x =
     do { n \<leftarrow> slice_len x; wcat [write_zint bound n, if x = [] then Some [] else write_exact x] }"

definition read_vec :: "u64 \<Rightarrow> bytes rd" where
  "read_vec bound bs =
     do { (len, bs) \<leftarrow> read_zint bound bs;
          if length bs < unat (len::u64) then None
          else if len \<noteq> 0 then read_exact (unat len) bs else Some ([], bs) }"

text \<open>\<open>ZSlice\<close> and \<open>ZBuf\<close>, with their length.\<close>

definition write_zbuf :: "u64 \<Rightarrow> bytes enc" where
  "write_zbuf bound x = do { n \<leftarrow> slice_len x; wcat [write_zint bound n, write_exact x] }"

definition read_zbuf :: "u64 \<Rightarrow> bytes rd" where
  "read_zbuf bound bs = do { (len, bs) \<leftarrow> read_zint bound bs; read_zslice_n len bs }"

lemma write_slice_eq: "write_slice b x = write_zbuf b x"
  by (simp add: write_slice_def write_zbuf_def write_exact_def)

lemma read_zbuf_rt: "write_zbuf b x = Some bs \<Longrightarrow> read_zbuf b (bs @ r) = Some (x, r)"
proof -
  assume "write_zbuf b x = Some bs"
  then obtain n a where "slice_len x = Some n" "write_zint b n = Some a" "bs = a @ x"
    by (auto simp: write_zbuf_def write_exact_def Option.bind_eq_Some_conv codec_simps)
  then show ?thesis using zu64.rt [of b n a "x @ r"] slice_len_Some [of x n]
    by (simp add: read_zbuf_def)
qed

lemma read_vec_rt: "write_slice b x = Some bs \<Longrightarrow> read_vec b (bs @ r) = Some (x, r)"
proof -
  assume "write_slice b x = Some bs"
  then obtain n a where "slice_len x = Some n" "write_zint b n = Some a" "bs = a @ x"
    by (auto simp: write_slice_eq write_zbuf_def write_exact_def Option.bind_eq_Some_conv codec_simps)
  then show ?thesis using zu64.rt [of b n a "x @ r"] slice_len_Some [of x n]
    by (auto simp: read_vec_def unat_eq_zero)
qed

interpretation zbuf: codec "\<lambda>_. True" "write_zbuf b" "read_zbuf b" for b
  by unfold_locales (rule read_zbuf_rt)

interpretation slice: codec "\<lambda>_. True" "write_slice b" "read_vec b" for b
  by unfold_locales (rule read_vec_rt)

lemma shrinking_zbuf [rd_mono]: "shrinking (read_zbuf b)"
  unfolding read_zbuf_def [abs_def] by (intro rd_mono)

lemma shrinking_vec [rd_mono]: "shrinking (read_vec b)"
  unfolding read_vec_def [abs_def] by (intro rd_mono)

section \<open>Strings\<close>

text \<open>What \<open>String::from_utf8\<close> accepts.\<close>

definition utf8_cont :: "u8 \<Rightarrow> bool" where
  "utf8_cont b \<longleftrightarrow> 0x80 \<le> b \<and> b \<le> 0xbf"

fun utf8_ok :: "bytes \<Rightarrow> bool" where
  "utf8_ok [] = True"
| "utf8_ok (a # s) =
     (if a < 0x80 then utf8_ok s
      else (case s of
        [] \<Rightarrow> False
      | b # s1 \<Rightarrow>
          if 0xc2 \<le> a \<and> a \<le> 0xdf then utf8_cont b \<and> utf8_ok s1
          else (case s1 of
            [] \<Rightarrow> False
          | c # s2 \<Rightarrow>
              if a = 0xe0 then 0xa0 \<le> b \<and> b \<le> 0xbf \<and> utf8_cont c \<and> utf8_ok s2
              else if 0xe1 \<le> a \<and> a \<le> 0xec \<or> 0xee \<le> a \<and> a \<le> 0xef then
                utf8_cont b \<and> utf8_cont c \<and> utf8_ok s2
              else if a = 0xed then 0x80 \<le> b \<and> b \<le> 0x9f \<and> utf8_cont c \<and> utf8_ok s2
              else (case s2 of
                [] \<Rightarrow> False
              | d # s3 \<Rightarrow>
                  if a = 0xf0 then 0x90 \<le> b \<and> b \<le> 0xbf \<and> utf8_cont c \<and> utf8_cont d \<and> utf8_ok s3
                  else if 0xf1 \<le> a \<and> a \<le> 0xf3 then
                    utf8_cont b \<and> utf8_cont c \<and> utf8_cont d \<and> utf8_ok s3
                  else a = 0xf4 \<and> 0x80 \<le> b \<and> b \<le> 0x8f \<and> utf8_cont c \<and> utf8_cont d \<and> utf8_ok s3))))"

definition write_str :: "u64 \<Rightarrow> bytes enc" where
  "write_str bound x = write_slice bound x"

definition read_string :: "u64 \<Rightarrow> bytes rd" where
  "read_string bound bs =
     do { (v, bs) \<leftarrow> read_vec bound bs; if utf8_ok v then Some (v, bs) else None }"

interpretation str: codec utf8_ok "write_str b" "read_string b" for b
  by unfold_locales (simp add: write_str_def read_string_def slice.rt)

lemma shrinking_string [rd_mono]: "shrinking (read_string b)"
  unfolding read_string_def [abs_def] by (intro rd_mono)

end
