(* ===== verification/Codec_Values.thy ===== *)
theory Codec_Values
  imports Codec_Core
begin

text \<open>
  The values that the messages share (zenoh-codec, core/zenohid.rs, timestamp.rs, encoding.rs,
  wire_expr.rs; zenoh-protocol, core): identifiers, timestamps, encodings, wire expressions.
\<close>

section \<open>Header bytes (zenoh-protocol, common/mod.rs)\<close>

definition HEADER_MASK :: u8 where
  "HEADER_MASK = NOT (push_bit 5 0xff)"

definition mid :: "u8 \<Rightarrow> u8" where
  "mid header = header AND HEADER_MASK"

definition has_flag :: "u8 \<Rightarrow> u8 \<Rightarrow> bool" where
  "has_flag byte flag \<longleftrightarrow> byte AND flag \<noteq> 0"

definition has_option :: "u64 \<Rightarrow> u64 \<Rightarrow> bool" where
  "has_option options flag \<longleftrightarrow> options AND flag \<noteq> 0"

text \<open>The flag bits 5, 6 and 7 of a message header, above the message identifier.\<close>

definition flag5 :: u8 where "flag5 = push_bit 5 1"
definition flag6 :: u8 where "flag6 = push_bit 6 1"
definition flag7 :: u8 where "flag7 = push_bit 7 1"

lemmas flag_defs = flag5_def flag6_def flag7_def

text \<open>\<open>if b { header |= flag }\<close>\<close>

definition set_if :: "bool \<Rightarrow> u8 \<Rightarrow> u8 \<Rightarrow> u8" where
  "set_if b flag header = (if b then header OR flag else header)"

lemma bit_push_1_u8: "bit (push_bit k 1 :: u8) n \<longleftrightarrow> n = k \<and> k < 8"
  by (simp only: bit_push_bit_iff bit_1_iff possible_bit_word) auto

lemma has_flag_push: "k < 8 \<Longrightarrow> has_flag x (push_bit k 1) = bit x k"
proof -
  assume k: "k < 8"
  have "bit (x AND push_bit k 1) n \<longleftrightarrow> bit x k \<and> n = k" for n
    using k by (auto simp only: bit_and_iff bit_push_1_u8)
  then have "x AND push_bit k 1 \<noteq> 0 \<longleftrightarrow> bit x k"
    unfolding bit_eq_iff [of "x AND push_bit k 1"] using k by auto
  then show ?thesis by (simp only: has_flag_def)
qed

lemma bit_set_if: "bit (set_if b f x) n \<longleftrightarrow> bit x n \<or> b \<and> bit f n"
  by (simp add: set_if_def bit_or_iff)

lemma HEADER_MASK_mask: "HEADER_MASK = mask 5"
  by (simp add: HEADER_MASK_def mask_eq_exp_minus_1)

lemma bit_mid: "bit (mid x) n \<longleftrightarrow> bit x n \<and> n < 5"
  by (auto simp: mid_def HEADER_MASK_mask bit_simps)

definition mid_ok :: "u8 \<Rightarrow> bool" where
  "mid_ok i \<longleftrightarrow> mid i = i"

lemma mid_ok_bit: "mid_ok i \<Longrightarrow> 5 \<le> n \<Longrightarrow> \<not> bit i n"
  unfolding mid_ok_def using bit_mid [of i n] by simp

lemma bit_flags: "bit flag5 n \<longleftrightarrow> n = 5" "bit flag6 n \<longleftrightarrow> n = 6" "bit flag7 n \<longleftrightarrow> n = 7"
  unfolding flag_defs bit_push_1_u8 by auto

lemma has_flag_bit: "has_flag x flag5 = bit x 5" "has_flag x flag6 = bit x 6" "has_flag x flag7 = bit x 7"
  unfolding flag_defs by (rule has_flag_push; simp)+

lemma mid_set_if [simp]:
  "mid (set_if b flag5 x) = mid x" "mid (set_if b flag6 x) = mid x" "mid (set_if b flag7 x) = mid x"
  by (rule bit_word_eqI; auto simp: bit_mid bit_set_if bit_flags)+

lemma has_flag_set_if [simp]:
  "has_flag (set_if b flag5 x) flag5 = (b \<or> has_flag x flag5)"
  "has_flag (set_if b flag6 x) flag5 = has_flag x flag5" "has_flag (set_if b flag7 x) flag5 = has_flag x flag5"
  "has_flag (set_if b flag6 x) flag6 = (b \<or> has_flag x flag6)"
  "has_flag (set_if b flag5 x) flag6 = has_flag x flag6" "has_flag (set_if b flag7 x) flag6 = has_flag x flag6"
  "has_flag (set_if b flag7 x) flag7 = (b \<or> has_flag x flag7)"
  "has_flag (set_if b flag5 x) flag7 = has_flag x flag7" "has_flag (set_if b flag6 x) flag7 = has_flag x flag7"
  by (auto simp: has_flag_bit bit_set_if bit_flags)

lemma mid_ok_flags [simp]:
  assumes "mid_ok i"
  shows "mid i = i" "\<not> has_flag i flag5" "\<not> has_flag i flag6" "\<not> has_flag i flag7"
  using assms mid_ok_bit [OF assms] by (auto simp: has_flag_bit mid_ok_def)

section \<open>Identifiers\<close>

type_synonym zid = bytes

definition ZID_MAX_SIZE :: nat where
  [simp]: "ZID_MAX_SIZE = 16"

text \<open>The identifiers: the byte sequences of size 1 to 16 that \<open>ID::try_from\<close> gives back.\<close>

definition zid_ok :: "(bytes \<Rightarrow> bytes option) \<Rightarrow> zid \<Rightarrow> bool" where
  "zid_ok idf i \<longleftrightarrow> 1 \<le> length i \<and> length i \<le> ZID_MAX_SIZE \<and> idf i = Some i"

definition write_zid :: "zid enc" where
  "write_zid x = write_slice U64_MAX x"

definition read_zid :: "(bytes \<Rightarrow> bytes option) \<Rightarrow> zid rd" where
  "read_zid idf bs =
     do { (size, bs) \<leftarrow> read_uint bs;
          if unat (size::u64) > ZID_MAX_SIZE then None
          else do { (i, bs) \<leftarrow> read_exact (unat size) bs; z \<leftarrow> idf i; Some (z, bs) } }"

text \<open>The codec with the length given apart (\<open>Zenoh080Length\<close>).\<close>

definition write_zid_len :: "nat \<Rightarrow> zid enc" where
  "write_zid_len len x = (if len > ZID_MAX_SIZE then None else write_exact x)"

definition read_zid_len :: "(bytes \<Rightarrow> bytes option) \<Rightarrow> nat \<Rightarrow> zid rd" where
  "read_zid_len idf len bs =
     (if len > ZID_MAX_SIZE then None
      else do { (i, bs) \<leftarrow> read_exact len bs; z \<leftarrow> idf i; Some (z, bs) })"

lemma write_zint_U64_MAX: "write_zint U64_MAX x = write_u64 x"
proof -
  have "NOT U64_MAX = 0" unfolding U64_MAX_def by (simp add: bit_eq_iff) code_simp
  then show ?thesis by (simp add: write_zint_def)
qed

lemma write_slice_small:
  assumes "write_slice U64_MAX x = Some bs"
  obtains a where "bs = a @ x" "\<And>r. read_uint (a @ r) = Some (of_nat (length x) :: u64, r)"
    "unat (of_nat (length x) :: u64) = length x"
proof -
  from assms obtain n a where n: "slice_len x = Some n" "write_zint U64_MAX n = Some a" "bs = a @ x"
    by (auto simp: write_slice_eq write_zbuf_def write_exact_def Option.bind_eq_Some_conv codec_simps)
  then have "n = of_nat (length x)" by (auto simp: slice_len_def split: if_splits)
  moreover have "read_uint (a @ r) = Some (n, r)" for r
    using n(2) u64.rt [of n a r] by (simp add: write_zint_U64_MAX read_uint_def)
  ultimately show thesis using that n slice_len_Some [OF n(1)] by blast
qed

lemma read_zid_rt: "zid_ok idf x \<Longrightarrow> write_zid x = Some bs \<Longrightarrow> read_zid idf (bs @ r) = Some (x, r)"
  unfolding write_zid_def by (erule write_slice_small) (simp add: read_zid_def zid_ok_def)

interpretation zid: codec "zid_ok idf" write_zid "read_zid idf" for idf
  by unfold_locales (rule read_zid_rt)

lemma read_zid_len_rt:
  "zid_ok idf x \<Longrightarrow> write_zid_len (length x) x = Some bs \<Longrightarrow> read_zid_len idf (length x) (bs @ r) = Some (x, r)"
  by (auto simp: write_zid_len_def read_zid_len_def zid_ok_def write_exact_def)

lemma shrinking_zid [rd_mono]: "shrinking (read_zid idf)"
  unfolding read_zid_def [abs_def] by (intro rd_mono)

lemma shrinking_zid_len [rd_mono]: "shrinking (read_zid_len idf n)"
  unfolding read_zid_len_def [abs_def] by (intro rd_mono)

section \<open>Timestamps\<close>

record timestamp =
  ts_time :: u64
  ts_id :: zid

definition timestamp_ok :: "(bytes \<Rightarrow> bytes option) \<Rightarrow> timestamp \<Rightarrow> bool" where
  "timestamp_ok idf t \<longleftrightarrow> zid_ok idf (ts_id t)"

definition timestamp_w_len :: "timestamp \<Rightarrow> nat" where
  "timestamp_w_len x = vle_len (ts_time x) + (vle_len (of_nat (length (ts_id x))) + length (ts_id x))"

definition write_timestamp :: "timestamp enc" where
  "write_timestamp x = wcat [write_u64 (ts_time x), write_slice U64_MAX (ts_id x)]"

definition read_timestamp :: "(bytes \<Rightarrow> bytes option) \<Rightarrow> timestamp rd" where
  "read_timestamp idf bs =
     do { (time, bs) \<leftarrow> read_u64 bs;
          (size, bs) \<leftarrow> read_uint bs;
          if unat (size::u64) > ZID_MAX_SIZE then None
          else do { (i, bs) \<leftarrow> read_exact (unat size) bs; z \<leftarrow> idf i;
                    Some (\<lparr>ts_time = time, ts_id = z\<rparr>, bs) } }"

lemma read_timestamp_rt:
  assumes "timestamp_ok idf x" "write_timestamp x = Some bs"
  shows "read_timestamp idf (bs @ r) = Some (x, r)"
proof -
  from assms(2) obtain a b where ab: "write_u64 (ts_time x) = Some a" "write_slice U64_MAX (ts_id x) = Some b"
    "bs = a @ b" by (auto simp: write_timestamp_def codec_simps)
  note t = u64.rt_all [OF TrueI ab(1)]
  from ab(2) show ?thesis
    by (rule write_slice_small)
      (use assms(1) ab t in \<open>simp add: read_timestamp_def timestamp_ok_def zid_ok_def\<close>)
qed

interpretation timestamp: codec "timestamp_ok idf" write_timestamp "read_timestamp idf" for idf
  by unfold_locales (rule read_timestamp_rt)

lemma shrinking_timestamp [rd_mono]: "shrinking (read_timestamp idf)"
  unfolding read_timestamp_def [abs_def] by (intro rd_mono)

section \<open>Encodings\<close>

record encoding =
  enc_id :: u16
  enc_schema :: "bytes option"

definition encoding_empty :: encoding where
  "encoding_empty = \<lparr>enc_id = 0, enc_schema = None\<rparr>"

definition slice_w_len :: "bytes \<Rightarrow> nat" where
  "slice_w_len x = vle_len (of_nat (length x)) + length x"

definition encoding_w_len :: "encoding \<Rightarrow> nat" where
  "encoding_w_len x =
     vle_len (ucast (push_bit 1 (ucast (enc_id x) :: u32))) +
     (case enc_schema x of None \<Rightarrow> 0 | Some s \<Rightarrow> slice_w_len s)"

definition write_encoding :: "encoding enc" where
  "write_encoding x =
     (let i = push_bit 1 (ucast (enc_id x) :: u32);
          i = (if enc_schema x \<noteq> None then i OR 1 else i)
      in wcat [write_zint U32_MAX i, wr_opt (write_zbuf U8_MAX) (enc_schema x)])"

definition read_encoding :: "encoding rd" where
  "read_encoding bs =
     do { (i, bs) \<leftarrow> read_zint U32_MAX bs;
          (schema, bs) \<leftarrow> rd_opt (has_flag (ucast (i::u32)) 1) (read_zbuf U8_MAX) bs;
          Some (\<lparr>enc_id = ucast (drop_bit 1 i), enc_schema = schema\<rparr>, bs) }"

lemma has_flag_1: "has_flag b 1 \<longleftrightarrow> bit b 0"
  unfolding has_flag_def by (metis and_one_eq bit_0 even_iff_mod_2_eq_zero)

lemma enc_flag: "has_flag (ucast (push_bit 1 (x::u32))) 1 = False" "has_flag (ucast (push_bit 1 (x::u32) OR 1)) 1"
  unfolding has_flag_1 by (simp_all only: bit_simps) simp_all

lemma enc_shift:
  "(ucast (drop_bit 1 (push_bit 1 (ucast (i::u16) :: u32))) :: u16) = i"
  "(ucast (drop_bit 1 (push_bit 1 (ucast (i::u16) :: u32) OR 1)) :: u16) = i"
  by (rule bit_word_eqI; simp only: bit_simps; fastforce simp: bit_simps simp del: push_bit_Suc)+

lemma read_encoding_rt: "write_encoding x = Some bs \<Longrightarrow> read_encoding (bs @ r) = Some (x, r)"
proof -
  assume *: "write_encoding x = Some bs"
  define i where "i = (if enc_schema x \<noteq> None then push_bit 1 (ucast (enc_id x) :: u32) OR 1
    else push_bit 1 (ucast (enc_id x)))"
  from * obtain a b where ab: "write_zint U32_MAX i = Some a" "wr_opt (write_zbuf U8_MAX) (enc_schema x) = Some b"
    "bs = a @ b" unfolding write_encoding_def Let_def codec_simps i_def by auto
  have flag: "has_flag (ucast i) 1 \<longleftrightarrow> enc_schema x \<noteq> None" unfolding i_def using enc_flag by (cases "enc_schema x") auto
  have "(ucast (drop_bit 1 i) :: u16) = enc_id x" unfolding i_def using enc_shift by (cases "enc_schema x") auto
  then show ?thesis
    using zu32.rt_all [OF TrueI ab(1)] zbuf.rt_opt [OF ab(2)] ab(3) flag
    by (simp add: read_encoding_def pred_option_def)
qed

interpretation encoding: codec "\<lambda>_. True" write_encoding read_encoding
  by unfold_locales (rule read_encoding_rt)

lemma shrinking_encoding [rd_mono]: "shrinking (read_encoding)"
  unfolding read_encoding_def [abs_def] by (intro rd_mono)

section \<open>Wire expressions\<close>

datatype mapping = Receiver | Sender

definition MAPPING_DEFAULT :: mapping where
  "MAPPING_DEFAULT = Receiver"

record wire_expr =
  scope :: u16
  suffix :: bytes
  we_mapping :: mapping

definition has_suffix :: "wire_expr \<Rightarrow> bool" where
  "has_suffix x \<longleftrightarrow> suffix x \<noteq> []"

definition write_wire_expr :: "wire_expr enc" where
  "write_wire_expr x =
     wcat [write_zint U16_MAX (scope x), wr_when (has_suffix x) (write_str U16_MAX (suffix x))]"

definition read_wire_expr :: "bool \<Rightarrow> wire_expr rd" where
  "read_wire_expr condition bs =
     do { (sc, bs) \<leftarrow> read_zint U16_MAX bs;
          (suf, bs) \<leftarrow> rd_when condition [] (read_string U16_MAX) bs;
          Some (\<lparr>scope = sc, suffix = suf, we_mapping = MAPPING_DEFAULT\<rparr>, bs) }"

definition wire_expr_ok :: "wire_expr \<Rightarrow> bool" where
  "wire_expr_ok x \<longleftrightarrow> utf8_ok (suffix x)"

text \<open>The mapping is not part of the encoded expression: the message header carries it.\<close>

lemma read_wire_expr_rt:
  assumes "wire_expr_ok x" "write_wire_expr x = Some bs"
  shows "\<forall>r. read_wire_expr (has_suffix x) (bs @ r) = Some (x\<lparr>we_mapping := MAPPING_DEFAULT\<rparr>, r)"
proof -
  from assms(2) obtain a b where ab: "write_zint U16_MAX (scope x) = Some a"
    "wr_when (has_suffix x) (write_str U16_MAX (suffix x)) = Some b" "bs = a @ b"
    by (auto simp: write_wire_expr_def codec_simps)
  have "\<forall>r. rd_when (has_suffix x) [] (read_string U16_MAX) (b @ r) = Some (suffix x, r)"
    using assms(1) by (intro str.rt_when [OF ab(2)]) (auto simp: wire_expr_ok_def has_suffix_def)
  with zu16.rt_all [OF TrueI ab(1)] ab(3) show ?thesis by (simp add: read_wire_expr_def)
qed

lemma shrinking_wire_expr [rd_mono]: "shrinking (read_wire_expr c)"
  unfolding read_wire_expr_def [abs_def] by (intro rd_mono)

end
