(* ===== verification/Codec_Ext.thy ===== *)
theory Codec_Ext
  imports Codec_Values
begin

text \<open>
  Message extensions (zenoh-protocol, common/extension.rs; zenoh-codec, common/extension.rs).  An
  extension is a header byte \<open>|Z|ENC|M|ID|\<close> and a body; \<open>Z\<close> says that another one follows.
  The loops that write and read the extensions of a message are the same in every message: they
  are modelled once, with the extensions of the message as an argument.
\<close>

section \<open>Header of an extension\<close>

definition iext_ID_MASK :: u8 where "iext_ID_MASK = NOT (push_bit 4 0xff)"
definition FLAG_M :: u8 where "FLAG_M = push_bit 4 1"
definition ENC_UNIT :: u8 where "ENC_UNIT = push_bit 5 0"
definition ENC_Z64 :: u8 where "ENC_Z64 = push_bit 5 1"
definition ENC_ZBUF :: u8 where "ENC_ZBUF = push_bit 5 2"
definition ENC_MASK :: u8 where "ENC_MASK = push_bit 5 3"
definition FLAG_Z :: u8 where "FLAG_Z = push_bit 7 1"

definition eid :: "u8 \<Rightarrow> u8" where
  "eid header = header AND NOT FLAG_Z"

definition iext_id :: "u8 \<Rightarrow> bool \<Rightarrow> u8 \<Rightarrow> u8" where
  "iext_id i mandatory enc =
     (let i = i AND iext_ID_MASK;
          i = (if mandatory then i OR FLAG_M else i AND NOT FLAG_M)
      in i OR enc)"

definition is_mandatory :: "u8 \<Rightarrow> bool" where
  "is_mandatory i = has_flag i FLAG_M"

lemmas iext_consts =
  iext_ID_MASK_def FLAG_M_def ENC_UNIT_def ENC_Z64_def ENC_ZBUF_def ENC_MASK_def FLAG_Z_def

text \<open>The identifiers that the macros \<open>zextunit!\<close>, \<open>zextz64!\<close> and \<open>zextzbuf!\<close> give.\<close>

definition zextunit :: "u8 \<Rightarrow> bool \<Rightarrow> u8" where "zextunit i m = iext_id i m ENC_UNIT"
definition zextz64 :: "u8 \<Rightarrow> bool \<Rightarrow> u8" where "zextz64 i m = iext_id i m ENC_Z64"
definition zextzbuf :: "u8 \<Rightarrow> bool \<Rightarrow> u8" where "zextzbuf i m = iext_id i m ENC_ZBUF"

lemmas zext_defs = zextunit_def zextz64_def zextzbuf_def iext_id_def iext_consts

section \<open>Extension bodies\<close>

datatype ZExtBody = Unit | Z64 u64 | ZBuf bytes

record ZExtUnknown =
  zext_id :: u8
  zext_body :: ZExtBody

definition ext_header :: "u8 \<Rightarrow> bool \<Rightarrow> u8" where
  "ext_header i has_more = (if has_more then i OR FLAG_Z else i)"

definition write_ext_unit :: "u8 \<Rightarrow> bool \<Rightarrow> bytes option" where
  "write_ext_unit i has_more = write_u8 (ext_header i has_more)"

definition read_ext_unit :: "u8 \<Rightarrow> u8 \<Rightarrow> bool rd" where
  "read_ext_unit i header bs = (if eid header \<noteq> i then None else Some (has_flag header FLAG_Z, bs))"

definition write_ext_z64 :: "u8 \<Rightarrow> u64 \<Rightarrow> bool \<Rightarrow> bytes option" where
  "write_ext_z64 i v has_more = wcat [write_u8 (ext_header i has_more), write_u64 v]"

definition read_ext_z64 :: "u8 \<Rightarrow> u8 \<Rightarrow> (u64 \<times> bool) rd" where
  "read_ext_z64 i header bs =
     (if eid header \<noteq> i then None
      else do { (v, bs) \<leftarrow> read_u64 bs; Some ((v, has_flag header FLAG_Z), bs) })"

definition write_ext_zbuf :: "u8 \<Rightarrow> bytes \<Rightarrow> bool \<Rightarrow> bytes option" where
  "write_ext_zbuf i v has_more = wcat [write_u8 (ext_header i has_more), write_zbuf U32_MAX v]"

definition read_ext_zbuf :: "u8 \<Rightarrow> u8 \<Rightarrow> (bytes \<times> bool) rd" where
  "read_ext_zbuf i header bs =
     (if eid header \<noteq> i then None
      else do { (v, bs) \<leftarrow> read_zbuf U32_MAX bs; Some ((v, has_flag header FLAG_Z), bs) })"

text \<open>The header of a buffer extension whose content the caller writes.\<close>

definition write_ext_zbuf_header :: "u8 \<Rightarrow> u64 \<Rightarrow> bool \<Rightarrow> bytes option" where
  "write_ext_zbuf_header i len has_more = wcat [write_u8 (ext_header i has_more), write_zint U32_MAX len]"

definition read_ext_zbuf_header :: "u8 \<Rightarrow> u8 \<Rightarrow> (u64 \<times> bool) rd" where
  "read_ext_zbuf_header i header bs =
     (if eid header \<noteq> i then None
      else do { (len, bs) \<leftarrow> read_zint U32_MAX bs; Some ((len, has_flag header FLAG_Z), bs) })"

definition write_ext_unknown :: "ZExtUnknown \<Rightarrow> bool \<Rightarrow> bytes option" where
  "write_ext_unknown x has_more =
     (let header = ext_header (zext_id x) has_more in
      case zext_body x of
        Unit \<Rightarrow> write_u8 header
      | Z64 v \<Rightarrow> wcat [write_u8 header, write_u64 v]
      | ZBuf b \<Rightarrow> wcat [write_u8 header, write_zbuf U32_MAX b])"

definition read_ext_unknown :: "u8 \<Rightarrow> (ZExtUnknown \<times> bool) rd" where
  "read_ext_unknown header bs =
     do { (body, bs) \<leftarrow>
            (if header AND ENC_MASK = ENC_UNIT then Some (Unit, bs)
             else if header AND ENC_MASK = ENC_Z64 then do { (v, bs) \<leftarrow> read_u64 bs; Some (Z64 v, bs) }
             else if header AND ENC_MASK = ENC_ZBUF then
               do { (b, bs) \<leftarrow> read_zbuf U32_MAX bs; Some (ZBuf b, bs) }
             else None);
          Some ((\<lparr>zext_id = header AND NOT FLAG_Z, zext_body = body\<rparr>, has_flag header FLAG_Z), bs) }"

text \<open>\<open>extension::read\<close> and \<open>extension::skip\<close>: an unknown mandatory extension is an error.\<close>

definition ext_read :: "u8 \<Rightarrow> (ZExtUnknown \<times> bool) rd" where
  "ext_read header bs =
     do { (u, bs) \<leftarrow> read_ext_unknown header bs;
          if is_mandatory (zext_id (fst u)) then None else Some (u, bs) }"

definition ext_skip :: "u8 \<Rightarrow> bool rd" where
  "ext_skip header bs = do { (u, bs) \<leftarrow> ext_read header bs; Some (snd u, bs) }"

section \<open>The loops over the extensions\<close>

text \<open>\<open>n\<close> is \<open>n_exts\<close>, the number of extensions still to write.\<close>

fun write_exts :: "nat \<Rightarrow> (bool \<Rightarrow> bytes option) list \<Rightarrow> bytes option" where
  "write_exts n [] = Some []"
| "write_exts n (e # es) = wcat [e (n - 1 \<noteq> 0), write_exts (n - 1) es]"

text \<open>An optional extension: at most one call.\<close>

definition opt_ext :: "('a \<Rightarrow> bool \<Rightarrow> bytes option) \<Rightarrow> 'a option \<Rightarrow> (bool \<Rightarrow> bytes option) list" where
  "opt_ext w o' = (case o' of None \<Rightarrow> [] | Some x \<Rightarrow> [w x])"

definition when_ext :: "bool \<Rightarrow> (bool \<Rightarrow> bytes option) \<Rightarrow> (bool \<Rightarrow> bytes option) list" where
  "when_ext b w = (if b then [w] else [])"

text \<open>
  The loop \<open>while has_ext\<close>.  \<open>step\<close> is the \<open>match\<close> on the extension header: it updates the
  locals of the decoder and says whether another extension follows.  The bytes left never grow
  (\<open>shrinking\<close>), so the guard that makes the recursion well-founded is always true for the
  decoders of this development.
\<close>

function read_exts :: "(u8 \<Rightarrow> 's \<Rightarrow> ('s \<times> bool) rd) \<Rightarrow> bool \<Rightarrow> 's \<Rightarrow> 's rd" where
  "read_exts step has_ext s bs =
     (if \<not> has_ext then Some (s, bs)
      else (case bs of
        [] \<Rightarrow> None
      | h # bs1 \<Rightarrow>
          (case step h s bs1 of
             None \<Rightarrow> None
           | Some ((s', has_more), bs2) \<Rightarrow>
               if length bs2 \<le> length bs1 then read_exts step has_more s' bs2 else None)))"
  by pat_completeness auto
termination
  by (relation "measure (\<lambda>(step, has_ext, s, bs). length bs)") auto

declare read_exts.simps [simp del]

lemma read_exts_unguarded:
  assumes "\<And>h s. shrinking (step h s)"
  shows "read_exts step has_ext s bs =
     (if \<not> has_ext then Some (s, bs)
      else do { (h, bs) \<leftarrow> read_u8 bs; (sm, bs) \<leftarrow> step h s bs; read_exts step (snd sm) (fst sm) bs })"
  by (subst read_exts.simps)
    (auto split: list.splits option.splits simp: Option.bind_eq_None_conv dest!: shrinkingD [OF assms])

lemma shrinking_exts [rd_mono]: "shrinking (read_exts step has_ext s)"
proof -
  have "read_exts step has_ext s bs = Some (x, r) \<Longrightarrow> length r \<le> length bs" for x r bs
  proof (induction step has_ext s bs rule: read_exts.induct)
    case (1 step has_ext s bs)
    show ?case
    proof (cases has_ext)
      case True
      with "1.prems" obtain h bs1 s' m bs2 where bs: "bs = h # bs1" and st: "step h s bs1 = Some ((s', m), bs2)"
        and le: "length bs2 \<le> length bs1" and rd: "read_exts step m s' bs2 = Some (x, r)"
        by (subst (asm) read_exts.simps) (auto split: if_splits list.splits option.splits)
      from "1.IH" [OF _ bs st refl refl le rd] True le bs show ?thesis by simp
    next
      case False
      with "1.prems" show ?thesis by (subst (asm) read_exts.simps) simp
    qed
  qed
  then show ?thesis by (simp add: shrinking_def)
qed

lemma shrinking_ext_unit [rd_mono]: "shrinking (read_ext_unit i h)"
  unfolding read_ext_unit_def [abs_def] by (intro rd_mono)

lemma shrinking_ext_z64 [rd_mono]: "shrinking (read_ext_z64 i h)"
  unfolding read_ext_z64_def [abs_def] by (intro rd_mono)

lemma shrinking_ext_zbuf [rd_mono]: "shrinking (read_ext_zbuf i h)"
  unfolding read_ext_zbuf_def [abs_def] by (intro rd_mono)

lemma shrinking_ext_zbuf_header [rd_mono]: "shrinking (read_ext_zbuf_header i h)"
  unfolding read_ext_zbuf_header_def [abs_def] by (intro rd_mono)

lemma shrinking_ext_unknown [rd_mono]: "shrinking (read_ext_unknown h)"
  unfolding read_ext_unknown_def [abs_def] by (intro rd_mono)

lemma shrinking_ext_read [rd_mono]: "shrinking (ext_read h)"
  unfolding ext_read_def [abs_def] by (intro rd_mono)

lemma shrinking_ext_skip [rd_mono]: "shrinking (ext_skip h)"
  unfolding ext_skip_def [abs_def] by (intro rd_mono)

section \<open>Round trips\<close>

text \<open>An extension identifier has no \<open>Z\<close> bit.\<close>

definition ext_id_ok :: "u8 \<Rightarrow> bool" where
  "ext_id_ok i \<longleftrightarrow> eid i = i"

lemma FLAG_Z_80: "FLAG_Z = 0x80"
  by (simp add: FLAG_Z_def)

lemma bit_FLAG_Z: "bit FLAG_Z n \<longleftrightarrow> n = 7"
  by (auto simp: FLAG_Z_80 bit_simps bit_0x80)

lemma ext_header_eid [simp]: "ext_id_ok i \<Longrightarrow> eid (ext_header i m) = i"
proof -
  have "(i OR FLAG_Z) AND NOT FLAG_Z = i AND NOT FLAG_Z"
    by (rule bit_word_eqI) (auto simp: bit_simps)
  then show "ext_id_ok i \<Longrightarrow> eid (ext_header i m) = i" by (simp add: ext_id_ok_def ext_header_def eid_def)
qed

lemma has_flag_Z: "has_flag i FLAG_Z \<longleftrightarrow> bit i 7"
proof
  assume "has_flag i FLAG_Z"
  then obtain n where "bit (i AND FLAG_Z) n" unfolding has_flag_def bit_eq_iff [of "i AND FLAG_Z"] by auto
  then show "bit i 7" by (auto simp: bit_simps bit_FLAG_Z)
next
  assume "bit i 7"
  then have "bit (i AND FLAG_Z) 7" by (simp add: bit_simps bit_FLAG_Z)
  then show "has_flag i FLAG_Z" unfolding has_flag_def by force
qed

lemma ext_id_ok_bit: "ext_id_ok i \<longleftrightarrow> \<not> bit i 7"
proof
  assume "ext_id_ok i"
  then have "bit (i AND NOT FLAG_Z) 7 = bit i 7" by (simp add: ext_id_ok_def eid_def)
  then show "\<not> bit i 7" by (simp add: bit_simps bit_FLAG_Z)
next
  assume *: "\<not> bit i 7"
  show "ext_id_ok i" unfolding ext_id_ok_def eid_def
  proof (rule bit_word_eqI)
    fix n show "bit (i AND NOT FLAG_Z) n = bit i n"
      using * by (cases "n = 7") (auto simp: bit_simps bit_FLAG_Z dest: bit_imp_le_length)
  qed
qed

lemma ext_header_Z [simp]: "ext_id_ok i \<Longrightarrow> has_flag (ext_header i m) FLAG_Z = m"
  by (simp add: has_flag_Z ext_id_ok_bit ext_header_def bit_simps bit_FLAG_Z)

text \<open>What a step of the reading loop has to do with an extension: undo its encoding and update
  the locals by \<open>f\<close>.\<close>

definition ext_ok :: "(u8 \<Rightarrow> 's \<Rightarrow> ('s \<times> bool) rd) \<Rightarrow> (bool \<Rightarrow> bytes option) \<Rightarrow> ('s \<Rightarrow> 's) \<Rightarrow> bool" where
  "ext_ok step e f \<longleftrightarrow> (\<forall>m bs. e m = Some bs \<longrightarrow>
     (\<exists>h b. bs = h # b \<and> (\<forall>s r. step h s (b @ r) = Some ((f s, m), r))))"

lemma read_write_exts:
  assumes "list_all2 (ext_ok step) es fs" "write_exts n es = Some bs" "n = length es"
  shows "\<forall>s r. read_exts step (n \<noteq> 0) s (bs @ r) = Some (fold (\<lambda>f. f) fs s, r)"
  using assms
proof (induction es fs arbitrary: n bs rule: list_all2_induct)
  case Nil
  then show ?case by (simp add: read_exts.simps)
next
  case (Cons e es f fs)
  from Cons.prems obtain a b where a: "e (length es \<noteq> 0) = Some a"
    and b: "write_exts (length es) es = Some b" and bs: "bs = a @ b"
    by (auto simp: codec_simps)
  from Cons.hyps(1) a obtain h c where h: "a = h # c"
    "\<And>s r. step h s (c @ r) = Some ((f s, length es \<noteq> 0), r)" unfolding ext_ok_def by blast
  from Cons.IH [OF b refl] h bs Cons.prems(2) show ?case
    by (subst read_exts.simps) simp
qed

text \<open>Assembling the list of extensions of a message.\<close>

definition opt_f :: "('a \<Rightarrow> 's \<Rightarrow> 's) \<Rightarrow> 'a option \<Rightarrow> ('s \<Rightarrow> 's) list" where
  "opt_f f o' = (case o' of None \<Rightarrow> [] | Some x \<Rightarrow> [f x])"

definition when_f :: "bool \<Rightarrow> ('s \<Rightarrow> 's) \<Rightarrow> ('s \<Rightarrow> 's) list" where
  "when_f b f = (if b then [f] else [])"

lemma exts_opt:
  "(\<And>x. o' = Some x \<Longrightarrow> ext_ok step (w x) (f x)) \<Longrightarrow> list_all2 (ext_ok step) (opt_ext w o') (opt_f f o')"
  by (simp add: opt_ext_def opt_f_def split: option.split)

lemma exts_when: "(b \<Longrightarrow> ext_ok step w f) \<Longrightarrow> list_all2 (ext_ok step) (when_ext b w) (when_f b f)"
  by (simp add: when_ext_def when_f_def)

lemma exts_map:
  "(\<And>x. x \<in> set xs \<Longrightarrow> ext_ok step (w x) (f x)) \<Longrightarrow> list_all2 (ext_ok step) (map w xs) (map f xs)"
  by (simp add: list_all2_map1 list_all2_map2 list_all2_same)

lemmas exts_intros = list_all2_appendI exts_opt exts_when exts_map list_all2_Nil [THEN iffD2, OF refl]

lemma length_opt_ext [simp]: "length (opt_ext w o') = (if o' = None then 0 else 1)"
  by (simp add: opt_ext_def split: option.split)

lemma length_when_ext [simp]: "length (when_ext b w) = (if b then 1 else 0)"
  by (simp add: when_ext_def)

lemma fold_opt_f [simp]: "fold (\<lambda>f. f) (opt_f f o') s = (case o' of None \<Rightarrow> s | Some x \<Rightarrow> f x s)"
  by (simp add: opt_f_def split: option.split)

lemma fold_when_f [simp]: "fold (\<lambda>f. f) (when_f b f) s = (if b then f s else s)"
  by (simp add: when_f_def)

text \<open>The extensions of each encoding are read back.\<close>

lemma ext_unit_rt:
  assumes "ext_id_ok i" "write_ext_unit i m = Some bs"
  shows "\<exists>h b. bs = h # b \<and> eid h = i \<and> (\<forall>r. read_ext_unit i h (b @ r) = Some (m, r))"
  using assms by (auto simp: write_ext_unit_def codec_simps read_ext_unit_def)

lemma ext_z64_rt:
  assumes "ext_id_ok i" "write_ext_z64 i v m = Some bs"
  shows "\<exists>h b. bs = h # b \<and> eid h = i \<and> (\<forall>r. read_ext_z64 i h (b @ r) = Some ((v, m), r))"
  using assms by (auto simp: write_ext_z64_def codec_simps read_ext_z64_def u64.rt)

lemma ext_zbuf_rt:
  assumes "ext_id_ok i" "write_ext_zbuf i v m = Some bs"
  shows "\<exists>h b. bs = h # b \<and> eid h = i \<and> (\<forall>r. read_ext_zbuf i h (b @ r) = Some ((v, m), r))"
  using assms by (auto simp: write_ext_zbuf_def codec_simps read_ext_zbuf_def zbuf.rt)

lemma ext_zbuf_header_rt:
  assumes "ext_id_ok i" "write_ext_zbuf_header i len m = Some bs"
  shows "\<exists>h b. bs = h # b \<and> eid h = i \<and> (\<forall>r. read_ext_zbuf_header i h (b @ r) = Some ((len, m), r))"
  using assms by (auto simp: write_ext_zbuf_header_def codec_simps read_ext_zbuf_header_def zu64.rt)

text \<open>An extension that a decoder keeps as unknown: its encoding bits are those of its body, it is
  not mandatory and none of the identifiers \<open>known\<close> of the message.\<close>

fun body_enc :: "ZExtBody \<Rightarrow> u8" where
  "body_enc Unit = ENC_UNIT"
| "body_enc (Z64 v) = ENC_Z64"
| "body_enc (ZBuf b) = ENC_ZBUF"

definition unknown_ok :: "u8 list \<Rightarrow> ZExtUnknown \<Rightarrow> bool" where
  "unknown_ok known u \<longleftrightarrow> ext_id_ok (zext_id u) \<and> \<not> is_mandatory (zext_id u) \<and>
     zext_id u AND ENC_MASK = body_enc (zext_body u) \<and> zext_id u \<notin> set known"

lemma ext_header_enc: "ext_header i m AND ENC_MASK = i AND ENC_MASK"
  by (rule bit_word_eqI) (auto simp: ext_header_def bit_simps bit_FLAG_Z ENC_MASK_def)

lemma ext_unknown_rt:
  assumes "ext_id_ok (zext_id u)" "zext_id u AND ENC_MASK = body_enc (zext_body u)"
    "write_ext_unknown u m = Some bs"
  shows "\<exists>h b. bs = h # b \<and> eid h = zext_id u \<and> (\<forall>r. read_ext_unknown h (b @ r) = Some ((u, m), r))"
proof -
  have e: "ENC_UNIT \<noteq> ENC_Z64" "ENC_UNIT \<noteq> ENC_ZBUF" "ENC_Z64 \<noteq> ENC_ZBUF" by (simp_all add: iext_consts)
  have eid: "ext_header (zext_id u) m AND NOT FLAG_Z = zext_id u"
    using ext_header_eid [OF assms(1)] by (simp add: eid_def)
  show ?thesis
    using assms e eid
    by (cases "zext_body u")
      (auto simp: write_ext_unknown_def read_ext_unknown_def codec_simps ext_header_enc u64.rt zbuf.rt)
qed

lemma ext_read_rt:
  assumes "unknown_ok known u" "write_ext_unknown u m = Some bs"
  shows "\<exists>h b. bs = h # b \<and> eid h = zext_id u \<and> (\<forall>r. ext_read h (b @ r) = Some ((u, m), r))"
  using ext_unknown_rt [of u m bs] assms by (auto simp: unknown_ok_def ext_read_def)

text \<open>From the round trip of an extension to a step of the loop.\<close>

lemma ext_okI:
  assumes "\<And>m bs. e m = Some bs \<Longrightarrow> \<exists>h b. bs = h # b \<and> eid h = i \<and> (\<forall>r. rd h (b @ r) = Some ((x, m), r))"
    and "\<And>h s bs. eid h = i \<Longrightarrow> step h s bs = do { (vm, bs) \<leftarrow> rd h bs; Some ((g (fst vm) s, snd vm), bs) }"
  shows "ext_ok step e (g x)"
  unfolding ext_ok_def
proof (intro allI impI)
  fix m bs assume "e m = Some bs"
  from assms(1) [OF this] obtain h b where h: "bs = h # b" "eid h = i" "\<And>r. rd h (b @ r) = Some ((x, m), r)"
    by auto
  then show "\<exists>h b. bs = h # b \<and> (\<forall>s r. step h s (b @ r) = Some ((g x s, m), r))"
    using assms(2) [OF h(2)] by auto
qed

text \<open>The same with the effect of the step stated on the value read.\<close>

lemma ext_ok_readI:
  assumes "\<And>m bs. e m = Some bs \<Longrightarrow> \<exists>h b. bs = h # b \<and> eid h = i \<and> (\<forall>r. rd h (b @ r) = Some ((x, m), r))"
    and "\<And>h s bs m r. eid h = i \<Longrightarrow> rd h bs = Some ((x, m), r) \<Longrightarrow> step h s bs = Some ((f s, m), r)"
  shows "ext_ok step e f"
  unfolding ext_ok_def using assms by blast

lemma ext_ok_unit [ext_oks]:
  assumes "ext_id_ok i"
    and "\<And>h s bs. eid h = i \<Longrightarrow> step h s bs = do { (m, bs) \<leftarrow> read_ext_unit i h bs; Some ((g s, m), bs) }"
  shows "ext_ok step (write_ext_unit i) g"
  unfolding ext_ok_def
proof (intro allI impI)
  fix m bs assume "write_ext_unit i m = Some bs"
  from ext_unit_rt [OF assms(1) this] obtain h b where h: "bs = h # b" "eid h = i"
    "\<And>r. read_ext_unit i h (b @ r) = Some (m, r)" by auto
  then show "\<exists>h b. bs = h # b \<and> (\<forall>s r. step h s (b @ r) = Some ((g s, m), r))"
    using assms(2) [OF h(2)] by auto
qed

lemma ext_ok_z64 [ext_oks]:
  assumes "ext_id_ok i"
    and "\<And>h s bs. eid h = i \<Longrightarrow>
      step h s bs = do { (vm, bs) \<leftarrow> read_ext_z64 i h bs; Some ((g (fst vm) s, snd vm), bs) }"
  shows "ext_ok step (write_ext_z64 i v) (g v)"
  by (rule ext_okI [where rd = "read_ext_z64 i", OF ext_z64_rt [OF assms(1)]]) (auto simp: assms(2))

lemma ext_ok_zbuf [ext_oks]:
  assumes "ext_id_ok i"
    and "\<And>h s bs. eid h = i \<Longrightarrow>
      step h s bs = do { (vm, bs) \<leftarrow> read_ext_zbuf i h bs; Some ((g (fst vm) s, snd vm), bs) }"
  shows "ext_ok step (write_ext_zbuf i v) (g v)"
  by (rule ext_okI [where rd = "read_ext_zbuf i", OF ext_zbuf_rt [OF assms(1)]]) (auto simp: assms(2))

lemma ext_ok_unknown [ext_oks]:
  assumes "unknown_ok [] u"
    and "\<And>h s bs. eid h = zext_id u \<Longrightarrow>
      step h s bs = do { (vm, bs) \<leftarrow> ext_read h bs; Some ((g (fst vm) s, snd vm), bs) }"
  shows "ext_ok step (write_ext_unknown u) (g u)"
  by (rule ext_okI [where rd = ext_read, OF ext_read_rt [OF assms(1)]]) (auto simp: assms(2))

lemma unknown_ok_Nil: "unknown_ok known u \<Longrightarrow> unknown_ok [] u"
  by (simp add: unknown_ok_def)

lemma unknown_ok_notin: "unknown_ok known u \<Longrightarrow> zext_id u \<notin> set known"
  by (simp add: unknown_ok_def)

lemma fold_append_field:
  assumes "\<And>u s. g u s = upd (\<lambda>us. us @ [u]) s" "\<And>s. upd (\<lambda>us. us) s = s"
    "\<And>f h s. upd f (upd h s) = upd (\<lambda>us. f (h us)) s"
  shows "fold (\<lambda>f. f) (map g us) s = upd (\<lambda>us'. us' @ us) s"
  by (induction us arbitrary: s) (simp_all add: assms)

end
