(* ===== verification/Codec_Zenoh.thy ===== *)
theory Codec_Zenoh
  imports Codec_Ext
begin

text \<open>
  The data messages (zenoh-protocol, zenoh/*.rs; zenoh-codec, zenoh/*.rs), built without the
  \<open>shared-memory\<close> feature: \<open>Put\<close>, \<open>Del\<close>, \<open>Query\<close>, \<open>Reply\<close>, \<open>Err\<close> and the bodies of the network
  messages that carry them.  A decoder takes the header byte its caller has read.
\<close>

section \<open>Shared extensions (zenoh/mod.rs)\<close>

definition usize_of :: "nat \<Rightarrow> u64 option" where
  "usize_of n = (if n < 2 ^ 64 then Some (of_nat n) else None)"

lemma usize_of_code [code]: "usize_of n = (if int n < 0x10000000000000000 then Some (of_nat n) else None)"
  unfolding usize_of_def less_2_64 ..

record SourceInfo =
  si_zid :: zid
  si_eid :: u32
  si_sn :: u32

definition sinfo_ok :: "(bytes \<Rightarrow> bytes option) \<Rightarrow> SourceInfo \<Rightarrow> bool" where
  "sinfo_ok idf x \<longleftrightarrow> zid_ok idf (si_zid x)"

definition sinfo_w_len :: "SourceInfo \<Rightarrow> nat" where
  "sinfo_w_len x = 1 + length (si_zid x) + vle_len (ucast (si_eid x)) + vle_len (ucast (si_sn x))"

text \<open>\<open>size() as u8 - 1\<close> panics on an empty identifier.\<close>

definition write_sinfo :: "u8 \<Rightarrow> SourceInfo \<Rightarrow> bool \<Rightarrow> bytes option" where
  "write_sinfo i x m =
     do { len \<leftarrow> usize_of (sinfo_w_len x);
          if si_zid x = [] then None
          else wcat [write_ext_zbuf_header i len m,
                     write_u8 (push_bit 4 (of_nat (length (si_zid x)) - 1)),
                     write_zid_len (length (si_zid x)) (si_zid x),
                     write_uint (si_eid x),
                     write_uint (si_sn x)] }"

definition read_sinfo :: "(bytes \<Rightarrow> bytes option) \<Rightarrow> u8 \<Rightarrow> u8 \<Rightarrow> (SourceInfo \<times> bool) rd" where
  "read_sinfo idf i header bs =
     do { (hm, bs) \<leftarrow> read_ext_zbuf_header i header bs;
          (flags, bs) \<leftarrow> read_u8 bs;
          (z, bs) \<leftarrow> read_zid_len idf (1 + unat (drop_bit 4 flags)) bs;
          (e, bs) \<leftarrow> read_uint bs;
          (sn, bs) \<leftarrow> read_uint bs;
          Some ((\<lparr>si_zid = z, si_eid = e, si_sn = sn\<rparr>, snd hm), bs) }"

record ValueType =
  v_encoding :: encoding
  v_payload :: bytes

definition write_value :: "u8 \<Rightarrow> ValueType \<Rightarrow> bool \<Rightarrow> bytes option" where
  "write_value vid x m =
     do { len \<leftarrow> usize_of (encoding_w_len (v_encoding x) + length (v_payload x));
          wcat [write_ext_zbuf_header vid len m, write_encoding (v_encoding x), write_exact (v_payload x)] }"

definition read_value :: "u8 \<Rightarrow> u8 \<Rightarrow> (ValueType \<times> bool) rd" where
  "read_value vid header bs =
     do { (hm, bs1) \<leftarrow> read_ext_zbuf_header vid header bs;
          (e, bs2) \<leftarrow> read_encoding bs1;
          if unat (fst hm) < length bs1 - length bs2 then None
          else do { (p, bs) \<leftarrow> read_zslice_n (fst hm - of_nat (length bs1 - length bs2)) bs2;
                    Some ((\<lparr>v_encoding = e, v_payload = p\<rparr>, snd hm), bs) } }"

definition write_attachment :: "u8 \<Rightarrow> bytes \<Rightarrow> bool \<Rightarrow> bytes option" where
  "write_attachment i x m =
     do { len \<leftarrow> usize_of (length x); wcat [write_ext_zbuf_header i len m, write_exact x] }"

definition read_attachment :: "u8 \<Rightarrow> u8 \<Rightarrow> (bytes \<times> bool) rd" where
  "read_attachment i header bs =
     do { (hm, bs) \<leftarrow> read_ext_zbuf_header i header bs;
          (b, bs) \<leftarrow> read_zslice_n (fst hm) bs;
          Some ((b, snd hm), bs) }"

lemma usize_of_Some: "usize_of n = Some w \<Longrightarrow> unat w = n"
  by (auto simp: usize_of_def unat_of_nat take_bit_nat_eq_self split: if_splits)

lemma zid_flags:
  assumes "1 \<le> n" "n \<le> 16"
  shows "1 + unat (drop_bit 4 (push_bit 4 (of_nat n - 1 :: u8))) = n"
proof -
  have "list_all (\<lambda>n. 1 + unat (drop_bit 4 (push_bit 4 (of_nat n - 1 :: u8))) = n) [1..<17]" by code_simp
  moreover have "n \<in> set [1..<17]" using assms by simp
  ultimately show ?thesis unfolding list_all_iff by blast
qed

lemma sinfo_rt:
  assumes "ext_id_ok i" "sinfo_ok idf x" "write_sinfo i x m = Some bs"
  shows "\<exists>h b. bs = h # b \<and> eid h = i \<and> (\<forall>r. read_sinfo idf i h (b @ r) = Some ((x, m), r))"
proof -
  from assms(3) obtain len a1 a2 a3 a4 where a: "write_ext_zbuf_header i len m = Some a1"
    "write_zid_len (length (si_zid x)) (si_zid x) = Some a2" "write_uint (si_eid x) = Some a3"
    "write_uint (si_sn x) = Some a4"
    and bs: "bs = a1 @ push_bit 4 (of_nat (length (si_zid x)) - 1) # a2 @ a3 @ a4"
    by (auto simp: write_sinfo_def Option.bind_eq_Some_conv codec_simps split: if_splits)
  from ext_zbuf_header_rt [OF assms(1) a(1)] obtain h b where h: "a1 = h # b" "eid h = i"
    "\<And>r. read_ext_zbuf_header i h (b @ r) = Some ((len, m), r)" by auto
  have z: "zid_ok idf (si_zid x)" using assms(2) by (simp add: sinfo_ok_def)
  then have "1 + unat (drop_bit 4 (push_bit 4 (of_nat (length (si_zid x)) - 1 :: u8))) = length (si_zid x)"
    by (intro zid_flags) (auto simp: zid_ok_def)
  then show ?thesis
    using h bs read_zid_len_rt [OF z a(2)] u32.rt_all [OF TrueI a(3)] u32.rt_all [OF TrueI a(4)]
    by (simp add: read_sinfo_def)
qed

lemma attachment_rt:
  assumes "ext_id_ok i" "write_attachment i x m = Some bs"
  shows "\<exists>h b. bs = h # b \<and> eid h = i \<and> (\<forall>r. read_attachment i h (b @ r) = Some ((x, m), r))"
proof -
  from assms(2) obtain len a where a: "usize_of (length x) = Some len" "write_ext_zbuf_header i len m = Some a"
    and bs: "bs = a @ x"
    by (auto simp: write_attachment_def Option.bind_eq_Some_conv codec_simps write_exact_def)
  from ext_zbuf_header_rt [OF assms(1) a(2)] obtain h b where h: "a = h # b" "eid h = i"
    "\<And>r. read_ext_zbuf_header i h (b @ r) = Some ((len, m), r)" by auto
  with bs usize_of_Some [OF a(1)] show ?thesis by (simp add: read_attachment_def)
qed

text \<open>\<open>w_len\<close> of an encoding is the number of bytes written.\<close>

lemma vle_len_or_1: "vle_len (ucast (push_bit 1 (x::u32) OR 1)) = vle_len (ucast (push_bit 1 x))"
proof -
  have eq: "unat (ucast (push_bit 1 x OR 1) :: u64) < 2 ^ k \<longleftrightarrow> unat (ucast (push_bit 1 x) :: u64) < 2 ^ k"
    if "1 \<le> k" for k
  proof -
    have "drop_bit k (ucast (push_bit 1 x OR 1) :: u64) = drop_bit k (ucast (push_bit 1 x))"
      by (rule bit_word_eqI) (use that in \<open>auto simp: bit_simps simp del: push_bit_Suc\<close>)
    then show ?thesis by (simp only: flip: drop_bit_word_eq_0)
  qed
  have "1 \<le> (7::nat)" "1 \<le> (14::nat)" "1 \<le> (21::nat)" "1 \<le> (28::nat)" "1 \<le> (35::nat)" "1 \<le> (42::nat)"
    "1 \<le> (49::nat)" "1 \<le> (56::nat)" by simp_all
  note this [THEN eq]
  then show ?thesis unfolding vle_len_unat by (simp only:)
qed

lemma length_write_zint: "write_zint b (x::'a::len word) = Some bs \<Longrightarrow> length bs = vle_len (ucast x)"
  by (auto simp: write_zint_def length_write_u64 split: if_splits)

lemma length_write_zbuf: "write_zbuf b x = Some bs \<Longrightarrow> length bs = slice_w_len x"
  by (auto simp: write_zbuf_def Option.bind_eq_Some_conv codec_simps write_exact_def slice_w_len_def
    slice_len_def length_write_zint split: if_splits)

lemma length_write_encoding: "write_encoding x = Some bs \<Longrightarrow> length bs = encoding_w_len x"
  unfolding write_encoding_def encoding_w_len_def Let_def codec_simps
  by (cases "enc_schema x")
    (auto simp del: push_bit_Suc One_nat_def simp: wr_opt_def length_write_zint length_write_zbuf vle_len_or_1)

lemma value_rt:
  assumes "ext_id_ok i" "write_value i x m = Some bs"
  shows "\<exists>h b. bs = h # b \<and> eid h = i \<and> (\<forall>r. read_value i h (b @ r) = Some ((x, m), r))"
proof -
  from assms(2) obtain len a e where a: "usize_of (encoding_w_len (v_encoding x) + length (v_payload x)) = Some len"
    "write_ext_zbuf_header i len m = Some a" "write_encoding (v_encoding x) = Some e"
    and bs: "bs = a @ e @ v_payload x"
    by (auto simp: write_value_def Option.bind_eq_Some_conv codec_simps write_exact_def)
  from ext_zbuf_header_rt [OF assms(1) a(2)] obtain h b where h: "a = h # b" "eid h = i"
    "\<And>r. read_ext_zbuf_header i h (b @ r) = Some ((len, m), r)" by auto
  have len: "unat len = length e + length (v_payload x)"
    using usize_of_Some [OF a(1)] length_write_encoding [OF a(3)] by simp
  moreover have "unat len < 2 ^ 64" using unsigned_less [of len] by simp
  ultimately have "unat (of_nat (length e) :: u64) = length e"
    by (simp add: unat_of_nat take_bit_nat_eq_self)
  then have "unat (len - of_nat (length e)) = length (v_payload x)"
    using len by (subst unat_sub) (auto simp: word_le_nat_alt)
  with h bs len show ?thesis
    using encoding.rt_all [OF TrueI a(3)] by (simp add: read_value_def)
qed

section \<open>Message identifiers and flags\<close>

definition id_PUT :: u8 where "id_PUT = 0x01"
definition id_DEL :: u8 where "id_DEL = 0x02"
definition id_QUERY :: u8 where "id_QUERY = 0x03"
definition id_REPLY :: u8 where "id_REPLY = 0x04"
definition id_ERR :: u8 where "id_ERR = 0x05"

lemmas zenoh_ids = id_PUT_def id_DEL_def id_QUERY_def id_REPLY_def id_ERR_def

lemma zenoh_ids_ok [simp]: "mid_ok id_PUT" "mid_ok id_DEL" "mid_ok id_QUERY" "mid_ok id_REPLY" "mid_ok id_ERR"
  by (simp_all add: mid_ok_def mid_def HEADER_MASK_def zenoh_ids)

lemma ext_ok_sinfo [ext_oks]:
  assumes "ext_id_ok i" "sinfo_ok idf v"
    and "\<And>h s bs. eid h = i \<Longrightarrow>
      step h s bs = do { (vm, bs) \<leftarrow> read_sinfo idf i h bs; Some ((g (fst vm) s, snd vm), bs) }"
  shows "ext_ok step (write_sinfo i v) (g v)"
  by (rule ext_okI [where rd = "read_sinfo idf i", OF sinfo_rt [OF assms(1,2)]]) (auto simp: assms(3))

lemma ext_ok_attachment [ext_oks]:
  assumes "ext_id_ok i"
    and "\<And>h s bs. eid h = i \<Longrightarrow>
      step h s bs = do { (vm, bs) \<leftarrow> read_attachment i h bs; Some ((g (fst vm) s, snd vm), bs) }"
  shows "ext_ok step (write_attachment i v) (g v)"
  by (rule ext_okI [where rd = "read_attachment i", OF attachment_rt [OF assms(1)]]) (auto simp: assms(2))

lemma ext_ok_value [ext_oks]:
  assumes "ext_id_ok i"
    and "\<And>h s bs. eid h = i \<Longrightarrow>
      step h s bs = do { (vm, bs) \<leftarrow> read_value i h bs; Some ((g (fst vm) s, snd vm), bs) }"
  shows "ext_ok step (write_value i v) (g v)"
  by (rule ext_okI [where rd = "read_value i", OF value_rt [OF assms(1)]]) (auto simp: assms(2))

section \<open>Put\<close>

record Put =
  put_timestamp :: "timestamp option"
  put_encoding :: encoding
  put_ext_sinfo :: "SourceInfo option"
  put_ext_attachment :: "bytes option"
  put_ext_unknown :: "ZExtUnknown list"
  put_payload :: bytes

definition put_SourceInfo :: u8 where "put_SourceInfo = zextzbuf 0x1 False"
definition put_Attachment :: u8 where "put_Attachment = zextzbuf 0x3 False"

lemma put_ids: "put_SourceInfo = 0x41" "put_Attachment = 0x43" "ext_id_ok 0x41" "ext_id_ok 0x43"
  by (simp_all add: put_SourceInfo_def put_Attachment_def ext_id_ok_def eid_def zext_defs)

definition put_n_exts :: "Put \<Rightarrow> nat" where
  "put_n_exts x = of_bool (put_ext_sinfo x \<noteq> None) + of_bool (put_ext_attachment x \<noteq> None) +
     length (put_ext_unknown x)"

definition put_header :: "Put \<Rightarrow> u8" where
  "put_header x =
     set_if (put_n_exts x \<noteq> 0) flag7
       (set_if (put_encoding x \<noteq> encoding_empty) flag6
         (set_if (put_timestamp x \<noteq> None) flag5 id_PUT))"

definition put_exts :: "Put \<Rightarrow> (bool \<Rightarrow> bytes option) list" where
  "put_exts x =
     opt_ext (write_sinfo put_SourceInfo) (put_ext_sinfo x) @
     opt_ext (write_attachment put_Attachment) (put_ext_attachment x) @
     map write_ext_unknown (put_ext_unknown x)"

definition write_put :: "Put enc" where
  "write_put x = wcat
     [write_u8 (put_header x),
      wr_opt write_timestamp (put_timestamp x),
      wr_when (put_encoding x \<noteq> encoding_empty) (write_encoding (put_encoding x)),
      write_exts (put_n_exts x) (put_exts x),
      write_zbuf U32_MAX (put_payload x)]"

definition put_ext_step :: "(bytes \<Rightarrow> bytes option) \<Rightarrow> u8 \<Rightarrow> Put \<Rightarrow> (Put \<times> bool) rd" where
  "put_ext_step idf h s bs =
     (if eid h = put_SourceInfo then
        do { (vm, bs) \<leftarrow> read_sinfo idf put_SourceInfo h bs;
             Some ((s\<lparr>put_ext_sinfo := Some (fst vm)\<rparr>, snd vm), bs) }
      else if eid h = put_Attachment then
        do { (vm, bs) \<leftarrow> read_attachment put_Attachment h bs;
             Some ((s\<lparr>put_ext_attachment := Some (fst vm)\<rparr>, snd vm), bs) }
      else
        do { (vm, bs) \<leftarrow> ext_read h bs;
             Some ((s\<lparr>put_ext_unknown := put_ext_unknown s @ [fst vm]\<rparr>, snd vm), bs) })"

definition read_put :: "(bytes \<Rightarrow> bytes option) \<Rightarrow> u8 \<Rightarrow> Put rd" where
  "read_put idf header bs =
     (if mid header \<noteq> id_PUT then None
      else do {
        (ts, bs) \<leftarrow> rd_opt (has_flag header flag5) (read_timestamp idf) bs;
        (e, bs) \<leftarrow> rd_when (has_flag header flag6) encoding_empty read_encoding bs;
        (s, bs) \<leftarrow> read_exts (put_ext_step idf) (has_flag header flag7)
          \<lparr>put_timestamp = ts, put_encoding = e, put_ext_sinfo = None, put_ext_attachment = None,
           put_ext_unknown = [], put_payload = []\<rparr> bs;
        (p, bs) \<leftarrow> read_zbuf U32_MAX bs;
        Some (s\<lparr>put_payload := p\<rparr>, bs) })"

definition put_ok :: "(bytes \<Rightarrow> bytes option) \<Rightarrow> Put \<Rightarrow> bool" where
  "put_ok idf x \<longleftrightarrow> pred_option (timestamp_ok idf) (put_timestamp x) \<and>
     pred_option (sinfo_ok idf) (put_ext_sinfo x) \<and>
     list_all (unknown_ok [put_SourceInfo, put_Attachment]) (put_ext_unknown x)"

definition put_upds :: "Put \<Rightarrow> (Put \<Rightarrow> Put) list" where
  "put_upds x =
     opt_f (\<lambda>v s. s\<lparr>put_ext_sinfo := Some v\<rparr>) (put_ext_sinfo x) @
     opt_f (\<lambda>v s. s\<lparr>put_ext_attachment := Some v\<rparr>) (put_ext_attachment x) @
     map (\<lambda>u s. s\<lparr>put_ext_unknown := put_ext_unknown s @ [u]\<rparr>) (put_ext_unknown x)"

lemma put_upds_fold:
  "fold (\<lambda>f. f) (put_upds x) s = s\<lparr>
     put_ext_sinfo := (case put_ext_sinfo x of None \<Rightarrow> put_ext_sinfo s | Some v \<Rightarrow> Some v),
     put_ext_attachment := (case put_ext_attachment x of None \<Rightarrow> put_ext_attachment s | Some v \<Rightarrow> Some v),
     put_ext_unknown := put_ext_unknown s @ put_ext_unknown x\<rparr>"
  by (simp add: put_upds_def fold_append_field [where upd = put_ext_unknown_update] split: option.split)

lemma put_exts_ok: "put_ok idf x \<Longrightarrow> list_all2 (ext_ok (put_ext_step idf)) (put_exts x) (put_upds x)"
  unfolding put_exts_def put_upds_def
  by (intro exts_intros ext_oks)
    (auto simp: put_ok_def put_ext_step_def put_ids list_all_iff unknown_ok_def)

lemma put_rt:
  assumes "put_ok idf x" "write_put x = Some bs"
  shows "\<exists>h b. bs = h # b \<and> mid h = id_PUT \<and> (\<forall>r. read_put idf h (b @ r) = Some (x, r))"
proof -
  from assms(2) obtain a b c d where a: "wr_opt write_timestamp (put_timestamp x) = Some a"
    and b: "wr_when (put_encoding x \<noteq> encoding_empty) (write_encoding (put_encoding x)) = Some b"
    and c: "write_exts (put_n_exts x) (put_exts x) = Some c"
    and d: "write_zbuf U32_MAX (put_payload x) = Some d" and bs: "bs = put_header x # a @ b @ c @ d"
    unfolding write_put_def codec_simps by auto
  have "put_n_exts x = length (put_exts x)" by (simp add: put_n_exts_def put_exts_def)
  note e = read_write_exts [OF put_exts_ok [OF assms(1)] c this]
  have t: "\<forall>r. rd_opt (put_timestamp x \<noteq> None) (read_timestamp idf) (a @ r) = Some (put_timestamp x, r)"
    using a assms(1) by (intro timestamp.rt_opt) (auto simp: put_ok_def)
  note e' = encoding.rt_when [OF b, of encoding_empty, simplified]
  show ?thesis
    using t e' e zbuf.rt_all [OF TrueI d]
    by (auto simp: bs put_header_def read_put_def put_upds_fold split: option.split)
qed

section \<open>Del\<close>

record Del =
  del_timestamp :: "timestamp option"
  del_ext_sinfo :: "SourceInfo option"
  del_ext_attachment :: "bytes option"
  del_ext_unknown :: "ZExtUnknown list"

definition del_SourceInfo :: u8 where "del_SourceInfo = zextzbuf 0x1 False"
definition del_Attachment :: u8 where "del_Attachment = zextzbuf 0x2 False"

lemma del_ids: "del_SourceInfo = 0x41" "del_Attachment = 0x42" "ext_id_ok 0x41" "ext_id_ok 0x42"
  by (simp_all add: del_SourceInfo_def del_Attachment_def ext_id_ok_def eid_def zext_defs)

definition del_n_exts :: "Del \<Rightarrow> nat" where
  "del_n_exts x = of_bool (del_ext_sinfo x \<noteq> None) + of_bool (del_ext_attachment x \<noteq> None) +
     length (del_ext_unknown x)"

definition del_header :: "Del \<Rightarrow> u8" where
  "del_header x = set_if (del_n_exts x \<noteq> 0) flag7 (set_if (del_timestamp x \<noteq> None) flag5 id_DEL)"

definition del_exts :: "Del \<Rightarrow> (bool \<Rightarrow> bytes option) list" where
  "del_exts x =
     opt_ext (write_sinfo del_SourceInfo) (del_ext_sinfo x) @
     opt_ext (write_attachment del_Attachment) (del_ext_attachment x) @
     map write_ext_unknown (del_ext_unknown x)"

definition write_del :: "Del enc" where
  "write_del x = wcat
     [write_u8 (del_header x),
      wr_opt write_timestamp (del_timestamp x),
      write_exts (del_n_exts x) (del_exts x)]"

definition del_ext_step :: "(bytes \<Rightarrow> bytes option) \<Rightarrow> u8 \<Rightarrow> Del \<Rightarrow> (Del \<times> bool) rd" where
  "del_ext_step idf h s bs =
     (if eid h = del_SourceInfo then
        do { (vm, bs) \<leftarrow> read_sinfo idf del_SourceInfo h bs;
             Some ((s\<lparr>del_ext_sinfo := Some (fst vm)\<rparr>, snd vm), bs) }
      else if eid h = del_Attachment then
        do { (vm, bs) \<leftarrow> read_attachment del_Attachment h bs;
             Some ((s\<lparr>del_ext_attachment := Some (fst vm)\<rparr>, snd vm), bs) }
      else
        do { (vm, bs) \<leftarrow> ext_read h bs;
             Some ((s\<lparr>del_ext_unknown := del_ext_unknown s @ [fst vm]\<rparr>, snd vm), bs) })"

definition read_del :: "(bytes \<Rightarrow> bytes option) \<Rightarrow> u8 \<Rightarrow> Del rd" where
  "read_del idf header bs =
     (if mid header \<noteq> id_DEL then None
      else do {
        (ts, bs) \<leftarrow> rd_opt (has_flag header flag5) (read_timestamp idf) bs;
        read_exts (del_ext_step idf) (has_flag header flag7)
          \<lparr>del_timestamp = ts, del_ext_sinfo = None, del_ext_attachment = None, del_ext_unknown = []\<rparr> bs })"

definition del_ok :: "(bytes \<Rightarrow> bytes option) \<Rightarrow> Del \<Rightarrow> bool" where
  "del_ok idf x \<longleftrightarrow> pred_option (timestamp_ok idf) (del_timestamp x) \<and>
     pred_option (sinfo_ok idf) (del_ext_sinfo x) \<and>
     list_all (unknown_ok [del_SourceInfo, del_Attachment]) (del_ext_unknown x)"

definition del_upds :: "Del \<Rightarrow> (Del \<Rightarrow> Del) list" where
  "del_upds x =
     opt_f (\<lambda>v s. s\<lparr>del_ext_sinfo := Some v\<rparr>) (del_ext_sinfo x) @
     opt_f (\<lambda>v s. s\<lparr>del_ext_attachment := Some v\<rparr>) (del_ext_attachment x) @
     map (\<lambda>u s. s\<lparr>del_ext_unknown := del_ext_unknown s @ [u]\<rparr>) (del_ext_unknown x)"

lemma del_upds_fold:
  "fold (\<lambda>f. f) (del_upds x) s = s\<lparr>
     del_ext_sinfo := (case del_ext_sinfo x of None \<Rightarrow> del_ext_sinfo s | Some v \<Rightarrow> Some v),
     del_ext_attachment := (case del_ext_attachment x of None \<Rightarrow> del_ext_attachment s | Some v \<Rightarrow> Some v),
     del_ext_unknown := del_ext_unknown s @ del_ext_unknown x\<rparr>"
  by (simp add: del_upds_def fold_append_field [where upd = del_ext_unknown_update] split: option.split)

lemma del_exts_ok: "del_ok idf x \<Longrightarrow> list_all2 (ext_ok (del_ext_step idf)) (del_exts x) (del_upds x)"
  unfolding del_exts_def del_upds_def
  by (intro exts_intros ext_oks)
    (auto simp: del_ok_def del_ext_step_def del_ids list_all_iff unknown_ok_def)

lemma del_rt:
  assumes "del_ok idf x" "write_del x = Some bs"
  shows "\<exists>h b. bs = h # b \<and> mid h = id_DEL \<and> (\<forall>r. read_del idf h (b @ r) = Some (x, r))"
proof -
  from assms(2) obtain a c where a: "wr_opt write_timestamp (del_timestamp x) = Some a"
    and c: "write_exts (del_n_exts x) (del_exts x) = Some c" and bs: "bs = del_header x # a @ c"
    unfolding write_del_def codec_simps by auto
  have "del_n_exts x = length (del_exts x)" by (simp add: del_n_exts_def del_exts_def)
  note e = read_write_exts [OF del_exts_ok [OF assms(1)] c this]
  have t: "\<forall>r. rd_opt (del_timestamp x \<noteq> None) (read_timestamp idf) (a @ r) = Some (del_timestamp x, r)"
    using a assms(1) by (intro timestamp.rt_opt) (auto simp: del_ok_def)
  show ?thesis using t e
    by (auto simp: bs del_header_def read_del_def del_upds_fold split: option.split)
qed

section \<open>Query\<close>

datatype ConsolidationMode = Auto | NoConsolidation | Monotonic | Latest

definition CONSOLIDATION_DEFAULT :: ConsolidationMode where "CONSOLIDATION_DEFAULT = Auto"

fun consolidation_u64 :: "ConsolidationMode \<Rightarrow> u64" where
  "consolidation_u64 Auto = 0"
| "consolidation_u64 NoConsolidation = 1"
| "consolidation_u64 Monotonic = 2"
| "consolidation_u64 Latest = 3"

definition write_consolidation :: "ConsolidationMode enc" where
  "write_consolidation x = write_u64 (consolidation_u64 x)"

definition read_consolidation :: "ConsolidationMode rd" where
  "read_consolidation bs =
     do { (v, bs) \<leftarrow> read_u64 bs;
          Some (if v = 0 then Auto else if v = 1 then NoConsolidation else if v = 2 then Monotonic
                else if v = 3 then Latest else Auto, bs) }"

interpretation consolidation: codec "\<lambda>_. True" write_consolidation read_consolidation
proof (unfold_locales, goal_cases)
  case (1 x bs r)
  then show ?case using u64.rt [of "consolidation_u64 x" bs r]
    by (cases x) (simp_all add: write_consolidation_def read_consolidation_def)
qed

record Query =
  q_consolidation :: ConsolidationMode
  q_parameters :: bytes
  q_ext_sinfo :: "SourceInfo option"
  q_ext_body :: "ValueType option"
  q_ext_attachment :: "bytes option"
  q_ext_unknown :: "ZExtUnknown list"

definition query_SourceInfo :: u8 where "query_SourceInfo = zextzbuf 0x1 False"
definition query_body_VID :: u8 where "query_body_VID = zextzbuf 0x03 False"
definition query_body_SID :: u8 where "query_body_SID = 0x04"
definition query_Attachment :: u8 where "query_Attachment = zextzbuf 0x5 False"

lemma query_ids: "query_SourceInfo = 0x41" "query_body_VID = 0x43" "query_body_SID = 0x04" "query_Attachment = 0x45"
  "ext_id_ok 0x41" "ext_id_ok 0x43" "ext_id_ok 0x45"
  by (simp_all add: query_SourceInfo_def query_body_VID_def query_body_SID_def query_Attachment_def ext_id_ok_def
    eid_def zext_defs)

definition query_n_exts :: "Query \<Rightarrow> nat" where
  "query_n_exts x = of_bool (q_ext_sinfo x \<noteq> None) + of_bool (q_ext_body x \<noteq> None) +
     of_bool (q_ext_attachment x \<noteq> None) + length (q_ext_unknown x)"

definition query_header :: "Query \<Rightarrow> u8" where
  "query_header x =
     set_if (query_n_exts x \<noteq> 0) flag7
       (set_if (q_parameters x \<noteq> []) flag6
         (set_if (q_consolidation x \<noteq> CONSOLIDATION_DEFAULT) flag5 id_QUERY))"

definition query_exts :: "Query \<Rightarrow> (bool \<Rightarrow> bytes option) list" where
  "query_exts x =
     opt_ext (write_sinfo query_SourceInfo) (q_ext_sinfo x) @
     opt_ext (write_value query_body_VID) (q_ext_body x) @
     opt_ext (write_attachment query_Attachment) (q_ext_attachment x) @
     map write_ext_unknown (q_ext_unknown x)"

definition write_query :: "Query enc" where
  "write_query x = wcat
     [write_u8 (query_header x),
      wr_when (q_consolidation x \<noteq> CONSOLIDATION_DEFAULT) (write_consolidation (q_consolidation x)),
      wr_when (q_parameters x \<noteq> []) (write_str U64_MAX (q_parameters x)),
      write_exts (query_n_exts x) (query_exts x)]"

text \<open>The arm of the query body also matches the shared-memory identifier; without that feature
  the reader of the body then rejects it.\<close>

definition query_ext_step :: "(bytes \<Rightarrow> bytes option) \<Rightarrow> u8 \<Rightarrow> Query \<Rightarrow> (Query \<times> bool) rd" where
  "query_ext_step idf h s bs =
     (if eid h = query_SourceInfo then
        do { (vm, bs) \<leftarrow> read_sinfo idf query_SourceInfo h bs;
             Some ((s\<lparr>q_ext_sinfo := Some (fst vm)\<rparr>, snd vm), bs) }
      else if eid h = query_body_SID \<or> eid h = query_body_VID then
        do { (vm, bs) \<leftarrow> read_value query_body_VID h bs;
             Some ((s\<lparr>q_ext_body := Some (fst vm)\<rparr>, snd vm), bs) }
      else if eid h = query_Attachment then
        do { (vm, bs) \<leftarrow> read_attachment query_Attachment h bs;
             Some ((s\<lparr>q_ext_attachment := Some (fst vm)\<rparr>, snd vm), bs) }
      else
        do { (vm, bs) \<leftarrow> ext_read h bs;
             Some ((s\<lparr>q_ext_unknown := q_ext_unknown s @ [fst vm]\<rparr>, snd vm), bs) })"

definition read_query :: "(bytes \<Rightarrow> bytes option) \<Rightarrow> u8 \<Rightarrow> Query rd" where
  "read_query idf header bs =
     (if mid header \<noteq> id_QUERY then None
      else do {
        (c, bs) \<leftarrow> rd_when (has_flag header flag5) CONSOLIDATION_DEFAULT read_consolidation bs;
        (ps, bs) \<leftarrow> rd_when (has_flag header flag6) [] (read_string U64_MAX) bs;
        read_exts (query_ext_step idf) (has_flag header flag7)
          \<lparr>q_consolidation = c, q_parameters = ps, q_ext_sinfo = None, q_ext_body = None,
           q_ext_attachment = None, q_ext_unknown = []\<rparr> bs })"

definition query_ok :: "(bytes \<Rightarrow> bytes option) \<Rightarrow> Query \<Rightarrow> bool" where
  "query_ok idf x \<longleftrightarrow> utf8_ok (q_parameters x) \<and> pred_option (sinfo_ok idf) (q_ext_sinfo x) \<and>
     list_all (unknown_ok [query_SourceInfo, query_body_SID, query_body_VID, query_Attachment]) (q_ext_unknown x)"

definition query_upds :: "Query \<Rightarrow> (Query \<Rightarrow> Query) list" where
  "query_upds x =
     opt_f (\<lambda>v s. s\<lparr>q_ext_sinfo := Some v\<rparr>) (q_ext_sinfo x) @
     opt_f (\<lambda>v s. s\<lparr>q_ext_body := Some v\<rparr>) (q_ext_body x) @
     opt_f (\<lambda>v s. s\<lparr>q_ext_attachment := Some v\<rparr>) (q_ext_attachment x) @
     map (\<lambda>u s. s\<lparr>q_ext_unknown := q_ext_unknown s @ [u]\<rparr>) (q_ext_unknown x)"

lemma query_upds_fold:
  "fold (\<lambda>f. f) (query_upds x) s = s\<lparr>
     q_ext_sinfo := (case q_ext_sinfo x of None \<Rightarrow> q_ext_sinfo s | Some v \<Rightarrow> Some v),
     q_ext_body := (case q_ext_body x of None \<Rightarrow> q_ext_body s | Some v \<Rightarrow> Some v),
     q_ext_attachment := (case q_ext_attachment x of None \<Rightarrow> q_ext_attachment s | Some v \<Rightarrow> Some v),
     q_ext_unknown := q_ext_unknown s @ q_ext_unknown x\<rparr>"
  by (simp add: query_upds_def fold_append_field [where upd = q_ext_unknown_update] split: option.split)

lemma query_exts_ok: "query_ok idf x \<Longrightarrow> list_all2 (ext_ok (query_ext_step idf)) (query_exts x) (query_upds x)"
  unfolding query_exts_def query_upds_def
  by (intro exts_intros ext_oks)
    (auto simp: query_ok_def query_ext_step_def query_ids list_all_iff unknown_ok_def)

lemma query_rt:
  assumes "query_ok idf x" "write_query x = Some bs"
  shows "\<exists>h b. bs = h # b \<and> mid h = id_QUERY \<and> (\<forall>r. read_query idf h (b @ r) = Some (x, r))"
proof -
  from assms(2) obtain a b c
    where a: "wr_when (q_consolidation x \<noteq> CONSOLIDATION_DEFAULT) (write_consolidation (q_consolidation x)) = Some a"
    and b: "wr_when (q_parameters x \<noteq> []) (write_str U64_MAX (q_parameters x)) = Some b"
    and c: "write_exts (query_n_exts x) (query_exts x) = Some c" and bs: "bs = query_header x # a @ b @ c"
    unfolding write_query_def codec_simps by auto
  have "query_n_exts x = length (query_exts x)" by (simp add: query_n_exts_def query_exts_def)
  note e = read_write_exts [OF query_exts_ok [OF assms(1)] c this]
  have u: "\<forall>r. rd_when (q_parameters x \<noteq> []) [] (read_string U64_MAX) (b @ r) = Some (q_parameters x, r)"
    using b assms(1) by (intro str.rt_when) (auto simp: query_ok_def)
  note t = consolidation.rt_when [OF a, of CONSOLIDATION_DEFAULT, simplified]
  show ?thesis using t u e
    by (auto simp: bs query_header_def read_query_def query_upds_fold split: option.split)
qed

section \<open>Err\<close>

record Err =
  err_encoding :: encoding
  err_ext_sinfo :: "SourceInfo option"
  err_ext_unknown :: "ZExtUnknown list"
  err_payload :: bytes

definition err_SourceInfo :: u8 where "err_SourceInfo = zextzbuf 0x1 False"

lemma err_ids: "err_SourceInfo = 0x41" "ext_id_ok 0x41"
  by (simp_all add: err_SourceInfo_def ext_id_ok_def eid_def zext_defs)

definition err_n_exts :: "Err \<Rightarrow> nat" where
  "err_n_exts x = of_bool (err_ext_sinfo x \<noteq> None) + length (err_ext_unknown x)"

definition err_header :: "Err \<Rightarrow> u8" where
  "err_header x =
     set_if (err_n_exts x \<noteq> 0) flag7 (set_if (err_encoding x \<noteq> encoding_empty) flag6 id_ERR)"

definition err_exts :: "Err \<Rightarrow> (bool \<Rightarrow> bytes option) list" where
  "err_exts x =
     opt_ext (write_sinfo err_SourceInfo) (err_ext_sinfo x) @ map write_ext_unknown (err_ext_unknown x)"

definition write_err :: "Err enc" where
  "write_err x = wcat
     [write_u8 (err_header x),
      wr_when (err_encoding x \<noteq> encoding_empty) (write_encoding (err_encoding x)),
      write_exts (err_n_exts x) (err_exts x),
      write_zbuf U32_MAX (err_payload x)]"

definition err_ext_step :: "(bytes \<Rightarrow> bytes option) \<Rightarrow> u8 \<Rightarrow> Err \<Rightarrow> (Err \<times> bool) rd" where
  "err_ext_step idf h s bs =
     (if eid h = err_SourceInfo then
        do { (vm, bs) \<leftarrow> read_sinfo idf err_SourceInfo h bs;
             Some ((s\<lparr>err_ext_sinfo := Some (fst vm)\<rparr>, snd vm), bs) }
      else
        do { (vm, bs) \<leftarrow> ext_read h bs;
             Some ((s\<lparr>err_ext_unknown := err_ext_unknown s @ [fst vm]\<rparr>, snd vm), bs) })"

definition read_err :: "(bytes \<Rightarrow> bytes option) \<Rightarrow> u8 \<Rightarrow> Err rd" where
  "read_err idf header bs =
     (if mid header \<noteq> id_ERR then None
      else do {
        (e, bs) \<leftarrow> rd_when (has_flag header flag6) encoding_empty read_encoding bs;
        (s, bs) \<leftarrow> read_exts (err_ext_step idf) (has_flag header flag7)
          \<lparr>err_encoding = e, err_ext_sinfo = None, err_ext_unknown = [], err_payload = []\<rparr> bs;
        (p, bs) \<leftarrow> read_zbuf U32_MAX bs;
        Some (s\<lparr>err_payload := p\<rparr>, bs) })"

definition err_ok :: "(bytes \<Rightarrow> bytes option) \<Rightarrow> Err \<Rightarrow> bool" where
  "err_ok idf x \<longleftrightarrow> pred_option (sinfo_ok idf) (err_ext_sinfo x) \<and>
     list_all (unknown_ok [err_SourceInfo]) (err_ext_unknown x)"

definition err_upds :: "Err \<Rightarrow> (Err \<Rightarrow> Err) list" where
  "err_upds x =
     opt_f (\<lambda>v s. s\<lparr>err_ext_sinfo := Some v\<rparr>) (err_ext_sinfo x) @
     map (\<lambda>u s. s\<lparr>err_ext_unknown := err_ext_unknown s @ [u]\<rparr>) (err_ext_unknown x)"

lemma err_upds_fold:
  "fold (\<lambda>f. f) (err_upds x) s = s\<lparr>
     err_ext_sinfo := (case err_ext_sinfo x of None \<Rightarrow> err_ext_sinfo s | Some v \<Rightarrow> Some v),
     err_ext_unknown := err_ext_unknown s @ err_ext_unknown x\<rparr>"
  by (simp add: err_upds_def fold_append_field [where upd = err_ext_unknown_update] split: option.split)

lemma err_exts_ok: "err_ok idf x \<Longrightarrow> list_all2 (ext_ok (err_ext_step idf)) (err_exts x) (err_upds x)"
  unfolding err_exts_def err_upds_def
  by (intro exts_intros ext_oks)
    (auto simp: err_ok_def err_ext_step_def err_ids list_all_iff unknown_ok_def)

lemma err_rt:
  assumes "err_ok idf x" "write_err x = Some bs"
  shows "\<exists>h b. bs = h # b \<and> mid h = id_ERR \<and> (\<forall>r. read_err idf h (b @ r) = Some (x, r))"
proof -
  from assms(2) obtain b c d
    where b: "wr_when (err_encoding x \<noteq> encoding_empty) (write_encoding (err_encoding x)) = Some b"
    and c: "write_exts (err_n_exts x) (err_exts x) = Some c"
    and d: "write_zbuf U32_MAX (err_payload x) = Some d" and bs: "bs = err_header x # b @ c @ d"
    unfolding write_err_def codec_simps by auto
  have "err_n_exts x = length (err_exts x)" by (simp add: err_n_exts_def err_exts_def)
  note e = read_write_exts [OF err_exts_ok [OF assms(1)] c this]
  note t = encoding.rt_when [OF b, of encoding_empty, simplified]
  show ?thesis using t e zbuf.rt_all [OF TrueI d]
    by (auto simp: bs err_header_def read_err_def err_upds_fold split: option.split)
qed

section \<open>Bodies of the network messages\<close>

datatype PushBody = PutBody Put | DelBody Del

fun write_push_body :: "PushBody enc" where
  "write_push_body (PutBody b) = write_put b"
| "write_push_body (DelBody b) = write_del b"

definition read_push_body :: "(bytes \<Rightarrow> bytes option) \<Rightarrow> PushBody rd" where
  "read_push_body idf bs =
     do { (header, bs) \<leftarrow> read_u8 bs;
          if mid header = id_PUT then do { (b, bs) \<leftarrow> read_put idf header bs; Some (PutBody b, bs) }
          else if mid header = id_DEL then do { (b, bs) \<leftarrow> read_del idf header bs; Some (DelBody b, bs) }
          else None }"

fun push_body_ok :: "(bytes \<Rightarrow> bytes option) \<Rightarrow> PushBody \<Rightarrow> bool" where
  "push_body_ok idf (PutBody b) = put_ok idf b"
| "push_body_ok idf (DelBody b) = del_ok idf b"

lemma zenoh_ids_distinct: "id_PUT \<noteq> id_DEL" "id_REPLY \<noteq> id_ERR"
  by (simp_all add: zenoh_ids)

interpretation push_body: codec "push_body_ok idf" write_push_body "read_push_body idf" for idf
proof (unfold_locales, goal_cases)
  case (1 x bs r)
  show ?case
  proof (cases x)
    case (PutBody m)
    with 1 put_rt [of idf m bs] show ?thesis by (auto simp: read_push_body_def)
  next
    case (DelBody m)
    with 1 del_rt [of idf m bs] show ?thesis by (auto simp: read_push_body_def zenoh_ids)
  qed
qed

section \<open>Reply\<close>

record Reply =
  rep_consolidation :: ConsolidationMode
  rep_ext_unknown :: "ZExtUnknown list"
  rep_payload :: PushBody

definition reply_header :: "Reply \<Rightarrow> u8" where
  "reply_header x =
     set_if (length (rep_ext_unknown x) \<noteq> 0) flag7
       (set_if (rep_consolidation x \<noteq> CONSOLIDATION_DEFAULT) flag5 id_REPLY)"

definition write_reply :: "Reply enc" where
  "write_reply x = wcat
     [write_u8 (reply_header x),
      wr_when (rep_consolidation x \<noteq> CONSOLIDATION_DEFAULT) (write_consolidation (rep_consolidation x)),
      write_exts (length (rep_ext_unknown x)) (map write_ext_unknown (rep_ext_unknown x)),
      write_push_body (rep_payload x)]"

definition reply_ext_step :: "u8 \<Rightarrow> ZExtUnknown list \<Rightarrow> (ZExtUnknown list \<times> bool) rd" where
  "reply_ext_step h s bs = do { (vm, bs) \<leftarrow> ext_read h bs; Some ((s @ [fst vm], snd vm), bs) }"

definition read_reply :: "(bytes \<Rightarrow> bytes option) \<Rightarrow> u8 \<Rightarrow> Reply rd" where
  "read_reply idf header bs =
     (if mid header \<noteq> id_REPLY then None
      else do {
        (c, bs) \<leftarrow> rd_when (has_flag header flag5) CONSOLIDATION_DEFAULT read_consolidation bs;
        (us, bs) \<leftarrow> read_exts reply_ext_step (has_flag header flag7) [] bs;
        (p, bs) \<leftarrow> read_push_body idf bs;
        Some (\<lparr>rep_consolidation = c, rep_ext_unknown = us, rep_payload = p\<rparr>, bs) })"

definition reply_ok :: "(bytes \<Rightarrow> bytes option) \<Rightarrow> Reply \<Rightarrow> bool" where
  "reply_ok idf x \<longleftrightarrow> list_all (unknown_ok []) (rep_ext_unknown x) \<and> push_body_ok idf (rep_payload x)"

lemma fold_snoc: "fold (\<lambda>f. f) (map (\<lambda>u s. s @ [u]) us) s = s @ us"
  by (induction us arbitrary: s) simp_all

lemma reply_rt:
  assumes "reply_ok idf x" "write_reply x = Some bs"
  shows "\<exists>h b. bs = h # b \<and> mid h = id_REPLY \<and> (\<forall>r. read_reply idf h (b @ r) = Some (x, r))"
proof -
  from assms(2) obtain a c d
    where a: "wr_when (rep_consolidation x \<noteq> CONSOLIDATION_DEFAULT) (write_consolidation (rep_consolidation x)) = Some a"
    and c: "write_exts (length (rep_ext_unknown x)) (map write_ext_unknown (rep_ext_unknown x)) = Some c"
    and d: "write_push_body (rep_payload x) = Some d" and bs: "bs = reply_header x # a @ c @ d"
    unfolding write_reply_def codec_simps by auto
  have "list_all2 (ext_ok reply_ext_step) (map write_ext_unknown (rep_ext_unknown x))
      (map (\<lambda>u s. s @ [u]) (rep_ext_unknown x))"
    using assms(1) by (intro exts_intros ext_oks) (auto simp: reply_ok_def list_all_iff reply_ext_step_def)
  note e = read_write_exts [OF this c, simplified]
  note t = consolidation.rt_when [OF a, of CONSOLIDATION_DEFAULT, simplified]
  have p: "\<forall>r. read_push_body idf (d @ r) = Some (rep_payload x, r)"
    using push_body.rt_all [of idf "rep_payload x" d] assms(1) d by (simp add: reply_ok_def)
  show ?thesis using t e p
    by (auto simp: bs reply_header_def read_reply_def fold_snoc)
qed

datatype RequestBody = QueryBody Query

fun write_request_body :: "RequestBody enc" where
  "write_request_body (QueryBody b) = write_query b"

definition read_request_body :: "(bytes \<Rightarrow> bytes option) \<Rightarrow> RequestBody rd" where
  "read_request_body idf bs =
     do { (header, bs) \<leftarrow> read_u8 bs;
          if mid header = id_QUERY then do { (b, bs) \<leftarrow> read_query idf header bs; Some (QueryBody b, bs) }
          else None }"

fun request_body_ok :: "(bytes \<Rightarrow> bytes option) \<Rightarrow> RequestBody \<Rightarrow> bool" where
  "request_body_ok idf (QueryBody b) = query_ok idf b"

interpretation request_body: codec "request_body_ok idf" write_request_body "read_request_body idf" for idf
proof (unfold_locales, goal_cases)
  case (1 x bs r)
  then show ?case using query_rt [of idf] by (cases x) (fastforce simp: read_request_body_def)
qed

datatype ResponseBody = ReplyBody Reply | ErrBody Err

fun write_response_body :: "ResponseBody enc" where
  "write_response_body (ReplyBody b) = write_reply b"
| "write_response_body (ErrBody b) = write_err b"

definition read_response_body :: "(bytes \<Rightarrow> bytes option) \<Rightarrow> ResponseBody rd" where
  "read_response_body idf bs =
     do { (header, bs) \<leftarrow> read_u8 bs;
          if mid header = id_REPLY then do { (b, bs) \<leftarrow> read_reply idf header bs; Some (ReplyBody b, bs) }
          else if mid header = id_ERR then do { (b, bs) \<leftarrow> read_err idf header bs; Some (ErrBody b, bs) }
          else None }"

fun response_body_ok :: "(bytes \<Rightarrow> bytes option) \<Rightarrow> ResponseBody \<Rightarrow> bool" where
  "response_body_ok idf (ReplyBody b) = reply_ok idf b"
| "response_body_ok idf (ErrBody b) = err_ok idf b"

interpretation response_body: codec "response_body_ok idf" write_response_body "read_response_body idf" for idf
proof (unfold_locales, goal_cases)
  case (1 x bs r)
  show ?case
  proof (cases x)
    case (ReplyBody m)
    with 1 reply_rt [of idf m bs] show ?thesis by (auto simp: read_response_body_def)
  next
    case (ErrBody m)
    with 1 err_rt [of idf m bs] show ?thesis by (auto simp: read_response_body_def zenoh_ids)
  qed
qed

end
