(* ===== verification/Codec_NetExt.thy ===== *)
theory Codec_NetExt
  imports Codec_Zenoh
begin

text \<open>
  The extensions shared by the network messages (zenoh-protocol, network/mod.rs, module \<open>ext\<close>, and
  network/timestamp_stack.rs; zenoh-codec, network/mod.rs and network/timestamp_stack.rs): quality
  of service, timestamp, node identifier, entity identifier, timestamp stack.
\<close>

section \<open>Flags of a byte (common/mod.rs, imsg)\<close>

definition unset_flag :: "u8 \<Rightarrow> u8 \<Rightarrow> u8" where
  "unset_flag byte flag = byte AND NOT flag"

definition set_flag :: "u8 \<Rightarrow> u8 \<Rightarrow> u8" where
  "set_flag byte flag = unset_flag byte flag OR flag"

definition set_bitfield :: "u8 \<Rightarrow> u8 \<Rightarrow> u8 \<Rightarrow> u8" where
  "set_bitfield byte v mask' = unset_flag byte mask' OR v"

section \<open>Quality of service\<close>

datatype Priority = Control | RealTime | InteractiveHigh | InteractiveLow | DataHigh | Data | DataLow
  | Background

fun priority_u8 :: "Priority \<Rightarrow> u8" where
  "priority_u8 Control = 0"
| "priority_u8 RealTime = 1"
| "priority_u8 InteractiveHigh = 2"
| "priority_u8 InteractiveLow = 3"
| "priority_u8 DataHigh = 4"
| "priority_u8 Data = 5"
| "priority_u8 DataLow = 6"
| "priority_u8 Background = 7"

text \<open>\<open>Priority::try_from\<close> and the \<open>transmute\<close> of \<open>get_priority\<close>: the priority with a given
  discriminant, if there is one.\<close>

definition priority_try_from :: "u8 \<Rightarrow> Priority option" where
  "priority_try_from v =
     (if v = 0 then Some Control else if v = 1 then Some RealTime
      else if v = 2 then Some InteractiveHigh else if v = 3 then Some InteractiveLow
      else if v = 4 then Some DataHigh else if v = 5 then Some Data
      else if v = 6 then Some DataLow else if v = 7 then Some Background else None)"

definition PRIORITY_DEFAULT :: Priority where "PRIORITY_DEFAULT = Data"

datatype CongestionControl = Drop | Block

definition CC_DEFAULT :: CongestionControl where "CC_DEFAULT = Drop"

text \<open>A \<open>QoSType\<close> is its byte \<open>inner\<close>.\<close>

type_synonym QoSType = u8

definition P_MASK :: u8 where "P_MASK = 7"
definition D_FLAG :: u8 where "D_FLAG = 8"
definition E_FLAG :: u8 where "E_FLAG = 16"
definition F_FLAG :: u8 where "F_FLAG = 32"

lemmas qos_consts = P_MASK_def D_FLAG_def E_FLAG_def F_FLAG_def

definition qos_new :: "Priority \<Rightarrow> CongestionControl \<Rightarrow> bool \<Rightarrow> QoSType" where
  "qos_new priority congestion_control is_express =
     (let inner = priority_u8 priority;
          inner = (case congestion_control of Block \<Rightarrow> inner OR D_FLAG | Drop \<Rightarrow> inner)
      in if is_express then inner OR E_FLAG else inner)"

definition QOS_DEFAULT :: QoSType where
  "QOS_DEFAULT = qos_new PRIORITY_DEFAULT CC_DEFAULT False"

definition set_priority :: "Priority \<Rightarrow> QoSType \<Rightarrow> QoSType" where
  "set_priority p q = set_bitfield q (priority_u8 p) P_MASK"

definition get_priority :: "QoSType \<Rightarrow> Priority option" where
  "get_priority q = priority_try_from (q AND P_MASK)"

definition set_congestion_control :: "CongestionControl \<Rightarrow> QoSType \<Rightarrow> QoSType" where
  "set_congestion_control c q =
     (case c of
        Block \<Rightarrow> unset_flag (set_flag q D_FLAG) F_FLAG
      | Drop \<Rightarrow> unset_flag (unset_flag q D_FLAG) F_FLAG)"

definition get_congestion_control :: "QoSType \<Rightarrow> CongestionControl" where
  "get_congestion_control q =
     (case (has_flag q D_FLAG, has_flag q F_FLAG) of
        (False, False) \<Rightarrow> Drop
      | (False, True) \<Rightarrow> Drop
      | (True, _) \<Rightarrow> Block)"

definition set_is_express :: "bool \<Rightarrow> QoSType \<Rightarrow> QoSType" where
  "set_is_express b q = (if b then set_flag q E_FLAG else unset_flag q E_FLAG)"

definition is_express :: "QoSType \<Rightarrow> bool" where
  "is_express q = has_flag q E_FLAG"

text \<open>The extension is the byte as a 64-bit integer.\<close>

definition write_qos_ext :: "u8 \<Rightarrow> QoSType \<Rightarrow> bool \<Rightarrow> bytes option" where
  "write_qos_ext i q m = write_ext_z64 i (ucast q) m"

definition read_qos_ext :: "u8 \<Rightarrow> u8 \<Rightarrow> (QoSType \<times> bool) rd" where
  "read_qos_ext i h bs = do { (vm, bs) \<leftarrow> read_ext_z64 i h bs; Some ((ucast (fst vm), snd vm), bs) }"

section \<open>Timestamp, node identifier, entity identifier\<close>

definition write_tstamp_ext :: "u8 \<Rightarrow> timestamp \<Rightarrow> bool \<Rightarrow> bytes option" where
  "write_tstamp_ext i t m =
     do { len \<leftarrow> usize_of (timestamp_w_len t); wcat [write_ext_zbuf_header i len m, write_timestamp t] }"

definition read_tstamp_ext :: "(bytes \<Rightarrow> bytes option) \<Rightarrow> u8 \<Rightarrow> u8 \<Rightarrow> (timestamp \<times> bool) rd" where
  "read_tstamp_ext idf i h bs =
     do { (hm, bs) \<leftarrow> read_ext_zbuf_header i h bs;
          (t, bs) \<leftarrow> read_timestamp idf bs;
          Some ((t, snd hm), bs) }"

type_synonym NodeIdType = u16

definition NODE_DEFAULT :: NodeIdType where "NODE_DEFAULT = 0"

definition write_nodeid_ext :: "u8 \<Rightarrow> NodeIdType \<Rightarrow> bool \<Rightarrow> bytes option" where
  "write_nodeid_ext i n m = write_ext_z64 i (ucast n) m"

definition read_nodeid_ext :: "u8 \<Rightarrow> u8 \<Rightarrow> (NodeIdType \<times> bool) rd" where
  "read_nodeid_ext i h bs = do { (vm, bs) \<leftarrow> read_ext_z64 i h bs; Some ((ucast (fst vm), snd vm), bs) }"

record EntityGlobalIdType =
  eg_zid :: zid
  eg_eid :: u32

definition entity_w_len :: "EntityGlobalIdType \<Rightarrow> nat" where
  "entity_w_len x = 1 + length (eg_zid x) + vle_len (ucast (eg_eid x))"

definition write_entity_ext :: "u8 \<Rightarrow> EntityGlobalIdType \<Rightarrow> bool \<Rightarrow> bytes option" where
  "write_entity_ext i x m =
     do { len \<leftarrow> usize_of (entity_w_len x);
          if eg_zid x = [] then None
          else wcat [write_ext_zbuf_header i len m,
                     write_u8 (push_bit 4 (of_nat (length (eg_zid x)) - 1)),
                     write_zid_len (length (eg_zid x)) (eg_zid x),
                     write_uint (eg_eid x)] }"

definition read_entity_ext :: "(bytes \<Rightarrow> bytes option) \<Rightarrow> u8 \<Rightarrow> u8 \<Rightarrow> (EntityGlobalIdType \<times> bool) rd" where
  "read_entity_ext idf i header bs =
     do { (hm, bs) \<leftarrow> read_ext_zbuf_header i header bs;
          (flags, bs) \<leftarrow> read_u8 bs;
          (z, bs) \<leftarrow> read_zid_len idf (1 + unat (drop_bit 4 flags)) bs;
          (e, bs) \<leftarrow> read_uint bs;
          Some ((\<lparr>eg_zid = z, eg_eid = e\<rparr>, snd hm), bs) }"

section \<open>Timestamp stack\<close>

record Interception =
  ic_flags :: u8
  ic_timestamp :: bytes

record TimestampStack =
  conf_flags :: u8
  stack :: "Interception list"

definition MAX_STACK_SIZE :: nat where "MAX_STACK_SIZE = 255"

definition interception_w_len :: "Interception \<Rightarrow> nat" where
  "interception_w_len x = 1 + slice_w_len (ic_timestamp x)"

definition write_interception :: "Interception enc" where
  "write_interception x = wcat [write_u8 (ic_flags x), write_slice U64_MAX (ic_timestamp x)]"

definition read_interception :: "Interception rd" where
  "read_interception bs =
     do { (f, bs) \<leftarrow> read_u8 bs; (t, bs) \<leftarrow> read_vec U64_MAX bs;
          Some (\<lparr>ic_flags = f, ic_timestamp = t\<rparr>, bs) }"

definition ts_stack_w_len :: "TimestampStack \<Rightarrow> nat" where
  "ts_stack_w_len x =
     1 + vle_len (of_nat (length (stack x))) + sum_list (map interception_w_len (stack x))"

definition write_ts_stack :: "TimestampStack enc" where
  "write_ts_stack x =
     wcat [write_u8 (conf_flags x), do { n \<leftarrow> slice_len (stack x); write_uint n },
           wcat (map write_interception (stack x))]"

text \<open>\<open>for _ in 0..count\<close>\<close>

fun read_times :: "nat \<Rightarrow> 'a rd \<Rightarrow> 'a list rd" where
  "read_times 0 rd bs = Some ([], bs)"
| "read_times (Suc n) rd bs =
     do { (x, bs) \<leftarrow> rd bs; (xs, bs) \<leftarrow> read_times n rd bs; Some (x # xs, bs) }"

definition read_ts_stack :: "TimestampStack rd" where
  "read_ts_stack bs =
     do { (f, bs) \<leftarrow> read_u8 bs;
          if f = 0 then None
          else do {
            (count, bs) \<leftarrow> read_uint bs;
            if unat (count::u64) > MAX_STACK_SIZE then None
            else do { (st, bs) \<leftarrow> read_times (unat count) read_interception bs;
                      Some (\<lparr>conf_flags = f, stack = st\<rparr>, bs) } } }"

definition ts_stack_ok :: "TimestampStack \<Rightarrow> bool" where
  "ts_stack_ok x \<longleftrightarrow> conf_flags x \<noteq> 0 \<and> length (stack x) \<le> MAX_STACK_SIZE"

definition write_ts_stack_ext :: "u8 \<Rightarrow> TimestampStack \<Rightarrow> bool \<Rightarrow> bytes option" where
  "write_ts_stack_ext i x m =
     do { len \<leftarrow> usize_of (ts_stack_w_len x); wcat [write_ext_zbuf_header i len m, write_ts_stack x] }"

definition read_ts_stack_ext :: "u8 \<Rightarrow> u8 \<Rightarrow> (TimestampStack \<times> bool) rd" where
  "read_ts_stack_ext i h bs =
     do { (hm, bs) \<leftarrow> read_ext_zbuf_header i h bs;
          (t, bs) \<leftarrow> read_ts_stack bs;
          Some ((t, snd hm), bs) }"

section \<open>The fields of a quality of service\<close>

lemma and_or_mask: "((q::u8) AND NOT m OR v) AND m = v AND m"
  by (rule bit_word_eqI) (auto simp: bit_simps)

lemma and_disjoint: "m AND m' = 0 \<Longrightarrow> v AND m' = 0 \<Longrightarrow> ((q::u8) AND NOT m OR v) AND m' = q AND m'"
  unfolding bit_eq_iff by (auto simp: bit_simps)

lemma unset_disjoint: "m AND m' = 0 \<Longrightarrow> ((q::u8) AND NOT m) AND m' = q AND m'"
  unfolding bit_eq_iff by (auto simp: bit_simps)

lemma unset_same: "((q::u8) AND NOT m) AND m = 0"
  by (rule bit_word_eqI) (auto simp: bit_simps)

lemma priority_u8_mask: "priority_u8 p AND P_MASK = priority_u8 p"
  by (cases p) (simp_all add: qos_consts)

lemma priority_u8_flags:
  "priority_u8 p AND D_FLAG = 0" "priority_u8 p AND E_FLAG = 0" "priority_u8 p AND F_FLAG = 0"
  by (cases p; simp add: qos_consts)+

lemma priority_try_from_u8 [simp]: "priority_try_from (priority_u8 p) = Some p"
  by (cases p) (simp_all add: priority_try_from_def)

lemma qos_masks:
  "P_MASK AND D_FLAG = 0" "P_MASK AND E_FLAG = 0" "P_MASK AND F_FLAG = 0"
  "D_FLAG AND P_MASK = 0" "D_FLAG AND E_FLAG = 0" "D_FLAG AND F_FLAG = 0"
  "E_FLAG AND P_MASK = 0" "E_FLAG AND D_FLAG = 0" "E_FLAG AND F_FLAG = 0"
  "F_FLAG AND P_MASK = 0" "F_FLAG AND D_FLAG = 0" "F_FLAG AND E_FLAG = 0"
  "D_FLAG \<noteq> 0" "E_FLAG \<noteq> 0" "P_MASK AND P_MASK = P_MASK" "D_FLAG AND D_FLAG = D_FLAG" "E_FLAG AND E_FLAG = E_FLAG"
  by (simp_all add: qos_consts)

lemmas qos_defs = set_priority_def get_priority_def set_congestion_control_def get_congestion_control_def
  set_is_express_def is_express_def set_bitfield_def set_flag_def unset_flag_def has_flag_def

lemma and_7_cases: "(q::u8) AND 7 \<in> {0, 1, 2, 3, 4, 5, 6, 7}"
proof -
  have "q AND 7 = take_bit 3 q" by (simp add: take_bit_eq_mask mask_eq_exp_minus_1)
  then have "unat (q AND 7) < 8" by (simp add: unsigned_take_bit_eq take_bit_nat_less_exp [of 3, simplified])
  then have "unat (q AND 7) \<in> {0, 1, 2, 3, 4, 5, 6, 7}" by auto
  then show ?thesis by (auto simp: word_unat_eq_iff)
qed

text \<open>(C33) A setter of the quality of service changes its field to the value given and leaves the
  other fields as they were; every byte has a valid priority, so that the \<open>transmute\<close> of
  \<open>get_priority\<close> never makes an invalid value.\<close>

theorem qos_fields:
  "get_priority (set_priority p q) = Some p \<and>
   get_congestion_control (set_priority p q) = get_congestion_control q \<and>
   is_express (set_priority p q) = is_express q \<and>
   get_priority (set_congestion_control c q) = get_priority q \<and>
   get_congestion_control (set_congestion_control c q) = c \<and>
   is_express (set_congestion_control c q) = is_express q \<and>
   get_priority (set_is_express e q) = get_priority q \<and>
   get_congestion_control (set_is_express e q) = get_congestion_control q \<and>
   is_express (set_is_express e q) = e \<and>
   get_priority q \<noteq> None \<and>
   get_priority (qos_new p c e) = Some p \<and> get_congestion_control (qos_new p c e) = c \<and>
   is_express (qos_new p c e) = e"
proof -
  note sets = and_or_mask and_disjoint unset_disjoint unset_same qos_masks priority_u8_mask priority_u8_flags
  have "get_priority q \<noteq> None"
    using and_7_cases [of q] by (auto simp: get_priority_def P_MASK_def priority_try_from_def)
  moreover have "get_priority (set_priority p q) = Some p"
    "get_congestion_control (set_priority p q) = get_congestion_control q"
    "is_express (set_priority p q) = is_express q"
    by (simp_all add: qos_defs sets)
  moreover have "get_priority (set_congestion_control c q) = get_priority q"
    "get_congestion_control (set_congestion_control c q) = c"
    "is_express (set_congestion_control c q) = is_express q"
    by (cases c; simp add: qos_defs sets)+
  moreover have "get_priority (set_is_express e q) = get_priority q"
    "get_congestion_control (set_is_express e q) = get_congestion_control q"
    "is_express (set_is_express e q) = e"
    by (cases e; simp add: qos_defs sets)+
  moreover have "get_priority (qos_new p c e) = Some p" "get_congestion_control (qos_new p c e) = c"
    "is_express (qos_new p c e) = e"
    by (cases c; cases e; simp add: qos_new_def qos_defs bit.conj_disj_distrib2 sets)+
  ultimately show ?thesis by blast
qed

section \<open>Round trips\<close>

lemma qos_ext_rt:
  assumes "ext_id_ok i" "write_qos_ext i q m = Some bs"
  shows "\<exists>h b. bs = h # b \<and> eid h = i \<and> (\<forall>r. read_qos_ext i h (b @ r) = Some ((q, m), r))"
  using ext_z64_rt [OF assms(1), of "ucast q" m bs] assms(2)
  by (auto simp: write_qos_ext_def read_qos_ext_def ucast_ucast_id)

lemma nodeid_ext_rt:
  assumes "ext_id_ok i" "write_nodeid_ext i n m = Some bs"
  shows "\<exists>h b. bs = h # b \<and> eid h = i \<and> (\<forall>r. read_nodeid_ext i h (b @ r) = Some ((n, m), r))"
  using ext_z64_rt [OF assms(1), of "ucast n" m bs] assms(2)
  by (auto simp: write_nodeid_ext_def read_nodeid_ext_def ucast_ucast_id)

text \<open>An extension whose body is written after its length.\<close>

lemma ext_zbuf_body_rt:
  assumes "ext_id_ok i" "do { len \<leftarrow> usize_of n; wcat [write_ext_zbuf_header i len m, w] } = Some bs"
    and "\<And>b. w = Some b \<Longrightarrow> \<forall>r. rd (b @ r) = Some (x, r)"
  shows "\<exists>h b. bs = h # b \<and> eid h = i \<and>
    (\<forall>r. do { (hm, bs) \<leftarrow> read_ext_zbuf_header i h (b @ r); (t, bs) \<leftarrow> rd bs; Some ((t, snd hm), bs) } = Some ((x, m), r))"
proof -
  from assms(2) obtain len a b where ab: "write_ext_zbuf_header i len m = Some a" "w = Some b" "bs = a @ b"
    by (auto simp: Option.bind_eq_Some_conv codec_simps)
  from ext_zbuf_header_rt [OF assms(1) ab(1)] ab(3) assms(3) [OF ab(2)] show ?thesis by auto
qed

lemma tstamp_ext_rt:
  assumes "ext_id_ok i" "timestamp_ok idf t" "write_tstamp_ext i t m = Some bs"
  shows "\<exists>h b. bs = h # b \<and> eid h = i \<and> (\<forall>r. read_tstamp_ext idf i h (b @ r) = Some ((t, m), r))"
  unfolding read_tstamp_ext_def
  by (rule ext_zbuf_body_rt [OF assms(1) assms(3) [unfolded write_tstamp_ext_def]])
    (rule timestamp.rt_all [OF assms(2)])

lemma entity_ext_rt:
  assumes "ext_id_ok i" "zid_ok idf (eg_zid x)" "write_entity_ext i x m = Some bs"
  shows "\<exists>h b. bs = h # b \<and> eid h = i \<and> (\<forall>r. read_entity_ext idf i h (b @ r) = Some ((x, m), r))"
proof -
  from assms(3) obtain len a1 a2 a3 where a: "write_ext_zbuf_header i len m = Some a1"
    "write_zid_len (length (eg_zid x)) (eg_zid x) = Some a2" "write_uint (eg_eid x) = Some a3"
    and bs: "bs = a1 @ push_bit 4 (of_nat (length (eg_zid x)) - 1) # a2 @ a3"
    by (auto simp: write_entity_ext_def Option.bind_eq_Some_conv codec_simps split: if_splits)
  from ext_zbuf_header_rt [OF assms(1) a(1)] obtain h b where h: "a1 = h # b" "eid h = i"
    "\<And>r. read_ext_zbuf_header i h (b @ r) = Some ((len, m), r)" by auto
  have "1 + unat (drop_bit 4 (push_bit 4 (of_nat (length (eg_zid x)) - 1 :: u8))) = length (eg_zid x)"
    using assms(2) by (intro zid_flags) (auto simp: zid_ok_def)
  then show ?thesis
    using h bs read_zid_len_rt [OF assms(2) a(2)] u32.rt_all [OF TrueI a(3)]
    by (simp add: read_entity_ext_def)
qed

interpretation interception: codec "\<lambda>_. True" write_interception read_interception
  by unfold_locales (auto simp: write_interception_def read_interception_def codec_simps slice.rt)

context codec
begin

lemma rt_times:
  "\<forall>x\<in>set xs. wf x \<Longrightarrow> wcat (map enc xs) = Some bs \<Longrightarrow> \<forall>r. read_times (length xs) dec (bs @ r) = Some (xs, r)"
  by (induction xs arbitrary: bs) (auto simp: codec_simps rt)

end

lemma read_ts_stack_rt: "ts_stack_ok x \<Longrightarrow> write_ts_stack x = Some bs \<Longrightarrow> read_ts_stack (bs @ r) = Some (x, r)"
proof -
  assume ok: "ts_stack_ok x" and "write_ts_stack x = Some bs"
  then obtain n a b where n: "slice_len (stack x) = Some n" "write_uint n = Some a"
    "wcat (map write_interception (stack x)) = Some b" "bs = conf_flags x # a @ b"
    by (auto simp: write_ts_stack_def codec_simps Option.bind_eq_Some_conv)
  with ok usize.rt_all [OF TrueI n(2)] interception.rt_times [OF _ n(3)] show ?thesis
    by (auto simp: read_ts_stack_def ts_stack_ok_def slice_len_Some [OF n(1)])
qed

interpretation ts_stack: codec ts_stack_ok write_ts_stack read_ts_stack
  by unfold_locales (rule read_ts_stack_rt)

lemma ts_stack_ext_rt:
  assumes "ext_id_ok i" "ts_stack_ok x" "write_ts_stack_ext i x m = Some bs"
  shows "\<exists>h b. bs = h # b \<and> eid h = i \<and> (\<forall>r. read_ts_stack_ext i h (b @ r) = Some ((x, m), r))"
  unfolding read_ts_stack_ext_def
  by (rule ext_zbuf_body_rt [OF assms(1) assms(3) [unfolded write_ts_stack_ext_def]])
    (rule ts_stack.rt_all [OF assms(2)])

lemma ext_ok_qos [ext_oks]:
  assumes "ext_id_ok i"
    and "\<And>h s bs m r. eid h = i \<Longrightarrow> read_qos_ext i h bs = Some ((v, m), r) \<Longrightarrow> step h s bs = Some ((f s, m), r)"
  shows "ext_ok step (write_qos_ext i v) f"
  by (rule ext_ok_readI [where rd = "read_qos_ext i"], erule qos_ext_rt [OF assms(1)], rule assms(2))

lemma ext_ok_nodeid [ext_oks]:
  assumes "ext_id_ok i"
    and "\<And>h s bs m r. eid h = i \<Longrightarrow> read_nodeid_ext i h bs = Some ((v, m), r) \<Longrightarrow> step h s bs = Some ((f s, m), r)"
  shows "ext_ok step (write_nodeid_ext i v) f"
  by (rule ext_ok_readI [where rd = "read_nodeid_ext i"], erule nodeid_ext_rt [OF assms(1)], rule assms(2))

lemma ext_ok_tstamp [ext_oks]:
  assumes "ext_id_ok i" "timestamp_ok idf v"
    and "\<And>h s bs m r. eid h = i \<Longrightarrow> read_tstamp_ext idf i h bs = Some ((v, m), r) \<Longrightarrow> step h s bs = Some ((f s, m), r)"
  shows "ext_ok step (write_tstamp_ext i v) f"
  by (rule ext_ok_readI [where rd = "read_tstamp_ext idf i"], erule tstamp_ext_rt [OF assms(1,2)], rule assms(3))

lemma ext_ok_entity [ext_oks]:
  assumes "ext_id_ok i" "zid_ok idf (eg_zid v)"
    and "\<And>h s bs m r. eid h = i \<Longrightarrow> read_entity_ext idf i h bs = Some ((v, m), r) \<Longrightarrow> step h s bs = Some ((f s, m), r)"
  shows "ext_ok step (write_entity_ext i v) f"
  by (rule ext_ok_readI [where rd = "read_entity_ext idf i"], erule entity_ext_rt [OF assms(1,2)], rule assms(3))

lemma ext_ok_ts_stack [ext_oks]:
  assumes "ext_id_ok i" "ts_stack_ok v"
    and "\<And>h s bs m r. eid h = i \<Longrightarrow> read_ts_stack_ext i h bs = Some ((v, m), r) \<Longrightarrow> step h s bs = Some ((f s, m), r)"
  shows "ext_ok step (write_ts_stack_ext i v) f"
  by (rule ext_ok_readI [where rd = "read_ts_stack_ext i"], erule ts_stack_ext_rt [OF assms(1,2)], rule assms(3))

text \<open>Reading consumes bytes.\<close>

lemma shrinking_qos_ext [rd_mono]: "shrinking (read_qos_ext i h)"
  unfolding read_qos_ext_def [abs_def] by (intro rd_mono)

lemma shrinking_nodeid_ext [rd_mono]: "shrinking (read_nodeid_ext i h)"
  unfolding read_nodeid_ext_def [abs_def] by (intro rd_mono)

lemma shrinking_tstamp_ext [rd_mono]: "shrinking (read_tstamp_ext idf i h)"
  unfolding read_tstamp_ext_def [abs_def] by (intro rd_mono)

lemma shrinking_entity_ext [rd_mono]: "shrinking (read_entity_ext idf i h)"
  unfolding read_entity_ext_def [abs_def] by (intro rd_mono)

lemma shrinking_interception [rd_mono]: "shrinking read_interception"
  unfolding read_interception_def [abs_def] by (intro rd_mono)

lemma shrinking_times [rd_mono]: "shrinking rd \<Longrightarrow> shrinking (read_times n rd)"
proof (induction n)
  case 0
  show ?case unfolding read_times.simps [abs_def] by (intro rd_mono)
next
  case (Suc n)
  then show ?case unfolding read_times.simps [abs_def] by (intro rd_mono)
qed

lemma shrinking_ts_stack [rd_mono]: "shrinking read_ts_stack"
  unfolding read_ts_stack_def [abs_def] by (intro rd_mono)

lemma shrinking_ts_stack_ext [rd_mono]: "shrinking (read_ts_stack_ext i h)"
  unfolding read_ts_stack_ext_def [abs_def] by (intro rd_mono)

end
