(* ===== verification/Codec_Network.thy ===== *)
theory Codec_Network
  imports Codec_NetExt
begin

text \<open>
  The network messages Push, Request, Response, ResponseFinal, OAM and Interest (zenoh-protocol,
  network/*.rs; zenoh-codec, network/*.rs).  The locals that a decoder fills while it reads the
  extensions are a record, which the record of the message extends.
\<close>

section \<open>Identifiers\<close>

definition id_OAM :: u8 where "id_OAM = 0x1f"
definition id_DECLARE :: u8 where "id_DECLARE = 0x1e"
definition id_PUSH :: u8 where "id_PUSH = 0x1d"
definition id_REQUEST :: u8 where "id_REQUEST = 0x1c"
definition id_RESPONSE :: u8 where "id_RESPONSE = 0x1b"
definition id_RESPONSE_FINAL :: u8 where "id_RESPONSE_FINAL = 0x1a"
definition id_INTEREST :: u8 where "id_INTEREST = 0x19"

lemmas network_ids = id_OAM_def id_DECLARE_def id_PUSH_def id_REQUEST_def id_RESPONSE_def
  id_RESPONSE_FINAL_def id_INTEREST_def

lemma network_ids_ok [simp]:
  "mid_ok id_OAM" "mid_ok id_DECLARE" "mid_ok id_PUSH" "mid_ok id_REQUEST" "mid_ok id_RESPONSE"
  "mid_ok id_RESPONSE_FINAL" "mid_ok id_INTEREST"
  by (simp_all add: mid_ok_def mid_def HEADER_MASK_def network_ids)

text \<open>The modules \<open>ext\<close> of the messages give the shared extensions the same identifiers.\<close>

definition net_QoS :: u8 where "net_QoS = zextz64 0x1 False"
definition net_Timestamp :: u8 where "net_Timestamp = zextzbuf 0x2 False"
definition net_NodeId :: u8 where "net_NodeId = zextz64 0x3 True"
definition net_TsStack :: u8 where "net_TsStack = zextzbuf 0x7 False"
definition req_Target :: u8 where "req_Target = zextz64 0x4 True"
definition req_Budget :: u8 where "req_Budget = zextz64 0x5 False"
definition req_Timeout :: u8 where "req_Timeout = zextz64 0x6 False"
definition resp_ResponderId :: u8 where "resp_ResponderId = zextzbuf 0x3 False"

lemma net_ids: "net_QoS = 0x21" "net_Timestamp = 0x42" "net_NodeId = 0x33" "net_TsStack = 0x47"
  "req_Target = 0x34" "req_Budget = 0x25" "req_Timeout = 0x26" "resp_ResponderId = 0x43"
  "ext_id_ok 0x21" "ext_id_ok 0x42" "ext_id_ok 0x33" "ext_id_ok 0x47" "ext_id_ok 0x34" "ext_id_ok 0x25"
  "ext_id_ok 0x26" "ext_id_ok 0x43"
  by (simp_all add: net_QoS_def net_Timestamp_def net_NodeId_def net_TsStack_def req_Target_def
    req_Budget_def req_Timeout_def resp_ResponderId_def ext_id_ok_def eid_def zext_defs)

section \<open>The wire expression of a message\<close>

text \<open>Its suffix and mapping are announced by the flags \<open>N\<close> and \<open>M\<close> of the header.\<close>

definition we_flags :: "wire_expr \<Rightarrow> u8 \<Rightarrow> u8" where
  "we_flags we h = set_if (has_suffix we) flag5 (set_if (we_mapping we \<noteq> MAPPING_DEFAULT) flag6 h)"

definition read_we :: "u8 \<Rightarrow> wire_expr rd" where
  "read_we h bs =
     do { (we, bs) \<leftarrow> read_wire_expr (has_flag h flag5) bs;
          Some (we\<lparr>we_mapping := (if has_flag h flag6 then Sender else Receiver)\<rparr>, bs) }"

lemma read_we_rt:
  assumes "wire_expr_ok we" "write_wire_expr we = Some bs" "has_flag h flag5 = has_suffix we"
    "has_flag h flag6 = (we_mapping we \<noteq> MAPPING_DEFAULT)"
  shows "\<forall>r. read_we h (bs @ r) = Some (we, r)"
  using read_wire_expr_rt [OF assms(1,2)] assms(3,4)
  by (cases "we_mapping we") (auto simp: read_we_def MAPPING_DEFAULT_def)

lemma we_flags_simps [simp]:
  "mid (we_flags we h) = mid h" "has_flag (we_flags we h) flag7 = has_flag h flag7"
  "\<not> has_flag h flag5 \<Longrightarrow> has_flag (we_flags we h) flag5 = has_suffix we"
  "\<not> has_flag h flag6 \<Longrightarrow> has_flag (we_flags we h) flag6 = (we_mapping we \<noteq> MAPPING_DEFAULT)"
  by (simp_all add: we_flags_def)

lemma shrinking_we [rd_mono]: "shrinking (read_we h)"
  unfolding read_we_def [abs_def] by (intro rd_mono)

section \<open>ResponseFinal\<close>

record NetExt =
  ext_qos :: QoSType
  ext_tstamp :: "timestamp option"

definition net_ext_init :: NetExt where
  "net_ext_init = \<lparr>ext_qos = QOS_DEFAULT, ext_tstamp = None\<rparr>"

record ResponseFinal = NetExt +
  rf_rid :: u32

definition net_n_exts :: "'a NetExt_scheme \<Rightarrow> nat" where
  "net_n_exts x = of_bool (ext_qos x \<noteq> QOS_DEFAULT) + of_bool (ext_tstamp x \<noteq> None)"

definition net_exts :: "'a NetExt_scheme \<Rightarrow> (bool \<Rightarrow> bytes option) list" where
  "net_exts x =
     when_ext (ext_qos x \<noteq> QOS_DEFAULT) (write_qos_ext net_QoS (ext_qos x)) @
     opt_ext (write_tstamp_ext net_Timestamp) (ext_tstamp x)"

definition write_response_final :: "ResponseFinal enc" where
  "write_response_final x = wcat
     [write_u8 (set_if (net_n_exts x \<noteq> 0) flag7 id_RESPONSE_FINAL),
      write_uint (rf_rid x),
      write_exts (net_n_exts x) (net_exts x)]"

definition net_ext_step :: "(bytes \<Rightarrow> bytes option) \<Rightarrow> u8 \<Rightarrow> NetExt \<Rightarrow> (NetExt \<times> bool) rd" where
  "net_ext_step idf h s bs =
     (if eid h = net_QoS then
        do { (vm, bs) \<leftarrow> read_qos_ext net_QoS h bs; Some ((s\<lparr>ext_qos := fst vm\<rparr>, snd vm), bs) }
      else if eid h = net_Timestamp then
        do { (vm, bs) \<leftarrow> read_tstamp_ext idf net_Timestamp h bs; Some ((s\<lparr>ext_tstamp := Some (fst vm)\<rparr>, snd vm), bs) }
      else do { (m, bs) \<leftarrow> ext_skip h bs; Some ((s, m), bs) })"

definition read_response_final :: "(bytes \<Rightarrow> bytes option) \<Rightarrow> u8 \<Rightarrow> ResponseFinal rd" where
  "read_response_final idf header bs =
     (if mid header \<noteq> id_RESPONSE_FINAL then None
      else do {
        (rid, bs) \<leftarrow> read_zint U32_MAX bs;
        (s, bs) \<leftarrow> read_exts (net_ext_step idf) (has_flag header flag7) net_ext_init bs;
        Some (\<lparr>ext_qos = ext_qos s, ext_tstamp = ext_tstamp s, rf_rid = rid\<rparr>, bs) })"

definition net_ok :: "(bytes \<Rightarrow> bytes option) \<Rightarrow> 'a NetExt_scheme \<Rightarrow> bool" where
  "net_ok idf x \<longleftrightarrow> pred_option (timestamp_ok idf) (ext_tstamp x)"

definition net_upds :: "'a NetExt_scheme \<Rightarrow> (NetExt \<Rightarrow> NetExt) list" where
  "net_upds x =
     when_f (ext_qos x \<noteq> QOS_DEFAULT) (\<lambda>s. s\<lparr>ext_qos := ext_qos x\<rparr>) @
     opt_f (\<lambda>v s. s\<lparr>ext_tstamp := Some v\<rparr>) (ext_tstamp x)"

lemma net_upds_fold:
  "fold (\<lambda>f. f) (net_upds x) s = s\<lparr>
     ext_qos := (if ext_qos x \<noteq> QOS_DEFAULT then ext_qos x else ext_qos s),
     ext_tstamp := (case ext_tstamp x of None \<Rightarrow> ext_tstamp s | Some v \<Rightarrow> Some v)\<rparr>"
  by (simp add: net_upds_def split: option.split)

lemma net_exts_ok: "net_ok idf x \<Longrightarrow> list_all2 (ext_ok (net_ext_step idf)) (net_exts x) (net_upds x)"
  unfolding net_exts_def net_upds_def
  by (intro exts_intros ext_oks)
    (auto simp: net_ok_def net_ext_step_def net_ids)

lemma shrinking_net_ext_step [rd_mono]: "shrinking (net_ext_step idf h s)"
  unfolding net_ext_step_def [abs_def] by (intro rd_mono)

lemma net_n_exts_length: "net_n_exts x = length (net_exts x)"
  by (simp add: net_n_exts_def net_exts_def)

text \<open>The locals after the loop are the extensions of the message.\<close>

lemma read_net_exts:
  assumes "net_ok idf x" "write_exts (net_n_exts x) (net_exts x) = Some c"
  shows "\<exists>s. (\<forall>r. read_exts (net_ext_step idf) (net_n_exts x \<noteq> 0) net_ext_init (c @ r) = Some (s, r)) \<and>
    ext_qos s = ext_qos x \<and> ext_tstamp s = ext_tstamp x"
  using read_write_exts [OF net_exts_ok [OF assms(1)] assms(2) net_n_exts_length]
  by (auto simp: net_upds_fold net_ext_init_def split: option.split)

lemma read_uint_bound: "write_uint (x::u32) = Some bs \<Longrightarrow> \<forall>r. read_zint U32_MAX (bs @ r) = Some (x, r)"
proof -
  assume *: "write_uint x = Some bs"
  have "U32_MAX = mask 32" by (simp add: U32_MAX_def mask_eq_exp_minus_1)
  from write_zint_None_iff [OF this, of x] unsigned_less [of x] have "write_zint U32_MAX x \<noteq> None" by simp
  then have "write_zint U32_MAX x = Some bs"
    using * by (auto simp: write_zint_def write_uint_def split: if_splits)
  then show ?thesis using zu32.rt_all by blast
qed

lemma response_final_rt:
  assumes "net_ok idf x" "write_response_final x = Some bs"
  shows "\<exists>h b. bs = h # b \<and> mid h = id_RESPONSE_FINAL \<and> (\<forall>r. read_response_final idf h (b @ r) = Some (x, r))"
proof -
  from assms(2) obtain a c where a: "write_uint (rf_rid x) = Some a"
    and c: "write_exts (net_n_exts x) (net_exts x) = Some c"
    and bs: "bs = set_if (net_n_exts x \<noteq> 0) flag7 id_RESPONSE_FINAL # a @ c"
    unfolding write_response_final_def codec_simps by auto
  from read_net_exts [OF assms(1) c] read_uint_bound [OF a] show ?thesis
    by (auto simp: bs read_response_final_def)
qed

section \<open>OAM\<close>

record Oam = NetExt +
  oam_id :: u16
  oam_body :: ZExtBody

definition oam_enc :: "ZExtBody \<Rightarrow> u8" where
  "oam_enc b = (case b of Unit \<Rightarrow> ENC_UNIT | Z64 _ \<Rightarrow> ENC_Z64 | ZBuf _ \<Rightarrow> ENC_ZBUF)"

definition write_oam_body :: "ZExtBody enc" where
  "write_oam_body b =
     (case b of Unit \<Rightarrow> Some [] | Z64 v \<Rightarrow> write_u64 v | ZBuf z \<Rightarrow> write_zbuf U64_MAX z)"

definition oam_header :: "Oam \<Rightarrow> u8" where
  "oam_header x = set_if (net_n_exts x \<noteq> 0) flag7 (id_OAM OR oam_enc (oam_body x))"

definition write_oam :: "Oam enc" where
  "write_oam x = wcat
     [write_u8 (oam_header x),
      write_uint (oam_id x),
      write_exts (net_n_exts x) (net_exts x),
      write_oam_body (oam_body x)]"

definition read_oam_body :: "u8 \<Rightarrow> ZExtBody rd" where
  "read_oam_body header bs =
     (if header AND ENC_MASK = ENC_UNIT then Some (Unit, bs)
      else if header AND ENC_MASK = ENC_Z64 then do { (v, bs) \<leftarrow> read_u64 bs; Some (Z64 v, bs) }
      else if header AND ENC_MASK = ENC_ZBUF then do { (z, bs) \<leftarrow> read_zbuf U64_MAX bs; Some (ZBuf z, bs) }
      else None)"

definition read_oam :: "(bytes \<Rightarrow> bytes option) \<Rightarrow> u8 \<Rightarrow> Oam rd" where
  "read_oam idf header bs =
     (if mid header \<noteq> id_OAM then None
      else do {
        (i, bs) \<leftarrow> read_uint bs;
        (s, bs) \<leftarrow> read_exts (net_ext_step idf) (has_flag header flag7) net_ext_init bs;
        (b, bs) \<leftarrow> read_oam_body header bs;
        Some (\<lparr>ext_qos = ext_qos s, ext_tstamp = ext_tstamp s, oam_id = i, oam_body = b\<rparr>, bs) })"

lemma enc_neq: "ENC_UNIT \<noteq> ENC_Z64" "ENC_UNIT \<noteq> ENC_ZBUF" "ENC_Z64 \<noteq> ENC_ZBUF"
  by (simp_all add: iext_consts)

lemma set_if_7_enc: "set_if b flag7 h AND ENC_MASK = h AND ENC_MASK"
  by (rule bit_word_eqI) (auto simp: bit_set_if bit_flags bit_simps ENC_MASK_def)

lemma oam_header_simps:
  "mid (oam_header x) = id_OAM" "has_flag (oam_header x) flag7 = (net_n_exts x \<noteq> 0)"
  "oam_header x AND ENC_MASK = oam_enc (oam_body x)"
proof -
  have "mid (id_OAM OR oam_enc e) = id_OAM" "\<not> has_flag (id_OAM OR oam_enc e) flag7"
    "(id_OAM OR oam_enc e) AND ENC_MASK = oam_enc e" for e
    by (cases e; simp add: oam_enc_def iext_consts id_OAM_def mid_def HEADER_MASK_def has_flag_def flag_defs)+
  then show "mid (oam_header x) = id_OAM" "has_flag (oam_header x) flag7 = (net_n_exts x \<noteq> 0)"
    "oam_header x AND ENC_MASK = oam_enc (oam_body x)"
    unfolding oam_header_def set_if_7_enc by simp_all
qed

lemma oam_body_rt:
  "write_oam_body b = Some bs \<Longrightarrow> h AND ENC_MASK = oam_enc b \<Longrightarrow> \<forall>r. read_oam_body h (bs @ r) = Some (b, r)"
  using enc_neq by (cases b) (auto simp: write_oam_body_def read_oam_body_def oam_enc_def u64.rt zbuf.rt)

lemma oam_rt:
  assumes "net_ok idf x" "write_oam x = Some bs"
  shows "\<exists>h b. bs = h # b \<and> mid h = id_OAM \<and> (\<forall>r. read_oam idf h (b @ r) = Some (x, r))"
proof -
  from assms(2) obtain a c d where a: "write_uint (oam_id x) = Some a"
    and c: "write_exts (net_n_exts x) (net_exts x) = Some c" and d: "write_oam_body (oam_body x) = Some d"
    and bs: "bs = oam_header x # a @ c @ d"
    unfolding write_oam_def codec_simps by auto
  from read_net_exts [OF assms(1) c] u16.rt_all [OF TrueI a] oam_body_rt [OF d oam_header_simps(3)] show ?thesis
    by (auto simp: bs read_oam_def oam_header_simps)
qed

section \<open>Interest\<close>

datatype InterestMode = Final | Current | Future | CurrentFuture

record NetExtNode = NetExt +
  ext_nodeid :: NodeIdType

record Interest = NetExtNode +
  i_id :: u32
  i_mode :: InterestMode
  i_options :: u8
  i_wire_expr :: "wire_expr option"

definition KEYEXPRS :: u8 where "KEYEXPRS = 1"
definition SUBSCRIBERS :: u8 where "SUBSCRIBERS = push_bit 1 1"
definition QUERYABLES :: u8 where "QUERYABLES = push_bit 2 1"
definition TOKENS :: u8 where "TOKENS = push_bit 3 1"
definition RESTRICTED :: u8 where "RESTRICTED = push_bit 4 1"
definition NAMED :: u8 where "NAMED = push_bit 5 1"
definition MAPPING :: u8 where "MAPPING = push_bit 6 1"
definition AGGREGATE :: u8 where "AGGREGATE = push_bit 7 1"

lemmas interest_flags = KEYEXPRS_def SUBSCRIBERS_def QUERYABLES_def TOKENS_def RESTRICTED_def NAMED_def
  MAPPING_def AGGREGATE_def

text \<open>The equality of \<open>InterestOptions\<close>: the options computed from the message are left out.\<close>

definition interest_options_eq :: "u8 \<Rightarrow> u8 \<Rightarrow> bool" where
  "interest_options_eq a b \<longleftrightarrow> has_flag a KEYEXPRS = has_flag b KEYEXPRS \<and>
     has_flag a SUBSCRIBERS = has_flag b SUBSCRIBERS \<and> has_flag a QUERYABLES = has_flag b QUERYABLES \<and>
     has_flag a TOKENS = has_flag b TOKENS \<and> has_flag a AGGREGATE = has_flag b AGGREGATE"

definition interest_options :: "Interest \<Rightarrow> u8" where
  "interest_options x =
     (let i = i_options x in
      case i_wire_expr x of
        Some we \<Rightarrow>
          (let i = i OR RESTRICTED;
               i = (if has_suffix we then i OR NAMED else i AND NOT NAMED)
           in if we_mapping we = Sender then i OR MAPPING else i AND NOT MAPPING)
      | None \<Rightarrow> i AND NOT RESTRICTED)"

fun interest_mode_u8 :: "InterestMode \<Rightarrow> u8" where
  "interest_mode_u8 Final = 0"
| "interest_mode_u8 Current = 1"
| "interest_mode_u8 Future = 2"
| "interest_mode_u8 CurrentFuture = 3"

definition node_n_exts :: "'a NetExtNode_scheme \<Rightarrow> nat" where
  "node_n_exts x = of_bool (ext_qos x \<noteq> QOS_DEFAULT) + of_bool (ext_tstamp x \<noteq> None) +
     of_bool (ext_nodeid x \<noteq> NODE_DEFAULT)"

definition node_exts :: "'a NetExtNode_scheme \<Rightarrow> (bool \<Rightarrow> bytes option) list" where
  "node_exts x =
     when_ext (ext_qos x \<noteq> QOS_DEFAULT) (write_qos_ext net_QoS (ext_qos x)) @
     opt_ext (write_tstamp_ext net_Timestamp) (ext_tstamp x) @
     when_ext (ext_nodeid x \<noteq> NODE_DEFAULT) (write_nodeid_ext net_NodeId (ext_nodeid x))"

definition node_ext_init :: NetExtNode where
  "node_ext_init = \<lparr>ext_qos = QOS_DEFAULT, ext_tstamp = None, ext_nodeid = NODE_DEFAULT\<rparr>"

definition node_ext_step :: "(bytes \<Rightarrow> bytes option) \<Rightarrow> u8 \<Rightarrow> NetExtNode \<Rightarrow> (NetExtNode \<times> bool) rd" where
  "node_ext_step idf h s bs =
     (if eid h = net_QoS then
        do { (vm, bs) \<leftarrow> read_qos_ext net_QoS h bs; Some ((s\<lparr>ext_qos := fst vm\<rparr>, snd vm), bs) }
      else if eid h = net_Timestamp then
        do { (vm, bs) \<leftarrow> read_tstamp_ext idf net_Timestamp h bs; Some ((s\<lparr>ext_tstamp := Some (fst vm)\<rparr>, snd vm), bs) }
      else if eid h = net_NodeId then
        do { (vm, bs) \<leftarrow> read_nodeid_ext net_NodeId h bs; Some ((s\<lparr>ext_nodeid := fst vm\<rparr>, snd vm), bs) }
      else do { (m, bs) \<leftarrow> ext_skip h bs; Some ((s, m), bs) })"

definition interest_header :: "Interest \<Rightarrow> u8" where
  "interest_header x =
     set_if (node_n_exts x \<noteq> 0) flag7 (id_INTEREST OR push_bit 5 (interest_mode_u8 (i_mode x)))"

definition write_interest :: "Interest enc" where
  "write_interest x = wcat
     [write_u8 (interest_header x),
      write_uint (i_id x),
      wr_when (i_mode x \<noteq> Final)
        (wcat [write_u8 (interest_options x), wr_opt write_wire_expr (i_wire_expr x)]),
      write_exts (node_n_exts x) (node_exts x)]"

definition read_interest_mode :: "u8 \<Rightarrow> InterestMode option" where
  "read_interest_mode header =
     (let v = drop_bit 5 header AND 3 in
      if v = 0 then Some Final else if v = 1 then Some Current
      else if v = 2 then Some Future else if v = 3 then Some CurrentFuture else None)"

definition read_interest_we :: "u8 \<Rightarrow> wire_expr rd" where
  "read_interest_we options bs =
     do { (we, bs) \<leftarrow> read_wire_expr (has_flag options NAMED) bs;
          Some (we\<lparr>we_mapping := (if has_flag options MAPPING then Sender else Receiver)\<rparr>, bs) }"

definition read_interest_target :: "(u8 \<times> wire_expr option) rd" where
  "read_interest_target bs =
     do { (options, bs) \<leftarrow> read_u8 bs;
          (we, bs) \<leftarrow> rd_opt (has_flag options RESTRICTED) (read_interest_we options) bs;
          Some ((options, we), bs) }"

definition read_interest :: "(bytes \<Rightarrow> bytes option) \<Rightarrow> u8 \<Rightarrow> Interest rd" where
  "read_interest idf header bs =
     (if mid header \<noteq> id_INTEREST then None
      else do {
        (i, bs) \<leftarrow> read_uint bs;
        mode \<leftarrow> read_interest_mode header;
        (t, bs) \<leftarrow> rd_when (mode \<noteq> Final) (0, None) read_interest_target bs;
        (s, bs) \<leftarrow> read_exts (node_ext_step idf) (has_flag header flag7) node_ext_init bs;
        Some (\<lparr>ext_qos = ext_qos s, ext_tstamp = ext_tstamp s, ext_nodeid = ext_nodeid s, i_id = i, i_mode = mode,
               i_options = fst t, i_wire_expr = snd t\<rparr>, bs) })"

definition node_ok :: "(bytes \<Rightarrow> bytes option) \<Rightarrow> 'a NetExtNode_scheme \<Rightarrow> bool" where
  "node_ok idf x \<longleftrightarrow> pred_option (timestamp_ok idf) (ext_tstamp x)"

definition interest_ok :: "(bytes \<Rightarrow> bytes option) \<Rightarrow> Interest \<Rightarrow> bool" where
  "interest_ok idf x \<longleftrightarrow> node_ok idf x \<and> pred_option wire_expr_ok (i_wire_expr x)"

text \<open>What the receiver sees: the options as computed, nothing of them for a final interest.\<close>

definition interest_wire :: "Interest \<Rightarrow> Interest" where
  "interest_wire x =
     (if i_mode x = Final then x\<lparr>i_options := 0, i_wire_expr := None\<rparr>
      else x\<lparr>i_options := interest_options x\<rparr>)"

definition node_upds :: "'a NetExtNode_scheme \<Rightarrow> (NetExtNode \<Rightarrow> NetExtNode) list" where
  "node_upds x =
     when_f (ext_qos x \<noteq> QOS_DEFAULT) (\<lambda>s. s\<lparr>ext_qos := ext_qos x\<rparr>) @
     opt_f (\<lambda>v s. s\<lparr>ext_tstamp := Some v\<rparr>) (ext_tstamp x) @
     when_f (ext_nodeid x \<noteq> NODE_DEFAULT) (\<lambda>s. s\<lparr>ext_nodeid := ext_nodeid x\<rparr>)"

lemma node_upds_fold:
  "fold (\<lambda>f. f) (node_upds x) s = s\<lparr>
     ext_qos := (if ext_qos x \<noteq> QOS_DEFAULT then ext_qos x else ext_qos s),
     ext_tstamp := (case ext_tstamp x of None \<Rightarrow> ext_tstamp s | Some v \<Rightarrow> Some v),
     ext_nodeid := (if ext_nodeid x \<noteq> NODE_DEFAULT then ext_nodeid x else ext_nodeid s)\<rparr>"
  by (simp add: node_upds_def split: option.split)

lemma node_exts_ok: "node_ok idf x \<Longrightarrow> list_all2 (ext_ok (node_ext_step idf)) (node_exts x) (node_upds x)"
  unfolding node_exts_def node_upds_def
  by (intro exts_intros ext_oks)
    (auto simp: node_ok_def node_ext_step_def net_ids)

lemma shrinking_node_ext_step [rd_mono]: "shrinking (node_ext_step idf h s)"
  unfolding node_ext_step_def [abs_def] by (intro rd_mono)

lemma node_n_exts_length: "node_n_exts x = length (node_exts x)"
  by (simp add: node_n_exts_def node_exts_def)

lemma read_node_exts:
  assumes "node_ok idf x" "write_exts (node_n_exts x) (node_exts x) = Some c"
  shows "\<exists>s. (\<forall>r. read_exts (node_ext_step idf) (node_n_exts x \<noteq> 0) node_ext_init (c @ r) = Some (s, r)) \<and>
    ext_qos s = ext_qos x \<and> ext_tstamp s = ext_tstamp x \<and> ext_nodeid s = ext_nodeid x"
  using read_write_exts [OF node_exts_ok [OF assms(1)] assms(2) node_n_exts_length]
  by (auto simp: node_upds_fold node_ext_init_def split: option.split)

lemma interest_header_simps:
  "mid (interest_header x) = id_INTEREST" "has_flag (interest_header x) flag7 = (node_n_exts x \<noteq> 0)"
  "read_interest_mode (interest_header x) = Some (i_mode x)"
proof -
  have "mid (id_INTEREST OR push_bit 5 (interest_mode_u8 m)) = id_INTEREST"
    "\<not> has_flag (id_INTEREST OR push_bit 5 (interest_mode_u8 m)) flag7" for m
    by (cases m; simp add: id_INTEREST_def mid_def HEADER_MASK_def has_flag_def flag_defs)+
  then show "mid (interest_header x) = id_INTEREST" "has_flag (interest_header x) flag7 = (node_n_exts x \<noteq> 0)"
    unfolding interest_header_def by simp_all
  have "read_interest_mode (set_if b flag7 (id_INTEREST OR push_bit 5 (interest_mode_u8 m))) = Some m" for b m
    by (cases b; cases m) (simp_all add: set_if_def flag_defs id_INTEREST_def read_interest_mode_def)
  then show "read_interest_mode (interest_header x) = Some (i_mode x)" unfolding interest_header_def by blast
qed

lemma interest_flags_push:
  "KEYEXPRS = push_bit 0 1" "SUBSCRIBERS = push_bit 1 1" "QUERYABLES = push_bit 2 1" "TOKENS = push_bit 3 1"
  "RESTRICTED = push_bit 4 1" "NAMED = push_bit 5 1" "MAPPING = push_bit 6 1" "AGGREGATE = push_bit 7 1"
  by (simp_all add: interest_flags)

lemma has_flag_interest:
  "has_flag a KEYEXPRS = bit a 0" "has_flag a SUBSCRIBERS = bit a 1" "has_flag a QUERYABLES = bit a 2"
  "has_flag a TOKENS = bit a 3" "has_flag a RESTRICTED = bit a 4" "has_flag a NAMED = bit a 5"
  "has_flag a MAPPING = bit a 6" "has_flag a AGGREGATE = bit a 7"
  unfolding interest_flags_push by (rule has_flag_push; simp)+

lemma bit_interest_flags:
  "bit KEYEXPRS n \<longleftrightarrow> n = 0" "bit SUBSCRIBERS n \<longleftrightarrow> n = 1" "bit QUERYABLES n \<longleftrightarrow> n = 2"
  "bit TOKENS n \<longleftrightarrow> n = 3" "bit RESTRICTED n \<longleftrightarrow> n = 4" "bit NAMED n \<longleftrightarrow> n = 5"
  "bit MAPPING n \<longleftrightarrow> n = 6" "bit AGGREGATE n \<longleftrightarrow> n = 7"
  unfolding interest_flags_push bit_push_1_u8 by auto

lemma interest_options_flags:
  "has_flag (interest_options x) RESTRICTED \<longleftrightarrow> i_wire_expr x \<noteq> None"
  "i_wire_expr x = Some we \<Longrightarrow> has_flag (interest_options x) NAMED = has_suffix we"
  "i_wire_expr x = Some we \<Longrightarrow> has_flag (interest_options x) MAPPING = (we_mapping we = Sender)"
  "interest_options_eq (interest_options x) (i_options x)"
  unfolding interest_options_eq_def has_flag_interest
  by (auto simp: interest_options_def Let_def bit_simps bit_interest_flags split: option.split)

lemma interest_target_rt:
  assumes "pred_option wire_expr_ok (i_wire_expr x)"
    "wcat [write_u8 (interest_options x), wr_opt write_wire_expr (i_wire_expr x)] = Some b"
  shows "\<forall>r. read_interest_target (b @ r) = Some ((interest_options x, i_wire_expr x), r)"
proof -
  from assms(2) obtain c where c: "wr_opt write_wire_expr (i_wire_expr x) = Some c" "b = interest_options x # c"
    by (auto simp: codec_simps)
  have "\<forall>r. rd_opt (i_wire_expr x \<noteq> None) (read_interest_we (interest_options x)) (c @ r) = Some (i_wire_expr x, r)"
  proof (rule rd_opt_rt [OF c(1)])
    fix we assume "i_wire_expr x = Some we" "write_wire_expr we = Some c"
    with read_wire_expr_rt [of we c] assms(1) interest_options_flags(2,3) [of x we]
    show "\<forall>r. read_interest_we (interest_options x) (c @ r) = Some (we, r)"
      by (cases "we_mapping we") (auto simp: read_interest_we_def)
  qed
  then show ?thesis by (simp add: read_interest_target_def interest_options_flags(1) c(2))
qed

lemma interest_rt:
  assumes "interest_ok idf x" "write_interest x = Some bs"
  shows "\<exists>h b. bs = h # b \<and> mid h = id_INTEREST \<and> (\<forall>r. read_interest idf h (b @ r) = Some (interest_wire x, r))"
proof -
  from assms(2) obtain a b c where a: "write_uint (i_id x) = Some a"
    and b: "wr_when (i_mode x \<noteq> Final) (wcat [write_u8 (interest_options x), wr_opt write_wire_expr (i_wire_expr x)]) = Some b"
    and c: "write_exts (node_n_exts x) (node_exts x) = Some c"
    and bs: "bs = interest_header x # a @ b @ c"
    unfolding write_interest_def codec_simps by auto
  from assms(1) have ok: "node_ok idf x" "pred_option wire_expr_ok (i_wire_expr x)" by (simp_all add: interest_ok_def)
  have t: "\<forall>r. rd_when (i_mode x \<noteq> Final) (0, None) read_interest_target (b @ r) =
      Some ((i_options (interest_wire x), i_wire_expr (interest_wire x)), r)"
    using b interest_target_rt [OF ok(2)]
    by (auto simp: rd_when_def wr_when_def interest_wire_def split: if_splits)
  from read_node_exts [OF ok(1) c] t u32.rt_all [OF TrueI a] show ?thesis
    by (auto simp: bs read_interest_def interest_header_simps interest_wire_def)
qed

section \<open>Push\<close>

record PushExt = NetExtNode +
  ext_ts_stack :: "TimestampStack option"

record Push = PushExt +
  push_wire_expr :: wire_expr
  push_payload :: PushBody

definition push_n_exts :: "'a PushExt_scheme \<Rightarrow> nat" where
  "push_n_exts x = of_bool (ext_qos x \<noteq> QOS_DEFAULT) + of_bool (ext_tstamp x \<noteq> None) +
     of_bool (ext_nodeid x \<noteq> NODE_DEFAULT) + of_bool (ext_ts_stack x \<noteq> None)"

definition push_header :: "Push \<Rightarrow> u8" where
  "push_header x = we_flags (push_wire_expr x) (set_if (push_n_exts x \<noteq> 0) flag7 id_PUSH)"

definition push_exts :: "'a PushExt_scheme \<Rightarrow> (bool \<Rightarrow> bytes option) list" where
  "push_exts x =
     when_ext (ext_qos x \<noteq> QOS_DEFAULT) (write_qos_ext net_QoS (ext_qos x)) @
     opt_ext (write_tstamp_ext net_Timestamp) (ext_tstamp x) @
     when_ext (ext_nodeid x \<noteq> NODE_DEFAULT) (write_nodeid_ext net_NodeId (ext_nodeid x)) @
     opt_ext (write_ts_stack_ext net_TsStack) (ext_ts_stack x)"

definition write_push :: "Push enc" where
  "write_push x = wcat
     [write_u8 (push_header x),
      write_wire_expr (push_wire_expr x),
      write_exts (push_n_exts x) (push_exts x),
      write_push_body (push_payload x)]"

definition push_ext_init :: PushExt where
  "push_ext_init = \<lparr>ext_qos = QOS_DEFAULT, ext_tstamp = None, ext_nodeid = NODE_DEFAULT, ext_ts_stack = None\<rparr>"

definition push_ext_step :: "(bytes \<Rightarrow> bytes option) \<Rightarrow> u8 \<Rightarrow> PushExt \<Rightarrow> (PushExt \<times> bool) rd" where
  "push_ext_step idf h s bs =
     (if eid h = net_QoS then
        do { (vm, bs) \<leftarrow> read_qos_ext net_QoS h bs; Some ((s\<lparr>ext_qos := fst vm\<rparr>, snd vm), bs) }
      else if eid h = net_Timestamp then
        do { (vm, bs) \<leftarrow> read_tstamp_ext idf net_Timestamp h bs; Some ((s\<lparr>ext_tstamp := Some (fst vm)\<rparr>, snd vm), bs) }
      else if eid h = net_NodeId then
        do { (vm, bs) \<leftarrow> read_nodeid_ext net_NodeId h bs; Some ((s\<lparr>ext_nodeid := fst vm\<rparr>, snd vm), bs) }
      else if eid h = net_TsStack then
        do { (vm, bs) \<leftarrow> read_ts_stack_ext net_TsStack h bs; Some ((s\<lparr>ext_ts_stack := Some (fst vm)\<rparr>, snd vm), bs) }
      else do { (m, bs) \<leftarrow> ext_skip h bs; Some ((s, m), bs) })"

definition read_push :: "(bytes \<Rightarrow> bytes option) \<Rightarrow> u8 \<Rightarrow> Push rd" where
  "read_push idf header bs =
     (if mid header \<noteq> id_PUSH then None
      else do {
        (we, bs) \<leftarrow> read_we header bs;
        (s, bs) \<leftarrow> read_exts (push_ext_step idf) (has_flag header flag7) push_ext_init bs;
        (p, bs) \<leftarrow> read_push_body idf bs;
        Some (\<lparr>ext_qos = ext_qos s, ext_tstamp = ext_tstamp s, ext_nodeid = ext_nodeid s,
               ext_ts_stack = ext_ts_stack s, push_wire_expr = we, push_payload = p\<rparr>, bs) })"

definition push_ok :: "(bytes \<Rightarrow> bytes option) \<Rightarrow> Push \<Rightarrow> bool" where
  "push_ok idf x \<longleftrightarrow> pred_option (timestamp_ok idf) (ext_tstamp x) \<and> pred_option ts_stack_ok (ext_ts_stack x) \<and>
     wire_expr_ok (push_wire_expr x) \<and> push_body_ok idf (push_payload x)"

definition push_upds :: "Push \<Rightarrow> (PushExt \<Rightarrow> PushExt) list" where
  "push_upds x =
     when_f (ext_qos x \<noteq> QOS_DEFAULT) (\<lambda>s. s\<lparr>ext_qos := ext_qos x\<rparr>) @
     opt_f (\<lambda>v s. s\<lparr>ext_tstamp := Some v\<rparr>) (ext_tstamp x) @
     when_f (ext_nodeid x \<noteq> NODE_DEFAULT) (\<lambda>s. s\<lparr>ext_nodeid := ext_nodeid x\<rparr>) @
     opt_f (\<lambda>v s. s\<lparr>ext_ts_stack := Some v\<rparr>) (ext_ts_stack x)"

lemma push_upds_fold:
  "fold (\<lambda>f. f) (push_upds x) s = s\<lparr>
     ext_qos := (if ext_qos x \<noteq> QOS_DEFAULT then ext_qos x else ext_qos s),
     ext_tstamp := (case ext_tstamp x of None \<Rightarrow> ext_tstamp s | Some v \<Rightarrow> Some v),
     ext_nodeid := (if ext_nodeid x \<noteq> NODE_DEFAULT then ext_nodeid x else ext_nodeid s),
     ext_ts_stack := (case ext_ts_stack x of None \<Rightarrow> ext_ts_stack s | Some v \<Rightarrow> Some v)\<rparr>"
  by (simp add: push_upds_def split: option.split)

lemma push_exts_ok: "push_ok idf x \<Longrightarrow> list_all2 (ext_ok (push_ext_step idf)) (push_exts x) (push_upds x)"
  unfolding push_exts_def push_upds_def
  by (intro exts_intros ext_oks)
    (auto simp: push_ok_def push_ext_step_def net_ids)

lemma shrinking_push_ext_step [rd_mono]: "shrinking (push_ext_step idf h s)"
  unfolding push_ext_step_def [abs_def] by (intro rd_mono)

lemma push_rt:
  assumes "push_ok idf x" "write_push x = Some bs"
  shows "\<exists>h b. bs = h # b \<and> mid h = id_PUSH \<and> (\<forall>r. read_push idf h (b @ r) = Some (x, r))"
proof -
  from assms(2) obtain a c d where a: "write_wire_expr (push_wire_expr x) = Some a"
    and c: "write_exts (push_n_exts x) (push_exts x) = Some c"
    and d: "write_push_body (push_payload x) = Some d" and bs: "bs = push_header x # a @ c @ d"
    unfolding write_push_def codec_simps by auto
  from assms(1) have ok: "wire_expr_ok (push_wire_expr x)" "push_body_ok idf (push_payload x)"
    by (simp_all add: push_ok_def)
  have "push_n_exts x = length (push_exts x)" by (simp add: push_n_exts_def push_exts_def)
  note e = read_write_exts [OF push_exts_ok [OF assms(1)] c this]
  have w: "\<forall>r. read_we (push_header x) (a @ r) = Some (push_wire_expr x, r)"
    by (rule read_we_rt [OF ok(1) a]) (simp_all add: push_header_def)
  have "has_flag (push_header x) flag7 \<longleftrightarrow> push_n_exts x \<noteq> 0" "mid (push_header x) = id_PUSH"
    by (simp_all add: push_header_def)
  with w e push_body.rt_all [OF ok(2) d] show ?thesis
    by (auto simp: bs read_push_def push_upds_fold push_ext_init_def split: option.split)
qed

section \<open>Request\<close>

datatype QueryTarget = BestMatching | All | AllComplete

definition TARGET_DEFAULT :: QueryTarget where "TARGET_DEFAULT = BestMatching"

fun target_u64 :: "QueryTarget \<Rightarrow> u64" where
  "target_u64 BestMatching = 0"
| "target_u64 All = 1"
| "target_u64 AllComplete = 2"

definition write_target_ext :: "u8 \<Rightarrow> QueryTarget \<Rightarrow> bool \<Rightarrow> bytes option" where
  "write_target_ext i t m = write_ext_z64 i (target_u64 t) m"

definition read_target_ext :: "u8 \<Rightarrow> u8 \<Rightarrow> (QueryTarget \<times> bool) rd" where
  "read_target_ext i h bs =
     do { (vm, bs) \<leftarrow> read_ext_z64 i h bs;
          t \<leftarrow> (if fst vm = 0 then Some BestMatching else if fst vm = 1 then Some All
               else if fst vm = 2 then Some AllComplete else None);
          Some ((t, snd vm), bs) }"

text \<open>The budget is a \<open>NonZeroU32\<close>.  The timeout is a \<open>Duration\<close>, here its number of nanoseconds,
  that is sent as a number of milliseconds truncated to 64 bits.\<close>

definition write_budget_ext :: "u8 \<Rightarrow> u32 \<Rightarrow> bool \<Rightarrow> bytes option" where
  "write_budget_ext i l m = write_ext_z64 i (ucast l) m"

definition read_budget_ext :: "u8 \<Rightarrow> u8 \<Rightarrow> (u32 option \<times> bool) rd" where
  "read_budget_ext i h bs =
     do { (vm, bs) \<leftarrow> read_ext_z64 i h bs;
          let l = (ucast (fst vm) :: u32) in Some ((if l = 0 then None else Some l, snd vm), bs) }"

definition as_millis :: "nat \<Rightarrow> nat" where "as_millis ns = ns div 1000000"
definition from_millis :: "u64 \<Rightarrow> nat" where "from_millis ms = unat ms * 1000000"

definition write_timeout_ext :: "u8 \<Rightarrow> nat \<Rightarrow> bool \<Rightarrow> bytes option" where
  "write_timeout_ext i t m = write_ext_z64 i (of_nat (as_millis t)) m"

definition read_timeout_ext :: "u8 \<Rightarrow> u8 \<Rightarrow> (nat \<times> bool) rd" where
  "read_timeout_ext i h bs =
     do { (vm, bs) \<leftarrow> read_ext_z64 i h bs; Some ((from_millis (fst vm), snd vm), bs) }"

definition timeout_ok :: "nat \<Rightarrow> bool" where
  "timeout_ok t \<longleftrightarrow> t mod 1000000 = 0 \<and> as_millis t < 2 ^ 64"

record RequestExt = PushExt +
  ext_target :: QueryTarget
  ext_budget :: "u32 option"
  ext_timeout :: "nat option"

record Request = RequestExt +
  req_id :: u32
  req_wire_expr :: wire_expr
  req_payload :: RequestBody

definition request_n_exts :: "'a RequestExt_scheme \<Rightarrow> nat" where
  "request_n_exts x = of_bool (ext_qos x \<noteq> QOS_DEFAULT) + of_bool (ext_tstamp x \<noteq> None) +
     of_bool (ext_target x \<noteq> TARGET_DEFAULT) + of_bool (ext_budget x \<noteq> None) + of_bool (ext_timeout x \<noteq> None) +
     of_bool (ext_nodeid x \<noteq> NODE_DEFAULT) + of_bool (ext_ts_stack x \<noteq> None)"

definition request_header :: "Request \<Rightarrow> u8" where
  "request_header x = we_flags (req_wire_expr x) (set_if (request_n_exts x \<noteq> 0) flag7 id_REQUEST)"

definition request_exts :: "'a RequestExt_scheme \<Rightarrow> (bool \<Rightarrow> bytes option) list" where
  "request_exts x =
     when_ext (ext_qos x \<noteq> QOS_DEFAULT) (write_qos_ext net_QoS (ext_qos x)) @
     opt_ext (write_tstamp_ext net_Timestamp) (ext_tstamp x) @
     when_ext (ext_target x \<noteq> TARGET_DEFAULT) (write_target_ext req_Target (ext_target x)) @
     opt_ext (write_budget_ext req_Budget) (ext_budget x) @
     opt_ext (write_timeout_ext req_Timeout) (ext_timeout x) @
     when_ext (ext_nodeid x \<noteq> NODE_DEFAULT) (write_nodeid_ext net_NodeId (ext_nodeid x)) @
     opt_ext (write_ts_stack_ext net_TsStack) (ext_ts_stack x)"

definition write_request :: "Request enc" where
  "write_request x = wcat
     [write_u8 (request_header x),
      write_uint (req_id x),
      write_wire_expr (req_wire_expr x),
      write_exts (request_n_exts x) (request_exts x),
      write_request_body (req_payload x)]"

definition request_ext_init :: RequestExt where
  "request_ext_init = \<lparr>ext_qos = QOS_DEFAULT, ext_tstamp = None, ext_nodeid = NODE_DEFAULT, ext_ts_stack = None,
     ext_target = TARGET_DEFAULT, ext_budget = None, ext_timeout = None\<rparr>"

definition request_ext_step :: "(bytes \<Rightarrow> bytes option) \<Rightarrow> u8 \<Rightarrow> RequestExt \<Rightarrow> (RequestExt \<times> bool) rd" where
  "request_ext_step idf h s bs =
     (if eid h = net_QoS then
        do { (vm, bs) \<leftarrow> read_qos_ext net_QoS h bs; Some ((s\<lparr>ext_qos := fst vm\<rparr>, snd vm), bs) }
      else if eid h = net_Timestamp then
        do { (vm, bs) \<leftarrow> read_tstamp_ext idf net_Timestamp h bs; Some ((s\<lparr>ext_tstamp := Some (fst vm)\<rparr>, snd vm), bs) }
      else if eid h = net_NodeId then
        do { (vm, bs) \<leftarrow> read_nodeid_ext net_NodeId h bs; Some ((s\<lparr>ext_nodeid := fst vm\<rparr>, snd vm), bs) }
      else if eid h = req_Target then
        do { (vm, bs) \<leftarrow> read_target_ext req_Target h bs; Some ((s\<lparr>ext_target := fst vm\<rparr>, snd vm), bs) }
      else if eid h = req_Budget then
        do { (vm, bs) \<leftarrow> read_budget_ext req_Budget h bs; Some ((s\<lparr>ext_budget := fst vm\<rparr>, snd vm), bs) }
      else if eid h = req_Timeout then
        do { (vm, bs) \<leftarrow> read_timeout_ext req_Timeout h bs; Some ((s\<lparr>ext_timeout := Some (fst vm)\<rparr>, snd vm), bs) }
      else if eid h = net_TsStack then
        do { (vm, bs) \<leftarrow> read_ts_stack_ext net_TsStack h bs; Some ((s\<lparr>ext_ts_stack := Some (fst vm)\<rparr>, snd vm), bs) }
      else do { (m, bs) \<leftarrow> ext_skip h bs; Some ((s, m), bs) })"

definition read_request :: "(bytes \<Rightarrow> bytes option) \<Rightarrow> u8 \<Rightarrow> Request rd" where
  "read_request idf header bs =
     (if mid header \<noteq> id_REQUEST then None
      else do {
        (i, bs) \<leftarrow> read_zint U32_MAX bs;
        (we, bs) \<leftarrow> read_we header bs;
        (s, bs) \<leftarrow> read_exts (request_ext_step idf) (has_flag header flag7) request_ext_init bs;
        (p, bs) \<leftarrow> read_request_body idf bs;
        Some (\<lparr>ext_qos = ext_qos s, ext_tstamp = ext_tstamp s, ext_nodeid = ext_nodeid s,
               ext_ts_stack = ext_ts_stack s, ext_target = ext_target s, ext_budget = ext_budget s,
               ext_timeout = ext_timeout s, req_id = i, req_wire_expr = we, req_payload = p\<rparr>, bs) })"

definition request_ok :: "(bytes \<Rightarrow> bytes option) \<Rightarrow> Request \<Rightarrow> bool" where
  "request_ok idf x \<longleftrightarrow> pred_option (timestamp_ok idf) (ext_tstamp x) \<and> pred_option ts_stack_ok (ext_ts_stack x) \<and>
     ext_budget x \<noteq> Some 0 \<and> pred_option timeout_ok (ext_timeout x) \<and>
     wire_expr_ok (req_wire_expr x) \<and> request_body_ok idf (req_payload x)"

lemma target_ext_rt:
  assumes "ext_id_ok i" "write_target_ext i t m = Some bs"
  shows "\<exists>h b. bs = h # b \<and> eid h = i \<and> (\<forall>r. read_target_ext i h (b @ r) = Some ((t, m), r))"
  using ext_z64_rt [OF assms(1), of "target_u64 t" m bs] assms(2)
  by (cases t) (auto simp: write_target_ext_def read_target_ext_def)

lemma budget_ext_rt:
  assumes "ext_id_ok i" "l \<noteq> 0" "write_budget_ext i l m = Some bs"
  shows "\<exists>h b. bs = h # b \<and> eid h = i \<and> (\<forall>r. read_budget_ext i h (b @ r) = Some ((Some l, m), r))"
  using ext_z64_rt [OF assms(1), of "ucast l" m bs] assms(2,3)
  by (auto simp: write_budget_ext_def read_budget_ext_def Let_def ucast_ucast_id)

lemma timeout_ext_rt:
  assumes "ext_id_ok i" "timeout_ok t" "write_timeout_ext i t m = Some bs"
  shows "\<exists>h b. bs = h # b \<and> eid h = i \<and> (\<forall>r. read_timeout_ext i h (b @ r) = Some ((t, m), r))"
proof -
  have "from_millis (of_nat (as_millis t)) = t"
    using assms(2) by (auto simp: from_millis_def timeout_ok_def as_millis_def unat_of_nat take_bit_nat_eq_self)
  with ext_z64_rt [OF assms(1), of "of_nat (as_millis t)" m bs] assms(3) show ?thesis
    by (auto simp: write_timeout_ext_def read_timeout_ext_def)
qed

lemma ext_ok_target [ext_oks]:
  assumes "ext_id_ok i"
    and "\<And>h s bs m r. eid h = i \<Longrightarrow> read_target_ext i h bs = Some ((v, m), r) \<Longrightarrow> step h s bs = Some ((f s, m), r)"
  shows "ext_ok step (write_target_ext i v) f"
  by (rule ext_ok_readI [where rd = "read_target_ext i"], erule target_ext_rt [OF assms(1)], rule assms(2))

lemma ext_ok_budget [ext_oks]:
  assumes "ext_id_ok i" "v \<noteq> 0"
    and "\<And>h s bs m r. eid h = i \<Longrightarrow> read_budget_ext i h bs = Some ((Some v, m), r) \<Longrightarrow> step h s bs = Some ((f s, m), r)"
  shows "ext_ok step (write_budget_ext i v) f"
  by (rule ext_ok_readI [where rd = "read_budget_ext i"], erule budget_ext_rt [OF assms(1,2)], rule assms(3))

lemma ext_ok_timeout [ext_oks]:
  assumes "ext_id_ok i" "timeout_ok v"
    and "\<And>h s bs m r. eid h = i \<Longrightarrow> read_timeout_ext i h bs = Some ((v, m), r) \<Longrightarrow> step h s bs = Some ((f s, m), r)"
  shows "ext_ok step (write_timeout_ext i v) f"
  by (rule ext_ok_readI [where rd = "read_timeout_ext i"], erule timeout_ext_rt [OF assms(1,2)], rule assms(3))

lemma shrinking_target_ext [rd_mono]: "shrinking (read_target_ext i h)"
  unfolding read_target_ext_def [abs_def] by (intro rd_mono)

lemma shrinking_budget_ext [rd_mono]: "shrinking (read_budget_ext i h)"
  unfolding read_budget_ext_def [abs_def] Let_def by (intro rd_mono)

lemma shrinking_timeout_ext [rd_mono]: "shrinking (read_timeout_ext i h)"
  unfolding read_timeout_ext_def [abs_def] by (intro rd_mono)

definition request_upds :: "Request \<Rightarrow> (RequestExt \<Rightarrow> RequestExt) list" where
  "request_upds x =
     when_f (ext_qos x \<noteq> QOS_DEFAULT) (\<lambda>s. s\<lparr>ext_qos := ext_qos x\<rparr>) @
     opt_f (\<lambda>v s. s\<lparr>ext_tstamp := Some v\<rparr>) (ext_tstamp x) @
     when_f (ext_target x \<noteq> TARGET_DEFAULT) (\<lambda>s. s\<lparr>ext_target := ext_target x\<rparr>) @
     opt_f (\<lambda>v s. s\<lparr>ext_budget := Some v\<rparr>) (ext_budget x) @
     opt_f (\<lambda>v s. s\<lparr>ext_timeout := Some v\<rparr>) (ext_timeout x) @
     when_f (ext_nodeid x \<noteq> NODE_DEFAULT) (\<lambda>s. s\<lparr>ext_nodeid := ext_nodeid x\<rparr>) @
     opt_f (\<lambda>v s. s\<lparr>ext_ts_stack := Some v\<rparr>) (ext_ts_stack x)"

lemma request_upds_fold:
  "fold (\<lambda>f. f) (request_upds x) s = s\<lparr>
     ext_qos := (if ext_qos x \<noteq> QOS_DEFAULT then ext_qos x else ext_qos s),
     ext_tstamp := (case ext_tstamp x of None \<Rightarrow> ext_tstamp s | Some v \<Rightarrow> Some v),
     ext_target := (if ext_target x \<noteq> TARGET_DEFAULT then ext_target x else ext_target s),
     ext_budget := (case ext_budget x of None \<Rightarrow> ext_budget s | Some v \<Rightarrow> Some v),
     ext_timeout := (case ext_timeout x of None \<Rightarrow> ext_timeout s | Some v \<Rightarrow> Some v),
     ext_nodeid := (if ext_nodeid x \<noteq> NODE_DEFAULT then ext_nodeid x else ext_nodeid s),
     ext_ts_stack := (case ext_ts_stack x of None \<Rightarrow> ext_ts_stack s | Some v \<Rightarrow> Some v)\<rparr>"
  by (simp add: request_upds_def split: option.split)

lemma request_exts_ok: "request_ok idf x \<Longrightarrow> list_all2 (ext_ok (request_ext_step idf)) (request_exts x) (request_upds x)"
  unfolding request_exts_def request_upds_def
  by (intro exts_intros ext_oks)
    (auto simp: request_ok_def request_ext_step_def net_ids)

lemma shrinking_request_ext_step [rd_mono]: "shrinking (request_ext_step idf h s)"
  unfolding request_ext_step_def [abs_def] by (intro rd_mono)

lemma request_rt:
  assumes "request_ok idf x" "write_request x = Some bs"
  shows "\<exists>h b. bs = h # b \<and> mid h = id_REQUEST \<and> (\<forall>r. read_request idf h (b @ r) = Some (x, r))"
proof -
  from assms(2) obtain i a c d where i: "write_uint (req_id x) = Some i"
    and a: "write_wire_expr (req_wire_expr x) = Some a"
    and c: "write_exts (request_n_exts x) (request_exts x) = Some c"
    and d: "write_request_body (req_payload x) = Some d" and bs: "bs = request_header x # i @ a @ c @ d"
    unfolding write_request_def codec_simps by auto
  from assms(1) have ok: "wire_expr_ok (req_wire_expr x)" "request_body_ok idf (req_payload x)"
    by (simp_all add: request_ok_def)
  have "request_n_exts x = length (request_exts x)" by (simp add: request_n_exts_def request_exts_def)
  note e = read_write_exts [OF request_exts_ok [OF assms(1)] c this]
  have w: "\<forall>r. read_we (request_header x) (a @ r) = Some (req_wire_expr x, r)"
    by (rule read_we_rt [OF ok(1) a]) (simp_all add: request_header_def)
  have "has_flag (request_header x) flag7 \<longleftrightarrow> request_n_exts x \<noteq> 0" "mid (request_header x) = id_REQUEST"
    by (simp_all add: request_header_def)
  with w e request_body.rt_all [OF ok(2) d] read_uint_bound [OF i] show ?thesis
    by (auto simp: bs read_request_def request_upds_fold request_ext_init_def split: option.split)
qed

section \<open>Response\<close>

record ResponseExt = NetExt +
  ext_respid :: "EntityGlobalIdType option"
  resp_ext_ts_stack :: "TimestampStack option"

record Response = ResponseExt +
  resp_rid :: u32
  resp_wire_expr :: wire_expr
  resp_payload :: ResponseBody

definition response_n_exts :: "'a ResponseExt_scheme \<Rightarrow> nat" where
  "response_n_exts x = of_bool (ext_qos x \<noteq> QOS_DEFAULT) + of_bool (ext_tstamp x \<noteq> None) +
     of_bool (ext_respid x \<noteq> None) + of_bool (resp_ext_ts_stack x \<noteq> None)"

definition response_header :: "Response \<Rightarrow> u8" where
  "response_header x = we_flags (resp_wire_expr x) (set_if (response_n_exts x \<noteq> 0) flag7 id_RESPONSE)"

definition response_exts :: "'a ResponseExt_scheme \<Rightarrow> (bool \<Rightarrow> bytes option) list" where
  "response_exts x =
     when_ext (ext_qos x \<noteq> QOS_DEFAULT) (write_qos_ext net_QoS (ext_qos x)) @
     opt_ext (write_tstamp_ext net_Timestamp) (ext_tstamp x) @
     opt_ext (write_entity_ext resp_ResponderId) (ext_respid x) @
     opt_ext (write_ts_stack_ext net_TsStack) (resp_ext_ts_stack x)"

definition write_response :: "Response enc" where
  "write_response x = wcat
     [write_u8 (response_header x),
      write_uint (resp_rid x),
      write_wire_expr (resp_wire_expr x),
      write_exts (response_n_exts x) (response_exts x),
      write_response_body (resp_payload x)]"

definition response_ext_init :: ResponseExt where
  "response_ext_init = \<lparr>ext_qos = QOS_DEFAULT, ext_tstamp = None, ext_respid = None, resp_ext_ts_stack = None\<rparr>"

definition response_ext_step :: "(bytes \<Rightarrow> bytes option) \<Rightarrow> u8 \<Rightarrow> ResponseExt \<Rightarrow> (ResponseExt \<times> bool) rd" where
  "response_ext_step idf h s bs =
     (if eid h = net_QoS then
        do { (vm, bs) \<leftarrow> read_qos_ext net_QoS h bs; Some ((s\<lparr>ext_qos := fst vm\<rparr>, snd vm), bs) }
      else if eid h = net_Timestamp then
        do { (vm, bs) \<leftarrow> read_tstamp_ext idf net_Timestamp h bs; Some ((s\<lparr>ext_tstamp := Some (fst vm)\<rparr>, snd vm), bs) }
      else if eid h = resp_ResponderId then
        do { (vm, bs) \<leftarrow> read_entity_ext idf resp_ResponderId h bs; Some ((s\<lparr>ext_respid := Some (fst vm)\<rparr>, snd vm), bs) }
      else if eid h = net_TsStack then
        do { (vm, bs) \<leftarrow> read_ts_stack_ext net_TsStack h bs; Some ((s\<lparr>resp_ext_ts_stack := Some (fst vm)\<rparr>, snd vm), bs) }
      else do { (m, bs) \<leftarrow> ext_skip h bs; Some ((s, m), bs) })"

definition read_response :: "(bytes \<Rightarrow> bytes option) \<Rightarrow> u8 \<Rightarrow> Response rd" where
  "read_response idf header bs =
     (if mid header \<noteq> id_RESPONSE then None
      else do {
        (i, bs) \<leftarrow> read_zint U32_MAX bs;
        (we, bs) \<leftarrow> read_we header bs;
        (s, bs) \<leftarrow> read_exts (response_ext_step idf) (has_flag header flag7) response_ext_init bs;
        (p, bs) \<leftarrow> read_response_body idf bs;
        Some (\<lparr>ext_qos = ext_qos s, ext_tstamp = ext_tstamp s, ext_respid = ext_respid s,
               resp_ext_ts_stack = resp_ext_ts_stack s, resp_rid = i, resp_wire_expr = we, resp_payload = p\<rparr>, bs) })"

definition response_ok :: "(bytes \<Rightarrow> bytes option) \<Rightarrow> Response \<Rightarrow> bool" where
  "response_ok idf x \<longleftrightarrow> pred_option (timestamp_ok idf) (ext_tstamp x) \<and>
     pred_option ts_stack_ok (resp_ext_ts_stack x) \<and> pred_option (\<lambda>e. zid_ok idf (eg_zid e)) (ext_respid x) \<and>
     wire_expr_ok (resp_wire_expr x) \<and> response_body_ok idf (resp_payload x)"

definition response_upds :: "Response \<Rightarrow> (ResponseExt \<Rightarrow> ResponseExt) list" where
  "response_upds x =
     when_f (ext_qos x \<noteq> QOS_DEFAULT) (\<lambda>s. s\<lparr>ext_qos := ext_qos x\<rparr>) @
     opt_f (\<lambda>v s. s\<lparr>ext_tstamp := Some v\<rparr>) (ext_tstamp x) @
     opt_f (\<lambda>v s. s\<lparr>ext_respid := Some v\<rparr>) (ext_respid x) @
     opt_f (\<lambda>v s. s\<lparr>resp_ext_ts_stack := Some v\<rparr>) (resp_ext_ts_stack x)"

lemma response_upds_fold:
  "fold (\<lambda>f. f) (response_upds x) s = s\<lparr>
     ext_qos := (if ext_qos x \<noteq> QOS_DEFAULT then ext_qos x else ext_qos s),
     ext_tstamp := (case ext_tstamp x of None \<Rightarrow> ext_tstamp s | Some v \<Rightarrow> Some v),
     ext_respid := (case ext_respid x of None \<Rightarrow> ext_respid s | Some v \<Rightarrow> Some v),
     resp_ext_ts_stack := (case resp_ext_ts_stack x of None \<Rightarrow> resp_ext_ts_stack s | Some v \<Rightarrow> Some v)\<rparr>"
  by (simp add: response_upds_def split: option.split)

lemma response_exts_ok: "response_ok idf x \<Longrightarrow> list_all2 (ext_ok (response_ext_step idf)) (response_exts x) (response_upds x)"
  unfolding response_exts_def response_upds_def
  by (intro exts_intros ext_oks)
    (auto simp: response_ok_def response_ext_step_def net_ids)

lemma shrinking_response_ext_step [rd_mono]: "shrinking (response_ext_step idf h s)"
  unfolding response_ext_step_def [abs_def] by (intro rd_mono)

lemma response_rt:
  assumes "response_ok idf x" "write_response x = Some bs"
  shows "\<exists>h b. bs = h # b \<and> mid h = id_RESPONSE \<and> (\<forall>r. read_response idf h (b @ r) = Some (x, r))"
proof -
  from assms(2) obtain i a c d where i: "write_uint (resp_rid x) = Some i"
    and a: "write_wire_expr (resp_wire_expr x) = Some a"
    and c: "write_exts (response_n_exts x) (response_exts x) = Some c"
    and d: "write_response_body (resp_payload x) = Some d" and bs: "bs = response_header x # i @ a @ c @ d"
    unfolding write_response_def codec_simps by auto
  from assms(1) have ok: "wire_expr_ok (resp_wire_expr x)" "response_body_ok idf (resp_payload x)"
    by (simp_all add: response_ok_def)
  have "response_n_exts x = length (response_exts x)" by (simp add: response_n_exts_def response_exts_def)
  note e = read_write_exts [OF response_exts_ok [OF assms(1)] c this]
  have w: "\<forall>r. read_we (response_header x) (a @ r) = Some (resp_wire_expr x, r)"
    by (rule read_we_rt [OF ok(1) a]) (simp_all add: response_header_def)
  have "has_flag (response_header x) flag7 \<longleftrightarrow> response_n_exts x \<noteq> 0" "mid (response_header x) = id_RESPONSE"
    by (simp_all add: response_header_def)
  with w e response_body.rt_all [OF ok(2) d] read_uint_bound [OF i] show ?thesis
    by (auto simp: bs read_response_def response_upds_fold response_ext_init_def split: option.split)
qed

end
