(* ===== verification/Codec_Declare.thy ===== *)
theory Codec_Declare
  imports Codec_Network
begin

text \<open>
  The declarations (zenoh-protocol and zenoh-codec, network/declare.rs) and the network message that
  carries any of the network bodies (network/mod.rs), with the iterator over a batch of messages.
\<close>

section \<open>Identifiers\<close>

definition D_KEYEXPR :: u8 where "D_KEYEXPR = 0x00"
definition U_KEYEXPR :: u8 where "U_KEYEXPR = 0x01"
definition D_SUBSCRIBER :: u8 where "D_SUBSCRIBER = 0x02"
definition U_SUBSCRIBER :: u8 where "U_SUBSCRIBER = 0x03"
definition D_QUERYABLE :: u8 where "D_QUERYABLE = 0x04"
definition U_QUERYABLE :: u8 where "U_QUERYABLE = 0x05"
definition D_TOKEN :: u8 where "D_TOKEN = 0x06"
definition U_TOKEN :: u8 where "U_TOKEN = 0x07"
definition D_FINAL :: u8 where "D_FINAL = 0x1A"

lemmas declare_ids = D_KEYEXPR_def U_KEYEXPR_def D_SUBSCRIBER_def U_SUBSCRIBER_def D_QUERYABLE_def
  U_QUERYABLE_def D_TOKEN_def U_TOKEN_def D_FINAL_def

lemma declare_ids_ok [simp]:
  "mid_ok D_KEYEXPR" "mid_ok U_KEYEXPR" "mid_ok D_SUBSCRIBER" "mid_ok U_SUBSCRIBER" "mid_ok D_QUERYABLE"
  "mid_ok U_QUERYABLE" "mid_ok D_TOKEN" "mid_ok U_TOKEN" "mid_ok D_FINAL"
  by (simp_all add: mid_ok_def mid_def HEADER_MASK_def declare_ids)

definition WireExprExt :: u8 where "WireExprExt = zextzbuf 0x0f True"
definition QueryableInfo :: u8 where "QueryableInfo = zextz64 0x01 False"

lemma decl_ext_ids: "WireExprExt = 0x5f" "QueryableInfo = 0x21" "ext_id_ok 0x5f" "ext_id_ok 0x21"
  by (simp_all add: WireExprExt_def QueryableInfo_def ext_id_ok_def eid_def zext_defs)

section \<open>Skipping extensions\<close>

definition skip_step :: "u8 \<Rightarrow> unit \<Rightarrow> (unit \<times> bool) rd" where
  "skip_step h s bs = do { (m, bs) \<leftarrow> ext_skip h bs; Some (((), m), bs) }"

text \<open>\<open>if has_ext { extension::skip_all(...) }\<close>, and the loop over \<open>extension::skip\<close> that some
  declarations write out.\<close>

definition skip_all :: "bool \<Rightarrow> unit rd" where
  "skip_all has_ext bs = read_exts skip_step has_ext () bs"

lemma skip_all_False [simp]: "skip_all False bs = Some ((), bs)"
  by (simp add: skip_all_def read_exts.simps)

lemma shrinking_skip_step [rd_mono]: "shrinking (skip_step h s)"
  unfolding skip_step_def [abs_def] by (intro rd_mono)

lemma shrinking_skip_all [rd_mono]: "shrinking (skip_all b)"
  unfolding skip_all_def [abs_def] by (intro rd_mono)

section \<open>The extensions of declarations\<close>

definition we_null :: wire_expr where
  "we_null = \<lparr>scope = 0, suffix = [], we_mapping = Receiver\<rparr>"

definition we_ext_flags :: "wire_expr \<Rightarrow> u8" where
  "we_ext_flags x =
     (let f = (if has_suffix x then 0 OR 1 else 0) in if we_mapping x = Sender then f OR push_bit 1 1 else f)"

text \<open>The suffix goes to the end of the buffer, without its length.\<close>

definition write_we_ext :: "u8 \<Rightarrow> wire_expr \<Rightarrow> bool \<Rightarrow> bytes option" where
  "write_we_ext i x m =
     do { v \<leftarrow> wcat [write_u8 (we_ext_flags x), write_uint (scope x), wr_when (has_suffix x) (write_exact (suffix x))];
          write_ext_zbuf i v m }"

text \<open>The reader of a buffer fails when it is asked for no byte at all.\<close>

definition read_we_ext :: "u8 \<Rightarrow> u8 \<Rightarrow> (wire_expr \<times> bool) rd" where
  "read_we_ext i h bs =
     do { (vm, bs) \<leftarrow> read_ext_zbuf i h bs;
          (flags, z) \<leftarrow> read_u8 (fst vm);
          (sc, z) \<leftarrow> read_uint z;
          suf \<leftarrow> (if has_flag flags 1
                 then if z = [] then None
                      else do { (b, z) \<leftarrow> read_exact (length z) z; if utf8_ok b then Some b else None }
                 else Some []);
          Some ((\<lparr>scope = sc, suffix = suf, we_mapping = (if has_flag flags (push_bit 1 1) then Sender else Receiver)\<rparr>,
                 snd vm), bs) }"

record QueryableInfoType =
  complete :: bool
  distance :: u16

definition QINFO_DEFAULT :: QueryableInfoType where
  "QINFO_DEFAULT = \<lparr>complete = False, distance = 0\<rparr>"

definition qinfo_u64 :: "QueryableInfoType \<Rightarrow> u64" where
  "qinfo_u64 x =
     (let flags = (if complete x then 0 OR 1 else 0 :: u8) in ucast flags OR push_bit 8 (ucast (distance x) :: u64))"

definition write_qinfo_ext :: "u8 \<Rightarrow> QueryableInfoType \<Rightarrow> bool \<Rightarrow> bytes option" where
  "write_qinfo_ext i x m = write_ext_z64 i (qinfo_u64 x) m"

definition read_qinfo_ext :: "u8 \<Rightarrow> u8 \<Rightarrow> (QueryableInfoType \<times> bool) rd" where
  "read_qinfo_ext i h bs =
     do { (vm, bs) \<leftarrow> read_ext_z64 i h bs;
          Some ((\<lparr>complete = has_flag (ucast (fst vm)) 1, distance = ucast (drop_bit 8 (fst vm))\<rparr>, snd vm), bs) }"

lemma we_ext_flags_simps:
  "has_flag (we_ext_flags x) 1 = has_suffix x" "has_flag (we_ext_flags x) (push_bit 1 1) = (we_mapping x = Sender)"
  by (auto simp: we_ext_flags_def has_flag_def Let_def)

lemmas we_ext_flags_num = we_ext_flags_simps [simplified]

lemma we_ext_rt:
  assumes "ext_id_ok i" "wire_expr_ok x" "write_we_ext i x m = Some bs"
  shows "\<exists>h b. bs = h # b \<and> eid h = i \<and> (\<forall>r. read_we_ext i h (b @ r) = Some ((x, m), r))"
proof -
  from assms(3) obtain a b where a: "write_uint (scope x) = Some a" "wr_when (has_suffix x) (write_exact (suffix x)) = Some b"
    and e: "write_ext_zbuf i (we_ext_flags x # a @ b) m = Some bs"
    by (auto simp: write_we_ext_def Option.bind_eq_Some_conv codec_simps)
  have "b = suffix x" using a(2) by (auto simp: wr_when_def write_exact_def has_suffix_def split: if_splits)
  with ext_zbuf_rt [OF assms(1) e] u16.rt_all [OF TrueI a(1)] assms(2) show ?thesis
    by (cases "we_mapping x")
      (auto simp: read_we_ext_def we_ext_flags_num has_suffix_def wire_expr_ok_def read_exact_def)
qed

lemma qinfo_u64_fields:
  "has_flag (ucast (qinfo_u64 x)) 1 = complete x" "(ucast (drop_bit 8 (qinfo_u64 x)) :: u16) = distance x"
proof -
  show "has_flag (ucast (qinfo_u64 x)) 1 = complete x"
    unfolding qinfo_u64_def has_flag_1 by (auto simp: Let_def bit_simps)
  show "(ucast (drop_bit 8 (qinfo_u64 x)) :: u16) = distance x"
    unfolding qinfo_u64_def by (rule bit_word_eqI) (auto simp: Let_def bit_simps)
qed

lemma qinfo_ext_rt:
  assumes "ext_id_ok i" "write_qinfo_ext i x m = Some bs"
  shows "\<exists>h b. bs = h # b \<and> eid h = i \<and> (\<forall>r. read_qinfo_ext i h (b @ r) = Some ((x, m), r))"
  using ext_z64_rt [OF assms(1) assms(2) [unfolded write_qinfo_ext_def]]
  by (auto simp: read_qinfo_ext_def qinfo_u64_fields)

lemma ext_ok_we [ext_oks]:
  assumes "ext_id_ok i" "wire_expr_ok v"
    and "\<And>h s bs m r. eid h = i \<Longrightarrow> read_we_ext i h bs = Some ((v, m), r) \<Longrightarrow> step h s bs = Some ((f s, m), r)"
  shows "ext_ok step (write_we_ext i v) f"
  by (rule ext_ok_readI [where rd = "read_we_ext i"], erule we_ext_rt [OF assms(1,2)], rule assms(3))

lemma ext_ok_qinfo [ext_oks]:
  assumes "ext_id_ok i"
    and "\<And>h s bs m r. eid h = i \<Longrightarrow> read_qinfo_ext i h bs = Some ((v, m), r) \<Longrightarrow> step h s bs = Some ((f s, m), r)"
  shows "ext_ok step (write_qinfo_ext i v) f"
  by (rule ext_ok_readI [where rd = "read_qinfo_ext i"], erule qinfo_ext_rt [OF assms(1)], rule assms(2))

lemma shrinking_we_ext [rd_mono]: "shrinking (read_we_ext i h)"
  by (auto simp: shrinking_def read_we_ext_def Option.bind_eq_Some_conv split: if_splits
    dest!: shrinkingD [OF shrinking_ext_zbuf])

lemma shrinking_qinfo_ext [rd_mono]: "shrinking (read_qinfo_ext i h)"
  unfolding read_qinfo_ext_def [abs_def] by (intro rd_mono)

section \<open>Key expression declarations\<close>

record DeclareKeyExpr =
  dk_id :: u16
  dk_wire_expr :: wire_expr

record UndeclareKeyExpr =
  uk_id :: u16

definition write_declare_keyexpr :: "DeclareKeyExpr enc" where
  "write_declare_keyexpr x = wcat
     [write_u8 (set_if (has_suffix (dk_wire_expr x)) flag5 D_KEYEXPR),
      write_uint (dk_id x), write_wire_expr (dk_wire_expr x)]"

definition read_declare_keyexpr :: "u8 \<Rightarrow> DeclareKeyExpr rd" where
  "read_declare_keyexpr header bs =
     (if mid header \<noteq> D_KEYEXPR then None
      else do { (i, bs) \<leftarrow> read_uint bs;
                (we, bs) \<leftarrow> read_wire_expr (has_flag header flag5) bs;
                (_, bs) \<leftarrow> skip_all (has_flag header flag7) bs;
                Some (\<lparr>dk_id = i, dk_wire_expr = we\<rparr>, bs) })"

definition write_undeclare_keyexpr :: "UndeclareKeyExpr enc" where
  "write_undeclare_keyexpr x = wcat [write_u8 U_KEYEXPR, write_uint (uk_id x)]"

definition read_undeclare_keyexpr :: "u8 \<Rightarrow> UndeclareKeyExpr rd" where
  "read_undeclare_keyexpr header bs =
     (if mid header \<noteq> U_KEYEXPR then None
      else do { (i, bs) \<leftarrow> read_uint bs;
                (_, bs) \<leftarrow> skip_all (has_flag header flag7) bs;
                Some (\<lparr>uk_id = i\<rparr>, bs) })"

section \<open>Subscriber and token declarations\<close>

text \<open>\<open>DeclareSubscriber\<close> and \<open>DeclareToken\<close> have the same fields and the same encoding up to the
  identifier.\<close>

record DeclareEntity =
  d_id :: u32
  d_wire_expr :: wire_expr

type_synonym DeclareSubscriber = DeclareEntity
type_synonym DeclareToken = DeclareEntity

definition write_declare_entity :: "u8 \<Rightarrow> DeclareEntity enc" where
  "write_declare_entity i x = wcat
     [write_u8 (we_flags (d_wire_expr x) i), write_uint (d_id x), write_wire_expr (d_wire_expr x)]"

definition read_declare_entity :: "u8 \<Rightarrow> u8 \<Rightarrow> DeclareEntity rd" where
  "read_declare_entity i header bs =
     (if mid header \<noteq> i then None
      else do { (e, bs) \<leftarrow> read_uint bs;
                (we, bs) \<leftarrow> read_we header bs;
                (_, bs) \<leftarrow> skip_all (has_flag header flag7) bs;
                Some (\<lparr>d_id = e, d_wire_expr = we\<rparr>, bs) })"

definition write_declare_subscriber :: "DeclareSubscriber enc" where
  "write_declare_subscriber = write_declare_entity D_SUBSCRIBER"

definition read_declare_subscriber :: "u8 \<Rightarrow> DeclareSubscriber rd" where
  "read_declare_subscriber = read_declare_entity D_SUBSCRIBER"

definition write_declare_token :: "DeclareToken enc" where
  "write_declare_token = write_declare_entity D_TOKEN"

definition read_declare_token :: "u8 \<Rightarrow> DeclareToken rd" where
  "read_declare_token = read_declare_entity D_TOKEN"

section \<open>Queryable declarations\<close>

record DeclareQueryable =
  dq_id :: u32
  dq_wire_expr :: wire_expr
  dq_ext_info :: QueryableInfoType

definition write_declare_queryable :: "DeclareQueryable enc" where
  "write_declare_queryable x =
     (let n = of_bool (dq_ext_info x \<noteq> QINFO_DEFAULT) in
      wcat [write_u8 (we_flags (dq_wire_expr x) (set_if (n \<noteq> 0) flag7 D_QUERYABLE)),
            write_uint (dq_id x), write_wire_expr (dq_wire_expr x),
            write_exts n (when_ext (dq_ext_info x \<noteq> QINFO_DEFAULT) (write_qinfo_ext QueryableInfo (dq_ext_info x)))])"

definition qinfo_step :: "u8 \<Rightarrow> QueryableInfoType \<Rightarrow> (QueryableInfoType \<times> bool) rd" where
  "qinfo_step h s bs =
     (if eid h = QueryableInfo then read_qinfo_ext QueryableInfo h bs
      else do { (m, bs) \<leftarrow> ext_skip h bs; Some ((s, m), bs) })"

definition read_declare_queryable :: "u8 \<Rightarrow> DeclareQueryable rd" where
  "read_declare_queryable header bs =
     (if mid header \<noteq> D_QUERYABLE then None
      else do { (e, bs) \<leftarrow> read_uint bs;
                (we, bs) \<leftarrow> read_we header bs;
                (q, bs) \<leftarrow> read_exts qinfo_step (has_flag header flag7) QINFO_DEFAULT bs;
                Some (\<lparr>dq_id = e, dq_wire_expr = we, dq_ext_info = q\<rparr>, bs) })"

section \<open>Undeclarations\<close>

text \<open>\<open>UndeclareSubscriber\<close>, \<open>UndeclareQueryable\<close> and \<open>UndeclareToken\<close> have the same fields and the
  same decoder up to the identifier; only the first omits a null wire expression.\<close>

record Undeclare =
  u_id :: u32
  u_ext_wire_expr :: wire_expr

type_synonym UndeclareSubscriber = Undeclare
type_synonym UndeclareQueryable = Undeclare
type_synonym UndeclareToken = Undeclare

definition write_undeclare_subscriber :: "UndeclareSubscriber enc" where
  "write_undeclare_subscriber x = wcat
     [write_u8 (set_if (u_ext_wire_expr x \<noteq> we_null) flag7 U_SUBSCRIBER), write_uint (u_id x),
      wr_when (u_ext_wire_expr x \<noteq> we_null) (write_we_ext WireExprExt (u_ext_wire_expr x) False)]"

definition write_undeclare :: "u8 \<Rightarrow> Undeclare enc" where
  "write_undeclare i x = wcat
     [write_u8 (i OR flag7), write_uint (u_id x), write_we_ext WireExprExt (u_ext_wire_expr x) False]"

definition write_undeclare_queryable :: "UndeclareQueryable enc" where
  "write_undeclare_queryable = write_undeclare U_QUERYABLE"

definition write_undeclare_token :: "UndeclareToken enc" where
  "write_undeclare_token = write_undeclare U_TOKEN"

definition we_step :: "u8 \<Rightarrow> wire_expr \<Rightarrow> (wire_expr \<times> bool) rd" where
  "we_step h s bs =
     (if eid h = WireExprExt then read_we_ext WireExprExt h bs
      else do { (m, bs) \<leftarrow> ext_skip h bs; Some ((s, m), bs) })"

definition read_undeclare :: "u8 \<Rightarrow> u8 \<Rightarrow> Undeclare rd" where
  "read_undeclare i header bs =
     (if mid header \<noteq> i then None
      else do { (e, bs) \<leftarrow> read_uint bs;
                (we, bs) \<leftarrow> read_exts we_step (has_flag header flag7) we_null bs;
                Some (\<lparr>u_id = e, u_ext_wire_expr = we\<rparr>, bs) })"

definition read_undeclare_subscriber :: "u8 \<Rightarrow> UndeclareSubscriber rd" where
  "read_undeclare_subscriber = read_undeclare U_SUBSCRIBER"

definition read_undeclare_queryable :: "u8 \<Rightarrow> UndeclareQueryable rd" where
  "read_undeclare_queryable = read_undeclare U_QUERYABLE"

definition read_undeclare_token :: "u8 \<Rightarrow> UndeclareToken rd" where
  "read_undeclare_token = read_undeclare U_TOKEN"

section \<open>Declare\<close>

definition write_declare_final :: "unit enc" where
  "write_declare_final x = write_u8 D_FINAL"

definition read_declare_final :: "u8 \<Rightarrow> unit rd" where
  "read_declare_final header bs =
     (if mid header \<noteq> D_FINAL then None else skip_all (has_flag header flag7) bs)"

datatype DeclareBody =
    DeclKeyExpr DeclareKeyExpr | UndeclKeyExpr UndeclareKeyExpr
  | DeclSubscriber DeclareSubscriber | UndeclSubscriber UndeclareSubscriber
  | DeclQueryable DeclareQueryable | UndeclQueryable UndeclareQueryable
  | DeclToken DeclareToken | UndeclToken UndeclareToken
  | DeclFinal

fun write_declare_body :: "DeclareBody enc" where
  "write_declare_body (DeclKeyExpr r) = write_declare_keyexpr r"
| "write_declare_body (UndeclKeyExpr r) = write_undeclare_keyexpr r"
| "write_declare_body (DeclSubscriber r) = write_declare_subscriber r"
| "write_declare_body (UndeclSubscriber r) = write_undeclare_subscriber r"
| "write_declare_body (DeclQueryable r) = write_declare_queryable r"
| "write_declare_body (UndeclQueryable r) = write_undeclare_queryable r"
| "write_declare_body (DeclToken r) = write_declare_token r"
| "write_declare_body (UndeclToken r) = write_undeclare_token r"
| "write_declare_body DeclFinal = write_declare_final ()"

definition rd_map :: "('a \<Rightarrow> 'b) \<Rightarrow> 'a rd \<Rightarrow> 'b rd" where
  "rd_map f rd bs = do { (x, bs) \<leftarrow> rd bs; Some (f x, bs) }"

definition read_declare_body :: "DeclareBody rd" where
  "read_declare_body bs =
     do { (header, bs) \<leftarrow> read_u8 bs;
          if mid header = D_KEYEXPR then rd_map DeclKeyExpr (read_declare_keyexpr header) bs
          else if mid header = U_KEYEXPR then rd_map UndeclKeyExpr (read_undeclare_keyexpr header) bs
          else if mid header = D_SUBSCRIBER then rd_map DeclSubscriber (read_declare_subscriber header) bs
          else if mid header = U_SUBSCRIBER then rd_map UndeclSubscriber (read_undeclare_subscriber header) bs
          else if mid header = D_QUERYABLE then rd_map DeclQueryable (read_declare_queryable header) bs
          else if mid header = U_QUERYABLE then rd_map UndeclQueryable (read_undeclare_queryable header) bs
          else if mid header = D_TOKEN then rd_map DeclToken (read_declare_token header) bs
          else if mid header = U_TOKEN then rd_map UndeclToken (read_undeclare_token header) bs
          else if mid header = D_FINAL then rd_map (\<lambda>_. DeclFinal) (read_declare_final header) bs
          else None }"

record Declare = NetExtNode +
  decl_interest_id :: "u32 option"
  decl_body :: DeclareBody

definition declare_header :: "Declare \<Rightarrow> u8" where
  "declare_header x = set_if (node_n_exts x \<noteq> 0) flag7 (set_if (decl_interest_id x \<noteq> None) flag5 id_DECLARE)"

definition write_declare :: "Declare enc" where
  "write_declare x = wcat
     [write_u8 (declare_header x),
      wr_opt write_uint (decl_interest_id x),
      write_exts (node_n_exts x) (node_exts x),
      write_declare_body (decl_body x)]"

definition read_declare :: "(bytes \<Rightarrow> bytes option) \<Rightarrow> u8 \<Rightarrow> Declare rd" where
  "read_declare idf header bs =
     (if mid header \<noteq> id_DECLARE then None
      else do {
        (i, bs) \<leftarrow> rd_opt (has_flag header flag5) read_uint bs;
        (s, bs) \<leftarrow> read_exts (node_ext_step idf) (has_flag header flag7) node_ext_init bs;
        (b, bs) \<leftarrow> read_declare_body bs;
        Some (\<lparr>ext_qos = ext_qos s, ext_tstamp = ext_tstamp s, ext_nodeid = ext_nodeid s,
               decl_interest_id = i, decl_body = b\<rparr>, bs) })"

section \<open>Round trips\<close>

text \<open>The declaration of a key expression does not carry the mapping.\<close>

fun declare_body_ok :: "DeclareBody \<Rightarrow> bool" where
  "declare_body_ok (DeclKeyExpr r) \<longleftrightarrow>
     wire_expr_ok (dk_wire_expr r) \<and> we_mapping (dk_wire_expr r) = MAPPING_DEFAULT"
| "declare_body_ok (DeclSubscriber r) \<longleftrightarrow> wire_expr_ok (d_wire_expr r)"
| "declare_body_ok (DeclToken r) \<longleftrightarrow> wire_expr_ok (d_wire_expr r)"
| "declare_body_ok (DeclQueryable r) \<longleftrightarrow> wire_expr_ok (dq_wire_expr r)"
| "declare_body_ok (UndeclSubscriber r) \<longleftrightarrow> wire_expr_ok (u_ext_wire_expr r)"
| "declare_body_ok (UndeclQueryable r) \<longleftrightarrow> wire_expr_ok (u_ext_wire_expr r)"
| "declare_body_ok (UndeclToken r) \<longleftrightarrow> wire_expr_ok (u_ext_wire_expr r)"
| "declare_body_ok _ \<longleftrightarrow> True"

lemma set_if_or: "i OR flag7 = set_if True flag7 i"
  by (simp add: set_if_def)

lemma declare_keyexpr_rt:
  assumes "wire_expr_ok (dk_wire_expr x)" "we_mapping (dk_wire_expr x) = MAPPING_DEFAULT"
    "write_declare_keyexpr x = Some bs"
  shows "\<exists>h b. bs = h # b \<and> mid h = D_KEYEXPR \<and> (\<forall>r. read_declare_keyexpr h (b @ r) = Some (x, r))"
proof -
  from assms(3) obtain a b where a: "write_uint (dk_id x) = Some a" and b: "write_wire_expr (dk_wire_expr x) = Some b"
    and bs: "bs = set_if (has_suffix (dk_wire_expr x)) flag5 D_KEYEXPR # a @ b"
    by (auto simp: write_declare_keyexpr_def codec_simps)
  have "(dk_wire_expr x)\<lparr>we_mapping := MAPPING_DEFAULT\<rparr> = dk_wire_expr x" using assms(2) by simp
  with u16.rt_all [OF TrueI a] read_wire_expr_rt [OF assms(1) b] show ?thesis
    by (auto simp: bs read_declare_keyexpr_def)
qed

lemma undeclare_keyexpr_rt:
  assumes "write_undeclare_keyexpr x = Some bs"
  shows "\<exists>h b. bs = h # b \<and> mid h = U_KEYEXPR \<and> (\<forall>r. read_undeclare_keyexpr h (b @ r) = Some (x, r))"
  using assms by (auto simp: write_undeclare_keyexpr_def codec_simps read_undeclare_keyexpr_def u16.rt)

lemma declare_entity_rt:
  assumes "mid_ok i" "wire_expr_ok (d_wire_expr x)" "write_declare_entity i x = Some bs"
  shows "\<exists>h b. bs = h # b \<and> mid h = i \<and> (\<forall>r. read_declare_entity i h (b @ r) = Some (x, r))"
proof -
  from assms(3) obtain a b where a: "write_uint (d_id x) = Some a" and b: "write_wire_expr (d_wire_expr x) = Some b"
    and bs: "bs = we_flags (d_wire_expr x) i # a @ b" by (auto simp: write_declare_entity_def codec_simps)
  have "\<forall>r. read_we (we_flags (d_wire_expr x) i) (b @ r) = Some (d_wire_expr x, r)"
    by (rule read_we_rt [OF assms(2) b]) (simp_all add: assms(1))
  with u32.rt_all [OF TrueI a] assms(1) show ?thesis by (auto simp: bs read_declare_entity_def)
qed

lemma read_one_ext:
  assumes "ext_ok step e f" "wr_when b (e False) = Some bs"
  shows "\<forall>r. read_exts step b s (bs @ r) = Some (if b then f s else s, r)"
  using read_write_exts [OF exts_when [of b step e f], of "of_bool b" bs] assms
  by (auto simp: wr_when_def when_ext_def codec_simps)

lemma declare_queryable_rt:
  assumes "wire_expr_ok (dq_wire_expr x)" "write_declare_queryable x = Some bs"
  shows "\<exists>h b. bs = h # b \<and> mid h = D_QUERYABLE \<and> (\<forall>r. read_declare_queryable h (b @ r) = Some (x, r))"
proof -
  let ?e = "dq_ext_info x \<noteq> QINFO_DEFAULT"
  define h where "h = we_flags (dq_wire_expr x) (set_if ?e flag7 D_QUERYABLE)"
  from assms(2) obtain a b c where a: "write_uint (dq_id x) = Some a" and b: "write_wire_expr (dq_wire_expr x) = Some b"
    and c: "wr_when ?e (write_qinfo_ext QueryableInfo (dq_ext_info x) False) = Some c"
    and bs: "bs = h # a @ b @ c"
    unfolding h_def
    by (cases ?e) (auto simp: write_declare_queryable_def codec_simps Let_def when_ext_def wr_when_def)
  have "ext_ok qinfo_step (write_qinfo_ext QueryableInfo (dq_ext_info x)) (\<lambda>_. dq_ext_info x)"
    by (intro ext_oks) (auto simp: decl_ext_ids qinfo_step_def)
  note e = read_one_ext [OF this c, of QINFO_DEFAULT]
  have w: "\<forall>r. read_we h (b @ r) = Some (dq_wire_expr x, r)"
    by (rule read_we_rt [OF assms(1) b]) (simp_all add: h_def)
  have "has_flag h flag7 = ?e" "mid h = D_QUERYABLE" by (simp_all add: h_def)
  with u32.rt_all [OF TrueI a] w e show ?thesis by (auto simp: bs read_declare_queryable_def)
qed

lemma read_undeclare_rt:
  assumes "mid_ok i" "wire_expr_ok (u_ext_wire_expr x)" "write_uint (u_id x) = Some a"
    "wr_when b (write_we_ext WireExprExt (u_ext_wire_expr x) False) = Some c" "\<not> b \<Longrightarrow> u_ext_wire_expr x = we_null"
  shows "\<forall>r. read_undeclare i (set_if b flag7 i) (a @ c @ r) = Some (x, r)"
proof -
  have "ext_ok we_step (write_we_ext WireExprExt (u_ext_wire_expr x)) (\<lambda>_. u_ext_wire_expr x)"
    by (intro ext_oks) (auto simp: decl_ext_ids we_step_def assms(2))
  from read_one_ext [OF this assms(4), of we_null] u32.rt_all [OF TrueI assms(3)] assms(1,5) show ?thesis
    by (cases b) (auto simp: read_undeclare_def)
qed

lemma undeclare_subscriber_rt:
  assumes "wire_expr_ok (u_ext_wire_expr x)" "write_undeclare_subscriber x = Some bs"
  shows "\<exists>h b. bs = h # b \<and> mid h = U_SUBSCRIBER \<and> (\<forall>r. read_undeclare_subscriber h (b @ r) = Some (x, r))"
proof -
  from assms(2) obtain a c where "write_uint (u_id x) = Some a"
    "wr_when (u_ext_wire_expr x \<noteq> we_null) (write_we_ext WireExprExt (u_ext_wire_expr x) False) = Some c"
    and bs: "bs = set_if (u_ext_wire_expr x \<noteq> we_null) flag7 U_SUBSCRIBER # a @ c"
    by (auto simp: write_undeclare_subscriber_def codec_simps)
  from read_undeclare_rt [OF _ assms(1) this(1,2), of U_SUBSCRIBER] bs show ?thesis
    by (auto simp: read_undeclare_subscriber_def)
qed

lemma undeclare_rt:
  assumes "mid_ok i" "wire_expr_ok (u_ext_wire_expr x)" "write_undeclare i x = Some bs"
  shows "\<exists>h b. bs = h # b \<and> mid h = i \<and> (\<forall>r. read_undeclare i h (b @ r) = Some (x, r))"
proof -
  from assms(3) obtain a c where "write_uint (u_id x) = Some a"
    "wr_when True (write_we_ext WireExprExt (u_ext_wire_expr x) False) = Some c"
    and bs: "bs = set_if True flag7 i # a @ c"
    by (auto simp: write_undeclare_def codec_simps set_if_or wr_when_def)
  from read_undeclare_rt [OF assms(1,2) this(1,2)] bs assms(1) show ?thesis by auto
qed

lemma declare_final_rt:
  "write_declare_final () = Some bs \<Longrightarrow>
   \<exists>h b. bs = h # b \<and> mid h = D_FINAL \<and> (\<forall>r. read_declare_final h (b @ r) = Some ((), r))"
  by (auto simp: write_declare_final_def codec_simps read_declare_final_def)

lemma read_declare_bodyI:
  assumes "\<exists>h b. bs = h # b \<and> mid h = i \<and> (\<forall>r. rd h (b @ r) = Some (y, r))"
    and "\<And>h b. mid h = i \<Longrightarrow> read_declare_body (h # b) = rd_map C (rd h) b"
  shows "read_declare_body (bs @ r) = Some (C y, r)"
  using assms by (auto simp: rd_map_def)

interpretation declare_body: codec declare_body_ok write_declare_body read_declare_body
proof (unfold_locales, goal_cases)
  case (1 x bs r)
  note dispatch = read_declare_body_def declare_ids
  show ?case
  proof (cases x)
    case (DeclKeyExpr y)
    with 1 show ?thesis using read_declare_bodyI [OF declare_keyexpr_rt] by (auto simp: dispatch)
  next
    case (UndeclKeyExpr y)
    with 1 show ?thesis using read_declare_bodyI [OF undeclare_keyexpr_rt] by (auto simp: dispatch)
  next
    case (DeclSubscriber y)
    with 1 show ?thesis using read_declare_bodyI [OF declare_entity_rt [OF declare_ids_ok(3)]]
      by (auto simp: dispatch write_declare_subscriber_def read_declare_subscriber_def)
  next
    case (UndeclSubscriber y)
    with 1 show ?thesis using read_declare_bodyI [OF undeclare_subscriber_rt] by (auto simp: dispatch)
  next
    case (DeclQueryable y)
    with 1 show ?thesis using read_declare_bodyI [OF declare_queryable_rt] by (auto simp: dispatch)
  next
    case (UndeclQueryable y)
    with 1 show ?thesis using read_declare_bodyI [OF undeclare_rt [OF declare_ids_ok(6)]]
      by (auto simp: dispatch write_undeclare_queryable_def read_undeclare_queryable_def)
  next
    case (DeclToken y)
    with 1 show ?thesis using read_declare_bodyI [OF declare_entity_rt [OF declare_ids_ok(7)]]
      by (auto simp: dispatch write_declare_token_def read_declare_token_def)
  next
    case (UndeclToken y)
    with 1 show ?thesis using read_declare_bodyI [OF undeclare_rt [OF declare_ids_ok(8)]]
      by (auto simp: dispatch write_undeclare_token_def read_undeclare_token_def)
  next
    case DeclFinal
    with 1 show ?thesis using read_declare_bodyI [OF declare_final_rt, where C = "\<lambda>_. DeclFinal"] by (auto simp: dispatch)
  qed
qed

definition declare_ok :: "(bytes \<Rightarrow> bytes option) \<Rightarrow> Declare \<Rightarrow> bool" where
  "declare_ok idf x \<longleftrightarrow> node_ok idf x \<and> declare_body_ok (decl_body x)"

lemma declare_rt:
  assumes "declare_ok idf x" "write_declare x = Some bs"
  shows "\<exists>h b. bs = h # b \<and> mid h = id_DECLARE \<and> (\<forall>r. read_declare idf h (b @ r) = Some (x, r))"
proof -
  from assms(2) obtain a c d where a: "wr_opt write_uint (decl_interest_id x) = Some a"
    and c: "write_exts (node_n_exts x) (node_exts x) = Some c" and d: "write_declare_body (decl_body x) = Some d"
    and bs: "bs = declare_header x # a @ c @ d"
    unfolding write_declare_def codec_simps by auto
  from assms(1) have ok: "node_ok idf x" "declare_body_ok (decl_body x)" by (simp_all add: declare_ok_def)
  have "has_flag (declare_header x) flag7 = (node_n_exts x \<noteq> 0)" "mid (declare_header x) = id_DECLARE"
    "has_flag (declare_header x) flag5 = (decl_interest_id x \<noteq> None)"
    by (simp_all add: declare_header_def)
  with read_node_exts [OF ok(1) c] u32.rt_opt [OF a] declare_body.rt_all [OF ok(2) d] show ?thesis
    by (auto simp: bs read_declare_def pred_option_def)
qed

end
