(* ===== verification/Codec_Message.thy ===== *)
theory Codec_Message
  imports Codec_Declare
begin

text \<open>
  Network messages (zenoh-protocol and zenoh-codec, network/mod.rs): the body of any kind with its
  reliability, the attributes that the transport reads from a message, and the iterator over the
  messages of a batch.
\<close>

section \<open>Messages\<close>

datatype NetworkBody =
    PushMsg Push | RequestMsg Request | ResponseMsg Response | ResponseFinalMsg ResponseFinal
  | InterestMsg Interest | DeclareMsg Declare | OAMMsg Oam

datatype Reliability = BestEffort | Reliable

definition RELIABILITY_DEFAULT :: Reliability where "RELIABILITY_DEFAULT = Reliable"

record NetworkMessage =
  body :: NetworkBody
  reliability :: Reliability

definition network_message_from :: "NetworkBody \<Rightarrow> NetworkMessage" where
  "network_message_from b = \<lparr>body = b, reliability = RELIABILITY_DEFAULT\<rparr>"

section \<open>Attributes (NetworkMessageExt)\<close>

fun body_qos :: "NetworkBody \<Rightarrow> QoSType" where
  "body_qos (PushMsg m) = ext_qos m"
| "body_qos (RequestMsg m) = ext_qos m"
| "body_qos (ResponseMsg m) = ext_qos m"
| "body_qos (ResponseFinalMsg m) = ext_qos m"
| "body_qos (InterestMsg m) = ext_qos m"
| "body_qos (DeclareMsg m) = ext_qos m"
| "body_qos (OAMMsg m) = ext_qos m"

definition msg_is_reliable :: "NetworkMessage \<Rightarrow> bool" where
  "msg_is_reliable m \<longleftrightarrow> reliability m = Reliable"

definition msg_is_express :: "NetworkMessage \<Rightarrow> bool" where
  "msg_is_express m = is_express (body_qos (body m))"

definition msg_congestion_control :: "NetworkMessage \<Rightarrow> CongestionControl" where
  "msg_congestion_control m = get_congestion_control (body_qos (body m))"

definition msg_is_droppable :: "NetworkMessage \<Rightarrow> bool" where
  "msg_is_droppable m \<longleftrightarrow> \<not> msg_is_reliable m \<or> msg_congestion_control m = Drop"

definition msg_priority :: "NetworkMessage \<Rightarrow> Priority option" where
  "msg_priority m = get_priority (body_qos (body m))"

fun declare_wire_expr :: "DeclareBody \<Rightarrow> wire_expr option" where
  "declare_wire_expr (DeclKeyExpr m) = Some (dk_wire_expr m)"
| "declare_wire_expr (UndeclKeyExpr m) = None"
| "declare_wire_expr (DeclSubscriber m) = Some (d_wire_expr m)"
| "declare_wire_expr (UndeclSubscriber m) = Some (u_ext_wire_expr m)"
| "declare_wire_expr (DeclQueryable m) = Some (dq_wire_expr m)"
| "declare_wire_expr (UndeclQueryable m) = Some (u_ext_wire_expr m)"
| "declare_wire_expr (DeclToken m) = Some (d_wire_expr m)"
| "declare_wire_expr (UndeclToken m) = Some (u_ext_wire_expr m)"
| "declare_wire_expr DeclFinal = None"

fun body_wire_expr :: "NetworkBody \<Rightarrow> wire_expr option" where
  "body_wire_expr (PushMsg m) = Some (push_wire_expr m)"
| "body_wire_expr (RequestMsg m) = Some (req_wire_expr m)"
| "body_wire_expr (ResponseMsg m) = Some (resp_wire_expr m)"
| "body_wire_expr (ResponseFinalMsg m) = None"
| "body_wire_expr (InterestMsg m) = i_wire_expr m"
| "body_wire_expr (DeclareMsg m) = declare_wire_expr (decl_body m)"
| "body_wire_expr (OAMMsg m) = None"

definition opt_len :: "bytes option \<Rightarrow> nat" where
  "opt_len a = (case a of None \<Rightarrow> 0 | Some b \<Rightarrow> length b)"

fun push_payload_size :: "PushBody \<Rightarrow> nat" where
  "push_payload_size (PutBody p) = length (put_payload p) + opt_len (put_ext_attachment p)"
| "push_payload_size (DelBody d) = opt_len (del_ext_attachment d)"

fun request_payload_size :: "RequestBody \<Rightarrow> nat" where
  "request_payload_size (QueryBody q) =
     (case q_ext_body q of None \<Rightarrow> 0 | Some b \<Rightarrow> length (v_payload b)) + opt_len (q_ext_attachment q)"

fun response_payload_size :: "ResponseBody \<Rightarrow> nat" where
  "response_payload_size (ReplyBody r) = push_payload_size (rep_payload r)"
| "response_payload_size (ErrBody e) = length (err_payload e)"

fun body_payload_size :: "NetworkBody \<Rightarrow> nat option" where
  "body_payload_size (PushMsg m) = Some (push_payload_size (push_payload m))"
| "body_payload_size (RequestMsg m) = Some (request_payload_size (req_payload m))"
| "body_payload_size (ResponseMsg m) = Some (response_payload_size (resp_payload m))"
| "body_payload_size _ = None"

section \<open>Codec\<close>

fun write_network_body :: "NetworkBody enc" where
  "write_network_body (PushMsg b) = write_push b"
| "write_network_body (RequestMsg b) = write_request b"
| "write_network_body (ResponseMsg b) = write_response b"
| "write_network_body (ResponseFinalMsg b) = write_response_final b"
| "write_network_body (InterestMsg b) = write_interest b"
| "write_network_body (DeclareMsg b) = write_declare b"
| "write_network_body (OAMMsg b) = write_oam b"

definition write_network_message :: "NetworkMessage enc" where
  "write_network_message x = write_network_body (body x)"

definition read_network_header :: "(bytes \<Rightarrow> bytes option) \<Rightarrow> u8 \<Rightarrow> NetworkMessage rd" where
  "read_network_header idf header bs =
     rd_map network_message_from
       (if mid header = id_PUSH then rd_map PushMsg (read_push idf header)
        else if mid header = id_REQUEST then rd_map RequestMsg (read_request idf header)
        else if mid header = id_RESPONSE then rd_map ResponseMsg (read_response idf header)
        else if mid header = id_RESPONSE_FINAL then rd_map ResponseFinalMsg (read_response_final idf header)
        else if mid header = id_INTEREST then rd_map InterestMsg (read_interest idf header)
        else if mid header = id_DECLARE then rd_map DeclareMsg (read_declare idf header)
        else if mid header = id_OAM then rd_map OAMMsg (read_oam idf header)
        else (\<lambda>_. None)) bs"

definition read_network_message :: "(bytes \<Rightarrow> bytes option) \<Rightarrow> Reliability \<Rightarrow> NetworkMessage rd" where
  "read_network_message idf rel bs =
     do { (header, bs) \<leftarrow> read_u8 bs;
          (msg, bs) \<leftarrow> read_network_header idf header bs;
          Some (msg\<lparr>reliability := rel\<rparr>, bs) }"

fun network_body_ok :: "(bytes \<Rightarrow> bytes option) \<Rightarrow> NetworkBody \<Rightarrow> bool" where
  "network_body_ok idf (PushMsg b) = push_ok idf b"
| "network_body_ok idf (RequestMsg b) = request_ok idf b"
| "network_body_ok idf (ResponseMsg b) = response_ok idf b"
| "network_body_ok idf (ResponseFinalMsg b) = net_ok idf b"
| "network_body_ok idf (InterestMsg b) = (interest_ok idf b \<and> interest_wire b = b)"
| "network_body_ok idf (DeclareMsg b) = declare_ok idf b"
| "network_body_ok idf (OAMMsg b) = net_ok idf b"

lemma read_network_messageI:
  assumes "\<exists>h b. bs = h # b \<and> mid h = i \<and> (\<forall>r. rd h (b @ r) = Some (y, r))"
    and "\<And>h b. mid h = i \<Longrightarrow> read_network_header idf h b = rd_map network_message_from (rd_map C (rd h)) b"
  shows "read_network_message idf rel (bs @ r) = Some (\<lparr>body = C y, reliability = rel\<rparr>, r)"
  using assms by (auto simp: read_network_message_def rd_map_def network_message_from_def)

lemma read_network_body_rt:
  assumes "network_body_ok idf x" "write_network_body x = Some bs"
  shows "read_network_message idf rel (bs @ r) = Some (\<lparr>body = x, reliability = rel\<rparr>, r)"
proof -
  note dispatch = read_network_header_def network_ids
  show ?thesis
  proof (cases x)
    case (PushMsg b)
    with assms show ?thesis using read_network_messageI [OF push_rt, where C = PushMsg] by (auto simp: dispatch)
  next
    case (RequestMsg b)
    with assms show ?thesis using read_network_messageI [OF request_rt, where C = RequestMsg] by (auto simp: dispatch)
  next
    case (ResponseMsg b)
    with assms show ?thesis using read_network_messageI [OF response_rt, where C = ResponseMsg] by (auto simp: dispatch)
  next
    case (ResponseFinalMsg b)
    with assms show ?thesis using read_network_messageI [OF response_final_rt, where C = ResponseFinalMsg] by (auto simp: dispatch)
  next
    case (InterestMsg b)
    then have b: "interest_ok idf b" "interest_wire b = b" "write_interest b = Some bs" using assms by simp_all
    then show ?thesis unfolding InterestMsg
      using read_network_messageI [OF interest_rt [OF b(1,3), unfolded b(2)], where C = InterestMsg] by (auto simp: dispatch)
  next
    case (DeclareMsg b)
    with assms show ?thesis using read_network_messageI [OF declare_rt, where C = DeclareMsg] by (auto simp: dispatch)
  next
    case (OAMMsg b)
    with assms show ?thesis using read_network_messageI [OF oam_rt, where C = OAMMsg] by (auto simp: dispatch)
  qed
qed

section \<open>Reading consumes bytes\<close>

lemma shrinking_value [rd_mono]: "shrinking (read_value i h)"
proof -
  have "length r \<le> length bs" if *: "read_value i h bs = Some (x, r)" for bs x r
  proof -
    from * obtain hm bs1 e bs2 p where "read_ext_zbuf_header i h bs = Some (hm, bs1)"
      "read_encoding bs1 = Some (e, bs2)" "read_zslice_n (fst hm - of_nat (length bs1 - length bs2)) bs2 = Some (p, r)"
      by (auto simp: read_value_def Option.bind_eq_Some_conv split: if_splits)
    then show ?thesis
      using shrinkingD [OF shrinking_ext_zbuf_header] shrinkingD [OF shrinking_encoding] shrinkingD [OF shrinking_zslice_n]
      by (meson le_trans)
  qed
  then show ?thesis by (simp add: shrinking_def)
qed

lemma shrinking_sinfo [rd_mono]: "shrinking (read_sinfo idf i h)"
  unfolding read_sinfo_def [abs_def] by (intro rd_mono)

lemma shrinking_attachment [rd_mono]: "shrinking (read_attachment i h)"
  unfolding read_attachment_def [abs_def] by (intro rd_mono)

lemma shrinking_consolidation [rd_mono]: "shrinking (read_consolidation)"
  unfolding read_consolidation_def [abs_def] by (intro rd_mono)

lemma shrinking_put_ext_step [rd_mono]: "shrinking (put_ext_step idf h s)"
  unfolding put_ext_step_def [abs_def] by (intro rd_mono)

lemma shrinking_put [rd_mono]: "shrinking (read_put idf h)"
  unfolding read_put_def [abs_def] by (intro rd_mono)

lemma shrinking_del_ext_step [rd_mono]: "shrinking (del_ext_step idf h s)"
  unfolding del_ext_step_def [abs_def] by (intro rd_mono)

lemma shrinking_del [rd_mono]: "shrinking (read_del idf h)"
  unfolding read_del_def [abs_def] by (intro rd_mono)

lemma shrinking_query_ext_step [rd_mono]: "shrinking (query_ext_step idf h s)"
  unfolding query_ext_step_def [abs_def] by (intro rd_mono)

lemma shrinking_query [rd_mono]: "shrinking (read_query idf h)"
  unfolding read_query_def [abs_def] by (intro rd_mono)

lemma shrinking_err_ext_step [rd_mono]: "shrinking (err_ext_step idf h s)"
  unfolding err_ext_step_def [abs_def] by (intro rd_mono)

lemma shrinking_err [rd_mono]: "shrinking (read_err idf h)"
  unfolding read_err_def [abs_def] by (intro rd_mono)

lemma shrinking_reply_ext_step [rd_mono]: "shrinking (reply_ext_step h s)"
  unfolding reply_ext_step_def [abs_def] by (intro rd_mono)

lemma shrinking_push_body [rd_mono]: "shrinking (read_push_body idf)"
  unfolding read_push_body_def [abs_def] by (intro rd_mono)

lemma shrinking_reply [rd_mono]: "shrinking (read_reply idf h)"
  unfolding read_reply_def [abs_def] by (intro rd_mono)

lemma shrinking_request_body [rd_mono]: "shrinking (read_request_body idf)"
  unfolding read_request_body_def [abs_def] by (intro rd_mono)

lemma shrinking_response_body [rd_mono]: "shrinking (read_response_body idf)"
  unfolding read_response_body_def [abs_def] by (intro rd_mono)

lemma shrinking_response_final [rd_mono]: "shrinking (read_response_final idf h)"
  unfolding read_response_final_def [abs_def] by (intro rd_mono)

lemma shrinking_oam_body [rd_mono]: "shrinking (read_oam_body h)"
  unfolding read_oam_body_def [abs_def] by (intro rd_mono)

lemma shrinking_oam [rd_mono]: "shrinking (read_oam idf h)"
  unfolding read_oam_def [abs_def] by (intro rd_mono)

lemma shrinking_interest_we [rd_mono]: "shrinking (read_interest_we o')"
  unfolding read_interest_we_def [abs_def] by (intro rd_mono)

lemma shrinking_interest_target [rd_mono]: "shrinking (read_interest_target)"
  unfolding read_interest_target_def [abs_def] by (intro rd_mono)

lemma shrinking_interest [rd_mono]: "shrinking (read_interest idf h)"
  unfolding read_interest_def [abs_def] by (intro rd_mono)

lemma shrinking_push [rd_mono]: "shrinking (read_push idf h)"
  unfolding read_push_def [abs_def] by (intro rd_mono)

lemma shrinking_request [rd_mono]: "shrinking (read_request idf h)"
  unfolding read_request_def [abs_def] by (intro rd_mono)

lemma shrinking_response [rd_mono]: "shrinking (read_response idf h)"
  unfolding read_response_def [abs_def] by (intro rd_mono)

lemma shrinking_declare_keyexpr [rd_mono]: "shrinking (read_declare_keyexpr h)"
  unfolding read_declare_keyexpr_def [abs_def] by (intro rd_mono)

lemma shrinking_undeclare_keyexpr [rd_mono]: "shrinking (read_undeclare_keyexpr h)"
  unfolding read_undeclare_keyexpr_def [abs_def] by (intro rd_mono)

lemma shrinking_declare_entity [rd_mono]: "shrinking (read_declare_entity i h)"
  unfolding read_declare_entity_def [abs_def] by (intro rd_mono)

lemma shrinking_qinfo_step [rd_mono]: "shrinking (qinfo_step h s)"
  unfolding qinfo_step_def [abs_def] by (intro rd_mono)

lemma shrinking_declare_queryable [rd_mono]: "shrinking (read_declare_queryable h)"
  unfolding read_declare_queryable_def [abs_def] by (intro rd_mono)

lemma shrinking_we_step [rd_mono]: "shrinking (we_step h s)"
  unfolding we_step_def [abs_def] by (intro rd_mono)

lemma shrinking_undeclare [rd_mono]: "shrinking (read_undeclare i h)"
  unfolding read_undeclare_def [abs_def] by (intro rd_mono)

lemma shrinking_declare_final [rd_mono]: "shrinking (read_declare_final h)"
  unfolding read_declare_final_def [abs_def] by (intro rd_mono)

lemma shrinking_map [rd_mono]: "shrinking rd \<Longrightarrow> shrinking (rd_map f rd)"
  unfolding rd_map_def [abs_def] by (intro rd_mono)

lemma shrinking_declare_body [rd_mono]: "shrinking read_declare_body"
  unfolding read_declare_body_def [abs_def] read_declare_subscriber_def read_undeclare_subscriber_def
    read_undeclare_queryable_def read_declare_token_def read_undeclare_token_def
  by (intro rd_mono)

lemma shrinking_declare [rd_mono]: "shrinking (read_declare idf h)"
  unfolding read_declare_def [abs_def] by (intro rd_mono)

lemma shrinking_network_header [rd_mono]: "shrinking (read_network_header idf h)"
  unfolding read_network_header_def [abs_def]
  by (rule shrinking_map) (simp add: rd_mono)

lemma read_network_message_consumes:
  assumes "read_network_message idf rel bs = Some (m, r)"
  shows "length r < length bs"
proof -
  from assms obtain h b m' where "bs = h # b" "read_network_header idf h b = Some (m', r)"
    by (cases bs) (auto simp: read_network_message_def Option.bind_eq_Some_conv)
  with shrinkingD [OF shrinking_network_header] show ?thesis by fastforce
qed

section \<open>The iterator over a batch\<close>

text \<open>\<open>NetworkMessageIter::next\<close>: the reader is rewound when no message can be read.\<close>

definition iter_next :: "(bytes \<Rightarrow> bytes option) \<Rightarrow> Reliability \<Rightarrow> bytes \<Rightarrow> NetworkMessage option \<times> bytes" where
  "iter_next idf rel bs =
     (case read_network_message idf rel bs of Some (m, r) \<Rightarrow> (Some m, r) | None \<Rightarrow> (None, bs))"

text \<open>The messages that a \<open>for\<close> loop over the iterator gets, and the bytes it leaves.\<close>

function iter_all :: "(bytes \<Rightarrow> bytes option) \<Rightarrow> Reliability \<Rightarrow> bytes \<Rightarrow> NetworkMessage list \<times> bytes" where
  "iter_all idf rel bs =
     (case iter_next idf rel bs of
        (None, r) \<Rightarrow> ([], r)
      | (Some m, r) \<Rightarrow> (let (ms, r') = iter_all idf rel r in (m # ms, r')))"
  by pat_completeness auto
termination
  by (relation "measure (\<lambda>(idf, rel, bs). length bs)")
    (auto simp: iter_next_def split: option.splits dest: read_network_message_consumes)

declare iter_all.simps [simp del]

lemma read_network_message_Nil: "read_network_message idf rel [] = None"
  by (simp add: read_network_message_def)

lemma iter_all_batch_rest:
  assumes "\<forall>m\<in>set ms. network_body_ok idf (body m)" "wcat (map write_network_message ms) = Some bs"
    and "read_network_message idf rel r = None"
  shows "iter_all idf rel (bs @ r) = (map (\<lambda>m. m\<lparr>reliability := rel\<rparr>) ms, r)"
  using assms(1,2)
proof (induction ms arbitrary: bs)
  case Nil
  then show ?case using assms(3) by (subst iter_all.simps) (auto simp: iter_next_def codec_simps)
next
  case (Cons m ms)
  then obtain a b where "write_network_message m = Some a" and b: "wcat (map write_network_message ms) = Some b"
    and bs: "bs = a @ b" by (auto simp: codec_simps)
  then have a: "write_network_body (body m) = Some a" by (simp add: write_network_message_def)
  have "read_network_message idf rel (bs @ r) = Some (m\<lparr>reliability := rel\<rparr>, b @ r)"
    using read_network_body_rt [OF _ a, of idf rel "b @ r"] Cons.prems(1) bs by simp
  with Cons.IH [OF _ b] Cons.prems(1) show ?case
    by (subst iter_all.simps) (simp add: iter_next_def)
qed

lemma iter_all_batch:
  assumes "\<forall>m\<in>set ms. network_body_ok idf (body m)" "wcat (map write_network_message ms) = Some bs"
  shows "iter_all idf rel bs = (map (\<lambda>m. m\<lparr>reliability := rel\<rparr>) ms, [])"
  using iter_all_batch_rest [OF assms read_network_message_Nil] by simp

text \<open>(C5) A batch is read back message by message: the iterator over the concatenated encodings of
  well-formed network messages yields these messages in order, each with the reliability of the
  link, and then stops, having consumed the batch.\<close>

theorem network_batch_roundtrip:
  assumes "\<forall>m\<in>set ms. network_body_ok idf (body m)" "wcat (map write_network_message ms) = Some bs"
  shows "iter_all idf rel bs = (map (\<lambda>m. m\<lparr>reliability := rel\<rparr>) ms, [])"
  using assms by (rule iter_all_batch)

definition example_put :: Put where
  "example_put = \<lparr>put_timestamp = None, put_encoding = encoding_empty, put_ext_sinfo = None,
     put_ext_attachment = None, put_ext_unknown = [], put_payload = [1, 2]\<rparr>"

definition example_push :: NetworkMessage where
  "example_push = network_message_from (PushMsg \<lparr>ext_qos = 8, ext_tstamp = None, ext_nodeid = 3, ext_ts_stack = None,
     push_wire_expr = \<lparr>scope = 300, suffix = [97, 47, 98], we_mapping = Sender\<rparr>, push_payload = PutBody example_put\<rparr>)"

definition example_final :: NetworkMessage where
  "example_final = network_message_from (ResponseFinalMsg \<lparr>ext_qos = QOS_DEFAULT, ext_tstamp = None, rf_rid = 5\<rparr>)"

lemma example_bytes:
  "write_network_message example_push = Some [253, 172, 2, 3, 97, 47, 98, 161, 8, 51, 3, 1, 2, 1, 2]"
  "write_network_message example_final = Some [26, 5]"
  by code_simp+

theorem network_batch_roundtrip_witness:
  "iter_all Some BestEffort [253, 172, 2, 3, 97, 47, 98, 161, 8, 51, 3, 1, 2, 1, 2, 26, 5] =
     (map (\<lambda>m. m\<lparr>reliability := BestEffort\<rparr>) [example_push, example_final], [])"
proof (rule network_batch_roundtrip)
  show "\<forall>m\<in>set [example_push, example_final]. network_body_ok Some (body m)"
    by (simp add: example_push_def example_final_def example_put_def network_message_from_def push_ok_def net_ok_def
      put_ok_def wire_expr_ok_def)
  show "wcat (map write_network_message [example_push, example_final]) =
      Some [253, 172, 2, 3, 97, 47, 98, 161, 8, 51, 3, 1, 2, 1, 2, 26, 5]"
    by (simp add: example_bytes wcat.simps)
qed

end
