(* ===== verification/Routing_Namespace.thy ===== *)
theory Routing_Namespace
  imports KeyExpr_Strip Codec_Message
begin

text \<open>
  The namespace of a session (\<open>zenoh/src/net/routing/namespace.rs\<close>).  \<open>Namespace\<close> puts the prefix on
  what the session sends, \<open>ENamespace\<close> removes it from what the routing layer gives to the session and
  withholds what is outside.  The primitives behind them are a parameter: a record of functions on a
  state of their own.  The locks are not modelled, each handler being one step; the outer option is
  \<open>None\<close> when the code panics.
\<close>

section \<open>Wire expressions as strings\<close>

text \<open>A \<open>str\<close> and its bytes are the same thing in the source.\<close>

definition str_of :: "bytes \<Rightarrow> string" where
  "str_of bs = map (\<lambda>b. char_of (unat b)) bs"

definition bytes_of :: "string \<Rightarrow> bytes" where
  "bytes_of s = map (\<lambda>c. word_of_nat (of_char c)) s"

definition EMPTY_EXPR_ID :: u16 where
  "EMPTY_EXPR_ID = 0"

section \<open>Sending (\<open>Namespace\<close>)\<close>

record 'p Primitives =
  p_interest :: "Interest \<Rightarrow> 'p \<Rightarrow> 'p"
  p_declare :: "Declare \<Rightarrow> 'p \<Rightarrow> 'p"
  p_push_consume :: "Push \<Rightarrow> Reliability \<Rightarrow> bool \<Rightarrow> 'p \<Rightarrow> 'p"
  p_request :: "Request \<Rightarrow> 'p \<Rightarrow> 'p"
  p_response :: "Response \<Rightarrow> 'p \<Rightarrow> 'p"
  p_response_final :: "ResponseFinal \<Rightarrow> 'p \<Rightarrow> 'p"
  p_close :: "'p \<Rightarrow> 'p"

definition handle_namespace_egress :: "string \<Rightarrow> bool \<Rightarrow> wire_expr \<Rightarrow> wire_expr" where
  "handle_namespace_egress ns new_keyexpr_declare key_expr =
     (if scope key_expr = EMPTY_EXPR_ID \<or> new_keyexpr_declare then
        key_expr\<lparr>suffix := (if suffix key_expr = [] then bytes_of ns else bytes_of (ns @ ''/'') @ suffix key_expr)\<rparr>
      else key_expr)"

fun handle_declare_egress :: "string \<Rightarrow> DeclareBody \<Rightarrow> DeclareBody" where
  "handle_declare_egress ns (DeclKeyExpr m) = DeclKeyExpr (m\<lparr>dk_wire_expr := handle_namespace_egress ns True (dk_wire_expr m)\<rparr>)"
| "handle_declare_egress ns (UndeclKeyExpr m) = UndeclKeyExpr m"
| "handle_declare_egress ns (DeclSubscriber m) = DeclSubscriber (m\<lparr>d_wire_expr := handle_namespace_egress ns False (d_wire_expr m)\<rparr>)"
| "handle_declare_egress ns (UndeclSubscriber m) = UndeclSubscriber m"
| "handle_declare_egress ns (DeclQueryable m) = DeclQueryable (m\<lparr>dq_wire_expr := handle_namespace_egress ns False (dq_wire_expr m)\<rparr>)"
| "handle_declare_egress ns (UndeclQueryable m) =
     UndeclQueryable (m\<lparr>u_ext_wire_expr := handle_namespace_egress ns False (u_ext_wire_expr m)\<rparr>)"
| "handle_declare_egress ns (DeclToken m) = DeclToken (m\<lparr>d_wire_expr := handle_namespace_egress ns False (d_wire_expr m)\<rparr>)"
| "handle_declare_egress ns (UndeclToken m) = UndeclToken m"
| "handle_declare_egress ns DeclFinal = DeclFinal"

definition ns_send_interest :: "string \<Rightarrow> 'p Primitives \<Rightarrow> Interest \<Rightarrow> 'p \<Rightarrow> 'p" where
  "ns_send_interest ns prim msg =
     p_interest prim (msg\<lparr>i_wire_expr := map_option (handle_namespace_egress ns False) (i_wire_expr msg)\<rparr>)"

definition ns_send_declare :: "string \<Rightarrow> 'p Primitives \<Rightarrow> Declare \<Rightarrow> 'p \<Rightarrow> 'p" where
  "ns_send_declare ns prim msg = p_declare prim (msg\<lparr>decl_body := handle_declare_egress ns (decl_body msg)\<rparr>)"

definition ns_send_push_consume :: "string \<Rightarrow> 'p Primitives \<Rightarrow> Push \<Rightarrow> Reliability \<Rightarrow> bool \<Rightarrow> 'p \<Rightarrow> 'p" where
  "ns_send_push_consume ns prim msg =
     p_push_consume prim (msg\<lparr>push_wire_expr := handle_namespace_egress ns False (push_wire_expr msg)\<rparr>)"

definition ns_send_request :: "string \<Rightarrow> 'p Primitives \<Rightarrow> Request \<Rightarrow> 'p \<Rightarrow> 'p" where
  "ns_send_request ns prim msg =
     p_request prim (msg\<lparr>req_wire_expr := handle_namespace_egress ns False (req_wire_expr msg)\<rparr>)"

definition ns_send_response :: "string \<Rightarrow> 'p Primitives \<Rightarrow> Response \<Rightarrow> 'p \<Rightarrow> 'p" where
  "ns_send_response ns prim msg =
     p_response prim (msg\<lparr>resp_wire_expr := handle_namespace_egress ns False (resp_wire_expr msg)\<rparr>)"

definition ns_send_response_final :: "string \<Rightarrow> 'p Primitives \<Rightarrow> ResponseFinal \<Rightarrow> 'p \<Rightarrow> 'p" where
  "ns_send_response_final ns prim msg = p_response_final prim msg"

definition ns_send_close :: "string \<Rightarrow> 'p Primitives \<Rightarrow> 'p \<Rightarrow> 'p" where
  "ns_send_close ns prim = p_close prim"

section \<open>Receiving (\<open>ENamespace\<close>)\<close>

record 'p EPrimitives =
  e_interest :: "Interest \<Rightarrow> 'p \<Rightarrow> bool \<times> 'p"
  e_declare :: "Declare \<Rightarrow> 'p \<Rightarrow> bool \<times> 'p"
  e_push :: "Push \<Rightarrow> Reliability \<Rightarrow> 'p \<Rightarrow> bool \<times> 'p"
  e_request :: "Request \<Rightarrow> 'p \<Rightarrow> bool \<times> 'p"
  e_response :: "Response \<Rightarrow> 'p \<Rightarrow> bool \<times> 'p"
  e_response_final :: "ResponseFinal \<Rightarrow> 'p \<Rightarrow> bool \<times> 'p"

record ENamespace =
  namespace :: string
  incomplete_ingress_keyexpr_declarations :: "u16 \<Rightarrow> bytes option"
  blocked_subscribers :: "u32 set"
  blocked_queryables :: "u32 set"
  blocked_tokens :: "u32 set"
  blocked_interests :: "u32 set"

definition enamespace_new :: "string \<Rightarrow> ENamespace" where
  "enamespace_new ns = \<lparr>namespace = ns, incomplete_ingress_keyexpr_declarations = (\<lambda>_. None),
     blocked_subscribers = {}, blocked_queryables = {}, blocked_tokens = {}, blocked_interests = {}\<rparr>"

text \<open>The part of \<open>handle_namespace_ingress\<close> for an expression without scope.\<close>

definition ingress_full :: "ENamespace \<Rightarrow> wire_expr \<Rightarrow> u16 option \<Rightarrow> (bool \<times> wire_expr \<times> ENamespace) option" where
  "ingress_full st key_expr message_id =
     (case strip_nonwild_prefix (str_of (suffix key_expr)) (namespace st) of
        None \<Rightarrow> None
      | Some (Some tail) \<Rightarrow> Some (True, key_expr\<lparr>suffix := bytes_of tail\<rparr>, st)
      | Some None \<Rightarrow>
          (case message_id of
             Some i \<Rightarrow>
               Some (False, key_expr,
                 if we_mapping key_expr = Sender
                 then st\<lparr>incomplete_ingress_keyexpr_declarations :=
                   (incomplete_ingress_keyexpr_declarations st)(i := Some (suffix key_expr))\<rparr>
                 else st)
           | None \<Rightarrow> Some (False, key_expr, st)))"

text \<open>The recursive call has no scope: it is \<^const>\<open>ingress_full\<close>.\<close>

definition handle_namespace_ingress ::
    "ENamespace \<Rightarrow> wire_expr \<Rightarrow> u16 option \<Rightarrow> (bool \<times> wire_expr \<times> ENamespace) option" where
  "handle_namespace_ingress st key_expr message_id =
     (if scope key_expr \<noteq> EMPTY_EXPR_ID \<and> we_mapping key_expr = Receiver then Some (True, key_expr, st)
      else if scope key_expr \<noteq> EMPTY_EXPR_ID then
        (case incomplete_ingress_keyexpr_declarations st (scope key_expr) of
           Some head \<Rightarrow>
             if suffix key_expr = [] then Some (False, key_expr, st)
             else ingress_full st (key_expr\<lparr>scope := EMPTY_EXPR_ID, suffix := head @ suffix key_expr\<rparr>) None
         | None \<Rightarrow> Some (True, key_expr, st))
      else ingress_full st key_expr message_id)"

fun handle_declare_ingress :: "ENamespace \<Rightarrow> DeclareBody \<Rightarrow> (bool \<times> DeclareBody \<times> ENamespace) option" where
  "handle_declare_ingress st (DeclKeyExpr m) =
     do { (ok, we, st') \<leftarrow> handle_namespace_ingress st (dk_wire_expr m) (Some (dk_id m));
          Some (ok, DeclKeyExpr (m\<lparr>dk_wire_expr := we\<rparr>), st') }"
| "handle_declare_ingress st (UndeclKeyExpr m) =
     Some (incomplete_ingress_keyexpr_declarations st (uk_id m) = None, UndeclKeyExpr m,
       st\<lparr>incomplete_ingress_keyexpr_declarations := (incomplete_ingress_keyexpr_declarations st)(uk_id m := None)\<rparr>)"
| "handle_declare_ingress st (DeclSubscriber m) =
     do { (ok, we, st') \<leftarrow> handle_namespace_ingress st (d_wire_expr m) None;
          Some (ok, DeclSubscriber (m\<lparr>d_wire_expr := we\<rparr>),
            if ok then st' else st'\<lparr>blocked_subscribers := insert (d_id m) (blocked_subscribers st')\<rparr>) }"
| "handle_declare_ingress st (UndeclSubscriber m) =
     Some (u_id m \<notin> blocked_subscribers st, UndeclSubscriber m, st\<lparr>blocked_subscribers := blocked_subscribers st - {u_id m}\<rparr>)"
| "handle_declare_ingress st (DeclQueryable m) =
     do { (ok, we, st') \<leftarrow> handle_namespace_ingress st (dq_wire_expr m) None;
          Some (ok, DeclQueryable (m\<lparr>dq_wire_expr := we\<rparr>),
            if ok then st' else st'\<lparr>blocked_queryables := insert (dq_id m) (blocked_queryables st')\<rparr>) }"
| "handle_declare_ingress st (UndeclQueryable m) =
     Some (u_id m \<notin> blocked_queryables st, UndeclQueryable m, st\<lparr>blocked_queryables := blocked_queryables st - {u_id m}\<rparr>)"
| "handle_declare_ingress st (DeclToken m) =
     do { (ok, we, st') \<leftarrow> handle_namespace_ingress st (d_wire_expr m) None;
          Some (ok, DeclToken (m\<lparr>d_wire_expr := we\<rparr>),
            if ok then st' else st'\<lparr>blocked_tokens := insert (d_id m) (blocked_tokens st')\<rparr>) }"
| "handle_declare_ingress st (UndeclToken m) =
     Some (u_id m \<notin> blocked_tokens st, UndeclToken m, st\<lparr>blocked_tokens := blocked_tokens st - {u_id m}\<rparr>)"
| "handle_declare_ingress st DeclFinal = Some (True, DeclFinal, st)"

definition handle_interest_ingress :: "ENamespace \<Rightarrow> Interest \<Rightarrow> (bool \<times> Interest \<times> ENamespace) option" where
  "handle_interest_ingress st msg =
     (if i_mode msg = Final then
        Some (i_id msg \<notin> blocked_interests st, msg, st\<lparr>blocked_interests := blocked_interests st - {i_id msg}\<rparr>)
      else
        (case i_wire_expr msg of
           Some wire_expr \<Rightarrow>
             do { (ok, we, st') \<leftarrow> handle_namespace_ingress st wire_expr None;
                  Some (ok, msg\<lparr>i_wire_expr := Some we\<rparr>,
                    if ok then st' else st'\<lparr>blocked_interests := insert (i_id msg) (blocked_interests st')\<rparr>) }
         | None \<Rightarrow> Some (True, msg, st)))"

text \<open>\<open>handled && self.primitives.send(..)\<close>\<close>

definition and_send :: "bool \<Rightarrow> ('p \<Rightarrow> bool \<times> 'p) \<Rightarrow> 'p \<Rightarrow> bool \<times> 'p" where
  "and_send ok send p = (if ok then send p else (False, p))"

definition ens_send_interest :: "'p EPrimitives \<Rightarrow> Interest \<Rightarrow> ENamespace \<times> 'p \<Rightarrow> (bool \<times> ENamespace \<times> 'p) option" where
  "ens_send_interest prim msg = (\<lambda>(st, p).
     do { (ok, msg', st') \<leftarrow> handle_interest_ingress st msg;
          let (b, p') = and_send ok (e_interest prim msg') p in Some (b, st', p') })"

definition ens_send_declare :: "'p EPrimitives \<Rightarrow> Declare \<Rightarrow> ENamespace \<times> 'p \<Rightarrow> (bool \<times> ENamespace \<times> 'p) option" where
  "ens_send_declare prim msg = (\<lambda>(st, p).
     do { (ok, body, st') \<leftarrow> handle_declare_ingress st (decl_body msg);
          let (b, p') = and_send ok (e_declare prim (msg\<lparr>decl_body := body\<rparr>)) p in Some (b, st', p') })"

definition ens_send_push :: "'p EPrimitives \<Rightarrow> Push \<Rightarrow> Reliability \<Rightarrow> ENamespace \<times> 'p \<Rightarrow> (bool \<times> ENamespace \<times> 'p) option" where
  "ens_send_push prim msg rel = (\<lambda>(st, p).
     do { (ok, we, st') \<leftarrow> handle_namespace_ingress st (push_wire_expr msg) None;
          let (b, p') = and_send ok (e_push prim (msg\<lparr>push_wire_expr := we\<rparr>) rel) p in Some (b, st', p') })"

definition ens_send_request :: "'p EPrimitives \<Rightarrow> Request \<Rightarrow> ENamespace \<times> 'p \<Rightarrow> (bool \<times> ENamespace \<times> 'p) option" where
  "ens_send_request prim msg = (\<lambda>(st, p).
     do { (ok, we, st') \<leftarrow> handle_namespace_ingress st (req_wire_expr msg) None;
          let (b, p') = and_send ok (e_request prim (msg\<lparr>req_wire_expr := we\<rparr>)) p in Some (b, st', p') })"

definition ens_send_response :: "'p EPrimitives \<Rightarrow> Response \<Rightarrow> ENamespace \<times> 'p \<Rightarrow> (bool \<times> ENamespace \<times> 'p) option" where
  "ens_send_response prim msg = (\<lambda>(st, p).
     do { (ok, we, st') \<leftarrow> handle_namespace_ingress st (resp_wire_expr msg) None;
          let (b, p') = and_send ok (e_response prim (msg\<lparr>resp_wire_expr := we\<rparr>)) p in Some (b, st', p') })"

definition ens_send_response_final ::
    "'p EPrimitives \<Rightarrow> ResponseFinal \<Rightarrow> ENamespace \<times> 'p \<Rightarrow> (bool \<times> ENamespace \<times> 'p) option" where
  "ens_send_response_final prim msg = (\<lambda>(st, p). let (b, p') = e_response_final prim msg p in Some (b, st, p'))"

section \<open>Runs\<close>

text \<open>One message through the sending and the receiving side; the reliability of a push is that of the
  message's channel.\<close>

fun ns_send :: "string \<Rightarrow> 'p Primitives \<Rightarrow> NetworkBody \<times> Reliability \<Rightarrow> 'p \<Rightarrow> 'p" where
  "ns_send ns prim (InterestMsg m, r) = ns_send_interest ns prim m"
| "ns_send ns prim (DeclareMsg m, r) = ns_send_declare ns prim m"
| "ns_send ns prim (PushMsg m, r) = ns_send_push_consume ns prim m r True"
| "ns_send ns prim (RequestMsg m, r) = ns_send_request ns prim m"
| "ns_send ns prim (ResponseMsg m, r) = ns_send_response ns prim m"
| "ns_send ns prim (ResponseFinalMsg m, r) = ns_send_response_final ns prim m"
| "ns_send ns prim (OAMMsg m, r) = id"

fun ens_send :: "'p EPrimitives \<Rightarrow> NetworkBody \<times> Reliability \<Rightarrow> ENamespace \<times> 'p \<Rightarrow> (bool \<times> ENamespace \<times> 'p) option" where
  "ens_send prim (InterestMsg m, r) = ens_send_interest prim m"
| "ens_send prim (DeclareMsg m, r) = ens_send_declare prim m"
| "ens_send prim (PushMsg m, r) = ens_send_push prim m r"
| "ens_send prim (RequestMsg m, r) = ens_send_request prim m"
| "ens_send prim (ResponseMsg m, r) = ens_send_response prim m"
| "ens_send prim (ResponseFinalMsg m, r) = ens_send_response_final prim m"
| "ens_send prim (OAMMsg m, r) = (\<lambda>(st, p). Some (True, st, p))"

fun ens_run :: "'p EPrimitives \<Rightarrow> (NetworkBody \<times> Reliability) list \<Rightarrow> ENamespace \<times> 'p \<Rightarrow> (ENamespace \<times> 'p) option" where
  "ens_run prim [] s = Some s"
| "ens_run prim (m # ms) s = (case ens_send prim m s of None \<Rightarrow> None | Some (_, s') \<Rightarrow> ens_run prim ms s')"

definition ns_run :: "string \<Rightarrow> 'p Primitives \<Rightarrow> (NetworkBody \<times> Reliability) list \<Rightarrow> 'p \<Rightarrow> 'p" where
  "ns_run ns prim ms p = fold (ns_send ns prim) ms p"

text \<open>Primitives that record what they are given.\<close>

definition wire :: "(NetworkBody \<times> Reliability) list Primitives" where
  "wire = \<lparr>p_interest = \<lambda>m l. l @ [(InterestMsg m, RELIABILITY_DEFAULT)], p_declare = \<lambda>m l. l @ [(DeclareMsg m, RELIABILITY_DEFAULT)],
     p_push_consume = \<lambda>m r _ l. l @ [(PushMsg m, r)], p_request = \<lambda>m l. l @ [(RequestMsg m, RELIABILITY_DEFAULT)],
     p_response = \<lambda>m l. l @ [(ResponseMsg m, RELIABILITY_DEFAULT)],
     p_response_final = \<lambda>m l. l @ [(ResponseFinalMsg m, RELIABILITY_DEFAULT)], p_close = id\<rparr>"

definition session :: "(NetworkBody \<times> Reliability) list EPrimitives" where
  "session = \<lparr>e_interest = \<lambda>m l. (True, l @ [(InterestMsg m, RELIABILITY_DEFAULT)]),
     e_declare = \<lambda>m l. (True, l @ [(DeclareMsg m, RELIABILITY_DEFAULT)]), e_push = \<lambda>m r l. (True, l @ [(PushMsg m, r)]),
     e_request = \<lambda>m l. (True, l @ [(RequestMsg m, RELIABILITY_DEFAULT)]),
     e_response = \<lambda>m l. (True, l @ [(ResponseMsg m, RELIABILITY_DEFAULT)]),
     e_response_final = \<lambda>m l. (True, l @ [(ResponseFinalMsg m, RELIABILITY_DEFAULT)])\<rparr>"

section \<open>The prefix comes and goes\<close>

lemma str_of_bytes_of [simp]: "str_of (bytes_of s) = s"
proof -
  have "unat (word_of_nat (of_char c) :: u8) = of_char c" for c :: char
    using nat_of_char_less_256 [of c] by (simp add: unat_of_nat take_bit_nat_eq_self)
  then show ?thesis by (simp add: str_of_def bytes_of_def comp_def)
qed

lemma bytes_of_str_of [simp]: "bytes_of (str_of bs) = bs"
proof -
  have "of_char (char_of (unat b) :: char) = unat b" for b :: u8
  proof -
    have "unat b < 2 ^ LENGTH(8)" by (rule unsigned_less)
    then show ?thesis by (simp add: of_char_of)
  qed
  then show ?thesis by (simp add: str_of_def bytes_of_def comp_def)
qed

lemma str_of_append [simp]: "str_of (a @ b) = str_of a @ str_of b"
  by (simp add: str_of_def)

lemma bytes_of_append: "bytes_of (a @ b) = bytes_of a @ bytes_of b"
  by (simp add: bytes_of_def)

lemma str_of_Nil [simp]: "str_of bs = [] \<longleftrightarrow> bs = []"
  by (simp add: str_of_def)

lemma bytes_of_Nil [simp]: "bytes_of s = [] \<longleftrightarrow> s = []"
  by (simp add: bytes_of_def)

lemma chunk_end_slash: "CHR ''/'' \<notin> set c \<Longrightarrow> chunk_end (c @ CHR ''/'' # t) = length c"
  by (subst chunk_end_def, subst position_append) auto

lemma strip_inner_self:
  assumes "ks \<noteq> []" "list_all key_chunk ks"
  shows "strip_inner (pre ks @ k) (join_chunks ks) = Some (Some k)"
  using assms
proof (induction ks)
  case (Cons c ks)
  then have c: "key_chunk c" "CHR ''/'' \<notin> set c" "c \<noteq> []" "hd c \<noteq> CHR ''*''"
    using key_chunkD [of c] by (auto simp: neq_Nil_conv)
  have m: "is_chunk_matching c c" using c chunk_loop_self [of c] by (simp add: is_chunk_matching_def verbatim_apart_iff key_chunk_def)
  have t: "pre (c # ks) @ k = c @ CHR ''/'' # (pre ks @ k)" by (simp add: pre_Cons)
  note cj = chunk_join [OF key_chunk_plain [OF c(1)], of ks]
  have "strip_inner (pre (c # ks) @ k) (join_chunks (c # ks)) =
      (if ks = [] then Some (Some (pre ks @ k)) else strip_inner (pre ks @ k) (join_chunks ks))"
    unfolding t by (subst strip_inner.simps) (use c m cj chunk_end_slash [OF c(2)] in \<open>simp add: Let_def\<close>)
  then show ?case using Cons by (simp add: pre_def)
qed simp

lemma strip_own:
  assumes "is_key (split_on DELIMITER ns)"
  shows "strip_nonwild_prefix (ns @ CHR ''/'' # k) ns = Some (Some k)"
proof -
  let ?ks = "split_on (CHR ''/'') ns"
  have "strip_inner (pre ?ks @ k) (join_chunks ?ks) = Some (Some k)" using assms by (intro strip_inner_self) (auto simp: is_key_def)
  then show ?thesis by (simp add: strip_nonwild_prefix_def pre_def join_split_on)
qed

text \<open>An expression of a session: not empty, or with a scope.\<close>

definition expr_ok :: "wire_expr \<Rightarrow> bool" where
  "expr_ok we \<longleftrightarrow> (scope we = EMPTY_EXPR_ID \<longrightarrow> suffix we \<noteq> [])"

definition open_state :: "ENamespace \<Rightarrow> bool" where
  "open_state st \<longleftrightarrow> is_key (split_on DELIMITER (namespace st)) \<and> incomplete_ingress_keyexpr_declarations st = (\<lambda>_. None) \<and>
     blocked_subscribers st = {} \<and> blocked_queryables st = {} \<and> blocked_tokens st = {} \<and> blocked_interests st = {}"

lemma ingress_egress:
  assumes "open_state st" "expr_ok we" "d \<longrightarrow> scope we = EMPTY_EXPR_ID"
  shows "handle_namespace_ingress st (handle_namespace_egress (namespace st) d we) i = Some (True, we, st)"
proof (cases "scope we = EMPTY_EXPR_ID")
  case True
  have "suffix we \<noteq> []" using assms(2) True by (simp add: expr_ok_def)
  moreover have "strip_nonwild_prefix (namespace st @ CHR ''/'' # str_of (suffix we)) (namespace st) = Some (Some (str_of (suffix we)))"
    using assms(1) by (intro strip_own) (simp add: open_state_def)
  ultimately show ?thesis
    using True by (simp add: handle_namespace_ingress_def handle_namespace_egress_def ingress_full_def)
next
  case False
  then show ?thesis
    using assms(1,3) by (simp add: handle_namespace_ingress_def handle_namespace_egress_def open_state_def)
qed

text \<open>What a session sends: full expressions that are not empty or expressions with a scope, and key expressions
  declared in full.  An undeclaration and a final interest may carry any expression or none.\<close>

fun decl_ok :: "DeclareBody \<Rightarrow> bool" where
  "decl_ok (DeclKeyExpr m) \<longleftrightarrow> expr_ok (dk_wire_expr m) \<and> scope (dk_wire_expr m) = EMPTY_EXPR_ID"
| "decl_ok (DeclSubscriber m) \<longleftrightarrow> expr_ok (d_wire_expr m)"
| "decl_ok (DeclQueryable m) \<longleftrightarrow> expr_ok (dq_wire_expr m)"
| "decl_ok (DeclToken m) \<longleftrightarrow> expr_ok (d_wire_expr m)"
| "decl_ok _ \<longleftrightarrow> True"

fun msg_ok :: "NetworkBody \<times> Reliability \<Rightarrow> bool" where
  "msg_ok (InterestMsg m, r) \<longleftrightarrow> r = RELIABILITY_DEFAULT \<and>
     (case i_wire_expr m of None \<Rightarrow> True | Some we \<Rightarrow> i_mode m = Final \<or> expr_ok we)"
| "msg_ok (DeclareMsg m, r) \<longleftrightarrow> r = RELIABILITY_DEFAULT \<and> decl_ok (decl_body m)"
| "msg_ok (PushMsg m, r) \<longleftrightarrow> expr_ok (push_wire_expr m)"
| "msg_ok (RequestMsg m, r) \<longleftrightarrow> r = RELIABILITY_DEFAULT \<and> expr_ok (req_wire_expr m)"
| "msg_ok (ResponseMsg m, r) \<longleftrightarrow> r = RELIABILITY_DEFAULT \<and> expr_ok (resp_wire_expr m)"
| "msg_ok (ResponseFinalMsg m, r) \<longleftrightarrow> r = RELIABILITY_DEFAULT"
| "msg_ok (OAMMsg m, r) \<longleftrightarrow> False"

text \<open>What arrives of it: the message itself, except that the undeclaration of a queryable and a final interest keep
  the prefix that was put on their expression, which the receiving side does not look at.\<close>

definition prefixed :: "string \<Rightarrow> wire_expr \<Rightarrow> wire_expr" where
  "prefixed ns we = (if scope we \<noteq> 0 then we
     else we\<lparr>suffix := bytes_of (if suffix we = [] then ns else ns @ ''/'' @ str_of (suffix we))\<rparr>)"

fun decl_arrives :: "string \<Rightarrow> DeclareBody \<Rightarrow> DeclareBody" where
  "decl_arrives ns (UndeclQueryable m) = UndeclQueryable (m\<lparr>u_ext_wire_expr := prefixed ns (u_ext_wire_expr m)\<rparr>)"
| "decl_arrives ns b = b"

fun arrives :: "string \<Rightarrow> NetworkBody \<times> Reliability \<Rightarrow> NetworkBody \<times> Reliability" where
  "arrives ns (DeclareMsg m, r) = (DeclareMsg (m\<lparr>decl_body := decl_arrives ns (decl_body m)\<rparr>), r)"
| "arrives ns (InterestMsg m, r) =
     (InterestMsg (if i_mode m = Final then m\<lparr>i_wire_expr := map_option (prefixed ns) (i_wire_expr m)\<rparr> else m), r)"
| "arrives ns m = m"

lemma egress_prefixed: "handle_namespace_egress ns False = prefixed ns"
proof
  fix we :: wire_expr
  have "bytes_of (CHR ''/'' # str_of (suffix we)) = bytes_of ''/'' @ suffix we"
    using bytes_of_append [of "''/''" "str_of (suffix we)"] by simp
  then show "handle_namespace_egress ns False we = prefixed ns we"
    by (simp add: handle_namespace_egress_def prefixed_def EMPTY_EXPR_ID_def bytes_of_append)
qed

lemma declare_through:
  assumes "open_state st" "decl_ok b"
  shows "handle_declare_ingress st (handle_declare_egress (namespace st) b) = Some (True, decl_arrives (namespace st) b, st)"
  using assms(2)
proof (cases b)
  case (UndeclQueryable m)
  then show ?thesis using assms by (simp add: open_state_def egress_prefixed)
qed (use assms in \<open>simp_all add: ingress_egress fun_upd_idem\<close>, simp_all add: open_state_def fun_upd_idem)

lemma interest_through:
  assumes "open_state st" "msg_ok (InterestMsg i, r)"
  shows "handle_interest_ingress st (i\<lparr>i_wire_expr := map_option (handle_namespace_egress (namespace st) False) (i_wire_expr i)\<rparr>) =
    Some (True, if i_mode i = Final then i\<lparr>i_wire_expr := map_option (prefixed (namespace st)) (i_wire_expr i)\<rparr> else i, st)"
proof (cases "i_mode i = Final")
  case True
  then show ?thesis using assms(1) by (simp add: handle_interest_ingress_def open_state_def egress_prefixed)
next
  case False
  then show ?thesis using assms by (auto simp: handle_interest_ingress_def ingress_egress split: option.splits)
qed

lemma msg_through:
  assumes "open_state st" "msg_ok m"
  shows "\<exists>w. (\<forall>l. ns_send (namespace st) wire m l = l @ [w]) \<and>
    (\<forall>p. ens_send session w (st, p) = Some (True, st, p @ [arrives (namespace st) m]))"
proof -
  obtain b r where m: "m = (b, r)" by (cases m)
  note defs = ns_send_interest_def ens_send_interest_def ns_send_declare_def ens_send_declare_def
    ns_send_push_consume_def ens_send_push_def ns_send_request_def ens_send_request_def ns_send_response_def ens_send_response_def
    ns_send_response_final_def ens_send_response_final_def wire_def session_def and_send_def
  show ?thesis
    using assms m interest_through [OF assms(1)]
    by (cases b) (auto simp: defs ingress_egress declare_through)
qed

text \<open>(C7) A namespace is transparent: let a session in a namespace send any messages with full, non-empty expressions or
  expressions with a scope (key expressions are declared in full; an undeclaration and a final interest may carry any expression
  or none).  When they are handed to a session of the same namespace, it is given all of them, in order, and no state is left
  behind; each is exactly as it was sent, with two exceptions.  The undeclaration of a queryable and a final interest
  arrive with the namespace put in front of their expression if that has no scope: the undeclaration that a session sends,
  with an empty expression, arrives with the namespace as its expression.\<close>

theorem namespace_transparent:
  assumes "is_key (split_on DELIMITER ns)" "\<forall>m\<in>set ms. msg_ok m"
  shows "ens_run session (ns_run ns wire ms []) (enamespace_new ns, []) = Some (enamespace_new ns, map (arrives ns) ms)"
proof -
  let ?st = "enamespace_new ns"
  have st: "open_state ?st" "namespace ?st = ns" using assms(1) by (simp_all add: open_state_def enamespace_new_def)
  have "\<exists>ws. ns_run ns wire ms l = l @ ws \<and> ens_run session ws (?st, p) = Some (?st, p @ map (arrives ns) ms)" for l p
    using assms(2)
  proof (induction ms arbitrary: l p)
    case (Cons m ms)
    obtain w where w: "\<And>l. ns_send ns wire m l = l @ [w]"
      "\<And>p. ens_send session w (?st, p) = Some (True, ?st, p @ [arrives ns m])"
      using msg_through [OF st(1), of m] Cons.prems st(2) by auto
    obtain ws where "ns_run ns wire ms (l @ [w]) = (l @ [w]) @ ws"
      "ens_run session ws (?st, p @ [arrives ns m]) = Some (?st, (p @ [arrives ns m]) @ map (arrives ns) ms)"
      using Cons.IH [of "l @ [w]" "p @ [arrives ns m]"] Cons.prems by auto
    then show ?case using w by (intro exI [of _ "w # ws"]) (simp add: ns_run_def)
  qed (simp add: ns_run_def)
  from this [of "[]" "[]"] show ?thesis by auto
qed

definition example_expr :: wire_expr where
  "example_expr = \<lparr>scope = 0, suffix = bytes_of ''a/*'', we_mapping = Sender\<rparr>"

definition example_declare :: Declare where
  "example_declare = \<lparr>ext_qos = QOS_DEFAULT, ext_tstamp = None, ext_nodeid = NODE_DEFAULT, decl_interest_id = None,
     decl_body = DeclSubscriber \<lparr>d_id = 7, d_wire_expr = example_expr\<rparr>\<rparr>"

definition example_undeclare_queryable :: "bytes \<Rightarrow> Declare" where
  "example_undeclare_queryable e = example_declare\<lparr>decl_body := UndeclQueryable \<lparr>u_id = 8,
     u_ext_wire_expr = \<lparr>scope = 0, suffix = e, we_mapping = Receiver\<rparr>\<rparr>\<rparr>"

theorem namespace_transparent_witness:
  "ens_run session (ns_run ''org/team'' wire [(DeclareMsg example_declare, RELIABILITY_DEFAULT),
       (DeclareMsg (example_undeclare_queryable []), RELIABILITY_DEFAULT)] []) (enamespace_new ''org/team'', []) =
     Some (enamespace_new ''org/team'', [(DeclareMsg example_declare, RELIABILITY_DEFAULT),
       (DeclareMsg (example_undeclare_queryable (bytes_of ''org/team'')), RELIABILITY_DEFAULT)])"
proof -
  have "is_key (split_on DELIMITER ''org/team'')" by (simp add: is_key_def key_chunk_def key_char_def)
  then show ?thesis
    using namespace_transparent [of "''org/team''" "[(DeclareMsg example_declare, RELIABILITY_DEFAULT),
        (DeclareMsg (example_undeclare_queryable []), RELIABILITY_DEFAULT)]"]
    by (simp add: example_declare_def example_undeclare_queryable_def example_expr_def expr_ok_def prefixed_def bytes_of_def)
qed

section \<open>Isolation\<close>

text \<open>(C22) A namespace isolates: for a valid full expression (with literal verbatim chunks, and a namespace with \<open>@\<close> at the
  beginning of chunks only) reception does not panic; when it is accepted, every key of the expression that the session sees is,
  inside the namespace, a key of the expression received; when it is refused and has no \<open>$*\<close>, no key of the namespace belongs to it.\<close>

theorem namespace_isolates:
  assumes "is_key (split_on DELIMITER (namespace st))" "list_all at_start (split_on DELIMITER (namespace st))"
    and "scope we = 0" "valid_ke (str_of (suffix we))" "verbatim_literal (split_on DELIMITER (str_of (suffix we)))"
  shows "\<exists>ok we' st'. handle_namespace_ingress st we i = Some (ok, we', st') \<and>
    (ok \<longrightarrow> valid_ke (str_of (suffix we')) \<and> st' = st \<and>
      (\<forall>ks\<in>ke_keys (str_of (suffix we')). split_on DELIMITER (namespace st) @ ks \<in> ke_keys (str_of (suffix we)))) \<and>
    (\<not> ok \<and> CHR ''$'' \<notin> set (str_of (suffix we)) \<longrightarrow>
      (\<forall>ks. is_key ks \<longrightarrow> split_on DELIMITER (namespace st) @ ks \<notin> ke_keys (str_of (suffix we))))"
proof -
  obtain r where r: "strip_nonwild_prefix (str_of (suffix we)) (namespace st) = Some r"
    "\<forall>k. r = Some k \<longrightarrow> valid_ke k \<and> (\<forall>ks\<in>ke_keys k. split_on DELIMITER (namespace st) @ ks \<in> ke_keys (str_of (suffix we)))"
    "r = None \<and> CHR ''$'' \<notin> set (str_of (suffix we)) \<longrightarrow>
      (\<forall>ks. is_key ks \<longrightarrow> split_on DELIMITER (namespace st) @ ks \<notin> ke_keys (str_of (suffix we)))"
    using strip_keys [OF assms(4,5,1,2)] by blast
  then show ?thesis
    using assms(3) by (cases r; cases i) (auto simp: handle_namespace_ingress_def ingress_full_def EMPTY_EXPR_ID_def)
qed

theorem namespace_isolates_witness:
  "\<exists>ok we' st'. handle_namespace_ingress (enamespace_new ''a'') example_expr None = Some (ok, we', st') \<and>
    (ok \<longrightarrow> valid_ke (str_of (suffix we')) \<and> st' = enamespace_new ''a'' \<and>
      (\<forall>ks\<in>ke_keys (str_of (suffix we')). split_on DELIMITER (namespace (enamespace_new ''a'')) @ ks \<in> ke_keys (str_of (suffix example_expr)))) \<and>
    (\<not> ok \<and> CHR ''$'' \<notin> set (str_of (suffix example_expr)) \<longrightarrow>
      (\<forall>ks. is_key ks \<longrightarrow> split_on DELIMITER (namespace (enamespace_new ''a'')) @ ks \<notin> ke_keys (str_of (suffix example_expr))))"
  by (rule namespace_isolates)
    (simp_all add: example_expr_def enamespace_new_def is_key_def key_chunk_def key_char_def at_start_def
      valid_ke_ok ke_ok_def chunk_ok_def verbatim_literal_def)

section \<open>Declarations and undeclarations\<close>



text \<open>What a message declares or undeclares, and sequences in which nothing is declared twice and only what is
  declared is undeclared.\<close>

datatype entity = Subscriber u32 | Queryable u32 | Token u32 | CurrentInterest u32




definition blocked :: "ENamespace \<Rightarrow> entity set" where
  "blocked st = Subscriber ` blocked_subscribers st \<union> Queryable ` blocked_queryables st \<union> Token ` blocked_tokens st \<union>
     CurrentInterest ` blocked_interests st"

definition ns_ok :: "ENamespace \<Rightarrow> bool" where
  "ns_ok st \<longleftrightarrow> is_key (split_on DELIMITER (namespace st)) \<and> list_all at_start (split_on DELIMITER (namespace st))"

lemma blocked_updates [simp]:
  "blocked (st\<lparr>incomplete_ingress_keyexpr_declarations := x\<rparr>) = blocked st"
  "blocked (st\<lparr>blocked_subscribers := insert i (blocked_subscribers st)\<rparr>) = insert (Subscriber i) (blocked st)"
  "blocked (st\<lparr>blocked_queryables := insert i (blocked_queryables st)\<rparr>) = insert (Queryable i) (blocked st)"
  "blocked (st\<lparr>blocked_tokens := insert i (blocked_tokens st)\<rparr>) = insert (Token i) (blocked st)"
  "blocked (st\<lparr>blocked_interests := insert i (blocked_interests st)\<rparr>) = insert (CurrentInterest i) (blocked st)"
  "blocked (st\<lparr>blocked_subscribers := blocked_subscribers st - {i}\<rparr>) = blocked st - {Subscriber i}"
  "blocked (st\<lparr>blocked_queryables := blocked_queryables st - {i}\<rparr>) = blocked st - {Queryable i}"
  "blocked (st\<lparr>blocked_tokens := blocked_tokens st - {i}\<rparr>) = blocked st - {Token i}"
  "blocked (st\<lparr>blocked_interests := blocked_interests st - {i}\<rparr>) = blocked st - {CurrentInterest i}"
  by (auto simp: blocked_def)

lemma in_blocked [simp]:
  "Subscriber i \<in> blocked st \<longleftrightarrow> i \<in> blocked_subscribers st" "Queryable i \<in> blocked st \<longleftrightarrow> i \<in> blocked_queryables st"
  "Token i \<in> blocked st \<longleftrightarrow> i \<in> blocked_tokens st" "CurrentInterest i \<in> blocked st \<longleftrightarrow> i \<in> blocked_interests st"
  by (auto simp: blocked_def)

lemma ns_ok_updates [simp]:
  "ns_ok (st\<lparr>incomplete_ingress_keyexpr_declarations := x\<rparr>) = ns_ok st" "ns_ok (st\<lparr>blocked_subscribers := y\<rparr>) = ns_ok st"
  "ns_ok (st\<lparr>blocked_queryables := y\<rparr>) = ns_ok st" "ns_ok (st\<lparr>blocked_tokens := y\<rparr>) = ns_ok st"
  "ns_ok (st\<lparr>blocked_interests := y\<rparr>) = ns_ok st"
  by (simp_all add: ns_ok_def)















text \<open>A key expression declared on top of an incomplete one is withheld but not remembered when the concatenation does not
  reach into the namespace: what refers to it is given to the session with an identifier that it does not know.\<close>

lemma nested_declaration_forgotten:
  "\<exists>st1 st2. handle_declare_ingress (enamespace_new ''a/b'') (DeclKeyExpr \<lparr>dk_id = 1, dk_wire_expr = \<lparr>scope = 0, suffix = bytes_of ''a'', we_mapping = Sender\<rparr>\<rparr>) =
       Some (False, DeclKeyExpr \<lparr>dk_id = 1, dk_wire_expr = \<lparr>scope = 0, suffix = bytes_of ''a'', we_mapping = Sender\<rparr>\<rparr>, st1) \<and>
     handle_declare_ingress st1 (DeclKeyExpr \<lparr>dk_id = 2, dk_wire_expr = \<lparr>scope = 1, suffix = bytes_of ''/b'', we_mapping = Sender\<rparr>\<rparr>) =
       Some (False, DeclKeyExpr \<lparr>dk_id = 2, dk_wire_expr = \<lparr>scope = 0, suffix = bytes_of ''a/b'', we_mapping = Sender\<rparr>\<rparr>, st2) \<and>
     handle_namespace_ingress st2 \<lparr>scope = 2, suffix = bytes_of ''/c'', we_mapping = Sender\<rparr> None =
       Some (True, \<lparr>scope = 2, suffix = bytes_of ''/c'', we_mapping = Sender\<rparr>, st2)"
proof -
  have s: "strip_nonwild_prefix ''a'' ''a/b'' = Some None" "strip_nonwild_prefix ''a/b'' ''a/b'' = Some None" by code_simp+
  have c: "bytes_of ''a'' @ bytes_of ''/b'' = bytes_of ''a/b''" by (simp add: bytes_of_def)
  show ?thesis
    by (simp add: handle_namespace_ingress_def ingress_full_def enamespace_new_def EMPTY_EXPR_ID_def s c)
qed

end
