(* ===== verification/Core_Resolution.thy ===== *)
theory Core_Resolution
  imports Prelude
begin

text \<open>
  The negotiated resolutions of sequence numbers and request identifiers
  (\<open>commons/zenoh-protocol/src/core/resolution.rs\<close>): the enumeration of widths with its
  textual form, and the byte that packs the width of both fields two bits apart.
\<close>

section \<open>Widths\<close>

datatype Bits = U8 | U16 | U32 | U64

fun bits_as_u8 :: "Bits \<Rightarrow> u8" where
  "bits_as_u8 U8 = 0" | "bits_as_u8 U16 = 1" | "bits_as_u8 U32 = 2" | "bits_as_u8 U64 = 3"

fun bits_bits :: "Bits \<Rightarrow> u32" where
  "bits_bits U8 = 8" | "bits_bits U16 = 16" | "bits_bits U32 = 32" | "bits_bits U64 = 64"

fun bits_mask :: "Bits \<Rightarrow> u64" where
  "bits_mask U8 = 0xff"
| "bits_mask U16 = 0xffff"
| "bits_mask U32 = 0xffffffff"
| "bits_mask U64 = 0xffffffffffffffff"

fun bits_to_str :: "Bits \<Rightarrow> string" where
  "bits_to_str U8 = ''8bit''"
| "bits_to_str U16 = ''16bit''"
| "bits_to_str U32 = ''32bit''"
| "bits_to_str U64 = ''64bit''"

definition bits_from_str :: "string \<Rightarrow> Bits option" where
  "bits_from_str s =
     (if s = ''8bit'' then Some U8
      else if s = ''16bit'' then Some U16
      else if s = ''32bit'' then Some U32
      else if s = ''64bit'' then Some U64
      else None)"

text \<open>The transmutation of a two-bit value; it is only applied to values below four.\<close>

definition bits_transmute :: "u8 \<Rightarrow> Bits" where
  "bits_transmute v = (if v = 0 then U8 else if v = 1 then U16 else if v = 2 then U32 else U64)"

section \<open>The packed byte\<close>

datatype Field = FrameSN | RequestID

fun field_as_u8 :: "Field \<Rightarrow> nat" where
  "field_as_u8 FrameSN = 0" | "field_as_u8 RequestID = 2"

datatype Resolution = Resolution (as_u8: u8)

definition resolution_get :: "Resolution \<Rightarrow> Field \<Rightarrow> Bits" where
  "resolution_get r field = bits_transmute (drop_bit (field_as_u8 field) (as_u8 r) AND 0x3)"

definition resolution_set :: "Resolution \<Rightarrow> Field \<Rightarrow> Bits \<Rightarrow> Resolution" where
  "resolution_set r field bits =
     (let v = as_u8 r AND NOT (push_bit (field_as_u8 field) 0x3)
      in Resolution (v OR push_bit (field_as_u8 field) (bits_as_u8 bits)))"

definition resolution_default :: Resolution where
  "resolution_default = Resolution (bits_as_u8 U32 OR push_bit 2 (bits_as_u8 U32))"

section \<open>Lemmas\<close>

lemma bits_str_roundtrip: "bits_from_str (bits_to_str b) = Some b"
  by (cases b) (simp_all add: bits_from_str_def)

lemma bits_from_str_Some: "bits_from_str s = Some b \<longleftrightarrow> s = bits_to_str b"
  by (cases b) (auto simp: bits_from_str_def)

lemma bits_mask_eq: "bits_mask b = mask (unat (bits_bits b))"
  by (cases b) (simp_all add: mask_eq_exp_minus_1)

lemma bits_transmute_as_u8 [simp]: "bits_transmute (bits_as_u8 b) = b"
  by (cases b) (simp_all add: bits_transmute_def)

lemma bits_as_u8_and_3 [simp]: "bits_as_u8 b AND 3 = bits_as_u8 b"
  by (cases b) simp_all

lemma mask_2_u8: "(3 :: u8) = mask 2"
  by (simp add: mask_eq_exp_minus_1)

text \<open>A two-bit field written at offset \<open>n\<close> reads back, and the field at another offset is kept.\<close>

lemma two_bit_field_same:
  fixes v w :: u8
  assumes "n + 2 \<le> 8"
  shows "drop_bit n ((v AND NOT (push_bit n 3)) OR push_bit n w) AND 3 = w AND 3"
  unfolding mask_2_u8 using assms
  by (intro bit_word_eqI) (auto simp: bit_simps)

lemma two_bit_field_other:
  fixes v w :: u8
  assumes "n + 2 \<le> m \<or> m + 2 \<le> n" and "w AND 3 = w" and "m + 2 \<le> 8"
  shows "drop_bit m ((v AND NOT (push_bit n 3)) OR push_bit n w) AND 3 = drop_bit m v AND 3"
proof -
  have w: "bit w i \<Longrightarrow> i < 2" for i
    using assms(2) bit_and_iff[of w 3 i] unfolding mask_2_u8 by (simp add: bit_simps)
  show ?thesis
    unfolding mask_2_u8 using assms
    by (intro bit_word_eqI) (auto simp: bit_simps dest: w)
qed

lemma resolution_get_set:
  "resolution_get (resolution_set r f b) f' = (if f = f' then b else resolution_get r f')"
proof (cases "f = f'")
  case True
  then show ?thesis
    by (cases f) (simp_all add: resolution_get_def resolution_set_def two_bit_field_same [of 0, simplified]
        two_bit_field_same [of 2, simplified])
next
  case False
  have "field_as_u8 f + 2 \<le> field_as_u8 f' \<or> field_as_u8 f' + 2 \<le> field_as_u8 f"
    using False by (cases f; cases f') simp_all
  moreover have "field_as_u8 f' + 2 \<le> 8" by (cases f') simp_all
  ultimately show ?thesis
    using False two_bit_field_other [OF _ bits_as_u8_and_3, of "field_as_u8 f" "field_as_u8 f'"]
    by (simp only: resolution_get_def resolution_set_def Let_def Resolution.sel if_False)
qed

lemma resolution_get_default: "resolution_get resolution_default f = U32"
  by (cases f) (simp_all add: resolution_default_def resolution_get_def bits_transmute_def)

end
