(* ===== verification/Transport_SeqNum.thy ===== *)
theory Transport_SeqNum
  imports Core_Resolution
begin

text \<open>
  Sequence numbers with a negotiated resolution
  (\<open>io/zenoh-transport/src/common/seq_num.rs\<close>): the wrapping counter, the half-window
  precedence test, the roll that accepts a received number, and the generator used by
  senders.  The theory relates them to an unbounded counter: a receiver that only sees
  numbers less than half a window away behaves as if sequence numbers never wrapped.
\<close>

section \<open>Sequence numbers\<close>

type_synonym TransportSn = u32

datatype sn_error = SnOutOfResolution

definition RES_U8 :: TransportSn where "RES_U8 = ucast (drop_bit 1 (0xff :: u8))"
definition RES_U16 :: TransportSn where "RES_U16 = ucast (drop_bit 2 (0xffff :: u16))"
definition RES_U32 :: TransportSn where "RES_U32 = ucast (drop_bit 4 (0xffffffff :: u32))"
definition RES_U64 :: TransportSn where "RES_U64 = ucast (drop_bit 1 (0xffffffffffffffff :: u64))"

fun get_mask :: "Bits \<Rightarrow> TransportSn" where
  "get_mask U8 = RES_U8"
| "get_mask U16 = RES_U16"
| "get_mask U32 = RES_U32"
| "get_mask U64 = RES_U64"

record SeqNum =
  sn_value :: TransportSn
  sn_mask :: TransportSn

definition sn_get :: "SeqNum \<Rightarrow> TransportSn" where
  "sn_get s = sn_value s"

definition sn_next :: "SeqNum \<Rightarrow> TransportSn" where
  "sn_next s = (sn_value s + 1) AND sn_mask s"

definition sn_resolution :: "SeqNum \<Rightarrow> TransportSn" where
  "sn_resolution s = sn_mask s"

definition sn_set :: "SeqNum \<Rightarrow> TransportSn \<Rightarrow> sn_error + SeqNum" where
  "sn_set s value =
     (if value AND NOT (sn_mask s) \<noteq> 0 then Inl SnOutOfResolution
      else Inr (s\<lparr>sn_value := value\<rparr>))"

definition sn_make :: "TransportSn \<Rightarrow> Bits \<Rightarrow> sn_error + SeqNum" where
  "sn_make value resolution =
     (let m = get_mask resolution in sn_set \<lparr>sn_value = 0, sn_mask = m\<rparr> value)"

definition sn_increment :: "SeqNum \<Rightarrow> SeqNum" where
  "sn_increment s = s\<lparr>sn_value := sn_next s\<rparr>"

definition sn_precedes :: "SeqNum \<Rightarrow> TransportSn \<Rightarrow> sn_error + bool" where
  "sn_precedes s value =
     (if value AND NOT (sn_mask s) \<noteq> 0 then Inl SnOutOfResolution
      else let gap = (value - sn_value s) AND sn_mask s
           in Inr (gap \<noteq> 0 \<and> gap AND NOT (drop_bit 1 (sn_mask s)) = 0))"

definition sn_roll :: "SeqNum \<Rightarrow> TransportSn \<Rightarrow> sn_error + (bool \<times> SeqNum)" where
  "sn_roll s value =
     (if value AND NOT (sn_mask s) \<noteq> 0 then Inl SnOutOfResolution
      else let gap = (value - sn_value s) AND sn_mask s
           in if gap \<noteq> 0 \<and> gap AND NOT (drop_bit 1 (sn_mask s)) = 0
              then Inr (True, s\<lparr>sn_value := value\<rparr>)
              else Inr (False, s))"

definition sn_gap :: "SeqNum \<Rightarrow> TransportSn \<Rightarrow> sn_error + TransportSn" where
  "sn_gap s value =
     (if value AND NOT (sn_mask s) \<noteq> 0 then Inl SnOutOfResolution
      else Inr ((value - sn_value s) AND sn_mask s))"

section \<open>The generator\<close>

datatype SeqNumGenerator = SeqNumGenerator SeqNum

definition gen_make :: "TransportSn \<Rightarrow> Bits \<Rightarrow> sn_error + SeqNumGenerator" where
  "gen_make initial_sn resolution =
     (case sn_make initial_sn resolution of Inl e \<Rightarrow> Inl e | Inr sn \<Rightarrow> Inr (SeqNumGenerator sn))"

fun gen_now :: "SeqNumGenerator \<Rightarrow> TransportSn" where
  "gen_now (SeqNumGenerator s) = sn_get s"

fun gen_get :: "SeqNumGenerator \<Rightarrow> TransportSn \<times> SeqNumGenerator" where
  "gen_get (SeqNumGenerator s) =
     (let now = gen_now (SeqNumGenerator s) in (now, SeqNumGenerator (sn_increment s)))"

fun gen_set :: "SeqNumGenerator \<Rightarrow> TransportSn \<Rightarrow> sn_error + SeqNumGenerator" where
  "gen_set (SeqNumGenerator s) sn =
     (case sn_set s sn of Inl e \<Rightarrow> Inl e | Inr s' \<Rightarrow> Inr (SeqNumGenerator s'))"

text \<open>The numbers handed out by \<open>n\<close> successive calls.\<close>

fun gen_take :: "nat \<Rightarrow> SeqNumGenerator \<Rightarrow> TransportSn list" where
  "gen_take 0 g = []"
| "gen_take (Suc n) g = (case gen_get g of (sn, g') \<Rightarrow> sn # gen_take n g')"

section \<open>Resolution as a modulus\<close>

text \<open>The number of significant bits of a resolution.\<close>

fun sn_bits :: "Bits \<Rightarrow> nat" where
  "sn_bits U8 = 7" | "sn_bits U16 = 14" | "sn_bits U32 = 28" | "sn_bits U64 = 32"

lemma sn_bits_bounds: "0 < sn_bits b" "sn_bits b \<le> 32"
  by (cases b; simp)+

lemma get_mask_eq: "get_mask b = mask (sn_bits b)"
  by (cases b)
    (simp_all add: RES_U8_def RES_U16_def RES_U32_def RES_U64_def mask_eq_exp_minus_1)

definition sn_ok :: "Bits \<Rightarrow> SeqNum \<Rightarrow> bool" where
  "sn_ok b s \<longleftrightarrow> sn_mask s = get_mask b \<and> unat (sn_value s) < 2 ^ sn_bits b"

lemma unat_and_mask_u32: "unat (x AND mask k :: u32) = unat x mod 2 ^ k"
  unfolding take_bit_eq_mask [symmetric] unsigned_take_bit_eq by (simp add: take_bit_eq_mod)

lemma and_not_mask_u32: "(x :: u32) AND NOT (mask k) = 0 \<longleftrightarrow> unat x < 2 ^ k"
proof -
  have "x AND NOT (mask k) = 0 \<longleftrightarrow> x AND mask k = x"
    by (auto simp: bit_eq_iff bit_simps)
  also have "\<dots> \<longleftrightarrow> unat x mod 2 ^ k = unat x"
    by (metis unat_and_mask_u32 word_unat_eq_iff)
  also have "\<dots> \<longleftrightarrow> unat x < 2 ^ k"
    by (metis mod_less mod_less_divisor zero_less_numeral zero_less_power)
  finally show ?thesis .
qed

lemma half_mask: "0 < k \<Longrightarrow> k \<le> 32 \<Longrightarrow> drop_bit 1 (mask k :: u32) = mask (k - 1)"
  by (intro bit_word_eqI) (auto simp: bit_simps)

lemma out_of_resolution:
  "sn_ok b s \<Longrightarrow> v AND NOT (sn_mask s) \<noteq> 0 \<longleftrightarrow> \<not> unat v < 2 ^ sn_bits b"
  by (simp add: sn_ok_def get_mask_eq and_not_mask_u32)

text \<open>The distance from the current number to a received one, modulo the resolution.\<close>

definition sn_dist :: "Bits \<Rightarrow> SeqNum \<Rightarrow> TransportSn \<Rightarrow> nat" where
  "sn_dist b s v = nat ((int (unat v) - int (unat (sn_value s))) mod 2 ^ sn_bits b)"

lemma unat_sub_mod:
  fixes a c :: u32
  assumes "k \<le> 32"
  shows "unat (a - c) mod 2 ^ k = nat ((int (unat a) - int (unat c)) mod 2 ^ k)"
proof -
  have L: "LENGTH(32) = 32" by simp
  have dv: "(2 ^ k :: int) dvd 2 ^ 32" using assms by (rule le_imp_power_dvd)
  have "int (unat (a - c)) = (int (unat a) - int (unat c)) mod 2 ^ 32"
    using uint_word_ariths(2) [of a c] by (simp only: of_nat_unat L)
  then have "int (unat (a - c) mod 2 ^ k) = (int (unat a) - int (unat c)) mod 2 ^ k"
    by (simp add: zmod_int mod_mod_cancel [OF dv, simplified])
  then show ?thesis by (metis nat_int)
qed

lemma unat_gap:
  assumes "sn_ok b s"
  shows "unat ((v - sn_value s) AND sn_mask s) = sn_dist b s v"
  using assms sn_bits_bounds(2) [of b]
  by (simp add: sn_ok_def get_mask_eq unat_and_mask_u32 unat_sub_mod sn_dist_def)

lemma gap_accepts:
  assumes "sn_ok b s"
  shows "((v - sn_value s) AND sn_mask s \<noteq> 0 \<and>
      ((v - sn_value s) AND sn_mask s) AND NOT (drop_bit 1 (sn_mask s)) = 0) \<longleftrightarrow>
    0 < sn_dist b s v \<and> sn_dist b s v < 2 ^ (sn_bits b - 1)"
proof -
  let ?g = "(v - sn_value s) AND sn_mask s"
  have "?g AND NOT (drop_bit 1 (sn_mask s)) = 0 \<longleftrightarrow> unat ?g < 2 ^ (sn_bits b - 1)"
    using assms sn_bits_bounds [of b]
    by (simp add: sn_ok_def get_mask_eq half_mask [simplified] and_not_mask_u32)
  moreover have "?g \<noteq> 0 \<longleftrightarrow> 0 < unat ?g" by (simp add: unat_gt_0)
  ultimately show ?thesis
    unfolding unat_gap [OF assms] by simp
qed

lemmas sn_defs = sn_get_def sn_next_def sn_resolution_def sn_set_def sn_increment_def
  sn_precedes_def sn_roll_def sn_gap_def

lemma sn_set_eq:
  "sn_ok b s \<Longrightarrow> sn_set s v =
    (if unat v < 2 ^ sn_bits b then Inr (s\<lparr>sn_value := v\<rparr>) else Inl SnOutOfResolution)"
  by (simp add: sn_set_def out_of_resolution)

lemma sn_precedes_eq:
  "sn_ok b s \<Longrightarrow> sn_precedes s v =
    (if unat v < 2 ^ sn_bits b
     then Inr (0 < sn_dist b s v \<and> sn_dist b s v < 2 ^ (sn_bits b - 1))
     else Inl SnOutOfResolution)"
  using gap_accepts [of b s v] by (simp add: sn_precedes_def out_of_resolution Let_def)

lemma sn_roll_eq:
  "sn_ok b s \<Longrightarrow> sn_roll s v =
    (if unat v < 2 ^ sn_bits b
     then if 0 < sn_dist b s v \<and> sn_dist b s v < 2 ^ (sn_bits b - 1)
          then Inr (True, s\<lparr>sn_value := v\<rparr>) else Inr (False, s)
     else Inl SnOutOfResolution)"
  using gap_accepts [of b s v] by (simp add: sn_roll_def out_of_resolution Let_def)

lemma sn_ok_make:
  "sn_make v b = (if unat v < 2 ^ sn_bits b then Inr \<lparr>sn_value = v, sn_mask = get_mask b\<rparr>
     else Inl SnOutOfResolution)"
  by (simp add: sn_make_def sn_set_def get_mask_eq and_not_mask_u32 Let_def)

lemma sn_ok_upd [simp]: "sn_ok b (s\<lparr>sn_value := v\<rparr>) \<longleftrightarrow> sn_mask s = get_mask b \<and> unat v < 2 ^ sn_bits b"
  by (simp add: sn_ok_def)

lemma unat_sn_next:
  assumes "sn_ok b s"
  shows "unat (sn_next s) = Suc (unat (sn_value s)) mod 2 ^ sn_bits b"
proof -
  have dv: "(2 ^ sn_bits b :: nat) dvd 2 ^ 32"
    using sn_bits_bounds(2) by (rule le_imp_power_dvd)
  have "unat (sn_value s + 1) = Suc (unat (sn_value s)) mod 2 ^ 32"
    by (simp add: unat_word_ariths)
  then show ?thesis
    using assms by (simp add: sn_next_def sn_ok_def get_mask_eq unat_and_mask_u32 mod_mod_cancel [OF dv, simplified])
qed

lemma sn_ok_increment: "sn_ok b s \<Longrightarrow> sn_ok b (sn_increment s)"
  by (simp add: sn_increment_def unat_sn_next) (simp add: sn_ok_def)

lemma sn_ok_set: "sn_ok b s \<Longrightarrow> sn_set s v = Inr s' \<Longrightarrow> sn_ok b s'"
  by (auto simp: sn_set_eq sn_ok_def split: if_splits)

lemma sn_ok_roll: "sn_ok b s \<Longrightarrow> sn_roll s v = Inr (r, s') \<Longrightarrow> sn_ok b s'"
  by (auto simp: sn_roll_eq split: if_splits) (simp_all add: sn_ok_def)

text \<open>The distances in both directions add up to the modulus, so that at most one side
  precedes the other.\<close>

lemma sn_dist_less: "sn_dist b s v < 2 ^ sn_bits b"
  by (simp add: sn_dist_def nat_less_iff)

lemma sn_dist_rev:
  assumes "sn_dist b s v \<noteq> 0" and "unat v < 2 ^ sn_bits b" and "sn_ok b s"
  shows "sn_dist b (s\<lparr>sn_value := v\<rparr>) (sn_value s) = 2 ^ sn_bits b - sn_dist b s v"
proof -
  let ?N = "2 ^ sn_bits b :: int" and ?d = "int (unat v) - int (unat (sn_value s))"
  have d: "?d mod ?N \<noteq> 0" and "0 \<le> ?d mod ?N" using assms(1) by (auto simp: sn_dist_def)
  have "(- ?d) mod ?N = ?N - ?d mod ?N"
    using d by (simp only: zmod_zminus1_eq_if if_False)
  moreover have "?d mod ?N \<le> ?N" by (simp add: less_imp_le)
  ultimately show ?thesis
    using \<open>0 \<le> ?d mod ?N\<close> by (simp add: sn_dist_def nat_diff_distrib' nat_power_eq)
qed

lemma sn_dist_0D:
  "sn_dist b s v = 0 \<Longrightarrow> unat v < 2 ^ sn_bits b \<Longrightarrow> unat (sn_value s) < 2 ^ sn_bits b \<Longrightarrow>
    v = sn_value s"
proof -
  assume d: "sn_dist b s v = 0" and v: "unat v < 2 ^ sn_bits b" and u: "unat (sn_value s) < 2 ^ sn_bits b"
  have "0 \<le> (int (unat v) - int (unat (sn_value s))) mod 2 ^ sn_bits b" by simp
  then have "(int (unat v) - int (unat (sn_value s))) mod 2 ^ sn_bits b = 0"
    using d unfolding sn_dist_def by linarith
  then have "(2 ^ sn_bits b :: int) dvd int (unat v) - int (unat (sn_value s))"
    by (simp only: dvd_eq_mod_eq_0)
  then have "int (unat v) mod 2 ^ sn_bits b = int (unat (sn_value s)) mod 2 ^ sn_bits b"
    by (simp only: mod_eq_dvd_iff)
  then have "unat v mod 2 ^ sn_bits b = unat (sn_value s) mod 2 ^ sn_bits b"
    by (metis of_nat_eq_iff of_nat_numeral of_nat_power zmod_int)
  then show ?thesis using u v by (simp add: word_unat_eq_iff)
qed

lemma pow_half: "0 < k \<Longrightarrow> (2 :: nat) ^ k = 2 * 2 ^ (k - 1)"
  by (cases k) simp_all

section \<open>Unbounded counters\<close>

text \<open>\<open>sn_abs b c v\<close>: the number \<open>v\<close> on the wire stands for the unbounded count \<open>c\<close>.\<close>

definition sn_abs :: "Bits \<Rightarrow> nat \<Rightarrow> TransportSn \<Rightarrow> bool" where
  "sn_abs b c v \<longleftrightarrow> unat v = c mod 2 ^ sn_bits b"

lemma sn_abs_less: "sn_abs b c v \<Longrightarrow> unat v < 2 ^ sn_bits b"
  by (simp add: sn_abs_def)

lemma sn_abs_next: "sn_ok b s \<Longrightarrow> sn_abs b c (sn_value s) \<Longrightarrow> sn_abs b (Suc c) (sn_next s)"
  by (simp add: sn_abs_def unat_sn_next mod_Suc_eq)

lemma sn_dist_abs:
  assumes "sn_abs b c (sn_value s)" and "sn_abs b n v"
  shows "sn_dist b s v = nat ((int n - int c) mod 2 ^ sn_bits b)"
  using assms by (simp add: sn_dist_def sn_abs_def zmod_int mod_diff_eq)

lemma window_iff:
  fixes n c H :: nat
  assumes H: "0 < H" and lo: "c \<le> n + H" and hi: "n < c + H"
  shows "0 < nat ((int n - int c) mod (2 * int H)) \<and> nat ((int n - int c) mod (2 * int H)) < H
    \<longleftrightarrow> c < n"
proof (cases "n < c")
  case True
  have "(int n - int c) mod (2 * int H) = int n - int c + 2 * int H"
    using True lo H by (intro int_mod_pos_eq [where q = "-1"]) auto
  then show ?thesis using True lo by auto
next
  case False
  have "(int n - int c) mod (2 * int H) = int n - int c"
    using False hi H by (intro mod_pos_pos_trivial) auto
  then show ?thesis using False hi by auto
qed

lemma window_bits:
  assumes "c \<le> n + 2 ^ (sn_bits b - 1)" and "n < c + 2 ^ (sn_bits b - 1)"
    and "sn_abs b c (sn_value s)" and "sn_abs b n v"
  shows "0 < sn_dist b s v \<and> sn_dist b s v < 2 ^ (sn_bits b - 1) \<longleftrightarrow> c < n"
proof -
  have "(2 ^ sn_bits b :: int) = 2 * int (2 ^ (sn_bits b - 1))"
    using pow_half [OF sn_bits_bounds(1), of b] by (metis of_nat_mult of_nat_numeral of_nat_power)
  then show ?thesis
    using window_iff [OF _ assms(1,2)] by (simp add: sn_dist_abs [OF assms(3,4)])
qed

lemma sn_roll_abs:
  assumes ok: "sn_ok b s" and c: "sn_abs b c (sn_value s)" and n: "sn_abs b n v"
    and "c \<le> n + 2 ^ (sn_bits b - 1)" and "n < c + 2 ^ (sn_bits b - 1)"
  obtains s' where "sn_roll s v = Inr (c < n, s')" "sn_ok b s'" "sn_abs b (max c n) (sn_value s')"
proof -
  define s' where "s' = (if c < n then s\<lparr>sn_value := v\<rparr> else s)"
  have "sn_roll s v = Inr (c < n, s')"
    using window_bits [OF assms(4,5) c n] sn_abs_less [OF n] by (simp add: sn_roll_eq [OF ok] s'_def)
  moreover have "sn_ok b s'" using ok sn_abs_less [OF n] by (simp add: s'_def) (simp add: sn_ok_def)
  moreover have "sn_abs b (max c n) (sn_value s')" using c n by (auto simp: s'_def max_def dest: le_neq_implies_less)
  ultimately show ?thesis by (rule that)
qed

text \<open>(C27) A receiver that tracks the last accepted sequence number refines one with unbounded
  counters: whenever the received count \<open>n\<close> is less than half a window ahead of, or at most
  half a window behind, the last accepted count \<open>c\<close>, \<open>roll\<close> accepts exactly when \<open>c < n\<close> and
  the state then stands for the maximum of the two.\<close>

theorem roll_refines_counter:
  assumes "sn_ok b s" and "sn_abs b c (sn_value s)" and "sn_abs b n v"
    and "c \<le> n + 2 ^ (sn_bits b - 1)" and "n < c + 2 ^ (sn_bits b - 1)"
  shows "\<exists>s'. sn_roll s v = Inr (c < n, s') \<and> sn_ok b s' \<and> sn_abs b (max c n) (sn_value s')"
  using sn_roll_abs [OF assms] by metis

theorem roll_refines_counter_witness:
  "\<exists>s'. sn_roll \<lparr>sn_value = 126, sn_mask = RES_U8\<rparr> 1 = Inr (True, s') \<and> sn_ok U8 s' \<and>
     sn_abs U8 129 (sn_value s')"
  using roll_refines_counter [of U8 "\<lparr>sn_value = 126, sn_mask = RES_U8\<rparr>" 126 129 1]
  by (simp add: sn_ok_def sn_abs_def)

text \<open>(C30) Precedence is total and asymmetric up to the opposite point of the ring: two
  numbers of the resolution are equal, or exactly half a window apart, or exactly one of
  them precedes the other.  A number out of the resolution is an error.\<close>

theorem precedes_trichotomy:
  assumes ok: "sn_ok b s"
  shows "if 2 ^ sn_bits b \<le> unat v then sn_precedes s v = Inl SnOutOfResolution
    else if v = sn_value s \<or> sn_dist b s v = 2 ^ (sn_bits b - 1)
      then sn_precedes s v = Inr False \<and> sn_precedes (s\<lparr>sn_value := v\<rparr>) (sn_value s) = Inr False
    else \<exists>r. sn_precedes s v = Inr r \<and> sn_precedes (s\<lparr>sn_value := v\<rparr>) (sn_value s) = Inr (\<not> r)"
proof (cases "unat v < 2 ^ sn_bits b")
  case True
  have ok': "sn_ok b (s\<lparr>sn_value := v\<rparr>)" and u: "unat (sn_value s) < 2 ^ sn_bits b"
    using ok True by (simp_all add: sn_ok_def)
  note p = sn_precedes_eq [OF ok] sn_precedes_eq [OF ok']
  have half: "2 ^ sn_bits b = 2 * (2 ^ (sn_bits b - 1) :: nat)"
    by (rule pow_half [OF sn_bits_bounds(1)])
  show ?thesis
  proof (cases "sn_dist b s v = 0")
    case z: True
    then have "v = sn_value s" using True u by (rule sn_dist_0D)
    then show ?thesis using True u z ok by (simp add: sn_precedes_eq)
  next
    case False
    then have "v \<noteq> sn_value s" by (auto simp: sn_dist_def)
    then show ?thesis
      using True u False sn_dist_rev [OF False True ok] sn_dist_less [of b s v] half
      by (auto simp: p) arith
  qed
next
  case False
  then show ?thesis by (simp add: sn_precedes_eq [OF ok])
qed

theorem precedes_trichotomy_witness:
  "sn_precedes \<lparr>sn_value = 120, sn_mask = RES_U8\<rparr> 200 = Inl SnOutOfResolution \<and>
   (\<exists>r. sn_precedes \<lparr>sn_value = 120, sn_mask = RES_U8\<rparr> 5 = Inr r \<and> sn_precedes \<lparr>sn_value = 5, sn_mask = RES_U8\<rparr> 120 = Inr (\<not> r))"
proof -
  have ok: "sn_ok U8 \<lparr>sn_value = 120, sn_mask = RES_U8\<rparr>" by (simp add: sn_ok_def)
  show ?thesis using precedes_trichotomy [OF ok, of 200] precedes_trichotomy [OF ok, of 5] by (simp add: sn_dist_def)
qed

section \<open>The generator\<close>

fun gen_ok :: "Bits \<Rightarrow> SeqNumGenerator \<Rightarrow> bool" where
  "gen_ok b (SeqNumGenerator s) = sn_ok b s"

lemma gen_take_unat:
  "gen_ok b (SeqNumGenerator s) \<Longrightarrow> sn_abs b c (sn_value s) \<Longrightarrow>
    map unat (gen_take n (SeqNumGenerator s)) = map (\<lambda>i. (c + i) mod 2 ^ sn_bits b) [0..<n]"
proof (induction n arbitrary: s c)
  case (Suc n)
  have "map unat (gen_take n (SeqNumGenerator (sn_increment s))) =
      map (\<lambda>i. (Suc c + i) mod 2 ^ sn_bits b) [0..<n]"
    using Suc.prems sn_ok_increment [of b s]
    by (intro Suc.IH) (simp_all add: sn_abs_next, simp add: sn_increment_def sn_abs_next)
  moreover have "unat (sn_get s) = c mod 2 ^ sn_bits b"
    using Suc.prems by (simp add: sn_get_def sn_abs_def)
  ultimately show ?case
    by (simp add: upt_conv_Cons map_Suc_upt [symmetric] comp_def del: upt_Suc)
qed simp

lemma mod_shift_eqD:
  fixes c x y N :: nat
  assumes "x \<le> y" and "y < N" and "(c + x) mod N = (c + y) mod N"
  shows "x = y"
proof -
  have "N dvd (c + y) - (c + x)"
    using assms(1,3) by (subst mod_eq_dvd_iff_nat [symmetric]) auto
  then show ?thesis using assms(1,2) by (auto dest: dvd_imp_le)
qed

lemma inj_on_mod_shift: "n \<le> N \<Longrightarrow> inj_on (\<lambda>i. (c + i) mod N) {0..<n :: nat}"
  by (intro inj_onI) (metis atLeastLessThan_iff less_le_trans linear mod_shift_eqD)

lemma gen_take_distinct:
  assumes "gen_ok b (SeqNumGenerator s)" and "n \<le> 2 ^ sn_bits b"
  shows "distinct (gen_take n (SeqNumGenerator s))"
proof -
  have "sn_abs b (unat (sn_value s)) (sn_value s)"
    using assms(1) by (simp add: sn_abs_def sn_ok_def)
  from gen_take_unat [OF assms(1) this] have "distinct (map unat (gen_take n (SeqNumGenerator s)))"
    by (simp add: distinct_map inj_on_mod_shift [OF assms(2)])
  then show ?thesis by (simp add: distinct_map)
qed

end
