(* ===== verification/Codec_Session.thy ===== *)
theory Codec_Session
  imports Codec_Message Transport_SeqNum
begin

text \<open>
  The transport messages that establish, keep and close a session (zenoh-protocol and zenoh-codec,
  transport/init.rs, open.rs, join.rs, close.rs, keepalive.rs; the roles of core/whatami.rs), without
  the shared-memory feature.  An optional unit extension is a boolean.  A \<open>Duration\<close> is a number of
  nanoseconds.
\<close>

section \<open>Roles\<close>

datatype WhatAmI = Router | Peer | Client

fun wai_u8 :: "WhatAmI \<Rightarrow> u8" where
  "wai_u8 Router = 1" | "wai_u8 Peer = 2" | "wai_u8 Client = 4"

definition wai_try_from :: "u8 \<Rightarrow> WhatAmI option" where
  "wai_try_from v =
     (if v = wai_u8 Router then Some Router else if v = wai_u8 Peer then Some Peer
      else if v = wai_u8 Client then Some Client else None)"

fun wai_to_str :: "WhatAmI \<Rightarrow> string" where
  "wai_to_str Router = ''router''" | "wai_to_str Peer = ''peer''" | "wai_to_str Client = ''client''"

definition wai_from_str :: "string \<Rightarrow> WhatAmI option" where
  "wai_from_str s =
     (if s = ''router'' then Some Router else if s = ''peer'' then Some Peer
      else if s = ''client'' then Some Client else None)"

text \<open>\<open>WhatAmIMatcher\<close>: a byte whose bit 7 is always set.\<close>

definition WAIM_U8_0 :: u8 where "WAIM_U8_0 = push_bit 7 1"

datatype WhatAmIMatcher = WhatAmIMatcher (waim_get: u8)

definition waim_empty :: WhatAmIMatcher where
  "waim_empty = WhatAmIMatcher WAIM_U8_0"

definition waim_add :: "WhatAmI \<Rightarrow> WhatAmIMatcher \<Rightarrow> WhatAmIMatcher" where
  "waim_add w m = WhatAmIMatcher (waim_get m OR (WAIM_U8_0 OR wai_u8 w))"

definition waim_is_empty :: "WhatAmIMatcher \<Rightarrow> bool" where
  "waim_is_empty m \<longleftrightarrow> waim_get m = WAIM_U8_0"

definition waim_matches :: "WhatAmIMatcher \<Rightarrow> WhatAmI \<Rightarrow> bool" where
  "waim_matches m w \<longleftrightarrow> waim_get m AND wai_u8 w \<noteq> 0"

definition waim_try_from :: "u8 \<Rightarrow> WhatAmIMatcher option" where
  "waim_try_from v =
     (if v \<le> wai_u8 Router OR wai_u8 Peer OR wai_u8 Client then Some (WhatAmIMatcher (WAIM_U8_0 OR v)) else None)"

definition waim_or :: "WhatAmI \<Rightarrow> WhatAmI \<Rightarrow> WhatAmIMatcher" where
  "waim_or a b = WhatAmIMatcher (wai_u8 a OR wai_u8 b OR WAIM_U8_0)"

lemma waim_matches_add: "waim_matches (waim_add w m) v \<longleftrightarrow> v = w \<or> waim_matches m v"
  by (cases w; cases v) (simp_all add: waim_matches_def waim_add_def WAIM_U8_0_def bit.conj_disj_distrib2)

lemma waim_matches_or: "waim_matches (waim_or a b) v \<longleftrightarrow> v = a \<or> v = b"
  by (cases a; cases b; cases v) (simp_all add: waim_matches_def waim_or_def WAIM_U8_0_def)

lemma wai_str_roundtrip: "wai_from_str (wai_to_str w) = Some w"
  by (cases w) (simp_all add: wai_from_str_def)

lemma wai_u8_roundtrip: "wai_try_from (wai_u8 w) = Some w"
  by (cases w) (simp_all add: wai_try_from_def)

section \<open>Identifiers and extensions\<close>

definition tid_OAM :: u8 where "tid_OAM = 0x00"
definition tid_INIT :: u8 where "tid_INIT = 0x01"
definition tid_OPEN :: u8 where "tid_OPEN = 0x02"
definition tid_CLOSE :: u8 where "tid_CLOSE = 0x03"
definition tid_KEEP_ALIVE :: u8 where "tid_KEEP_ALIVE = 0x04"
definition tid_FRAME :: u8 where "tid_FRAME = 0x05"
definition tid_FRAGMENT :: u8 where "tid_FRAGMENT = 0x06"
definition tid_JOIN :: u8 where "tid_JOIN = 0x07"

lemmas transport_ids = tid_OAM_def tid_INIT_def tid_OPEN_def tid_CLOSE_def tid_KEEP_ALIVE_def
  tid_FRAME_def tid_FRAGMENT_def tid_JOIN_def

lemma transport_ids_ok [simp]:
  "mid_ok tid_OAM" "mid_ok tid_INIT" "mid_ok tid_OPEN" "mid_ok tid_CLOSE" "mid_ok tid_KEEP_ALIVE"
  "mid_ok tid_FRAME" "mid_ok tid_FRAGMENT" "mid_ok tid_JOIN"
  by (simp_all add: mid_ok_def mid_def HEADER_MASK_def transport_ids)

definition tx_QoS :: u8 where "tx_QoS = zextunit 0x1 False"
definition tx_QoSLink :: u8 where "tx_QoSLink = zextz64 0x1 False"
definition tx_Auth :: u8 where "tx_Auth = zextzbuf 0x3 False"
definition tx_MultiLink :: u8 where "tx_MultiLink = zextzbuf 0x4 False"
definition tx_MultiLinkAck :: u8 where "tx_MultiLinkAck = zextunit 0x4 False"
definition tx_LowLatency :: u8 where "tx_LowLatency = zextunit 0x5 False"
definition tx_Compression :: u8 where "tx_Compression = zextunit 0x6 False"
definition tx_Patch :: u8 where "tx_Patch = zextz64 0x7 False"
definition tx_RegionName :: u8 where "tx_RegionName = zextzbuf 0x8 False"
definition tx_RemoteBound :: u8 where "tx_RemoteBound = zextz64 0x7 False"
definition join_QoS :: u8 where "join_QoS = zextzbuf 0x1 True"
definition join_Shm :: u8 where "join_Shm = zextzbuf 0x2 True"

lemma tx_ids: "tx_QoS = 0x01" "tx_QoSLink = 0x21" "tx_Auth = 0x43" "tx_MultiLink = 0x44"
  "tx_MultiLinkAck = 0x04" "tx_LowLatency = 0x05" "tx_Compression = 0x06" "tx_Patch = 0x27"
  "tx_RegionName = 0x48" "tx_RemoteBound = 0x27" "join_QoS = 0x51" "join_Shm = 0x52"
  "ext_id_ok 0x01" "ext_id_ok 0x21" "ext_id_ok 0x43" "ext_id_ok 0x44" "ext_id_ok 0x04" "ext_id_ok 0x05"
  "ext_id_ok 0x06" "ext_id_ok 0x27" "ext_id_ok 0x48" "ext_id_ok 0x51" "ext_id_ok 0x52"
  by (simp_all add: tx_QoS_def tx_QoSLink_def tx_Auth_def tx_MultiLink_def tx_MultiLinkAck_def
    tx_LowLatency_def tx_Compression_def tx_Patch_def tx_RegionName_def tx_RemoteBound_def
    join_QoS_def join_Shm_def ext_id_ok_def eid_def zext_defs)

text \<open>\<open>PatchType\<close>\<close>

type_synonym PatchType = u8

definition PATCH_NONE :: PatchType where "PATCH_NONE = 0"
definition PATCH_CURRENT :: PatchType where "PATCH_CURRENT = 1"

definition has_fragmentation_markers :: "PatchType \<Rightarrow> bool" where
  "has_fragmentation_markers p \<longleftrightarrow> 1 \<le> p"

definition write_patch_ext :: "u8 \<Rightarrow> PatchType \<Rightarrow> bool \<Rightarrow> bytes option" where
  "write_patch_ext i p m = write_ext_z64 i (ucast p) m"

definition read_patch_ext :: "u8 \<Rightarrow> u8 \<Rightarrow> (PatchType \<times> bool) rd" where
  "read_patch_ext i h bs = do { (vm, bs) \<leftarrow> read_ext_z64 i h bs; Some ((ucast (fst vm), snd vm), bs) }"

lemma patch_ext_rt:
  assumes "ext_id_ok i" "write_patch_ext i q m = Some bs"
  shows "\<exists>h b. bs = h # b \<and> eid h = i \<and> (\<forall>r. read_patch_ext i h (b @ r) = Some ((q, m), r))"
  using ext_z64_rt [OF assms(1), of "ucast q" m bs] assms(2)
  by (auto simp: write_patch_ext_def read_patch_ext_def ucast_ucast_id)

lemma ext_ok_patch [ext_oks]:
  assumes "ext_id_ok i"
    and "\<And>h s bs m r. eid h = i \<Longrightarrow> read_patch_ext i h bs = Some ((v, m), r) \<Longrightarrow> step h s bs = Some ((f s, m), r)"
  shows "ext_ok step (write_patch_ext i v) f"
  by (rule ext_ok_readI [where rd = "read_patch_ext i"], erule patch_ext_rt [OF assms(1)], rule assms(2))

lemma shrinking_patch_ext [rd_mono]: "shrinking (read_patch_ext i h)"
  unfolding read_patch_ext_def [abs_def] by (intro rd_mono)

section \<open>Parts of the session messages\<close>

type_synonym BatchSize = u16

definition BATCH_UNICAST :: BatchSize where "BATCH_UNICAST = 0xffff"
definition BATCH_MULTICAST :: BatchSize where "BATCH_MULTICAST = 8192"

fun wai_wire :: "WhatAmI \<Rightarrow> u8" where
  "wai_wire Router = 0" | "wai_wire Peer = 1" | "wai_wire Client = 2"

definition wai_unwire :: "u8 \<Rightarrow> WhatAmI option" where
  "wai_unwire v = (if v = 0 then Some Router else if v = 1 then Some Peer else if v = 2 then Some Client else None)"

definition write_wai_zid :: "WhatAmI \<Rightarrow> zid \<Rightarrow> bytes option" where
  "write_wai_zid w z =
     (if z = [] then None
      else wcat [write_u8 (push_bit 4 (of_nat (length z) - 1) OR wai_wire w), write_zid_len (length z) z])"

definition read_wai_zid :: "(bytes \<Rightarrow> bytes option) \<Rightarrow> (WhatAmI \<times> zid) rd" where
  "read_wai_zid idf bs =
     do { (flags, bs) \<leftarrow> read_u8 bs;
          w \<leftarrow> wai_unwire (flags AND 0x3);
          (z, bs) \<leftarrow> read_zid_len idf (1 + unat (drop_bit 4 flags)) bs;
          Some ((w, z), bs) }"

definition to_le_bytes :: "u16 \<Rightarrow> bytes" where
  "to_le_bytes v = [ucast v, ucast (drop_bit 8 v)]"

definition from_le_bytes :: "bytes \<Rightarrow> u16" where
  "from_le_bytes b = ucast (b ! 0) OR push_bit 8 (ucast (b ! 1))"

definition has_size :: "BatchSize \<Rightarrow> Resolution \<Rightarrow> BatchSize \<Rightarrow> bool" where
  "has_size d res bsz \<longleftrightarrow> res \<noteq> resolution_default \<or> bsz \<noteq> d"

definition write_size :: "Resolution \<Rightarrow> BatchSize \<Rightarrow> bytes option" where
  "write_size res bsz = wcat [write_u8 (as_u8 res), write_exact (to_le_bytes bsz)]"

definition read_size :: "(Resolution \<times> BatchSize) rd" where
  "read_size bs =
     do { (flags, bs) \<leftarrow> read_u8 bs;
          (b, bs) \<leftarrow> read_exact 2 bs;
          Some ((Resolution (flags AND 0x3f), from_le_bytes b), bs) }"

definition resolution_ok :: "Resolution \<Rightarrow> bool" where
  "resolution_ok r \<longleftrightarrow> as_u8 r AND 0x3f = as_u8 r"

text \<open>Durations.\<close>

type_synonym Duration = nat

definition as_secs :: "Duration \<Rightarrow> nat" where "as_secs d = d div 1000000000"
definition as_millis :: "Duration \<Rightarrow> nat" where "as_millis d = d div 1000000"
definition subsec_nanos :: "Duration \<Rightarrow> nat" where "subsec_nanos d = d mod 1000000000"
definition from_secs :: "u64 \<Rightarrow> Duration" where "from_secs s = unat s * 1000000000"
definition from_millis :: "u64 \<Rightarrow> Duration" where "from_millis s = unat s * 1000000"

definition write_lease :: "bool \<Rightarrow> Duration enc" where
  "write_lease t d = write_u64 (if t then of_nat (as_secs d) else of_nat (as_millis d))"

definition read_lease :: "bool \<Rightarrow> Duration rd" where
  "read_lease t bs =
     do { (v, bs) \<leftarrow> read_u64 bs; Some (if t then from_secs v else from_millis v, bs) }"

text \<open>A lease that the wire can carry: a whole number of milliseconds, less than \<open>2^64\<close> of them.\<close>

definition lease_ok :: "Duration \<Rightarrow> bool" where
  "lease_ok d \<longleftrightarrow> d mod 1000000 = 0 \<and> d div 1000000 < 2 ^ 64"

lemma wai_wire_and [simp]: "wai_unwire (wai_wire w) = Some w" "wai_wire w AND 3 = wai_wire w"
  by (cases w; simp add: wai_unwire_def)+

lemma push_4_and_3: "(push_bit 4 x OR w) AND 3 = (w :: u8) AND 3"
  unfolding mask_2_u8 by (rule bit_word_eqI) (auto simp: bit_simps)

lemma drop_4_wai [simp]: "drop_bit 4 (wai_wire w) = 0"
  by (cases w) simp_all

lemma wai_zid_rt:
  assumes "zid_ok idf z" "write_wai_zid w z = Some bs"
  shows "\<forall>r. read_wai_zid idf (bs @ r) = Some ((w, z), r)"
proof -
  from assms(2) obtain a where a: "write_zid_len (length z) z = Some a"
    and bs: "bs = (push_bit 4 (of_nat (length z) - 1) OR wai_wire w) # a"
    by (auto simp: write_wai_zid_def codec_simps split: if_splits)
  have "1 + unat (drop_bit 4 (push_bit 4 (of_nat (length z) - 1 :: u8))) = length z"
    using assms(1) by (intro zid_flags) (auto simp: zid_ok_def)
  then show ?thesis
    using read_zid_len_rt [OF assms(1) a]
    by (simp add: bs read_wai_zid_def push_4_and_3)
qed

lemma le_bytes_rt: "from_le_bytes (to_le_bytes v) = v"
  unfolding from_le_bytes_def to_le_bytes_def
  by (rule bit_word_eqI) (auto simp: bit_simps)

lemma length_le_bytes [simp]: "length (to_le_bytes v) = 2"
  by (simp add: to_le_bytes_def)

lemma size_rt:
  assumes "resolution_ok res" "wr_when (has_size d res bsz) (write_size res bsz) = Some bs"
  shows "\<forall>r. rd_when (has_size d res bsz) (resolution_default, d) read_size (bs @ r) = Some ((res, bsz), r)"
  using assms by (cases res)
    (auto simp: wr_when_def rd_when_def write_size_def read_size_def codec_simps write_exact_def le_bytes_rt
      resolution_ok_def has_size_def)

lemma from_secs_as_secs: "lease_ok d \<Longrightarrow> as_millis d mod 1000 = 0 \<Longrightarrow> from_secs (of_nat (as_secs d)) = d"
proof -
  assume ok: "lease_ok d" and m: "as_millis d mod 1000 = 0"
  then obtain k where k: "d = k * 1000000" "k < 2 ^ 64" by (auto simp: lease_ok_def)
  with m obtain j where j: "k = j * 1000" by (auto simp: as_millis_def)
  then have "d = j * 1000000000" "j < 2 ^ 64" using k by simp_all
  then show ?thesis by (simp add: from_secs_def as_secs_def unat_of_nat take_bit_nat_eq_self)
qed

lemma from_millis_as_millis: "lease_ok d \<Longrightarrow> from_millis (of_nat (as_millis d)) = d"
  by (auto simp: lease_ok_def from_millis_def as_millis_def unat_of_nat take_bit_nat_eq_self)

lemma lease_rt:
  assumes "lease_ok d" "t \<Longrightarrow> as_millis d mod 1000 = 0" "write_lease t d = Some bs"
  shows "\<forall>r. read_lease t (bs @ r) = Some (d, r)"
  using u64.rt_all [OF TrueI assms(3) [unfolded write_lease_def]] assms(1,2)
  by (simp add: read_lease_def from_secs_as_secs from_millis_as_millis)

lemma subsec_millis: "subsec_nanos d = 0 \<Longrightarrow> as_millis d mod 1000 = 0"
  by (auto simp: subsec_nanos_def as_millis_def)

lemma shrinking_wai_zid [rd_mono]: "shrinking (read_wai_zid idf)"
  unfolding read_wai_zid_def [abs_def] by (intro rd_mono)

lemma shrinking_size [rd_mono]: "shrinking read_size"
  unfolding read_size_def [abs_def] by (intro rd_mono)

lemma shrinking_lease [rd_mono]: "shrinking (read_lease t)"
  unfolding read_lease_def [abs_def] by (intro rd_mono)

section \<open>Init\<close>

record InitExt =
  ie_qos :: bool
  ie_qos_link :: "u64 option"
  ie_auth :: "bytes option"
  ie_mlink :: "bytes option"
  ie_lowlatency :: bool
  ie_compression :: bool
  ie_patch :: PatchType
  ie_region_name :: "bytes option"

record InitSyn = InitExt +
  init_version :: u8
  init_whatami :: WhatAmI
  init_zid :: zid
  init_resolution :: Resolution
  init_batch_size :: BatchSize

record InitAck = InitSyn +
  init_cookie :: bytes

definition init_n_exts :: "'a InitExt_scheme \<Rightarrow> nat" where
  "init_n_exts x = of_bool (ie_qos x) + of_bool (ie_qos_link x \<noteq> None) + of_bool (ie_auth x \<noteq> None) + of_bool (ie_mlink x \<noteq> None) + of_bool (ie_lowlatency x) + of_bool (ie_compression x) + of_bool (ie_patch x \<noteq> PATCH_NONE) + of_bool (ie_region_name x \<noteq> None)"

definition init_exts :: "'a InitExt_scheme \<Rightarrow> (bool \<Rightarrow> bytes option) list" where
  "init_exts x =
     when_ext (ie_qos x) (write_ext_unit tx_QoS) @
     opt_ext (write_ext_z64 tx_QoSLink) (ie_qos_link x) @
     opt_ext (write_ext_zbuf tx_Auth) (ie_auth x) @
     opt_ext (write_ext_zbuf tx_MultiLink) (ie_mlink x) @
     when_ext (ie_lowlatency x) (write_ext_unit tx_LowLatency) @
     when_ext (ie_compression x) (write_ext_unit tx_Compression) @
     when_ext (ie_patch x \<noteq> PATCH_NONE) (write_patch_ext tx_Patch (ie_patch x)) @
     opt_ext (write_ext_zbuf tx_RegionName) (ie_region_name x)"

definition init_ext_step :: "u8 \<Rightarrow> InitExt \<Rightarrow> (InitExt \<times> bool) rd" where
  "init_ext_step h s bs =
     (if eid h = tx_QoS then
        do { (m, bs) \<leftarrow> read_ext_unit tx_QoS h bs; Some ((s\<lparr>ie_qos := True\<rparr>, m), bs) }
      else if eid h = tx_QoSLink then
        do { (vm, bs) \<leftarrow> read_ext_z64 tx_QoSLink h bs; Some ((s\<lparr>ie_qos_link := Some (fst vm)\<rparr>, snd vm), bs) }
      else if eid h = tx_Auth then
        do { (vm, bs) \<leftarrow> read_ext_zbuf tx_Auth h bs; Some ((s\<lparr>ie_auth := Some (fst vm)\<rparr>, snd vm), bs) }
      else if eid h = tx_MultiLink then
        do { (vm, bs) \<leftarrow> read_ext_zbuf tx_MultiLink h bs; Some ((s\<lparr>ie_mlink := Some (fst vm)\<rparr>, snd vm), bs) }
      else if eid h = tx_LowLatency then
        do { (m, bs) \<leftarrow> read_ext_unit tx_LowLatency h bs; Some ((s\<lparr>ie_lowlatency := True\<rparr>, m), bs) }
      else if eid h = tx_Compression then
        do { (m, bs) \<leftarrow> read_ext_unit tx_Compression h bs; Some ((s\<lparr>ie_compression := True\<rparr>, m), bs) }
      else if eid h = tx_Patch then
        do { (vm, bs) \<leftarrow> read_patch_ext tx_Patch h bs; Some ((s\<lparr>ie_patch := fst vm\<rparr>, snd vm), bs) }
      else if eid h = tx_RegionName then
        do { (vm, bs) \<leftarrow> read_ext_zbuf tx_RegionName h bs; Some ((s\<lparr>ie_region_name := Some (fst vm)\<rparr>, snd vm), bs) }
      else do { (m, bs) \<leftarrow> ext_skip h bs; Some ((s, m), bs) })"

definition init_upds :: "'a InitExt_scheme \<Rightarrow> (InitExt \<Rightarrow> InitExt) list" where
  "init_upds x =
     when_f (ie_qos x) (\<lambda>s. s\<lparr>ie_qos := True\<rparr>) @
     opt_f (\<lambda>v s. s\<lparr>ie_qos_link := Some v\<rparr>) (ie_qos_link x) @
     opt_f (\<lambda>v s. s\<lparr>ie_auth := Some v\<rparr>) (ie_auth x) @
     opt_f (\<lambda>v s. s\<lparr>ie_mlink := Some v\<rparr>) (ie_mlink x) @
     when_f (ie_lowlatency x) (\<lambda>s. s\<lparr>ie_lowlatency := True\<rparr>) @
     when_f (ie_compression x) (\<lambda>s. s\<lparr>ie_compression := True\<rparr>) @
     when_f (ie_patch x \<noteq> PATCH_NONE) (\<lambda>s. s\<lparr>ie_patch := ie_patch x\<rparr>) @
     opt_f (\<lambda>v s. s\<lparr>ie_region_name := Some v\<rparr>) (ie_region_name x)"

lemma init_upds_fold:
  "fold (\<lambda>f. f) (init_upds x) s = s\<lparr>
     ie_qos := (ie_qos x \<or> ie_qos s),
     ie_qos_link := (case ie_qos_link x of None \<Rightarrow> ie_qos_link s | Some v \<Rightarrow> Some v),
     ie_auth := (case ie_auth x of None \<Rightarrow> ie_auth s | Some v \<Rightarrow> Some v),
     ie_mlink := (case ie_mlink x of None \<Rightarrow> ie_mlink s | Some v \<Rightarrow> Some v),
     ie_lowlatency := (ie_lowlatency x \<or> ie_lowlatency s),
     ie_compression := (ie_compression x \<or> ie_compression s),
     ie_patch := (if ie_patch x \<noteq> PATCH_NONE then ie_patch x else ie_patch s),
     ie_region_name := (case ie_region_name x of None \<Rightarrow> ie_region_name s | Some v \<Rightarrow> Some v)\<rparr>"
  by (simp add: init_upds_def split: option.split)

lemma init_exts_ok: "list_all2 (ext_ok init_ext_step) (init_exts x) (init_upds x)"
  unfolding init_exts_def init_upds_def
  by (intro exts_intros ext_oks)
    (auto simp:  init_ext_step_def tx_ids)

lemma shrinking_init_ext_step [rd_mono]: "shrinking (init_ext_step h s)"
  unfolding init_ext_step_def [abs_def] by (intro rd_mono)

lemma init_n_exts_length: "init_n_exts x = length (init_exts x)"
  by (simp add: init_n_exts_def init_exts_def)

definition init_ext_init :: InitExt where
  "init_ext_init = \<lparr>ie_qos = False, ie_qos_link = None, ie_auth = None, ie_mlink = None, ie_lowlatency = False, ie_compression = False, ie_patch = PATCH_NONE, ie_region_name = None\<rparr>"

lemma read_init_exts:
  assumes "write_exts (init_n_exts x) (init_exts x) = Some c"
  shows "\<exists>s. (\<forall>r. read_exts init_ext_step (init_n_exts x \<noteq> 0) init_ext_init (c @ r) = Some (s, r)) \<and>
    ie_qos s = ie_qos x \<and> ie_qos_link s = ie_qos_link x \<and> ie_auth s = ie_auth x \<and> ie_mlink s = ie_mlink x \<and> ie_lowlatency s = ie_lowlatency x \<and> ie_compression s = ie_compression x \<and> ie_patch s = ie_patch x \<and> ie_region_name s = ie_region_name x"
  using read_write_exts [OF init_exts_ok assms init_n_exts_length]
  by (auto simp: init_upds_fold init_ext_init_def split: option.split)

definition init_has_size :: "'a InitSyn_scheme \<Rightarrow> bool" where
  "init_has_size x = has_size BATCH_UNICAST (init_resolution x) (init_batch_size x)"

definition init_header :: "bool \<Rightarrow> 'a InitSyn_scheme \<Rightarrow> u8" where
  "init_header ack x =
     set_if (init_n_exts x \<noteq> 0) flag7 (set_if (init_has_size x) flag6 (set_if ack flag5 tid_INIT))"

definition write_init_syn :: "InitSyn enc" where
  "write_init_syn x = wcat
     [write_u8 (init_header False x),
      write_u8 (init_version x),
      write_wai_zid (init_whatami x) (init_zid x),
      wr_when (init_has_size x) (write_size (init_resolution x) (init_batch_size x)),
      write_exts (init_n_exts x) (init_exts x)]"

definition read_init_syn :: "(bytes \<Rightarrow> bytes option) \<Rightarrow> u8 \<Rightarrow> InitSyn rd" where
  "read_init_syn idf header bs =
     (if mid header \<noteq> tid_INIT \<or> has_flag header flag5 then None
      else do {
        (version, bs) \<leftarrow> read_u8 bs;
        (wz, bs) \<leftarrow> read_wai_zid idf bs;
        (sz, bs) \<leftarrow> rd_when (has_flag header flag6) (resolution_default, BATCH_UNICAST) read_size bs;
        (s, bs) \<leftarrow> read_exts init_ext_step (has_flag header flag7) init_ext_init bs;
        Some (\<lparr>ie_qos = ie_qos s, ie_qos_link = ie_qos_link s, ie_auth = ie_auth s, ie_mlink = ie_mlink s,
           ie_lowlatency = ie_lowlatency s, ie_compression = ie_compression s, ie_patch = ie_patch s,
           ie_region_name = ie_region_name s, init_version = version, init_whatami = fst wz,
           init_zid = snd wz, init_resolution = fst sz, init_batch_size = snd sz\<rparr>, bs) })"

definition write_init_ack :: "InitAck enc" where
  "write_init_ack x = wcat
     [write_u8 (init_header True x),
      write_u8 (init_version x),
      write_wai_zid (init_whatami x) (init_zid x),
      wr_when (init_has_size x) (write_size (init_resolution x) (init_batch_size x)),
      write_zbuf U16_MAX (init_cookie x),
      write_exts (init_n_exts x) (init_exts x)]"

definition read_init_ack :: "(bytes \<Rightarrow> bytes option) \<Rightarrow> u8 \<Rightarrow> InitAck rd" where
  "read_init_ack idf header bs =
     (if mid header \<noteq> tid_INIT \<or> \<not> has_flag header flag5 then None
      else do {
        (version, bs) \<leftarrow> read_u8 bs;
        (wz, bs) \<leftarrow> read_wai_zid idf bs;
        (sz, bs) \<leftarrow> rd_when (has_flag header flag6) (resolution_default, BATCH_UNICAST) read_size bs;
        (cookie, bs) \<leftarrow> read_zbuf U16_MAX bs;
        (s, bs) \<leftarrow> read_exts init_ext_step (has_flag header flag7) init_ext_init bs;
        Some (\<lparr>ie_qos = ie_qos s, ie_qos_link = ie_qos_link s, ie_auth = ie_auth s, ie_mlink = ie_mlink s,
           ie_lowlatency = ie_lowlatency s, ie_compression = ie_compression s, ie_patch = ie_patch s,
           ie_region_name = ie_region_name s, init_version = version, init_whatami = fst wz,
           init_zid = snd wz, init_resolution = fst sz, init_batch_size = snd sz, init_cookie = cookie\<rparr>, bs) })"

definition init_ok :: "(bytes \<Rightarrow> bytes option) \<Rightarrow> 'a InitSyn_scheme \<Rightarrow> bool" where
  "init_ok idf x \<longleftrightarrow> zid_ok idf (init_zid x) \<and> resolution_ok (init_resolution x)"

lemma init_header_simps [simp]:
  "mid (init_header a x) = tid_INIT" "has_flag (init_header a x) flag5 = a"
  "has_flag (init_header a x) flag6 = init_has_size x" "has_flag (init_header a x) flag7 = (init_n_exts x \<noteq> 0)"
  by (simp_all add: init_header_def)

lemma init_syn_rt:
  assumes "init_ok idf x" "write_init_syn x = Some bs"
  shows "\<exists>h b. bs = h # b \<and> mid h = tid_INIT \<and> \<not> has_flag h flag5 \<and> (\<forall>r. read_init_syn idf h (b @ r) = Some (x, r))"
proof -
  from assms(2) obtain a d e where a: "write_wai_zid (init_whatami x) (init_zid x) = Some a"
    and d: "wr_when (init_has_size x) (write_size (init_resolution x) (init_batch_size x)) = Some d"
    and e: "write_exts (init_n_exts x) (init_exts x) = Some e"
    and bs: "bs = init_header False x # init_version x # a @ d @ e"
    unfolding write_init_syn_def codec_simps by auto
  from assms(1) have ok: "zid_ok idf (init_zid x)" "resolution_ok (init_resolution x)"
    by (simp_all add: init_ok_def)
  from read_init_exts [OF e] wai_zid_rt [OF ok(1) a] size_rt [OF ok(2) d [unfolded init_has_size_def]]
  show ?thesis
    by (auto simp: bs read_init_syn_def init_has_size_def)
qed

lemma init_ack_rt:
  assumes "init_ok idf x" "write_init_ack x = Some bs"
  shows "\<exists>h b. bs = h # b \<and> mid h = tid_INIT \<and> has_flag h flag5 \<and> (\<forall>r. read_init_ack idf h (b @ r) = Some (x, r))"
proof -
  from assms(2) obtain a d c e where a: "write_wai_zid (init_whatami x) (init_zid x) = Some a"
    and d: "wr_when (init_has_size x) (write_size (init_resolution x) (init_batch_size x)) = Some d"
    and c: "write_zbuf U16_MAX (init_cookie x) = Some c"
    and e: "write_exts (init_n_exts x) (init_exts x) = Some e"
    and bs: "bs = init_header True x # init_version x # a @ d @ c @ e"
    unfolding write_init_ack_def codec_simps by auto
  from assms(1) have ok: "zid_ok idf (init_zid x)" "resolution_ok (init_resolution x)"
    by (simp_all add: init_ok_def)
  from read_init_exts [OF e] wai_zid_rt [OF ok(1) a] size_rt [OF ok(2) d [unfolded init_has_size_def]] zbuf.rt_all [OF TrueI c]
  show ?thesis
    by (auto simp: bs read_init_ack_def init_has_size_def)
qed

section \<open>Open\<close>

record OpenExt =
  oe_qos :: bool
  oe_auth :: "bytes option"
  oe_mlink :: "bytes option"
  oe_lowlatency :: bool
  oe_compression :: bool
  oe_remote_bound :: "u64 option"

record OpenSyn = OpenExt +
  os_lease :: Duration
  os_initial_sn :: TransportSn
  os_cookie :: bytes

record OpenAckExt =
  oa_qos :: bool
  oa_auth :: "bytes option"
  oa_mlink :: bool
  oa_lowlatency :: bool
  oa_compression :: bool
  oa_remote_bound :: "u64 option"

record OpenAck = OpenAckExt +
  oa_lease :: Duration
  oa_initial_sn :: TransportSn

definition open_syn_n_exts :: "'a OpenExt_scheme \<Rightarrow> nat" where
  "open_syn_n_exts x = of_bool (oe_qos x) + of_bool (oe_auth x \<noteq> None) + of_bool (oe_mlink x \<noteq> None) + of_bool (oe_lowlatency x) + of_bool (oe_compression x) + of_bool (oe_remote_bound x \<noteq> None)"

definition open_syn_exts :: "'a OpenExt_scheme \<Rightarrow> (bool \<Rightarrow> bytes option) list" where
  "open_syn_exts x =
     when_ext (oe_qos x) (write_ext_unit tx_QoS) @
     opt_ext (write_ext_zbuf tx_Auth) (oe_auth x) @
     opt_ext (write_ext_zbuf tx_MultiLink) (oe_mlink x) @
     when_ext (oe_lowlatency x) (write_ext_unit tx_LowLatency) @
     when_ext (oe_compression x) (write_ext_unit tx_Compression) @
     opt_ext (write_ext_z64 tx_RemoteBound) (oe_remote_bound x)"

definition open_syn_ext_step :: "u8 \<Rightarrow> OpenExt \<Rightarrow> (OpenExt \<times> bool) rd" where
  "open_syn_ext_step h s bs =
     (if eid h = tx_QoS then
        do { (m, bs) \<leftarrow> read_ext_unit tx_QoS h bs; Some ((s\<lparr>oe_qos := True\<rparr>, m), bs) }
      else if eid h = tx_Auth then
        do { (vm, bs) \<leftarrow> read_ext_zbuf tx_Auth h bs; Some ((s\<lparr>oe_auth := Some (fst vm)\<rparr>, snd vm), bs) }
      else if eid h = tx_MultiLink then
        do { (vm, bs) \<leftarrow> read_ext_zbuf tx_MultiLink h bs; Some ((s\<lparr>oe_mlink := Some (fst vm)\<rparr>, snd vm), bs) }
      else if eid h = tx_LowLatency then
        do { (m, bs) \<leftarrow> read_ext_unit tx_LowLatency h bs; Some ((s\<lparr>oe_lowlatency := True\<rparr>, m), bs) }
      else if eid h = tx_Compression then
        do { (m, bs) \<leftarrow> read_ext_unit tx_Compression h bs; Some ((s\<lparr>oe_compression := True\<rparr>, m), bs) }
      else if eid h = tx_RemoteBound then
        do { (vm, bs) \<leftarrow> read_ext_z64 tx_RemoteBound h bs; Some ((s\<lparr>oe_remote_bound := Some (fst vm)\<rparr>, snd vm), bs) }
      else do { (m, bs) \<leftarrow> ext_skip h bs; Some ((s, m), bs) })"

definition open_syn_upds :: "'a OpenExt_scheme \<Rightarrow> (OpenExt \<Rightarrow> OpenExt) list" where
  "open_syn_upds x =
     when_f (oe_qos x) (\<lambda>s. s\<lparr>oe_qos := True\<rparr>) @
     opt_f (\<lambda>v s. s\<lparr>oe_auth := Some v\<rparr>) (oe_auth x) @
     opt_f (\<lambda>v s. s\<lparr>oe_mlink := Some v\<rparr>) (oe_mlink x) @
     when_f (oe_lowlatency x) (\<lambda>s. s\<lparr>oe_lowlatency := True\<rparr>) @
     when_f (oe_compression x) (\<lambda>s. s\<lparr>oe_compression := True\<rparr>) @
     opt_f (\<lambda>v s. s\<lparr>oe_remote_bound := Some v\<rparr>) (oe_remote_bound x)"

lemma open_syn_upds_fold:
  "fold (\<lambda>f. f) (open_syn_upds x) s = s\<lparr>
     oe_qos := (oe_qos x \<or> oe_qos s),
     oe_auth := (case oe_auth x of None \<Rightarrow> oe_auth s | Some v \<Rightarrow> Some v),
     oe_mlink := (case oe_mlink x of None \<Rightarrow> oe_mlink s | Some v \<Rightarrow> Some v),
     oe_lowlatency := (oe_lowlatency x \<or> oe_lowlatency s),
     oe_compression := (oe_compression x \<or> oe_compression s),
     oe_remote_bound := (case oe_remote_bound x of None \<Rightarrow> oe_remote_bound s | Some v \<Rightarrow> Some v)\<rparr>"
  by (simp add: open_syn_upds_def split: option.split)

lemma open_syn_exts_ok: "list_all2 (ext_ok open_syn_ext_step) (open_syn_exts x) (open_syn_upds x)"
  unfolding open_syn_exts_def open_syn_upds_def
  by (intro exts_intros ext_oks)
    (auto simp:  open_syn_ext_step_def tx_ids)

lemma shrinking_open_syn_ext_step [rd_mono]: "shrinking (open_syn_ext_step h s)"
  unfolding open_syn_ext_step_def [abs_def] by (intro rd_mono)

lemma open_syn_n_exts_length: "open_syn_n_exts x = length (open_syn_exts x)"
  by (simp add: open_syn_n_exts_def open_syn_exts_def)

definition open_syn_ext_init :: OpenExt where
  "open_syn_ext_init = \<lparr>oe_qos = False, oe_auth = None, oe_mlink = None, oe_lowlatency = False, oe_compression = False, oe_remote_bound = None\<rparr>"

lemma read_open_syn_exts:
  assumes "write_exts (open_syn_n_exts x) (open_syn_exts x) = Some c"
  shows "\<exists>s. (\<forall>r. read_exts open_syn_ext_step (open_syn_n_exts x \<noteq> 0) open_syn_ext_init (c @ r) = Some (s, r)) \<and>
    oe_qos s = oe_qos x \<and> oe_auth s = oe_auth x \<and> oe_mlink s = oe_mlink x \<and> oe_lowlatency s = oe_lowlatency x \<and> oe_compression s = oe_compression x \<and> oe_remote_bound s = oe_remote_bound x"
  using read_write_exts [OF open_syn_exts_ok assms open_syn_n_exts_length]
  by (auto simp: open_syn_upds_fold open_syn_ext_init_def split: option.split)

definition open_ack_n_exts :: "'a OpenAckExt_scheme \<Rightarrow> nat" where
  "open_ack_n_exts x = of_bool (oa_qos x) + of_bool (oa_auth x \<noteq> None) + of_bool (oa_mlink x) + of_bool (oa_lowlatency x) + of_bool (oa_compression x) + of_bool (oa_remote_bound x \<noteq> None)"

definition open_ack_exts :: "'a OpenAckExt_scheme \<Rightarrow> (bool \<Rightarrow> bytes option) list" where
  "open_ack_exts x =
     when_ext (oa_qos x) (write_ext_unit tx_QoS) @
     opt_ext (write_ext_zbuf tx_Auth) (oa_auth x) @
     when_ext (oa_mlink x) (write_ext_unit tx_MultiLinkAck) @
     when_ext (oa_lowlatency x) (write_ext_unit tx_LowLatency) @
     when_ext (oa_compression x) (write_ext_unit tx_Compression) @
     opt_ext (write_ext_z64 tx_RemoteBound) (oa_remote_bound x)"

definition open_ack_ext_step :: "u8 \<Rightarrow> OpenAckExt \<Rightarrow> (OpenAckExt \<times> bool) rd" where
  "open_ack_ext_step h s bs =
     (if eid h = tx_QoS then
        do { (m, bs) \<leftarrow> read_ext_unit tx_QoS h bs; Some ((s\<lparr>oa_qos := True\<rparr>, m), bs) }
      else if eid h = tx_Auth then
        do { (vm, bs) \<leftarrow> read_ext_zbuf tx_Auth h bs; Some ((s\<lparr>oa_auth := Some (fst vm)\<rparr>, snd vm), bs) }
      else if eid h = tx_MultiLinkAck then
        do { (m, bs) \<leftarrow> read_ext_unit tx_MultiLinkAck h bs; Some ((s\<lparr>oa_mlink := True\<rparr>, m), bs) }
      else if eid h = tx_LowLatency then
        do { (m, bs) \<leftarrow> read_ext_unit tx_LowLatency h bs; Some ((s\<lparr>oa_lowlatency := True\<rparr>, m), bs) }
      else if eid h = tx_Compression then
        do { (m, bs) \<leftarrow> read_ext_unit tx_Compression h bs; Some ((s\<lparr>oa_compression := True\<rparr>, m), bs) }
      else if eid h = tx_RemoteBound then
        do { (vm, bs) \<leftarrow> read_ext_z64 tx_RemoteBound h bs; Some ((s\<lparr>oa_remote_bound := Some (fst vm)\<rparr>, snd vm), bs) }
      else do { (m, bs) \<leftarrow> ext_skip h bs; Some ((s, m), bs) })"

definition open_ack_upds :: "'a OpenAckExt_scheme \<Rightarrow> (OpenAckExt \<Rightarrow> OpenAckExt) list" where
  "open_ack_upds x =
     when_f (oa_qos x) (\<lambda>s. s\<lparr>oa_qos := True\<rparr>) @
     opt_f (\<lambda>v s. s\<lparr>oa_auth := Some v\<rparr>) (oa_auth x) @
     when_f (oa_mlink x) (\<lambda>s. s\<lparr>oa_mlink := True\<rparr>) @
     when_f (oa_lowlatency x) (\<lambda>s. s\<lparr>oa_lowlatency := True\<rparr>) @
     when_f (oa_compression x) (\<lambda>s. s\<lparr>oa_compression := True\<rparr>) @
     opt_f (\<lambda>v s. s\<lparr>oa_remote_bound := Some v\<rparr>) (oa_remote_bound x)"

lemma open_ack_upds_fold:
  "fold (\<lambda>f. f) (open_ack_upds x) s = s\<lparr>
     oa_qos := (oa_qos x \<or> oa_qos s),
     oa_auth := (case oa_auth x of None \<Rightarrow> oa_auth s | Some v \<Rightarrow> Some v),
     oa_mlink := (oa_mlink x \<or> oa_mlink s),
     oa_lowlatency := (oa_lowlatency x \<or> oa_lowlatency s),
     oa_compression := (oa_compression x \<or> oa_compression s),
     oa_remote_bound := (case oa_remote_bound x of None \<Rightarrow> oa_remote_bound s | Some v \<Rightarrow> Some v)\<rparr>"
  by (simp add: open_ack_upds_def split: option.split)

lemma open_ack_exts_ok: "list_all2 (ext_ok open_ack_ext_step) (open_ack_exts x) (open_ack_upds x)"
  unfolding open_ack_exts_def open_ack_upds_def
  by (intro exts_intros ext_oks)
    (auto simp:  open_ack_ext_step_def tx_ids)

lemma shrinking_open_ack_ext_step [rd_mono]: "shrinking (open_ack_ext_step h s)"
  unfolding open_ack_ext_step_def [abs_def] by (intro rd_mono)

lemma open_ack_n_exts_length: "open_ack_n_exts x = length (open_ack_exts x)"
  by (simp add: open_ack_n_exts_def open_ack_exts_def)

definition open_ack_ext_init :: OpenAckExt where
  "open_ack_ext_init = \<lparr>oa_qos = False, oa_auth = None, oa_mlink = False, oa_lowlatency = False, oa_compression = False, oa_remote_bound = None\<rparr>"

lemma read_open_ack_exts:
  assumes "write_exts (open_ack_n_exts x) (open_ack_exts x) = Some c"
  shows "\<exists>s. (\<forall>r. read_exts open_ack_ext_step (open_ack_n_exts x \<noteq> 0) open_ack_ext_init (c @ r) = Some (s, r)) \<and>
    oa_qos s = oa_qos x \<and> oa_auth s = oa_auth x \<and> oa_mlink s = oa_mlink x \<and> oa_lowlatency s = oa_lowlatency x \<and> oa_compression s = oa_compression x \<and> oa_remote_bound s = oa_remote_bound x"
  using read_write_exts [OF open_ack_exts_ok assms open_ack_n_exts_length]
  by (auto simp: open_ack_upds_fold open_ack_ext_init_def split: option.split)

definition write_open_syn :: "OpenSyn enc" where
  "write_open_syn x =
     (let t = as_millis (os_lease x) mod 1000 = 0 in wcat
     [write_u8 (set_if (open_syn_n_exts x \<noteq> 0) flag7 (set_if t flag6 tid_OPEN)),
      write_lease t (os_lease x),
      write_uint (os_initial_sn x),
      write_zbuf U64_MAX (os_cookie x),
      write_exts (open_syn_n_exts x) (open_syn_exts x)])"

definition read_open_syn :: "u8 \<Rightarrow> OpenSyn rd" where
  "read_open_syn header bs =
     (if mid header \<noteq> tid_OPEN \<or> has_flag header flag5 then None
      else do {
        (lease, bs) \<leftarrow> read_lease (has_flag header flag6) bs;
        (sn, bs) \<leftarrow> read_uint bs;
        (cookie, bs) \<leftarrow> read_zbuf U64_MAX bs;
        (s, bs) \<leftarrow> read_exts open_syn_ext_step (has_flag header flag7) open_syn_ext_init bs;
        Some (\<lparr>oe_qos = oe_qos s, oe_auth = oe_auth s, oe_mlink = oe_mlink s, oe_lowlatency = oe_lowlatency s,
           oe_compression = oe_compression s, oe_remote_bound = oe_remote_bound s, os_lease = lease,
           os_initial_sn = sn, os_cookie = cookie\<rparr>, bs) })"

definition write_open_ack :: "OpenAck enc" where
  "write_open_ack x =
     (let t = subsec_nanos (oa_lease x) = 0 in wcat
     [write_u8 (set_if (open_ack_n_exts x \<noteq> 0) flag7 (set_if t flag6 (set_if True flag5 tid_OPEN))),
      write_lease t (oa_lease x),
      write_uint (oa_initial_sn x),
      write_exts (open_ack_n_exts x) (open_ack_exts x)])"

definition read_open_ack :: "u8 \<Rightarrow> OpenAck rd" where
  "read_open_ack header bs =
     (if mid header \<noteq> tid_OPEN \<or> \<not> has_flag header flag5 then None
      else do {
        (lease, bs) \<leftarrow> read_lease (has_flag header flag6) bs;
        (sn, bs) \<leftarrow> read_uint bs;
        (s, bs) \<leftarrow> read_exts open_ack_ext_step (has_flag header flag7) open_ack_ext_init bs;
        Some (\<lparr>oa_qos = oa_qos s, oa_auth = oa_auth s, oa_mlink = oa_mlink s, oa_lowlatency = oa_lowlatency s,
           oa_compression = oa_compression s, oa_remote_bound = oa_remote_bound s, oa_lease = lease,
           oa_initial_sn = sn\<rparr>, bs) })"

lemma open_syn_rt:
  assumes "lease_ok (os_lease x)" "write_open_syn x = Some bs"
  shows "\<exists>h b. bs = h # b \<and> mid h = tid_OPEN \<and> \<not> has_flag h flag5 \<and> (\<forall>r. read_open_syn h (b @ r) = Some (x, r))"
proof -
  let ?t = "as_millis (os_lease x) mod 1000 = 0"
  from assms(2) obtain a d c e where a: "write_lease ?t (os_lease x) = Some a"
    and d: "write_uint (os_initial_sn x) = Some d" and c: "write_zbuf U64_MAX (os_cookie x) = Some c"
    and e: "write_exts (open_syn_n_exts x) (open_syn_exts x) = Some e"
    and bs: "bs = set_if (open_syn_n_exts x \<noteq> 0) flag7 (set_if ?t flag6 tid_OPEN) # a @ d @ c @ e"
    unfolding write_open_syn_def codec_simps Let_def by auto
  from read_open_syn_exts [OF e] lease_rt [OF assms(1) _ a] u32.rt_all [OF TrueI d] zbuf.rt_all [OF TrueI c]
  show ?thesis by (auto simp: bs read_open_syn_def)
qed

lemma open_ack_rt:
  assumes "lease_ok (oa_lease x)" "write_open_ack x = Some bs"
  shows "\<exists>h b. bs = h # b \<and> mid h = tid_OPEN \<and> has_flag h flag5 \<and> (\<forall>r. read_open_ack h (b @ r) = Some (x, r))"
proof -
  let ?t = "subsec_nanos (oa_lease x) = 0"
  from assms(2) obtain a d e where a: "write_lease ?t (oa_lease x) = Some a"
    and d: "write_uint (oa_initial_sn x) = Some d"
    and e: "write_exts (open_ack_n_exts x) (open_ack_exts x) = Some e"
    and bs: "bs = set_if (open_ack_n_exts x \<noteq> 0) flag7 (set_if ?t flag6 (set_if True flag5 tid_OPEN)) # a @ d @ e"
    unfolding write_open_ack_def codec_simps Let_def by auto
  from read_open_ack_exts [OF e] lease_rt [OF assms(1) _ a] subsec_millis u32.rt_all [OF TrueI d]
  show ?thesis by (auto simp: bs read_open_ack_def)
qed

section \<open>Join\<close>

record PrioritySn =
  ps_reliable :: TransportSn
  ps_best_effort :: TransportSn

definition PRIORITY_SN_DEFAULT :: PrioritySn where
  "PRIORITY_SN_DEFAULT = \<lparr>ps_reliable = 0, ps_best_effort = 0\<rparr>"

definition PRIORITY_NUM :: nat where "PRIORITY_NUM = 8"

definition priority_sn_w_len :: "PrioritySn \<Rightarrow> nat" where
  "priority_sn_w_len p = vle_len (ucast (ps_reliable p)) + vle_len (ucast (ps_best_effort p))"

definition write_priority_sn :: "PrioritySn enc" where
  "write_priority_sn x = wcat [write_uint (ps_reliable x), write_uint (ps_best_effort x)]"

definition read_priority_sn :: "PrioritySn rd" where
  "read_priority_sn bs =
     do { (r, bs) \<leftarrow> read_uint bs; (b, bs) \<leftarrow> read_uint bs;
          Some (\<lparr>ps_reliable = r, ps_best_effort = b\<rparr>, bs) }"

text \<open>The next sequence numbers of the eight priorities, an array.\<close>

definition write_sns_ext :: "u8 \<Rightarrow> PrioritySn list \<Rightarrow> bool \<Rightarrow> bytes option" where
  "write_sns_ext i x m =
     do { len \<leftarrow> usize_of (fold (\<lambda>p acc. acc + priority_sn_w_len p) x 0);
          wcat [write_ext_zbuf_header i len m, wcat (map write_priority_sn x)] }"

definition read_sns_ext :: "u8 \<Rightarrow> u8 \<Rightarrow> (PrioritySn list \<times> bool) rd" where
  "read_sns_ext i h bs =
     do { (hm, bs) \<leftarrow> read_ext_zbuf_header i h bs;
          (x, bs) \<leftarrow> read_times PRIORITY_NUM read_priority_sn bs;
          Some ((x, snd hm), bs) }"

interpretation priority_sn: codec "\<lambda>_. True" write_priority_sn read_priority_sn
  by unfold_locales (auto simp: write_priority_sn_def read_priority_sn_def codec_simps u32.rt)

lemma sns_ext_rt:
  assumes "ext_id_ok i" "length x = PRIORITY_NUM" "write_sns_ext i x m = Some bs"
  shows "\<exists>h b. bs = h # b \<and> eid h = i \<and> (\<forall>r. read_sns_ext i h (b @ r) = Some ((x, m), r))"
  unfolding read_sns_ext_def
  by (rule ext_zbuf_body_rt [OF assms(1) assms(3) [unfolded write_sns_ext_def]])
    (metis assms(2) priority_sn.rt_times)

lemma ext_ok_sns [ext_oks]:
  assumes "ext_id_ok i" "length v = PRIORITY_NUM"
    and "\<And>h s bs m r. eid h = i \<Longrightarrow> read_sns_ext i h bs = Some ((v, m), r) \<Longrightarrow> step h s bs = Some ((f s, m), r)"
  shows "ext_ok step (write_sns_ext i v) f"
  by (rule ext_ok_readI [where rd = "read_sns_ext i"], erule sns_ext_rt [OF assms(1,2)], rule assms(3))

lemma shrinking_priority_sn [rd_mono]: "shrinking read_priority_sn"
  unfolding read_priority_sn_def [abs_def] by (intro rd_mono)

lemma shrinking_sns_ext [rd_mono]: "shrinking (read_sns_ext i h)"
  unfolding read_sns_ext_def [abs_def] by (intro rd_mono)

record JoinExt =
  je_qos :: "PrioritySn list option"
  je_shm :: "bytes option"
  je_patch :: PatchType

record Join = JoinExt +
  join_version :: u8
  join_whatami :: WhatAmI
  join_zid :: zid
  join_resolution :: Resolution
  join_batch_size :: BatchSize
  join_lease :: Duration
  join_next_sn :: PrioritySn

definition join_ok :: "'a JoinExt_scheme \<Rightarrow> bool" where
  "join_ok x \<longleftrightarrow> pred_option (\<lambda>q. length q = PRIORITY_NUM) (je_qos x)"

definition join_n_exts :: "'a JoinExt_scheme \<Rightarrow> nat" where
  "join_n_exts x = of_bool (je_qos x \<noteq> None) + of_bool (je_shm x \<noteq> None) + of_bool (je_patch x \<noteq> PATCH_NONE)"

definition join_exts :: "'a JoinExt_scheme \<Rightarrow> (bool \<Rightarrow> bytes option) list" where
  "join_exts x =
     opt_ext (write_sns_ext join_QoS) (je_qos x) @
     opt_ext (write_ext_zbuf join_Shm) (je_shm x) @
     when_ext (je_patch x \<noteq> PATCH_NONE) (write_patch_ext tx_Patch (je_patch x))"

definition join_ext_step :: "u8 \<Rightarrow> JoinExt \<Rightarrow> (JoinExt \<times> bool) rd" where
  "join_ext_step h s bs =
     (if eid h = join_QoS then
        do { (vm, bs) \<leftarrow> read_sns_ext join_QoS h bs; Some ((s\<lparr>je_qos := Some (fst vm)\<rparr>, snd vm), bs) }
      else if eid h = join_Shm then
        do { (vm, bs) \<leftarrow> read_ext_zbuf join_Shm h bs; Some ((s\<lparr>je_shm := Some (fst vm)\<rparr>, snd vm), bs) }
      else if eid h = tx_Patch then
        do { (vm, bs) \<leftarrow> read_patch_ext tx_Patch h bs; Some ((s\<lparr>je_patch := fst vm\<rparr>, snd vm), bs) }
      else do { (m, bs) \<leftarrow> ext_skip h bs; Some ((s, m), bs) })"

definition join_upds :: "'a JoinExt_scheme \<Rightarrow> (JoinExt \<Rightarrow> JoinExt) list" where
  "join_upds x =
     opt_f (\<lambda>v s. s\<lparr>je_qos := Some v\<rparr>) (je_qos x) @
     opt_f (\<lambda>v s. s\<lparr>je_shm := Some v\<rparr>) (je_shm x) @
     when_f (je_patch x \<noteq> PATCH_NONE) (\<lambda>s. s\<lparr>je_patch := je_patch x\<rparr>)"

lemma join_upds_fold:
  "fold (\<lambda>f. f) (join_upds x) s = s\<lparr>
     je_qos := (case je_qos x of None \<Rightarrow> je_qos s | Some v \<Rightarrow> Some v),
     je_shm := (case je_shm x of None \<Rightarrow> je_shm s | Some v \<Rightarrow> Some v),
     je_patch := (if je_patch x \<noteq> PATCH_NONE then je_patch x else je_patch s)\<rparr>"
  by (simp add: join_upds_def split: option.split)

lemma join_exts_ok: "join_ok x \<Longrightarrow> list_all2 (ext_ok join_ext_step) (join_exts x) (join_upds x)"
  unfolding join_exts_def join_upds_def
  by (intro exts_intros ext_oks)
    (auto simp: join_ok_def join_ext_step_def tx_ids)

lemma shrinking_join_ext_step [rd_mono]: "shrinking (join_ext_step h s)"
  unfolding join_ext_step_def [abs_def] by (intro rd_mono)

lemma join_n_exts_length: "join_n_exts x = length (join_exts x)"
  by (simp add: join_n_exts_def join_exts_def)

definition join_ext_init :: JoinExt where
  "join_ext_init = \<lparr>je_qos = None, je_shm = None, je_patch = PATCH_NONE\<rparr>"

lemma read_join_exts:
  assumes "join_ok x" "write_exts (join_n_exts x) (join_exts x) = Some c"
  shows "\<exists>s. (\<forall>r. read_exts join_ext_step (join_n_exts x \<noteq> 0) join_ext_init (c @ r) = Some (s, r)) \<and>
    je_qos s = je_qos x \<and> je_shm s = je_shm x \<and> je_patch s = je_patch x"
  using read_write_exts [OF join_exts_ok [OF assms(1)] assms(2) join_n_exts_length]
  by (auto simp: join_upds_fold join_ext_init_def split: option.split)

definition join_has_size :: "Join \<Rightarrow> bool" where
  "join_has_size x = has_size BATCH_MULTICAST (join_resolution x) (join_batch_size x)"

definition join_header :: "Join \<Rightarrow> u8" where
  "join_header x =
     set_if (join_n_exts x \<noteq> 0) flag7
       (set_if (join_has_size x) flag6 (set_if (as_millis (join_lease x) mod 1000 = 0) flag5 tid_JOIN))"

definition write_join :: "Join enc" where
  "write_join x = wcat
     [write_u8 (join_header x),
      write_u8 (join_version x),
      write_wai_zid (join_whatami x) (join_zid x),
      wr_when (join_has_size x) (write_size (join_resolution x) (join_batch_size x)),
      write_lease (as_millis (join_lease x) mod 1000 = 0) (join_lease x),
      write_priority_sn (join_next_sn x),
      write_exts (join_n_exts x) (join_exts x)]"

definition read_join :: "(bytes \<Rightarrow> bytes option) \<Rightarrow> u8 \<Rightarrow> Join rd" where
  "read_join idf header bs =
     (if mid header \<noteq> tid_JOIN then None
      else do {
        (version, bs) \<leftarrow> read_u8 bs;
        (wz, bs) \<leftarrow> read_wai_zid idf bs;
        (sz, bs) \<leftarrow> rd_when (has_flag header flag6) (resolution_default, BATCH_MULTICAST) read_size bs;
        (lease, bs) \<leftarrow> read_lease (has_flag header flag5) bs;
        (next, bs) \<leftarrow> read_priority_sn bs;
        (s, bs) \<leftarrow> read_exts join_ext_step (has_flag header flag7) join_ext_init bs;
        Some (\<lparr>je_qos = je_qos s, je_shm = je_shm s, je_patch = je_patch s, join_version = version,
           join_whatami = fst wz, join_zid = snd wz, join_resolution = fst sz, join_batch_size = snd sz,
           join_lease = lease, join_next_sn = next\<rparr>, bs) })"

definition join_msg_ok :: "(bytes \<Rightarrow> bytes option) \<Rightarrow> Join \<Rightarrow> bool" where
  "join_msg_ok idf x \<longleftrightarrow> join_ok x \<and> zid_ok idf (join_zid x) \<and> resolution_ok (join_resolution x) \<and>
     lease_ok (join_lease x)"

lemma join_header_simps [simp]:
  "mid (join_header x) = tid_JOIN" "has_flag (join_header x) flag5 = (as_millis (join_lease x) mod 1000 = 0)"
  "has_flag (join_header x) flag6 = join_has_size x" "has_flag (join_header x) flag7 = (join_n_exts x \<noteq> 0)"
  by (simp_all add: join_header_def)

lemma join_rt:
  assumes "join_msg_ok idf x" "write_join x = Some bs"
  shows "\<exists>h b. bs = h # b \<and> mid h = tid_JOIN \<and> (\<forall>r. read_join idf h (b @ r) = Some (x, r))"
proof -
  let ?t = "as_millis (join_lease x) mod 1000 = 0"
  from assms(2) obtain a d l p e where a: "write_wai_zid (join_whatami x) (join_zid x) = Some a"
    and d: "wr_when (join_has_size x) (write_size (join_resolution x) (join_batch_size x)) = Some d"
    and l: "write_lease ?t (join_lease x) = Some l" and p: "write_priority_sn (join_next_sn x) = Some p"
    and e: "write_exts (join_n_exts x) (join_exts x) = Some e"
    and bs: "bs = join_header x # join_version x # a @ d @ l @ p @ e"
    unfolding write_join_def codec_simps by auto
  from assms(1) have ok: "join_ok x" "zid_ok idf (join_zid x)" "resolution_ok (join_resolution x)"
    "lease_ok (join_lease x)"
    by (simp_all add: join_msg_ok_def)
  from read_join_exts [OF ok(1) e] wai_zid_rt [OF ok(2) a] size_rt [OF ok(3) d [unfolded join_has_size_def]]
    lease_rt [OF ok(4) _ l] priority_sn.rt_all [OF TrueI p]
  show ?thesis
    by (auto simp: bs read_join_def join_has_size_def)
qed

section \<open>Close and KeepAlive\<close>

record Close =
  close_reason :: u8
  close_session :: bool

datatype KeepAlive = KeepAlive

definition write_close :: "Close enc" where
  "write_close x = wcat [write_u8 (set_if (close_session x) flag5 tid_CLOSE), write_u8 (close_reason x)]"

definition read_close :: "u8 \<Rightarrow> Close rd" where
  "read_close header bs =
     (if mid header \<noteq> tid_CLOSE then None
      else do { (reason, bs) \<leftarrow> read_u8 bs;
                (_, bs) \<leftarrow> skip_all (has_flag header flag7) bs;
                Some (\<lparr>close_reason = reason, close_session = has_flag header flag5\<rparr>, bs) })"

definition write_keep_alive :: "KeepAlive enc" where
  "write_keep_alive x = write_u8 tid_KEEP_ALIVE"

definition read_keep_alive :: "u8 \<Rightarrow> KeepAlive rd" where
  "read_keep_alive header bs =
     (if mid header \<noteq> tid_KEEP_ALIVE then None
      else do { (_, bs) \<leftarrow> skip_all (has_flag header flag7) bs; Some (KeepAlive, bs) })"

lemma close_rt:
  assumes "write_close x = Some bs"
  shows "\<exists>h b. bs = h # b \<and> mid h = tid_CLOSE \<and> (\<forall>r. read_close h (b @ r) = Some (x, r))"
  using assms by (auto simp: write_close_def read_close_def codec_simps)

lemma keep_alive_rt:
  assumes "write_keep_alive x = Some bs"
  shows "\<exists>h b. bs = h # b \<and> mid h = tid_KEEP_ALIVE \<and> (\<forall>r. read_keep_alive h (b @ r) = Some (x, r))"
  using assms by (cases x) (auto simp: write_keep_alive_def read_keep_alive_def codec_simps)

lemma shrinking_init_syn [rd_mono]: "shrinking (read_init_syn idf h)"
  unfolding read_init_syn_def [abs_def] by (intro rd_mono)

lemma shrinking_init_ack [rd_mono]: "shrinking (read_init_ack idf h)"
  unfolding read_init_ack_def [abs_def] by (intro rd_mono)

lemma shrinking_open_syn [rd_mono]: "shrinking (read_open_syn h)"
  unfolding read_open_syn_def [abs_def] by (intro rd_mono)

lemma shrinking_open_ack [rd_mono]: "shrinking (read_open_ack h)"
  unfolding read_open_ack_def [abs_def] by (intro rd_mono)

lemma shrinking_join [rd_mono]: "shrinking (read_join idf h)"
  unfolding read_join_def [abs_def] by (intro rd_mono)

lemma shrinking_close [rd_mono]: "shrinking (read_close h)"
  unfolding read_close_def [abs_def] by (intro rd_mono)

lemma shrinking_keep_alive [rd_mono]: "shrinking (read_keep_alive h)"
  unfolding read_keep_alive_def [abs_def] by (intro rd_mono)

end
