(* ===== verification/Codec_Frame.thy ===== *)
theory Codec_Frame
  imports Codec_Session
begin

text \<open>
  The transport messages that carry data: Frame, Fragment and OAM, and the union of all the transport
  messages (zenoh-protocol and zenoh-codec, transport/frame.rs, fragment.rs, oam.rs, mod.rs).
\<close>

section \<open>Quality of service of the transport\<close>

type_synonym TQoS = u8

definition TQOS_P_MASK :: u8 where "TQOS_P_MASK = 0x7"

definition tqos_new :: "Priority \<Rightarrow> TQoS" where
  "tqos_new p = priority_u8 p"

definition TQOS_DEFAULT :: TQoS where
  "TQOS_DEFAULT = tqos_new PRIORITY_DEFAULT"

definition tqos_priority :: "TQoS \<Rightarrow> Priority option" where
  "tqos_priority q = priority_try_from (q AND TQOS_P_MASK)"

definition write_tqos_ext :: "u8 \<Rightarrow> TQoS \<Rightarrow> bool \<Rightarrow> bytes option" where
  "write_tqos_ext i q m = write_ext_z64 i (ucast q) m"

definition read_tqos_ext :: "u8 \<Rightarrow> u8 \<Rightarrow> (TQoS \<times> bool) rd" where
  "read_tqos_ext i h bs = do { (vm, bs) \<leftarrow> read_ext_z64 i h bs; Some ((ucast (fst vm), snd vm), bs) }"

text \<open>The \<open>transmute\<close> of \<open>priority\<close> is defined on every byte.\<close>

lemma tqos_priority_total: "\<exists>p. tqos_priority q = Some p"
  using and_7_cases [of q] by (auto simp: tqos_priority_def TQOS_P_MASK_def priority_try_from_def)

lemma tqos_priority_new [simp]: "tqos_priority (tqos_new p) = Some p"
  by (cases p) (simp_all add: tqos_priority_def tqos_new_def TQOS_P_MASK_def priority_try_from_def)

lemma tqos_ext_rt:
  assumes "ext_id_ok i" "write_tqos_ext i q m = Some bs"
  shows "\<exists>h b. bs = h # b \<and> eid h = i \<and> (\<forall>r. read_tqos_ext i h (b @ r) = Some ((q, m), r))"
  using ext_z64_rt [OF assms(1), of "ucast q" m bs] assms(2)
  by (auto simp: write_tqos_ext_def read_tqos_ext_def ucast_ucast_id)

lemma ext_ok_tqos [ext_oks]:
  assumes "ext_id_ok i"
    and "\<And>h s bs m r. eid h = i \<Longrightarrow> read_tqos_ext i h bs = Some ((v, m), r) \<Longrightarrow> step h s bs = Some ((f s, m), r)"
  shows "ext_ok step (write_tqos_ext i v) f"
  by (rule ext_ok_readI [where rd = "read_tqos_ext i"], erule tqos_ext_rt [OF assms(1)], rule assms(2))

lemma shrinking_tqos_ext [rd_mono]: "shrinking (read_tqos_ext i h)"
  unfolding read_tqos_ext_def [abs_def] by (intro rd_mono)

definition fr_QoS :: u8 where "fr_QoS = zextz64 0x1 True"
definition fg_First :: u8 where "fg_First = zextunit 0x2 False"
definition fg_Drop :: u8 where "fg_Drop = zextunit 0x3 False"

lemma fr_ids: "fr_QoS = 0x31" "fg_First = 0x02" "fg_Drop = 0x03"
  "ext_id_ok 0x31" "ext_id_ok 0x02" "ext_id_ok 0x03"
  by (simp_all add: fr_QoS_def fg_First_def fg_Drop_def ext_id_ok_def eid_def zext_defs)

section \<open>Frame\<close>

record FrExt =
  fr_qos :: TQoS

record FrameHeader = FrExt +
  fr_reliability :: Reliability
  fr_sn :: TransportSn

record Frame = FrameHeader +
  fr_payload :: "NetworkMessage list"

definition frame_n_exts :: "'a FrExt_scheme \<Rightarrow> nat" where
  "frame_n_exts x = of_bool (fr_qos x \<noteq> TQOS_DEFAULT)"

definition frame_exts :: "'a FrExt_scheme \<Rightarrow> (bool \<Rightarrow> bytes option) list" where
  "frame_exts x =
     when_ext (fr_qos x \<noteq> TQOS_DEFAULT) (write_tqos_ext fr_QoS (fr_qos x))"

definition frame_ext_step :: "u8 \<Rightarrow> FrExt \<Rightarrow> (FrExt \<times> bool) rd" where
  "frame_ext_step h s bs =
     (if eid h = fr_QoS then
        do { (vm, bs) \<leftarrow> read_tqos_ext fr_QoS h bs; Some ((s\<lparr>fr_qos := fst vm\<rparr>, snd vm), bs) }
      else do { (m, bs) \<leftarrow> ext_skip h bs; Some ((s, m), bs) })"

definition frame_upds :: "'a FrExt_scheme \<Rightarrow> (FrExt \<Rightarrow> FrExt) list" where
  "frame_upds x =
     when_f (fr_qos x \<noteq> TQOS_DEFAULT) (\<lambda>s. s\<lparr>fr_qos := fr_qos x\<rparr>)"

lemma frame_upds_fold:
  "fold (\<lambda>f. f) (frame_upds x) s = s\<lparr>
     fr_qos := (if fr_qos x \<noteq> TQOS_DEFAULT then fr_qos x else fr_qos s)\<rparr>"
  by (simp add: frame_upds_def split: option.split)

lemma frame_exts_ok: "list_all2 (ext_ok frame_ext_step) (frame_exts x) (frame_upds x)"
  unfolding frame_exts_def frame_upds_def
  by (intro exts_intros ext_oks)
    (auto simp:  frame_ext_step_def fr_ids)

lemma shrinking_frame_ext_step [rd_mono]: "shrinking (frame_ext_step h s)"
  unfolding frame_ext_step_def [abs_def] by (intro rd_mono)

lemma frame_n_exts_length: "frame_n_exts x = length (frame_exts x)"
  by (simp add: frame_n_exts_def frame_exts_def)

definition frame_ext_init :: FrExt where
  "frame_ext_init = \<lparr>fr_qos = TQOS_DEFAULT\<rparr>"

lemma read_frame_exts:
  assumes "write_exts (frame_n_exts x) (frame_exts x) = Some c"
  shows "\<exists>s. (\<forall>r. read_exts frame_ext_step (frame_n_exts x \<noteq> 0) frame_ext_init (c @ r) = Some (s, r)) \<and>
    fr_qos s = fr_qos x"
  using read_write_exts [OF frame_exts_ok assms frame_n_exts_length]
  by (auto simp: frame_upds_fold frame_ext_init_def split: option.split)

definition write_frame_header :: "'a FrameHeader_scheme \<Rightarrow> bytes option" where
  "write_frame_header x = wcat
     [write_u8 (set_if (fr_qos x \<noteq> TQOS_DEFAULT) flag7 (set_if (fr_reliability x = Reliable) flag5 tid_FRAME)),
      write_uint (fr_sn x),
      wr_when (fr_qos x \<noteq> TQOS_DEFAULT) (write_tqos_ext fr_QoS (fr_qos x) False)]"

definition flag_reliability :: "u8 \<Rightarrow> Reliability" where
  "flag_reliability h = (if has_flag h flag5 then Reliable else BestEffort)"

definition read_frame_header :: "u8 \<Rightarrow> FrameHeader rd" where
  "read_frame_header header bs =
     (if mid header \<noteq> tid_FRAME then None
      else do {
        (sn, bs) \<leftarrow> read_uint bs;
        (s, bs) \<leftarrow> read_exts frame_ext_step (has_flag header flag7) frame_ext_init bs;
        Some (\<lparr>fr_qos = fr_qos s, fr_reliability = flag_reliability header, fr_sn = sn\<rparr>, bs) })"

definition write_frame :: "Frame enc" where
  "write_frame x = wcat [write_frame_header x, wcat (map write_network_message (fr_payload x))]"

text \<open>The loop over the messages of a frame stops at the end of the bytes or at the first message
  that cannot be read, rewinding the reader before it, like the iterator of \<open>Codec_Message\<close>.\<close>

definition read_frame :: "(bytes \<Rightarrow> bytes option) \<Rightarrow> u8 \<Rightarrow> Frame rd" where
  "read_frame idf header bs =
     do { (h, bs) \<leftarrow> read_frame_header header bs;
          let (ms, bs) = iter_all idf (fr_reliability h) bs in
          Some (FrameHeader.extend (FrameHeader.truncate h) \<lparr>fr_payload = ms\<rparr>, bs) }"

text \<open>\<open>FrameReader\<close>: the header is read, the messages are left in the reader.\<close>

definition read_frame_reader :: "bytes \<Rightarrow> (FrameHeader \<times> bytes) option" where
  "read_frame_reader bs = do { (header, bs) \<leftarrow> read_u8 bs; read_frame_header header bs }"

lemma frame_header_exts:
  "wr_when (fr_qos x \<noteq> TQOS_DEFAULT) (write_tqos_ext fr_QoS (fr_qos x) False) =
   write_exts (frame_n_exts x) (frame_exts x)"
  by (auto simp: wr_when_def frame_n_exts_def frame_exts_def when_ext_def wcat.simps)

lemma flag_reliability_eq [simp]: "has_flag h flag5 = (r = Reliable) \<Longrightarrow> flag_reliability h = r"
  by (cases r) (simp_all add: flag_reliability_def)

lemma frame_header_rt:
  assumes "write_frame_header x = Some bs"
  shows "\<exists>h b. bs = h # b \<and> mid h = tid_FRAME \<and>
    (\<forall>r. read_frame_header h (b @ r) = Some (FrameHeader.truncate x, r))"
proof -
  let ?h = "set_if (fr_qos x \<noteq> TQOS_DEFAULT) flag7 (set_if (fr_reliability x = Reliable) flag5 tid_FRAME)"
  from assms obtain a e where a: "write_uint (fr_sn x) = Some a"
    and e: "write_exts (frame_n_exts x) (frame_exts x) = Some e" and bs: "bs = ?h # a @ e"
    unfolding write_frame_header_def frame_header_exts codec_simps by auto
  from read_frame_exts [OF e] obtain s where
    s: "\<And>r. read_exts frame_ext_step (frame_n_exts x \<noteq> 0) frame_ext_init (e @ r) = Some (s, r)" "fr_qos s = fr_qos x"
    by auto
  have nq: "(frame_n_exts x \<noteq> 0) = (fr_qos x \<noteq> TQOS_DEFAULT)" by (simp add: frame_n_exts_def)
  have "read_frame_header ?h ((a @ e) @ r) = Some (FrameHeader.truncate x, r)" for r
    using u32.rt_all [OF TrueI a] s [unfolded nq]
    by (simp add: read_frame_header_def FrameHeader.truncate_def)
  moreover have "mid ?h = tid_FRAME" by simp
  ultimately show ?thesis using bs by blast
qed

text \<open>The iterator consumes a whole encoded payload.\<close>

lemma iter_all_payload:
  assumes "\<forall>m\<in>set ms. network_body_ok idf (body m) \<and> reliability m = rel"
    and "wcat (map write_network_message ms) = Some bs" and "read_network_message idf rel r = None"
  shows "iter_all idf rel (bs @ r) = (ms, r)"
proof -
  have "map (\<lambda>m. m\<lparr>reliability := rel\<rparr>) ms = ms"
    using assms(1) by (intro map_idI) auto
  then show ?thesis using iter_all_batch_rest [of ms idf bs rel r] assms by simp
qed

text \<open>The identifiers of transport and network messages are disjoint, so that the header of a
  transport message ends the frame before it.\<close>

definition transport_id :: "u8 \<Rightarrow> bool" where
  "transport_id i \<longleftrightarrow> i \<in> {tid_OAM, tid_INIT, tid_OPEN, tid_CLOSE, tid_KEEP_ALIVE, tid_FRAME, tid_FRAGMENT, tid_JOIN}"

definition ends_frame :: "bytes \<Rightarrow> bool" where
  "ends_frame r \<longleftrightarrow> (case r of [] \<Rightarrow> True | h # _ \<Rightarrow> transport_id (mid h))"

lemma ends_frame_stops: "ends_frame r \<Longrightarrow> read_network_message idf rel r = None"
proof (cases r)
  case (Cons h b)
  assume "ends_frame r"
  then have "read_network_header idf h b = None"
    unfolding ends_frame_def transport_id_def Cons
    by (auto simp: read_network_header_def rd_map_def transport_ids network_ids)
  then show ?thesis by (simp add: read_network_message_def Cons)
qed (simp add: read_network_message_Nil)

definition frame_ok :: "(bytes \<Rightarrow> bytes option) \<Rightarrow> Frame \<Rightarrow> bool" where
  "frame_ok idf x \<longleftrightarrow> (\<forall>m\<in>set (fr_payload x). network_body_ok idf (body m) \<and> reliability m = fr_reliability x)"

lemma frame_rt:
  assumes "frame_ok idf x" "write_frame x = Some bs"
  shows "\<exists>h b. bs = h # b \<and> mid h = tid_FRAME \<and> (\<forall>r. ends_frame r \<longrightarrow> read_frame idf h (b @ r) = Some (x, r))"
proof -
  from assms(2) obtain a p where a: "write_frame_header x = Some a"
    and p: "wcat (map write_network_message (fr_payload x)) = Some p" and bs: "bs = a @ p"
    unfolding write_frame_def codec_simps by auto
  from frame_header_rt [OF a] obtain h b where h: "a = h # b" "mid h = tid_FRAME"
    "\<And>r. read_frame_header h (b @ r) = Some (FrameHeader.truncate x, r)" by auto
  have "iter_all idf (fr_reliability x) (p @ r) = (fr_payload x, r)" if "ends_frame r" for r
    using assms(1) p ends_frame_stops [OF that] by (intro iter_all_payload) (auto simp: frame_ok_def)
  then show ?thesis
    using h bs by (auto simp: read_frame_def FrameHeader.truncate_def FrameHeader.extend_def)
qed

section \<open>Fragment\<close>

record FgExt =
  fg_qos :: TQoS
  fg_first :: bool
  fg_drop :: bool

record FragmentHeader = FgExt +
  fg_reliability :: Reliability
  fg_more :: bool
  fg_sn :: TransportSn

record Fragment = FragmentHeader +
  fg_payload :: bytes

definition fragment_n_exts :: "'a FgExt_scheme \<Rightarrow> nat" where
  "fragment_n_exts x = of_bool (fg_qos x \<noteq> TQOS_DEFAULT) + of_bool (fg_first x) + of_bool (fg_drop x)"

definition fragment_exts :: "'a FgExt_scheme \<Rightarrow> (bool \<Rightarrow> bytes option) list" where
  "fragment_exts x =
     when_ext (fg_qos x \<noteq> TQOS_DEFAULT) (write_tqos_ext fr_QoS (fg_qos x)) @
     when_ext (fg_first x) (write_ext_unit fg_First) @
     when_ext (fg_drop x) (write_ext_unit fg_Drop)"

definition fragment_ext_step :: "u8 \<Rightarrow> FgExt \<Rightarrow> (FgExt \<times> bool) rd" where
  "fragment_ext_step h s bs =
     (if eid h = fr_QoS then
        do { (vm, bs) \<leftarrow> read_tqos_ext fr_QoS h bs; Some ((s\<lparr>fg_qos := fst vm\<rparr>, snd vm), bs) }
      else if eid h = fg_First then
        do { (m, bs) \<leftarrow> read_ext_unit fg_First h bs; Some ((s\<lparr>fg_first := True\<rparr>, m), bs) }
      else if eid h = fg_Drop then
        do { (m, bs) \<leftarrow> read_ext_unit fg_Drop h bs; Some ((s\<lparr>fg_drop := True\<rparr>, m), bs) }
      else do { (m, bs) \<leftarrow> ext_skip h bs; Some ((s, m), bs) })"

definition fragment_upds :: "'a FgExt_scheme \<Rightarrow> (FgExt \<Rightarrow> FgExt) list" where
  "fragment_upds x =
     when_f (fg_qos x \<noteq> TQOS_DEFAULT) (\<lambda>s. s\<lparr>fg_qos := fg_qos x\<rparr>) @
     when_f (fg_first x) (\<lambda>s. s\<lparr>fg_first := True\<rparr>) @
     when_f (fg_drop x) (\<lambda>s. s\<lparr>fg_drop := True\<rparr>)"

lemma fragment_upds_fold:
  "fold (\<lambda>f. f) (fragment_upds x) s = s\<lparr>
     fg_qos := (if fg_qos x \<noteq> TQOS_DEFAULT then fg_qos x else fg_qos s),
     fg_first := (fg_first x \<or> fg_first s),
     fg_drop := (fg_drop x \<or> fg_drop s)\<rparr>"
  by (simp add: fragment_upds_def split: option.split)

lemma fragment_exts_ok: "list_all2 (ext_ok fragment_ext_step) (fragment_exts x) (fragment_upds x)"
  unfolding fragment_exts_def fragment_upds_def
  by (intro exts_intros ext_oks)
    (auto simp:  fragment_ext_step_def fr_ids)

lemma shrinking_fragment_ext_step [rd_mono]: "shrinking (fragment_ext_step h s)"
  unfolding fragment_ext_step_def [abs_def] by (intro rd_mono)

lemma fragment_n_exts_length: "fragment_n_exts x = length (fragment_exts x)"
  by (simp add: fragment_n_exts_def fragment_exts_def)

definition fragment_ext_init :: FgExt where
  "fragment_ext_init = \<lparr>fg_qos = TQOS_DEFAULT, fg_first = False, fg_drop = False\<rparr>"

lemma read_fragment_exts:
  assumes "write_exts (fragment_n_exts x) (fragment_exts x) = Some c"
  shows "\<exists>s. (\<forall>r. read_exts fragment_ext_step (fragment_n_exts x \<noteq> 0) fragment_ext_init (c @ r) = Some (s, r)) \<and>
    fg_qos s = fg_qos x \<and> fg_first s = fg_first x \<and> fg_drop s = fg_drop x"
  using read_write_exts [OF fragment_exts_ok assms fragment_n_exts_length]
  by (auto simp: fragment_upds_fold fragment_ext_init_def split: option.split)

definition fragment_header :: "'a FragmentHeader_scheme \<Rightarrow> u8" where
  "fragment_header x =
     set_if (fragment_n_exts x \<noteq> 0) flag7
       (set_if (fg_more x) flag6 (set_if (fg_reliability x = Reliable) flag5 tid_FRAGMENT))"

definition write_fragment_header :: "'a FragmentHeader_scheme \<Rightarrow> bytes option" where
  "write_fragment_header x = wcat
     [write_u8 (fragment_header x),
      write_uint (fg_sn x),
      write_exts (fragment_n_exts x) (fragment_exts x)]"

definition read_fragment_header :: "u8 \<Rightarrow> FragmentHeader rd" where
  "read_fragment_header header bs =
     (if mid header \<noteq> tid_FRAGMENT then None
      else do {
        (sn, bs) \<leftarrow> read_uint bs;
        (s, bs) \<leftarrow> read_exts fragment_ext_step (has_flag header flag7) fragment_ext_init bs;
        Some (\<lparr>fg_qos = fg_qos s, fg_first = fg_first s, fg_drop = fg_drop s,
          fg_reliability = flag_reliability header, fg_more = has_flag header flag6, fg_sn = sn\<rparr>, bs) })"

definition write_fragment :: "Fragment enc" where
  "write_fragment x = wcat [write_fragment_header x, write_exact (fg_payload x)]"

text \<open>The payload is the rest of the batch.\<close>

definition read_fragment :: "u8 \<Rightarrow> Fragment rd" where
  "read_fragment header bs =
     do { (h, bs) \<leftarrow> read_fragment_header header bs;
          (p, bs) \<leftarrow> read_exact (length bs) bs;
          Some (FragmentHeader.extend (FragmentHeader.truncate h) \<lparr>fg_payload = p\<rparr>, bs) }"

lemma fragment_header_simps [simp]:
  "mid (fragment_header x) = tid_FRAGMENT" "has_flag (fragment_header x) flag5 = (fg_reliability x = Reliable)"
  "has_flag (fragment_header x) flag6 = fg_more x" "has_flag (fragment_header x) flag7 = (fragment_n_exts x \<noteq> 0)"
  by (simp_all add: fragment_header_def)

lemma fragment_header_rt:
  assumes "write_fragment_header x = Some bs"
  shows "\<exists>h b. bs = h # b \<and> mid h = tid_FRAGMENT \<and>
    (\<forall>r. read_fragment_header h (b @ r) = Some (FragmentHeader.truncate x, r))"
proof -
  from assms obtain a e where a: "write_uint (fg_sn x) = Some a"
    and e: "write_exts (fragment_n_exts x) (fragment_exts x) = Some e" and bs: "bs = fragment_header x # a @ e"
    unfolding write_fragment_header_def codec_simps by auto
  from read_fragment_exts [OF e] u32.rt_all [OF TrueI a] show ?thesis
    by (auto simp: bs read_fragment_header_def FragmentHeader.truncate_def)
qed

lemma fragment_rt:
  assumes "write_fragment x = Some bs"
  shows "\<exists>h b. bs = h # b \<and> mid h = tid_FRAGMENT \<and> read_fragment h b = Some (x, [])"
proof -
  from assms obtain a where a: "write_fragment_header x = Some a" and bs: "bs = a @ fg_payload x"
    unfolding write_fragment_def codec_simps write_exact_def by auto
  from fragment_header_rt [OF a] bs show ?thesis
    by (auto simp: read_fragment_def read_exact_def FragmentHeader.truncate_def FragmentHeader.extend_def)
qed

section \<open>OAM\<close>

record TOam = FrExt +
  toam_id :: u16
  toam_body :: ZExtBody

definition toam_header :: "TOam \<Rightarrow> u8" where
  "toam_header x = set_if (frame_n_exts x \<noteq> 0) flag7 (tid_OAM OR oam_enc (toam_body x))"

definition write_toam :: "TOam enc" where
  "write_toam x = wcat
     [write_u8 (toam_header x),
      write_uint (toam_id x),
      write_exts (frame_n_exts x) (frame_exts x),
      write_oam_body (toam_body x)]"

definition read_toam :: "u8 \<Rightarrow> TOam rd" where
  "read_toam header bs =
     (if mid header \<noteq> tid_OAM then None
      else do {
        (i, bs) \<leftarrow> read_uint bs;
        (s, bs) \<leftarrow> read_exts frame_ext_step (has_flag header flag7) frame_ext_init bs;
        (b, bs) \<leftarrow> read_oam_body header bs;
        Some (\<lparr>fr_qos = fr_qos s, toam_id = i, toam_body = b\<rparr>, bs) })"

lemma toam_header_simps:
  "mid (toam_header x) = tid_OAM" "has_flag (toam_header x) flag7 = (frame_n_exts x \<noteq> 0)"
  "toam_header x AND ENC_MASK = oam_enc (toam_body x)"
proof -
  have "mid (tid_OAM OR oam_enc e) = tid_OAM" "\<not> has_flag (tid_OAM OR oam_enc e) flag7"
    "(tid_OAM OR oam_enc e) AND ENC_MASK = oam_enc e" for e
    by (cases e; simp add: oam_enc_def iext_consts tid_OAM_def mid_def HEADER_MASK_def has_flag_def flag_defs)+
  then show "mid (toam_header x) = tid_OAM" "has_flag (toam_header x) flag7 = (frame_n_exts x \<noteq> 0)"
    "toam_header x AND ENC_MASK = oam_enc (toam_body x)"
    unfolding toam_header_def set_if_7_enc by simp_all
qed

lemma toam_rt:
  assumes "write_toam x = Some bs"
  shows "\<exists>h b. bs = h # b \<and> mid h = tid_OAM \<and> (\<forall>r. read_toam h (b @ r) = Some (x, r))"
proof -
  from assms obtain a c d where a: "write_uint (toam_id x) = Some a"
    and c: "write_exts (frame_n_exts x) (frame_exts x) = Some c" and d: "write_oam_body (toam_body x) = Some d"
    and bs: "bs = toam_header x # a @ c @ d"
    unfolding write_toam_def codec_simps by auto
  from read_frame_exts [OF c] u16.rt_all [OF TrueI a] oam_body_rt [OF d toam_header_simps(3)] show ?thesis
    by (auto simp: bs read_toam_def toam_header_simps)
qed

section \<open>Transport messages\<close>

datatype TransportBody =
    InitSynT InitSyn | InitAckT InitAck | OpenSynT OpenSyn | OpenAckT OpenAck | CloseT Close
  | KeepAliveT KeepAlive | FrameT Frame | FragmentT Fragment | OAMT TOam | JoinT Join

fun write_transport :: "TransportBody enc" where
  "write_transport (FrameT b) = write_frame b"
| "write_transport (FragmentT b) = write_fragment b"
| "write_transport (KeepAliveT b) = write_keep_alive b"
| "write_transport (InitSynT b) = write_init_syn b"
| "write_transport (InitAckT b) = write_init_ack b"
| "write_transport (OpenSynT b) = write_open_syn b"
| "write_transport (OpenAckT b) = write_open_ack b"
| "write_transport (CloseT b) = write_close b"
| "write_transport (OAMT b) = write_toam b"
| "write_transport (JoinT b) = write_join b"

definition read_transport_header :: "(bytes \<Rightarrow> bytes option) \<Rightarrow> u8 \<Rightarrow> TransportBody rd" where
  "read_transport_header idf header =
     (if mid header = tid_FRAME then rd_map FrameT (read_frame idf header)
      else if mid header = tid_FRAGMENT then rd_map FragmentT (read_fragment header)
      else if mid header = tid_KEEP_ALIVE then rd_map KeepAliveT (read_keep_alive header)
      else if mid header = tid_INIT then
        if \<not> has_flag header flag5 then rd_map InitSynT (read_init_syn idf header)
        else rd_map InitAckT (read_init_ack idf header)
      else if mid header = tid_OPEN then
        if \<not> has_flag header flag5 then rd_map OpenSynT (read_open_syn header)
        else rd_map OpenAckT (read_open_ack header)
      else if mid header = tid_CLOSE then rd_map CloseT (read_close header)
      else if mid header = tid_OAM then rd_map OAMT (read_toam header)
      else if mid header = tid_JOIN then rd_map JoinT (read_join idf header)
      else (\<lambda>_. None))"

definition read_transport :: "(bytes \<Rightarrow> bytes option) \<Rightarrow> TransportBody rd" where
  "read_transport idf bs = do { (header, bs) \<leftarrow> read_u8 bs; read_transport_header idf header bs }"

fun transport_ok :: "(bytes \<Rightarrow> bytes option) \<Rightarrow> TransportBody \<Rightarrow> bool" where
  "transport_ok idf (FrameT b) = frame_ok idf b"
| "transport_ok idf (InitSynT b) = init_ok idf b"
| "transport_ok idf (InitAckT b) = init_ok idf b"
| "transport_ok idf (OpenSynT b) = lease_ok (os_lease b)"
| "transport_ok idf (OpenAckT b) = lease_ok (oa_lease b)"
| "transport_ok idf (JoinT b) = join_msg_ok idf b"
| "transport_ok idf _ = True"

text \<open>What may follow a message in a batch: anything after a self-delimiting message, the next
  transport message after a frame, nothing after a fragment.\<close>

fun may_follow :: "TransportBody \<Rightarrow> bytes \<Rightarrow> bool" where
  "may_follow (FrameT _) r = ends_frame r"
| "may_follow (FragmentT _) r = (r = [])"
| "may_follow _ r = True"

lemma transport_dispatch:
  "mid h = tid_FRAME \<Longrightarrow> read_transport_header idf h = rd_map FrameT (read_frame idf h)"
  "mid h = tid_FRAGMENT \<Longrightarrow> read_transport_header idf h = rd_map FragmentT (read_fragment h)"
  "mid h = tid_KEEP_ALIVE \<Longrightarrow> read_transport_header idf h = rd_map KeepAliveT (read_keep_alive h)"
  "mid h = tid_INIT \<Longrightarrow> \<not> has_flag h flag5 \<Longrightarrow> read_transport_header idf h = rd_map InitSynT (read_init_syn idf h)"
  "mid h = tid_INIT \<Longrightarrow> has_flag h flag5 \<Longrightarrow> read_transport_header idf h = rd_map InitAckT (read_init_ack idf h)"
  "mid h = tid_OPEN \<Longrightarrow> \<not> has_flag h flag5 \<Longrightarrow> read_transport_header idf h = rd_map OpenSynT (read_open_syn h)"
  "mid h = tid_OPEN \<Longrightarrow> has_flag h flag5 \<Longrightarrow> read_transport_header idf h = rd_map OpenAckT (read_open_ack h)"
  "mid h = tid_CLOSE \<Longrightarrow> read_transport_header idf h = rd_map CloseT (read_close h)"
  "mid h = tid_OAM \<Longrightarrow> read_transport_header idf h = rd_map OAMT (read_toam h)"
  "mid h = tid_JOIN \<Longrightarrow> read_transport_header idf h = rd_map JoinT (read_join idf h)"
  by (simp_all add: read_transport_header_def transport_ids)

lemma transport_rt:
  assumes "transport_ok idf x" "write_transport x = Some bs" "may_follow x r"
  shows "read_transport idf (bs @ r) = Some (x, r)"
proof -
  note dispatch = read_transport_def transport_dispatch rd_map_def
  show ?thesis
  proof (cases x)
    case (InitSynT b)
    then show ?thesis using assms init_syn_rt [of idf b bs] by (auto simp: dispatch)
  next
    case (InitAckT b)
    then show ?thesis using assms init_ack_rt [of idf b bs] by (auto simp: dispatch)
  next
    case (OpenSynT b)
    then show ?thesis using assms open_syn_rt [of b bs] by (auto simp: dispatch)
  next
    case (OpenAckT b)
    then show ?thesis using assms open_ack_rt [of b bs] by (auto simp: dispatch)
  next
    case (CloseT b)
    then show ?thesis using assms close_rt [of b bs] by (auto simp: dispatch)
  next
    case (KeepAliveT b)
    then show ?thesis using assms keep_alive_rt [of b bs] by (auto simp: dispatch)
  next
    case (FrameT b)
    then show ?thesis using assms frame_rt [of idf b bs] by (auto simp: dispatch)
  next
    case (FragmentT b)
    then show ?thesis using assms fragment_rt [of b bs] by (auto simp: dispatch)
  next
    case (OAMT b)
    then show ?thesis using assms toam_rt [of b bs] by (auto simp: dispatch)
  next
    case (JoinT b)
    then show ?thesis using assms join_rt [of idf b bs] by (auto simp: dispatch)
  qed
qed

text \<open>(C6) Every well-formed transport message is read back from its encoding, with the bytes of
  the next message untouched.\<close>

theorem transport_roundtrip:
  assumes "transport_ok idf x" "write_transport x = Some bs" "may_follow x r"
  shows "read_transport idf (bs @ r) = Some (x, r)"
  using assms by (rule transport_rt)

theorem transport_roundtrip_witness:
  "read_transport Some ([0x25, 3, 26, 5] @ [4]) =
     Some (FrameT \<lparr>fr_qos = TQOS_DEFAULT, fr_reliability = Reliable, fr_sn = 3, fr_payload = [example_final]\<rparr>, [4])"
proof (rule transport_roundtrip)
  let ?x = "FrameT \<lparr>fr_qos = TQOS_DEFAULT, fr_reliability = Reliable, fr_sn = 3, fr_payload = [example_final]\<rparr>"
  show "transport_ok Some ?x"
    by (simp add: frame_ok_def example_final_def network_message_from_def net_ok_def RELIABILITY_DEFAULT_def)
  show "write_transport ?x = Some [0x25, 3, 26, 5]" by code_simp
  show "may_follow ?x [4]"
    by (simp add: ends_frame_def transport_id_def mid_def HEADER_MASK_def transport_ids)
qed

text \<open>The encoding of a transport message starts with a transport identifier, so that it ends a frame.\<close>

lemma write_transport_ends_frame:
  assumes "transport_ok idf x" "write_transport x = Some bs"
  shows "ends_frame (bs @ r) \<and> bs \<noteq> []"
proof -
  have "\<exists>h b. bs = h # b \<and> transport_id (mid h)"
  proof (cases x)
    case (InitSynT b)
    then show ?thesis using assms init_syn_rt [of idf b bs] by (auto simp: transport_id_def)
  next
    case (InitAckT b)
    then show ?thesis using assms init_ack_rt [of idf b bs] by (auto simp: transport_id_def)
  next
    case (OpenSynT b)
    then show ?thesis using assms open_syn_rt [of b bs] by (auto simp: transport_id_def)
  next
    case (OpenAckT b)
    then show ?thesis using assms open_ack_rt [of b bs] by (auto simp: transport_id_def)
  next
    case (CloseT b)
    then show ?thesis using assms close_rt [of b bs] by (auto simp: transport_id_def)
  next
    case (KeepAliveT b)
    then show ?thesis using assms keep_alive_rt [of b bs] by (auto simp: transport_id_def)
  next
    case (FrameT b)
    then show ?thesis using assms frame_rt [of idf b bs] by (auto simp: transport_id_def)
  next
    case (FragmentT b)
    then show ?thesis using assms fragment_rt [of b bs] by (auto simp: transport_id_def)
  next
    case (OAMT b)
    then show ?thesis using assms toam_rt [of b bs] by (auto simp: transport_id_def)
  next
    case (JoinT b)
    then show ?thesis using assms join_rt [of idf b bs] by (auto simp: transport_id_def)
  qed
  then show ?thesis by (auto simp: ends_frame_def)
qed

section \<open>Low-latency transport messages\<close>

datatype TransportBodyLowLatency = CloseL Close | KeepAliveL KeepAlive | NetworkL NetworkMessage

fun write_lowlatency :: "TransportBodyLowLatency enc" where
  "write_lowlatency (NetworkL b) = write_network_message b"
| "write_lowlatency (KeepAliveL b) = write_keep_alive b"
| "write_lowlatency (CloseL b) = write_close b"

definition read_lowlatency :: "(bytes \<Rightarrow> bytes option) \<Rightarrow> TransportBodyLowLatency rd" where
  "read_lowlatency idf bs =
     do { (header, bs) \<leftarrow> read_u8 bs;
          if mid header = tid_KEEP_ALIVE then rd_map KeepAliveL (read_keep_alive header) bs
          else if mid header = tid_CLOSE then rd_map CloseL (read_close header) bs
          else rd_map NetworkL (read_network_header idf header) bs }"

text \<open>The reliability is not on the wire: a network message comes back with the default one.\<close>

fun lowlatency_ok :: "(bytes \<Rightarrow> bytes option) \<Rightarrow> TransportBodyLowLatency \<Rightarrow> bool" where
  "lowlatency_ok idf (NetworkL m) = (network_body_ok idf (body m) \<and> reliability m = RELIABILITY_DEFAULT)"
| "lowlatency_ok idf _ = True"

lemma read_network_header_rt:
  assumes "network_body_ok idf x" "write_network_body x = Some bs"
  shows "\<exists>h b. bs = h # b \<and> \<not> transport_id (mid h) \<and>
    (\<forall>r. read_network_header idf h (b @ r) = Some (network_message_from x, r))"
proof -
  have rt: "read_network_message idf RELIABILITY_DEFAULT (bs @ r) = Some (network_message_from x, r)" for r
    using read_network_body_rt [OF assms] by (simp add: network_message_from_def)
  then obtain h b where bs: "bs = h # b"
    using read_network_message_Nil by (metis append_Nil list.exhaust option.distinct(1))
  have "\<not> transport_id (mid h)"
    using ends_frame_stops [of bs idf RELIABILITY_DEFAULT] rt [of "[]"] bs by (auto simp: ends_frame_def)
  moreover have "read_network_header idf h (b @ r) = Some (network_message_from x, r)" for r
  proof -
    from rt [of r] bs obtain m where m: "read_network_header idf h (b @ r) = Some (m, r)"
      "m\<lparr>reliability := RELIABILITY_DEFAULT\<rparr> = network_message_from x"
      by (auto simp: read_network_message_def Option.bind_eq_Some_conv)
    then have "reliability m = RELIABILITY_DEFAULT"
      by (auto simp: read_network_header_def rd_map_def network_message_from_def Option.bind_eq_Some_conv)
    then show ?thesis using m by (cases m) simp
  qed
  ultimately show ?thesis using bs by blast
qed

lemma lowlatency_rt:
  assumes "lowlatency_ok idf x" "write_lowlatency x = Some bs"
  shows "read_lowlatency idf (bs @ r) = Some (x, r)"
proof (cases x)
  case (NetworkL m)
  then have "network_body_ok idf (body m)" "write_network_body (body m) = Some bs" "network_message_from (body m) = m"
    using assms by (auto simp: write_network_message_def network_message_from_def)
  with NetworkL read_network_header_rt [of idf "body m" bs] show ?thesis
    by (auto simp: read_lowlatency_def transport_id_def rd_map_def)
next
  case (KeepAliveL b)
  then show ?thesis using assms keep_alive_rt [of b bs] by (auto simp: read_lowlatency_def rd_map_def)
next
  case (CloseL b)
  then show ?thesis using assms close_rt [of b bs] by (auto simp: read_lowlatency_def rd_map_def transport_ids)
qed

end
