(* ===== verification/Transport_Defrag.thy ===== *)
theory Transport_Defrag
  imports Codec_Frame
begin

text \<open>
  Defragmentation and the channels of a transport
  (\<open>io/zenoh-transport/src/common/defragmentation.rs\<close> and \<open>priority.rs\<close>).  A \<open>ZBuf\<close> is its byte
  content; a channel behind an \<open>Arc<Mutex<_>>\<close> is its value, every operation being made under the
  lock.  An operation that fails may still change its buffer: it returns the new state with the
  result.
\<close>

section \<open>The defragmentation buffer\<close>

record DefragBuffer =
  df_reliability :: Reliability
  df_sn :: SeqNum
  df_buffer :: bytes
  df_capacity :: nat
  df_len :: nat

datatype defrag_error = DefragSn TransportSn TransportSn | DefragFull nat nat

definition defrag_make :: "Reliability \<Rightarrow> Bits \<Rightarrow> nat \<Rightarrow> sn_error + DefragBuffer" where
  "defrag_make rel resolution capacity =
     (case sn_make 0 resolution of
        Inl e \<Rightarrow> Inl e
      | Inr sn \<Rightarrow> Inr \<lparr>df_reliability = rel, df_sn = sn, df_buffer = [], df_capacity = capacity, df_len = 0\<rparr>)"

definition defrag_is_empty :: "DefragBuffer \<Rightarrow> bool" where
  "defrag_is_empty d \<longleftrightarrow> df_buffer d = []"

definition defrag_clear :: "DefragBuffer \<Rightarrow> DefragBuffer" where
  "defrag_clear d = d\<lparr>df_buffer := [], df_len := 0\<rparr>"

definition defrag_sync :: "DefragBuffer \<Rightarrow> TransportSn \<Rightarrow> sn_error + DefragBuffer" where
  "defrag_sync d sn = (case sn_set (df_sn d) sn of Inl e \<Rightarrow> Inl e | Inr s \<Rightarrow> Inr (d\<lparr>df_sn := s\<rparr>))"

definition defrag_push :: "DefragBuffer \<Rightarrow> TransportSn \<Rightarrow> bytes \<Rightarrow> DefragBuffer \<times> (defrag_error + unit)" where
  "defrag_push d sn zslice =
     (if sn \<noteq> sn_get (df_sn d) then
        let d = defrag_clear d in (d, Inl (DefragSn (sn_get (df_sn d)) sn))
      else
        let new_len = df_len d + length zslice in
        if new_len > df_capacity d then
          let d = defrag_clear d in (d, Inl (DefragFull new_len (df_capacity d)))
        else
          (d\<lparr>df_sn := sn_increment (df_sn d), df_buffer := df_buffer d @ zslice, df_len := new_len\<rparr>, Inr ()))"

definition defrag_defragment ::
  "(bytes \<Rightarrow> bytes option) \<Rightarrow> DefragBuffer \<Rightarrow> DefragBuffer \<times> NetworkMessage option" where
  "defrag_defragment idf d =
     (defrag_clear d, map_option fst (read_network_message idf (df_reliability d) (df_buffer d)))"

section \<open>Channels and priorities\<close>

record TransportChannelTx =
  tx_sn :: SeqNumGenerator

record TransportChannelRx =
  rx_sn :: SeqNum
  rx_defrag :: DefragBuffer

definition channel_tx_make :: "Bits \<Rightarrow> sn_error + TransportChannelTx" where
  "channel_tx_make resolution =
     (case gen_make 0 resolution of Inl e \<Rightarrow> Inl e | Inr g \<Rightarrow> Inr \<lparr>tx_sn = g\<rparr>)"

definition channel_tx_sync :: "TransportChannelTx \<Rightarrow> TransportSn \<Rightarrow> sn_error + TransportChannelTx" where
  "channel_tx_sync c sn = (case gen_set (tx_sn c) sn of Inl e \<Rightarrow> Inl e | Inr g \<Rightarrow> Inr (c\<lparr>tx_sn := g\<rparr>))"

definition channel_rx_make :: "Reliability \<Rightarrow> Bits \<Rightarrow> nat \<Rightarrow> sn_error + TransportChannelRx" where
  "channel_rx_make rel resolution buff_size =
     (case sn_make 0 resolution of
        Inl e \<Rightarrow> Inl e
      | Inr sn \<Rightarrow>
          (case defrag_make rel resolution buff_size of
             Inl e \<Rightarrow> Inl e
           | Inr d \<Rightarrow> Inr \<lparr>rx_sn = sn, rx_defrag = d\<rparr>))"

text \<open>\<open>sync\<close> on a received next sequence number.  The first field stays set when the second
  assignment fails.\<close>

definition channel_rx_sync ::
  "TransportChannelRx \<Rightarrow> TransportSn \<Rightarrow> TransportChannelRx \<times> (sn_error + unit)" where
  "channel_rx_sync c sn =
     (let sn = (if sn = 0 then sn_resolution (rx_sn c) - 1 else sn - 1) in
      case sn_set (rx_sn c) sn of
        Inl e \<Rightarrow> (c, Inl e)
      | Inr s \<Rightarrow>
          (case defrag_sync (rx_defrag c) sn of
             Inl e \<Rightarrow> (c\<lparr>rx_sn := s\<rparr>, Inl e)
           | Inr d \<Rightarrow> (c\<lparr>rx_sn := s, rx_defrag := d\<rparr>, Inr ())))"

record TransportPriorityTx =
  ptx_reliable :: TransportChannelTx
  ptx_best_effort :: TransportChannelTx

record TransportPriorityRx =
  prx_reliable :: TransportChannelRx
  prx_best_effort :: TransportChannelRx

definition priority_tx_make :: "Bits \<Rightarrow> sn_error + TransportPriorityTx" where
  "priority_tx_make resolution =
     (case channel_tx_make resolution of
        Inl e \<Rightarrow> Inl e
      | Inr rch \<Rightarrow>
          (case channel_tx_make resolution of
             Inl e \<Rightarrow> Inl e
           | Inr bch \<Rightarrow> Inr \<lparr>ptx_reliable = rch, ptx_best_effort = bch\<rparr>))"

definition priority_tx_sync :: "TransportPriorityTx \<Rightarrow> PrioritySn \<Rightarrow> TransportPriorityTx \<times> (sn_error + unit)" where
  "priority_tx_sync p sn =
     (case channel_tx_sync (ptx_reliable p) (ps_reliable sn) of
        Inl e \<Rightarrow> (p, Inl e)
      | Inr r \<Rightarrow>
          let p = p\<lparr>ptx_reliable := r\<rparr> in
          (case channel_tx_sync (ptx_best_effort p) (ps_best_effort sn) of
             Inl e \<Rightarrow> (p, Inl e)
           | Inr b \<Rightarrow> (p\<lparr>ptx_best_effort := b\<rparr>, Inr ())))"

definition priority_rx_make :: "Bits \<Rightarrow> nat \<Rightarrow> sn_error + TransportPriorityRx" where
  "priority_rx_make resolution buff_size =
     (case channel_rx_make Reliable resolution buff_size of
        Inl e \<Rightarrow> Inl e
      | Inr rch \<Rightarrow>
          (case channel_rx_make BestEffort resolution buff_size of
             Inl e \<Rightarrow> Inl e
           | Inr bch \<Rightarrow> Inr \<lparr>prx_reliable = rch, prx_best_effort = bch\<rparr>))"

definition priority_rx_sync :: "TransportPriorityRx \<Rightarrow> PrioritySn \<Rightarrow> TransportPriorityRx \<times> (sn_error + unit)" where
  "priority_rx_sync p sn =
     (case channel_rx_sync (prx_reliable p) (ps_reliable sn) of
        (r, Inl e) \<Rightarrow> (p\<lparr>prx_reliable := r\<rparr>, Inl e)
      | (r, Inr _) \<Rightarrow>
          let p = p\<lparr>prx_reliable := r\<rparr> in
          (case channel_rx_sync (prx_best_effort p) (ps_best_effort sn) of
             (b, res) \<Rightarrow> (p\<lparr>prx_best_effort := b\<rparr>, res)))"

section \<open>Invariants\<close>

definition defrag_ok :: "Bits \<Rightarrow> DefragBuffer \<Rightarrow> bool" where
  "defrag_ok b d \<longleftrightarrow> sn_ok b (df_sn d) \<and> df_len d = length (df_buffer d) \<and> df_len d \<le> df_capacity d"

definition channel_ok :: "Bits \<Rightarrow> TransportChannelRx \<Rightarrow> bool" where
  "channel_ok b c \<longleftrightarrow> sn_ok b (rx_sn c) \<and> defrag_ok b (rx_defrag c)"

definition priority_rx_ok :: "Bits \<Rightarrow> TransportPriorityRx \<Rightarrow> bool" where
  "priority_rx_ok b p \<longleftrightarrow> channel_ok b (prx_reliable p) \<and> channel_ok b (prx_best_effort p) \<and>
     df_reliability (rx_defrag (prx_reliable p)) = Reliable \<and>
     df_reliability (rx_defrag (prx_best_effort p)) = BestEffort"

lemma defrag_ok_clear [simp]: "defrag_ok b d \<Longrightarrow> defrag_ok b (defrag_clear d)"
  by (simp add: defrag_ok_def defrag_clear_def)

lemma defrag_clear_fields [simp]:
  "df_sn (defrag_clear d) = df_sn d" "df_buffer (defrag_clear d) = []" "df_len (defrag_clear d) = 0"
  "df_capacity (defrag_clear d) = df_capacity d" "df_reliability (defrag_clear d) = df_reliability d"
  "defrag_is_empty (defrag_clear d)"
  by (simp_all add: defrag_clear_def defrag_is_empty_def)

lemma defrag_sync_eq:
  "defrag_ok b d \<Longrightarrow> defrag_sync d sn =
    (if unat sn < 2 ^ sn_bits b then Inr (d\<lparr>df_sn := (df_sn d)\<lparr>sn_value := sn\<rparr>\<rparr>) else Inl SnOutOfResolution)"
  by (simp add: defrag_sync_def defrag_ok_def sn_set_eq [of b])

lemma defrag_ok_sync: "defrag_ok b d \<Longrightarrow> defrag_sync d sn = Inr d' \<Longrightarrow> defrag_ok b d'"
  by (auto simp: defrag_sync_eq [of b] split: if_splits) (simp add: defrag_ok_def sn_ok_def)

lemma defrag_ok_push: "defrag_ok b d \<Longrightarrow> defrag_ok b (fst (defrag_push d sn z))"
  by (auto simp: defrag_push_def Let_def) (simp add: defrag_ok_def sn_ok_increment)

lemma defrag_push_frame [simp]:
  "df_capacity (fst (defrag_push d sn z)) = df_capacity d"
  "df_reliability (fst (defrag_push d sn z)) = df_reliability d"
  by (simp_all add: defrag_push_def Let_def)

lemma defrag_ok_defragment: "defrag_ok b d \<Longrightarrow> defrag_ok b (fst (defrag_defragment idf d))"
  by (simp add: defrag_defragment_def)

lemma defrag_ok_make: "\<exists>d. defrag_make rel b cap = Inr d \<and> defrag_ok b d \<and> df_reliability d = rel \<and> df_capacity d = cap"
  by (simp add: defrag_make_def sn_ok_make defrag_ok_def sn_ok_def)

lemma channel_ok_make:
  "\<exists>c. channel_rx_make rel b cap = Inr c \<and> channel_ok b c \<and> df_reliability (rx_defrag c) = rel"
  using defrag_ok_make [of rel b cap]
  by (auto simp: channel_rx_make_def sn_ok_make channel_ok_def sn_ok_def)

lemma priority_rx_ok_make: "\<exists>p. priority_rx_make b cap = Inr p \<and> priority_rx_ok b p"
  using channel_ok_make [of Reliable b cap] channel_ok_make [of BestEffort b cap]
  by (auto simp: priority_rx_make_def priority_rx_ok_def)

section \<open>Synchronising a receiver\<close>

text \<open>The number that \<open>sync\<close> stores.\<close>

definition sync_sn :: "Bits \<Rightarrow> TransportSn \<Rightarrow> TransportSn" where
  "sync_sn b sn = (if sn = 0 then get_mask b - 1 else sn - 1)"

lemma get_mask_pos: "get_mask b \<noteq> 0"
  by (cases b) (simp_all add: RES_U8_def RES_U16_def RES_U32_def RES_U64_def)

lemma unat_get_mask: "unat (get_mask b) = 2 ^ sn_bits b - 1"
  by (cases b) (simp_all add: RES_U8_def RES_U16_def RES_U32_def RES_U64_def)

lemma unat_sync_sn:
  assumes "unat sn < 2 ^ sn_bits b"
  shows "unat (sync_sn b sn) = (if sn = 0 then 2 ^ sn_bits b - 2 else unat sn - 1)"
  using assms get_mask_pos [of b]
  by (simp add: sync_sn_def unat_minus_one unat_get_mask numeral_2_eq_2)

lemma unat_sync_sn_less: "unat sn < 2 ^ sn_bits b \<Longrightarrow> unat (sync_sn b sn) < 2 ^ sn_bits b"
  by (auto simp: unat_sync_sn)

lemma channel_rx_sync_eq:
  assumes ok: "channel_ok b c" and sn: "unat sn < 2 ^ sn_bits b"
  shows "channel_rx_sync c sn =
    (c\<lparr>rx_sn := (rx_sn c)\<lparr>sn_value := sync_sn b sn\<rparr>,
       rx_defrag := (rx_defrag c)\<lparr>df_sn := (df_sn (rx_defrag c))\<lparr>sn_value := sync_sn b sn\<rparr>\<rparr>\<rparr>, Inr ())"
proof -
  have s: "(if sn = 0 then sn_resolution (rx_sn c) - 1 else sn - 1) = sync_sn b sn"
    using ok by (simp add: sync_sn_def sn_resolution_def channel_ok_def sn_ok_def)
  show ?thesis
    using ok unat_sync_sn_less [OF sn]
    unfolding channel_rx_sync_def Let_def s
    by (simp add: channel_ok_def sn_set_eq [of b] defrag_sync_eq [of b])
qed

lemma channel_ok_sync:
  assumes "channel_ok b c" and "unat sn < 2 ^ sn_bits b"
  shows "channel_ok b (fst (channel_rx_sync c sn))"
  using assms unat_sync_sn_less [OF assms(2)]
  by (simp add: channel_rx_sync_eq [OF assms]) (simp add: channel_ok_def defrag_ok_def sn_ok_def)

lemma priority_rx_ok_sync:
  assumes "priority_rx_ok b p" "unat (ps_reliable sn) < 2 ^ sn_bits b" "unat (ps_best_effort sn) < 2 ^ sn_bits b"
  shows "\<exists>p'. priority_rx_sync p sn = (p', Inr ()) \<and> priority_rx_ok b p'"
  using assms channel_ok_sync [of b "prx_reliable p" "ps_reliable sn"]
    channel_ok_sync [of b "prx_best_effort p" "ps_best_effort sn"]
  by (simp add: priority_rx_sync_def priority_rx_ok_def channel_rx_sync_eq [of b] Let_def)

lemma wrap_dist:
  fixes N :: nat
  assumes "4 \<le> N"
  shows "nat ((0 - int (N - 2)) mod int N) = 2" "nat ((int (N - 1) - int (N - 2)) mod int N) = 1"
proof -
  have i: "int (N - 2) = int N - 2" "int (N - 1) = int N - 1" using assms by auto
  have "(0 - int (N - 2)) mod int N = (2 - int N) mod int N" by (simp add: i)
  also have "\<dots> = 2" using assms by (simp add: minus_mod_self2)
  finally show "nat ((0 - int (N - 2)) mod int N) = 2" by simp
  show "nat ((int (N - 1) - int (N - 2)) mod int N) = 1" using assms by (simp add: i)
qed

text \<open>(C34) A receiver synchronised on the sender's next number accepts that number.  It would also
  accept the number before it when the next number is 0: \<open>sync\<close> then stores the resolution mask
  minus one, two steps back instead of one.\<close>

theorem rx_sync_accepts_next:
  assumes "channel_ok b c" and "unat sn < 2 ^ sn_bits b" and "channel_rx_sync c sn = (c', Inr ())"
  shows "sn_precedes (rx_sn c') sn = Inr True \<and>
    (sn_precedes (rx_sn c') (if sn = 0 then get_mask b else sn - 1) = Inr (sn = 0))"
proof -
  let ?s = "rx_sn c'"
  have v: "sn_value ?s = sync_sn b sn" and ok: "sn_ok b ?s"
    using assms(3) channel_ok_sync [OF assms(1,2)]
    by (auto simp: channel_rx_sync_eq [OF assms(1,2)] channel_ok_def)
  have n2: "(4::nat) \<le> 2 ^ (sn_bits b - 1)" "(4::nat) \<le> 2 ^ sn_bits b" by (cases b; simp)+
  have dist: "sn_dist b ?s w = nat ((int (unat w) - int (unat (sync_sn b sn))) mod 2 ^ sn_bits b)" for w
    by (simp add: sn_dist_def v)
  show ?thesis
  proof (cases "sn = 0")
    case True
    have "unat (sync_sn b sn) = 2 ^ sn_bits b - 2" "unat sn = 0"
      using unat_sync_sn [OF assms(2)] True by simp_all
    then have "sn_dist b ?s sn = 2" "sn_dist b ?s (get_mask b) = 1"
      using wrap_dist [OF n2(2)] by (simp_all only: dist unat_get_mask of_nat_power of_nat_numeral int_ops(1))
    then show ?thesis using True n2 ok by (simp add: sn_precedes_eq [of b] unat_get_mask)
  next
    case False
    then have "0 < unat sn" by (simp add: unat_gt_0)
    then have "sn_dist b ?s sn = 1" "sn_dist b ?s (sn - 1) = 0" "unat (sn - 1) < 2 ^ sn_bits b"
      using False assms(2) n2 sn_bits_bounds(1) [of b] by (simp_all add: dist unat_sync_sn unat_minus_one of_nat_diff)
    then show ?thesis using False n2 ok assms(2) by (simp add: sn_precedes_eq [of b])
  qed
qed

definition example_rx :: TransportChannelRx where
  "example_rx = \<lparr>rx_sn = \<lparr>sn_value = 5, sn_mask = RES_U8\<rparr>,
     rx_defrag = \<lparr>df_reliability = Reliable, df_sn = \<lparr>sn_value = 5, sn_mask = RES_U8\<rparr>, df_buffer = [],
       df_capacity = 64, df_len = 0\<rparr>\<rparr>"

lemma example_rx_ok: "channel_ok U8 example_rx"
  by (simp add: example_rx_def channel_ok_def defrag_ok_def sn_ok_def)

theorem rx_sync_accepts_next_witness:
  "sn_precedes (rx_sn (fst (channel_rx_sync example_rx 0))) 0 = Inr True \<and>
   sn_precedes (rx_sn (fst (channel_rx_sync example_rx 0))) RES_U8 = Inr True"
  using rx_sync_accepts_next [OF example_rx_ok, of 0 "fst (channel_rx_sync example_rx 0)"]
    channel_rx_sync_eq [OF example_rx_ok, of 0]
  by simp

section \<open>Reassembly\<close>

text \<open>A run of fragments with consecutive numbers.\<close>

fun consecutive :: "Bits \<Rightarrow> TransportSn list \<Rightarrow> bool" where
  "consecutive b [] = True"
| "consecutive b [n] = True"
| "consecutive b (n # n' # ns) = (unat n' = Suc (unat n) mod 2 ^ sn_bits b \<and> consecutive b (n' # ns))"

lemma consecutive_snoc:
  "ns \<noteq> [] \<Longrightarrow> consecutive b (ns @ [n]) \<longleftrightarrow> consecutive b ns \<and> unat n = Suc (unat (last ns)) mod 2 ^ sn_bits b"
  by (induction b ns rule: consecutive.induct) auto

lemma defrag_push_ok:
  assumes "defrag_ok b d" "sn = sn_value (df_sn d)" "length (df_buffer d) + length z \<le> df_capacity d"
  shows "defrag_push d sn z =
    (d\<lparr>df_sn := sn_increment (df_sn d), df_buffer := df_buffer d @ z, df_len := df_len d + length z\<rparr>, Inr ())"
  using assms by (simp add: defrag_push_def sn_get_def defrag_ok_def)

lemma defrag_push_Inr:
  "snd (defrag_push d sn z) = Inr () \<longleftrightarrow> sn = sn_value (df_sn d) \<and> df_len d + length z \<le> df_capacity d"
  by (auto simp: defrag_push_def sn_get_def Let_def)

lemma defrag_failure_clears: "defrag_push d sn z = (d', Inl e) \<Longrightarrow> defrag_is_empty d' \<and> df_len d' = 0"
  by (auto simp: defrag_push_def Let_def split: if_splits)

end
