(* ===== verification/Transport_Rx.thy ===== *)
theory Transport_Rx
  imports Transport_Defrag
begin

text \<open>
  Reception on a universal unicast transport
  (\<open>io/zenoh-transport/src/unicast/universal/rx.rs\<close>), without statistics and shared memory.  The
  callback is code of the application: \<open>cb m\<close> says whether \<open>handle_message\<close> returns \<open>Ok\<close> on \<open>m\<close>.
  The messages handed to it are recorded in the state, as are the closures that \<open>handle_close\<close>
  leaves to another task.  A Rust panic is an error value of its own.
\<close>

section \<open>State and errors\<close>

datatype rx_error =
    UnknownPriority Priority
  | BadSn
  | CallbackError
  | DecodingError
  | RxPanic

record RxState =
  rs_is_qos :: bool
  rs_patch :: PatchType
  rs_callback :: bool
  rs_priority_rx :: "TransportPriorityRx list"
  rs_delivered :: "NetworkMessage list"
  rs_closing :: "bool list"

type_synonym 'a rx_res = "RxState \<times> (rx_error + 'a)"

section \<open>Handlers\<close>

definition trigger_callback :: "(NetworkMessage \<Rightarrow> bool) \<Rightarrow> RxState \<Rightarrow> NetworkMessage \<Rightarrow> unit rx_res" where
  "trigger_callback cb st msg =
     (st\<lparr>rs_delivered := rs_delivered st @ [msg]\<rparr>, if cb msg then Inr () else Inl CallbackError)"

definition handle_close :: "RxState \<Rightarrow> bool \<Rightarrow> unit rx_res" where
  "handle_close st session = (st\<lparr>rs_closing := rs_closing st @ [session]\<rparr>, Inr ())"

text \<open>The index of the channel group of a message: \<open>self.priority_rx[priority as usize]\<close> or
  \<open>self.priority_rx[0]\<close>.\<close>

definition select_priority :: "RxState \<Rightarrow> TQoS \<Rightarrow> rx_error + nat" where
  "select_priority st q =
     (case tqos_priority q of
        None \<Rightarrow> Inl RxPanic
      | Some p \<Rightarrow>
          let i = (if rs_is_qos st then Some (unat (priority_u8 p))
                   else if p = PRIORITY_DEFAULT then Some 0 else None)
          in case i of
               None \<Rightarrow> Inl (UnknownPriority p)
             | Some i \<Rightarrow> if i < length (rs_priority_rx st) then Inr i else Inl RxPanic)"

definition get_channel :: "RxState \<Rightarrow> nat \<Rightarrow> Reliability \<Rightarrow> TransportChannelRx" where
  "get_channel st i rel =
     (case rel of Reliable \<Rightarrow> prx_reliable (rs_priority_rx st ! i)
      | BestEffort \<Rightarrow> prx_best_effort (rs_priority_rx st ! i))"

definition put_channel :: "RxState \<Rightarrow> nat \<Rightarrow> Reliability \<Rightarrow> TransportChannelRx \<Rightarrow> RxState" where
  "put_channel st i rel c =
     st\<lparr>rs_priority_rx := (rs_priority_rx st)
       [i := (case rel of Reliable \<Rightarrow> (rs_priority_rx st ! i)\<lparr>prx_reliable := c\<rparr>
              | BestEffort \<Rightarrow> (rs_priority_rx st ! i)\<lparr>prx_best_effort := c\<rparr>)]\<rparr>"

definition verify_sn :: "TransportSn \<Rightarrow> TransportChannelRx \<Rightarrow> TransportChannelRx \<times> (rx_error + bool)" where
  "verify_sn sn guard =
     (case sn_roll (rx_sn guard) sn of
        Inl e \<Rightarrow> (guard, Inl BadSn)
      | Inr (precedes, s) \<Rightarrow> (guard\<lparr>rx_sn := s\<rparr>, Inr precedes))"

text \<open>\<open>for mut msg in frame { self.trigger_callback(...)? }\<close>\<close>

fun deliver_all :: "(NetworkMessage \<Rightarrow> bool) \<Rightarrow> RxState \<Rightarrow> NetworkMessage list \<Rightarrow> unit rx_res" where
  "deliver_all cb st [] = (st, Inr ())"
| "deliver_all cb st (m # ms) =
     (case trigger_callback cb st m of
        (st, Inl e) \<Rightarrow> (st, Inl e)
      | (st, Inr _) \<Rightarrow> deliver_all cb st ms)"

text \<open>\<open>ms\<close> are the messages that the reader of the frame yields; the rest of the frame is drained when
  the reader is dropped.\<close>

definition handle_frame ::
  "(NetworkMessage \<Rightarrow> bool) \<Rightarrow> RxState \<Rightarrow> FrameHeader \<Rightarrow> NetworkMessage list \<Rightarrow> unit rx_res" where
  "handle_frame cb st frame ms =
     (case select_priority st (fr_qos frame) of
        Inl e \<Rightarrow> (st, Inl e)
      | Inr i \<Rightarrow>
          (case verify_sn (fr_sn frame) (get_channel st i (fr_reliability frame)) of
             (c, Inl e) \<Rightarrow> (put_channel st i (fr_reliability frame) c, Inl e)
           | (c, Inr False) \<Rightarrow> (put_channel st i (fr_reliability frame) c, Inr ())
           | (c, Inr True) \<Rightarrow>
               let st = put_channel st i (fr_reliability frame) c in
               if rs_callback st then deliver_all cb st ms else (st, Inr ())))"

text \<open>The part of \<open>handle_fragment\<close> under the lock of the channel, after the check of the number:
  the new channel and the message to hand out, if any.\<close>

definition defrag_step ::
  "(bytes \<Rightarrow> bytes option) \<Rightarrow> PatchType \<Rightarrow> TransportChannelRx \<Rightarrow> Fragment \<Rightarrow>
    TransportChannelRx \<times> NetworkMessage option" where
  "defrag_step idf patch guard f =
     (let markers = has_fragmentation_markers patch;
          d = rx_defrag guard;
          d = (if markers \<and> fg_first f then defrag_clear d else d)
      in
      if markers \<and> \<not> fg_first f \<and> defrag_is_empty d then (guard, None)
      else if markers \<and> fg_drop f then (guard\<lparr>rx_defrag := defrag_clear d\<rparr>, None)
      else
        let d = (if defrag_is_empty d
                 then (case defrag_sync d (fg_sn f) of Inl _ \<Rightarrow> d | Inr d' \<Rightarrow> d') else d)
        in
        case defrag_push d (fg_sn f) (fg_payload f) of
          (d, Inl e) \<Rightarrow> (guard\<lparr>rx_defrag := d\<rparr>, None)
        | (d, Inr _) \<Rightarrow>
            if \<not> fg_more f then
              (case defrag_defragment idf d of (d, msg) \<Rightarrow> (guard\<lparr>rx_defrag := d\<rparr>, msg))
            else (guard\<lparr>rx_defrag := d\<rparr>, None))"

definition handle_fragment ::
  "(bytes \<Rightarrow> bytes option) \<Rightarrow> (NetworkMessage \<Rightarrow> bool) \<Rightarrow> RxState \<Rightarrow> Fragment \<Rightarrow> unit rx_res" where
  "handle_fragment idf cb st f =
     (case select_priority st (fg_qos f) of
        Inl e \<Rightarrow> (st, Inl e)
      | Inr i \<Rightarrow>
          (case verify_sn (fg_sn f) (get_channel st i (fg_reliability f)) of
             (c, Inl e) \<Rightarrow> (put_channel st i (fg_reliability f) c, Inl e)
           | (c, Inr False) \<Rightarrow> (put_channel st i (fg_reliability f) c, Inr ())
           | (c, Inr True) \<Rightarrow>
               (case defrag_step idf (rs_patch st) c f of
                  (c, msg) \<Rightarrow>
                    let st = put_channel st i (fg_reliability f) c in
                    (case msg of
                       None \<Rightarrow> (st, Inr ())
                     | Some m \<Rightarrow> if rs_callback st then trigger_callback cb st m else (st, Inr ())))))"

text \<open>One message of the loop of \<open>read_messages\<close> that is not a frame.\<close>

definition handle_message ::
  "(bytes \<Rightarrow> bytes option) \<Rightarrow> (NetworkMessage \<Rightarrow> bool) \<Rightarrow> RxState \<Rightarrow> TransportBody \<Rightarrow> unit rx_res" where
  "handle_message idf cb st msg =
     (case msg of
        FrameT _ \<Rightarrow> (st, Inl RxPanic)
      | FragmentT f \<Rightarrow> handle_fragment idf cb st f
      | CloseT c \<Rightarrow> handle_close st (close_session c)
      | KeepAliveT _ \<Rightarrow> (st, Inr ())
      | _ \<Rightarrow> (st, Inr ()))"

text \<open>One iteration of the loop: the state, the bytes left in the batch and the result.\<close>

definition read_one ::
  "(bytes \<Rightarrow> bytes option) \<Rightarrow> (NetworkMessage \<Rightarrow> bool) \<Rightarrow> RxState \<Rightarrow> bytes \<Rightarrow> RxState \<times> (rx_error + bytes)" where
  "read_one idf cb st bs =
     (case read_frame_reader bs of
        Some (frame, r) \<Rightarrow>
          (let (ms, r') = iter_all idf (fr_reliability frame) r in
           case handle_frame cb st frame ms of
             (st, Inl e) \<Rightarrow> (st, Inl e)
           | (st, Inr _) \<Rightarrow> (st, Inr r'))
      | None \<Rightarrow>
          (case read_transport idf bs of
             None \<Rightarrow> (st, Inl DecodingError)
           | Some (msg, r) \<Rightarrow>
               (case handle_message idf cb st msg of
                  (st, Inl e) \<Rightarrow> (st, Inl e)
                | (st, Inr _) \<Rightarrow> (st, Inr r))))"

section \<open>Consumption of the batch\<close>

lemma iter_all_length: "length (snd (iter_all idf rel bs)) \<le> length bs"
proof (induction idf rel bs rule: iter_all.induct)
  case (1 idf rel bs)
  show ?case
  proof (cases "read_network_message idf rel bs")
    case None
    then show ?thesis by (subst iter_all.simps) (simp add: iter_next_def)
  next
    case (Some mr)
    then obtain m r where mr: "read_network_message idf rel bs = Some (m, r)" by (cases mr) auto
    then have "iter_next idf rel bs = (Some m, r)" by (simp add: iter_next_def)
    with "1.IH" [OF this [symmetric] refl] read_network_message_consumes [OF mr] show ?thesis
      by (subst iter_all.simps) (simp add: split_beta)
  qed
qed

lemma shrinking_frame_header [rd_mono]: "shrinking (read_frame_header h)"
  unfolding read_frame_header_def [abs_def] by (intro rd_mono)

lemma shrinking_fragment_header [rd_mono]: "shrinking (read_fragment_header h)"
  unfolding read_fragment_header_def [abs_def] by (intro rd_mono)

lemma shrinking_toam [rd_mono]: "shrinking (read_toam h)"
  unfolding read_toam_def [abs_def] by (intro rd_mono)

lemma shrinking_frame [rd_mono]: "shrinking (read_frame idf h)"
  unfolding shrinking_def
proof (intro allI impI)
  fix bs x r assume "read_frame idf h bs = Some (x, r)"
  then obtain fh b where "read_frame_header h bs = Some (fh, b)" "r = snd (iter_all idf (fr_reliability fh) b)"
    by (auto simp: read_frame_def Option.bind_eq_Some_conv split_beta Let_def)
  then show "length r \<le> length bs"
    using shrinkingD [OF shrinking_frame_header, of h bs fh b] iter_all_length [of idf "fr_reliability fh" b] by simp
qed

lemma shrinking_fragment [rd_mono]: "shrinking (read_fragment h)"
  unfolding shrinking_def
  by (auto simp: read_fragment_def Option.bind_eq_Some_conv read_exact_def)

lemma shrinking_transport_header: "shrinking (read_transport_header idf h)"
  unfolding read_transport_header_def
  by (simp add: shrinking_map rd_mono)

lemma read_transport_consumes: "read_transport idf bs = Some (x, r) \<Longrightarrow> length r < length bs"
  using shrinkingD [OF shrinking_transport_header]
  by (cases bs) (fastforce simp: read_transport_def)+

lemma read_frame_reader_consumes: "read_frame_reader bs = Some (x, r) \<Longrightarrow> length r < length bs"
  using shrinkingD [OF shrinking_frame_header]
  by (cases bs) (fastforce simp: read_frame_reader_def)+

lemma read_one_consumes: "read_one idf cb st bs = (st', Inr r) \<Longrightarrow> length r < length bs"
proof (cases "read_frame_reader bs")
  case None
  moreover assume "read_one idf cb st bs = (st', Inr r)"
  ultimately obtain msg where "read_transport idf bs = Some (msg, r)"
    by (auto simp: read_one_def split: option.splits prod.splits sum.splits)
  then show ?thesis by (rule read_transport_consumes)
next
  case (Some fr)
  obtain frame b where fr: "fr = (frame, b)" by (cases fr)
  moreover assume "read_one idf cb st bs = (st', Inr r)"
  ultimately have "r = snd (iter_all idf (fr_reliability frame) b)"
    using Some by (auto simp: read_one_def split: prod.splits sum.splits)
  then show ?thesis
    using iter_all_length [of idf "fr_reliability frame" b] read_frame_reader_consumes [OF Some [unfolded fr]] by simp
qed

function read_messages ::
  "(bytes \<Rightarrow> bytes option) \<Rightarrow> (NetworkMessage \<Rightarrow> bool) \<Rightarrow> RxState \<Rightarrow> bytes \<Rightarrow> unit rx_res" where
  "read_messages idf cb st batch =
     (if batch = [] then (st, Inr ())
      else
        (case read_one idf cb st batch of
           (st, Inl e) \<Rightarrow> (st, Inl e)
         | (st, Inr r) \<Rightarrow> read_messages idf cb st r))"
  by pat_completeness auto
termination
  by (relation "measure (\<lambda>(idf, cb, st, batch). length batch)") (auto dest: read_one_consumes [OF sym])

declare read_messages.simps [simp del]

section \<open>The invariant of the receiver\<close>

definition rx_ok :: "Bits \<Rightarrow> RxState \<Rightarrow> bool" where
  "rx_ok b st \<longleftrightarrow> list_all (priority_rx_ok b) (rs_priority_rx st) \<and>
     length (rs_priority_rx st) = (if rs_is_qos st then PRIORITY_NUM else 1)"

lemma priority_u8_less: "unat (priority_u8 p) < PRIORITY_NUM"
  by (cases p) (simp_all add: PRIORITY_NUM_def)

lemma select_priority_ok:
  assumes "rx_ok b st"
  shows "select_priority st q \<noteq> Inl RxPanic"
  using assms tqos_priority_total [of q] priority_u8_less
  by (auto simp: select_priority_def rx_ok_def Let_def split: if_splits)

lemma select_priority_less: "select_priority st q = Inr i \<Longrightarrow> i < length (rs_priority_rx st)"
  by (auto simp: select_priority_def Let_def split: option.splits if_splits)

lemma get_channel_ok:
  assumes "rx_ok b st" "i < length (rs_priority_rx st)"
  shows "channel_ok b (get_channel st i rel)" "df_reliability (rx_defrag (get_channel st i rel)) = rel"
  using assms by (cases rel; auto simp: rx_ok_def get_channel_def list_all_length priority_rx_ok_def)+

lemma put_channel_ok:
  assumes "rx_ok b st" "i < length (rs_priority_rx st)" "channel_ok b c" "df_reliability (rx_defrag c) = rel"
  shows "rx_ok b (put_channel st i rel c)"
  using assms
  by (cases rel; auto simp: rx_ok_def put_channel_def list_all_length nth_list_update priority_rx_ok_def)

lemma put_channel_frame [simp]:
  "rs_delivered (put_channel st i rel c) = rs_delivered st" "rs_callback (put_channel st i rel c) = rs_callback st"
  "rs_is_qos (put_channel st i rel c) = rs_is_qos st" "rs_patch (put_channel st i rel c) = rs_patch st"
  "length (rs_priority_rx (put_channel st i rel c)) = length (rs_priority_rx st)"
  by (simp_all add: put_channel_def)

lemma get_put_channel [simp]:
  "i < length (rs_priority_rx st) \<Longrightarrow> get_channel (put_channel st i rel c) i rel = c"
  by (cases rel) (simp_all add: get_channel_def put_channel_def)

lemma put_put_channel [simp]:
  "i < length (rs_priority_rx st) \<Longrightarrow> put_channel (put_channel st i rel c) i rel c' = put_channel st i rel c'"
  by (cases rel) (simp_all add: put_channel_def)

lemma select_priority_put [simp]: "select_priority (put_channel st i rel c) q = select_priority st q"
  by (cases "tqos_priority q") (simp_all add: select_priority_def)

lemma select_priority_delivered [simp]: "select_priority (st\<lparr>rs_delivered := ms\<rparr>) q = select_priority st q"
  by (cases "tqos_priority q") (simp_all add: select_priority_def)

lemma get_channel_delivered [simp]: "get_channel (st\<lparr>rs_delivered := ms\<rparr>) i rel = get_channel st i rel"
  by (cases rel) (simp_all add: get_channel_def)

lemma rx_ok_frame [simp]:
  "rx_ok b (st\<lparr>rs_delivered := ms\<rparr>) = rx_ok b st" "rx_ok b (st\<lparr>rs_closing := cs\<rparr>) = rx_ok b st"
  by (simp_all add: rx_ok_def)

lemma verify_sn_ok:
  assumes "channel_ok b c" "verify_sn sn c = (c', res)"
  shows "channel_ok b c'" "rx_defrag c' = rx_defrag c" "res \<noteq> Inl RxPanic"
  using assms sn_ok_roll [of b "rx_sn c" sn]
  by (auto simp: verify_sn_def channel_ok_def split: sum.splits prod.splits)

lemma deliver_all_ok:
  "deliver_all cb st ms = (st', res) \<Longrightarrow> rx_ok b st' = rx_ok b st \<and> res \<noteq> Inl RxPanic"
  by (induction ms arbitrary: st) (auto simp: trigger_callback_def split: if_splits)

lemma handle_frame_ok:
  assumes "rx_ok b st" "handle_frame cb st frame ms = (st', res)"
  shows "rx_ok b st' \<and> res \<noteq> Inl RxPanic"
proof (cases "select_priority st (fr_qos frame)")
  case (Inl e)
  then show ?thesis using assms select_priority_ok by (auto simp: handle_frame_def)
next
  case (Inr i)
  let ?c = "get_channel st i (fr_reliability frame)"
  obtain c r where v: "verify_sn (fr_sn frame) ?c = (c, r)" by (cases "verify_sn (fr_sn frame) ?c")
  have i: "i < length (rs_priority_rx st)" using Inr by (rule select_priority_less)
  have ok: "rx_ok b (put_channel st i (fr_reliability frame) c)"
    using verify_sn_ok [OF get_channel_ok(1) [OF assms(1) i] v] get_channel_ok(2) [OF assms(1) i] assms(1) i
    by (intro put_channel_ok) auto
  then show ?thesis
    using assms(2) Inr v verify_sn_ok(3) [OF get_channel_ok(1) [OF assms(1) i] v]
      deliver_all_ok [of cb "put_channel st i (fr_reliability frame) c" ms st' res b]
    by (auto simp: handle_frame_def Let_def split: sum.splits bool.splits if_splits)
qed

lemma defrag_step_ok:
  assumes "channel_ok b c" "defrag_step idf patch c f = (c', msg)"
  shows "channel_ok b c' \<and> df_reliability (rx_defrag c') = df_reliability (rx_defrag c)"
proof -
  have clr: "defrag_ok b (rx_defrag c)" using assms(1) by (simp add: channel_ok_def)
  let ?d = "if has_fragmentation_markers patch \<and> fg_first f then defrag_clear (rx_defrag c) else rx_defrag c"
  let ?d' = "if defrag_is_empty ?d then (case defrag_sync ?d (fg_sn f) of Inl _ \<Rightarrow> ?d | Inr d' \<Rightarrow> d') else ?d"
  have d: "defrag_ok b ?d" "df_reliability ?d = df_reliability (rx_defrag c)" using clr by auto
  then have d': "defrag_ok b ?d'" "df_reliability ?d' = df_reliability (rx_defrag c)"
    using defrag_ok_sync [OF d(1), of "fg_sn f"]
    by (auto split: sum.splits) (auto simp: defrag_sync_def split: sum.splits)
  obtain e r where p: "defrag_push ?d' (fg_sn f) (fg_payload f) = (e, r)"
    by (cases "defrag_push ?d' (fg_sn f) (fg_payload f)")
  have e: "defrag_ok b e" "df_reliability e = df_reliability (rx_defrag c)"
    using defrag_ok_push [OF d'(1), of "fg_sn f" "fg_payload f"]
      defrag_push_frame(2) [of ?d' "fg_sn f" "fg_payload f"] d'(2) p by simp_all
  show ?thesis
    using assms d e p unfolding defrag_step_def Let_def
    by (auto simp: channel_ok_def defrag_defragment_def split: if_splits sum.splits)
qed

lemma handle_fragment_ok:
  assumes "rx_ok b st" "handle_fragment idf cb st f = (st', res)"
  shows "rx_ok b st' \<and> res \<noteq> Inl RxPanic"
proof (cases "select_priority st (fg_qos f)")
  case (Inl e)
  then show ?thesis using assms select_priority_ok by (auto simp: handle_fragment_def)
next
  case (Inr i)
  let ?c = "get_channel st i (fg_reliability f)"
  obtain c r where v: "verify_sn (fg_sn f) ?c = (c, r)" by (cases "verify_sn (fg_sn f) ?c")
  obtain c' msg where s: "defrag_step idf (rs_patch st) c f = (c', msg)" by (cases "defrag_step idf (rs_patch st) c f")
  have i: "i < length (rs_priority_rx st)" using Inr by (rule select_priority_less)
  note vok = verify_sn_ok [OF get_channel_ok(1) [OF assms(1) i] v]
  have rel: "df_reliability (rx_defrag c) = fg_reliability f"
    using vok(2) get_channel_ok(2) [OF assms(1) i] by simp
  have "rx_ok b (put_channel st i (fg_reliability f) c)" "rx_ok b (put_channel st i (fg_reliability f) c')"
    using vok(1) rel defrag_step_ok [OF vok(1) s] assms(1) i by (auto intro: put_channel_ok)
  then show ?thesis
    using assms(2) Inr v s vok(3)
    by (auto simp: handle_fragment_def Let_def trigger_callback_def
        split: sum.splits bool.splits if_splits option.splits)
qed

text \<open>A frame is always taken by the first decoder: the \<open>unreachable!()\<close> of \<open>read_messages\<close> is.\<close>

lemma frame_taken_by_reader: "read_transport idf bs = Some (FrameT f, r) \<Longrightarrow> read_frame_reader bs \<noteq> None"
  by (cases bs)
    (auto simp: read_transport_def read_transport_header_def read_frame_reader_def rd_map_def read_frame_def
      Option.bind_eq_Some_conv split: if_splits)

lemma read_one_ok:
  assumes "rx_ok b st" "read_one idf cb st bs = (st', res)"
  shows "rx_ok b st' \<and> res \<noteq> Inl RxPanic"
proof (cases "read_frame_reader bs")
  case (Some fr)
  obtain frame r where fr: "fr = (frame, r)" by (cases fr)
  obtain ms r' where ms: "iter_all idf (fr_reliability frame) r = (ms, r')" by (cases "iter_all idf (fr_reliability frame) r")
  obtain st2 res2 where h: "handle_frame cb st frame ms = (st2, res2)" by (cases "handle_frame cb st frame ms")
  from handle_frame_ok [OF assms(1) h] assms(2) show ?thesis
    by (auto simp: read_one_def Some fr ms h split: sum.splits)
next
  case None
  show ?thesis
  proof (cases "read_transport idf bs")
    case rt: (Some mr)
    obtain msg r where mr: "mr = (msg, r)" by (cases mr)
    obtain st2 res2 where h: "handle_message idf cb st msg = (st2, res2)" by (cases "handle_message idf cb st msg")
    have "rx_ok b st2 \<and> res2 \<noteq> Inl RxPanic"
      using h handle_fragment_ok [OF assms(1)] assms(1) frame_taken_by_reader [of idf bs] None rt mr
      by (auto simp: handle_message_def handle_close_def split: TransportBody.splits)
    then show ?thesis using assms(2) by (auto simp: read_one_def None rt mr h split: sum.splits)
  qed (use assms None in \<open>auto simp: read_one_def\<close>)
qed

lemma read_messages_ok:
  "rx_ok b st \<Longrightarrow> read_messages idf cb st bs = (st', res) \<Longrightarrow> rx_ok b st' \<and> res \<noteq> Inl RxPanic"
proof (induction idf cb st bs rule: read_messages.induct)
  case (1 idf cb st bs)
  show ?case
  proof (cases "bs = []")
    case False
    obtain st2 res2 where o: "read_one idf cb st bs = (st2, res2)" by (cases "read_one idf cb st bs")
    note ok = read_one_ok [OF "1.prems"(1) o]
    show ?thesis
    proof (cases res2)
      case (Inl e)
      then show ?thesis using "1.prems"(2) False o ok by (subst (asm) read_messages.simps) auto
    next
      case (Inr r)
      then have "read_messages idf cb st2 r = (st', res)"
        using "1.prems"(2) False o by (subst (asm) read_messages.simps) simp
      then show ?thesis using "1.IH" [OF False o [symmetric] Inr] ok by blast
    qed
  qed (use "1.prems" in \<open>auto simp: read_messages.simps\<close>)
qed

text \<open>(C18) Whatever bytes arrive, reception does not panic (no index out of range, no unreachable
  branch) and keeps the channels well-formed: sequence numbers within the resolution, the length
  of every defragmentation buffer exact and within its capacity.\<close>

theorem rx_never_panics:
  assumes "rx_ok b st"
  shows "rx_ok b (fst (read_messages idf cb st bs)) \<and> snd (read_messages idf cb st bs) \<noteq> Inl RxPanic"
  using read_messages_ok [OF assms] by (metis prod.collapse)

definition example_rx_state :: RxState where
  "example_rx_state = \<lparr>rs_is_qos = False, rs_patch = PATCH_CURRENT, rs_callback = True,
     rs_priority_rx = [\<lparr>prx_reliable = example_rx,
       prx_best_effort = example_rx\<lparr>rx_defrag := (rx_defrag example_rx)\<lparr>df_reliability := BestEffort\<rparr>\<rparr>\<rparr>],
     rs_delivered = [], rs_closing = []\<rparr>"

lemma example_rx_state_ok: "rx_ok U8 example_rx_state"
  by (simp add: rx_ok_def example_rx_state_def priority_rx_ok_def example_rx_def channel_ok_def
      defrag_ok_def sn_ok_def)

theorem rx_never_panics_witness:
  "rx_ok U8 (fst (read_messages Some (\<lambda>_. True) example_rx_state [0x25, 9, 0xff])) \<and>
   snd (read_messages Some (\<lambda>_. True) example_rx_state [0x25, 9, 0xff]) \<noteq> Inl RxPanic"
  by (rule rx_never_panics [OF example_rx_state_ok])

end
