(* ===== verification/Transport_Stream.thy ===== *)
theory Transport_Stream
  imports Transport_Rx
begin

text \<open>
  What a receiver makes of a stream of frames and fragments.  The sender's numbers are unbounded
  counts, of which the wire carries the residue.  A stream of frames, with losses, duplicates and
  reorderings of less than half a window, is delivered as an ideal receiver with unbounded numbers
  would; the fragments of a message, received in order, give the message back.
\<close>

section \<open>Numbers on the wire\<close>

definition sn_wire :: "Bits \<Rightarrow> nat \<Rightarrow> TransportSn" where
  "sn_wire b n = of_nat (n mod 2 ^ sn_bits b)"

lemma pow_bits_le: "(2::nat) ^ sn_bits b \<le> 2 ^ 32"
  using sn_bits_bounds(2) by (intro power_increasing) simp_all

lemma unat_sn_wire: "unat (sn_wire b n) = n mod 2 ^ sn_bits b"
proof -
  have "n mod 2 ^ sn_bits b < 2 ^ 32"
    using pow_bits_le [of b] by (metis less_le_trans mod_less_divisor zero_less_numeral zero_less_power)
  then show ?thesis by (simp add: sn_wire_def unat_of_nat take_bit_nat_eq_self)
qed

lemma sn_abs_wire: "sn_abs b n v \<longleftrightarrow> v = sn_wire b n"
  by (auto simp: sn_abs_def word_unat_eq_iff unat_sn_wire)

lemma sn_next_wire: "sn_ok b s \<Longrightarrow> sn_value s = sn_wire b n \<Longrightarrow> sn_next s = sn_wire b (Suc n)"
  using sn_abs_next [of b s n] by (simp add: sn_abs_wire)

lemma verify_sn_wire:
  assumes "channel_ok b c" "sn_value (rx_sn c) = sn_wire b m"
    and "m \<le> n + 2 ^ (sn_bits b - 1)" "n < m + 2 ^ (sn_bits b - 1)"
  shows "verify_sn (sn_wire b n) c =
    (c\<lparr>rx_sn := (rx_sn c)\<lparr>sn_value := sn_wire b (max m n)\<rparr>\<rparr>, Inr (m < n))"
proof -
  obtain s' where s': "sn_roll (rx_sn c) (sn_wire b n) = Inr (m < n, s')" "sn_value s' = sn_wire b (max m n)"
    using sn_roll_abs [of b "rx_sn c" m n "sn_wire b n"] assms
    by (auto simp: channel_ok_def sn_abs_wire)
  moreover from s'(1) have "sn_mask s' = sn_mask (rx_sn c)"
    by (auto simp: sn_roll_def Let_def split: if_splits)
  ultimately show ?thesis by (cases s'; cases "rx_sn c") (simp add: verify_sn_def)
qed

section \<open>Frames\<close>

text \<open>An ideal receiver: unbounded counts, a frame is delivered when it is newer than all before.\<close>

fun ideal_rx :: "nat \<Rightarrow> (nat \<times> NetworkMessage list) list \<Rightarrow> NetworkMessage list" where
  "ideal_rx c [] = []"
| "ideal_rx c ((n, ms) # fs) = (if c < n then ms @ ideal_rx n fs else ideal_rx c fs)"

text \<open>Every frame is less than half a window ahead of the newest one before it, and not more than
  half a window behind.\<close>

fun in_window :: "Bits \<Rightarrow> nat \<Rightarrow> (nat \<times> NetworkMessage list) list \<Rightarrow> bool" where
  "in_window b c [] = True"
| "in_window b c ((n, ms) # fs) \<longleftrightarrow>
     c \<le> n + 2 ^ (sn_bits b - 1) \<and> n < c + 2 ^ (sn_bits b - 1) \<and> in_window b (max c n) fs"

definition frame_of :: "Bits \<Rightarrow> Reliability \<Rightarrow> TQoS \<Rightarrow> nat \<Rightarrow> FrameHeader" where
  "frame_of b rel q n = \<lparr>fr_qos = q, fr_reliability = rel, fr_sn = sn_wire b n\<rparr>"

fun handle_frames ::
  "(NetworkMessage \<Rightarrow> bool) \<Rightarrow> RxState \<Rightarrow> (FrameHeader \<times> NetworkMessage list) list \<Rightarrow> unit rx_res" where
  "handle_frames cb st [] = (st, Inr ())"
| "handle_frames cb st ((h, ms) # fs) =
     (case handle_frame cb st h ms of (st, Inl e) \<Rightarrow> (st, Inl e) | (st, Inr _) \<Rightarrow> handle_frames cb st fs)"

lemma deliver_all_True: "deliver_all (\<lambda>_. True) st ms = (st\<lparr>rs_delivered := rs_delivered st @ ms\<rparr>, Inr ())"
  by (induction ms arbitrary: st) (simp_all add: trigger_callback_def)

lemma handle_frame_wire:
  assumes "rx_ok b st" "rs_callback st" "select_priority st q = Inr i"
    and "sn_value (rx_sn (get_channel st i rel)) = sn_wire b c"
    and "c \<le> n + 2 ^ (sn_bits b - 1)" "n < c + 2 ^ (sn_bits b - 1)"
  shows "\<exists>st'. handle_frame (\<lambda>_. True) st (frame_of b rel q n) ms = (st', Inr ()) \<and>
    rs_delivered st' = rs_delivered st @ (if c < n then ms else []) \<and> rx_ok b st' \<and> rs_callback st' \<and>
    select_priority st' q = Inr i \<and> sn_value (rx_sn (get_channel st' i rel)) = sn_wire b (max c n)"
proof -
  let ?ch = "get_channel st i rel"
  let ?c' = "?ch\<lparr>rx_sn := (rx_sn ?ch)\<lparr>sn_value := sn_wire b (max c n)\<rparr>\<rparr>"
  let ?st1 = "put_channel st i rel ?c'"
  have i: "i < length (rs_priority_rx st)" using assms(3) by (rule select_priority_less)
  have v: "verify_sn (sn_wire b n) ?ch = (?c', Inr (c < n))"
    by (rule verify_sn_wire [OF get_channel_ok(1) [OF assms(1) i] assms(4-6)])
  let ?st' = "if c < n then ?st1\<lparr>rs_delivered := rs_delivered st @ ms\<rparr> else ?st1"
  have h: "handle_frame (\<lambda>_. True) st (frame_of b rel q n) ms = (?st', Inr ())"
    using assms(2,3) v by (simp add: handle_frame_def frame_of_def deliver_all_True)
  have "rx_ok b ?st'" using handle_frame_ok [OF assms(1) h] by blast
  moreover have "rs_callback ?st'" "rs_delivered ?st' = rs_delivered st @ (if c < n then ms else [])"
    using assms(2) by simp_all
  moreover have "select_priority ?st' q = Inr i"
    using assms(3) by simp
  moreover have "get_channel ?st' i rel = ?c'"
    using i by simp
  ultimately show ?thesis using h by (intro exI [of _ ?st']) simp
qed

text \<open>(C10) A stream of frames on a channel is delivered as by an ideal receiver with unbounded sequence
  numbers, whatever the losses, duplicates and reorderings within the window: no frame is
  delivered twice, none after a newer one.\<close>

theorem frames_refine_ideal:
  assumes "rx_ok b st" "rs_callback st" "select_priority st q = Inr i"
    and "sn_value (rx_sn (get_channel st i rel)) = sn_wire b c" and "in_window b c fs"
  shows "\<exists>st'. handle_frames (\<lambda>_. True) st (map (\<lambda>(n, ms). (frame_of b rel q n, ms)) fs) = (st', Inr ()) \<and>
    rs_delivered st' = rs_delivered st @ ideal_rx c fs"
  using assms
proof (induction fs arbitrary: st c)
  case (Cons nm fs)
  obtain n ms where nm: "nm = (n, ms)" by (cases nm)
  from Cons.prems(5) nm have w: "c \<le> n + 2 ^ (sn_bits b - 1)" "n < c + 2 ^ (sn_bits b - 1)" "in_window b (max c n) fs"
    by simp_all
  from handle_frame_wire [OF Cons.prems(1-4) w(1,2), of ms] obtain st1 where
    st1: "handle_frame (\<lambda>_. True) st (frame_of b rel q n) ms = (st1, Inr ())"
    "rs_delivered st1 = rs_delivered st @ (if c < n then ms else [])" "rx_ok b st1" "rs_callback st1"
    "select_priority st1 q = Inr i" "sn_value (rx_sn (get_channel st1 i rel)) = sn_wire b (max c n)" by blast
  from Cons.IH [OF st1(3-6) w(3)] obtain st2 where
    "handle_frames (\<lambda>_. True) st1 (map (\<lambda>(n, ms). (frame_of b rel q n, ms)) fs) = (st2, Inr ())"
    "rs_delivered st2 = rs_delivered st1 @ ideal_rx (max c n) fs" by blast
  then show ?case using st1(1,2) by (auto simp: nm max_def)
qed simp

theorem frames_refine_ideal_witness:
  "\<exists>st'. handle_frames (\<lambda>_. True) example_rx_state
     (map (\<lambda>(n, ms). (frame_of U8 Reliable TQOS_DEFAULT n, ms)) [(6, [example_push]), (6, [example_push]), (9, [example_final])]) =
       (st', Inr ()) \<and> rs_delivered st' = [example_push, example_final]"
proof -
  have "select_priority example_rx_state TQOS_DEFAULT = Inr 0"
    by (simp add: select_priority_def TQOS_DEFAULT_def PRIORITY_DEFAULT_def example_rx_state_def)
  moreover have "sn_value (rx_sn (get_channel example_rx_state 0 Reliable)) = sn_wire U8 5"
    by (simp add: get_channel_def example_rx_state_def example_rx_def sn_wire_def)
  ultimately show ?thesis
    using frames_refine_ideal [OF example_rx_state_ok, of TQOS_DEFAULT 0 Reliable 5
        "[(6, [example_push]), (6, [example_push]), (9, [example_final])]"]
    by (simp add: example_rx_state_def)
qed

section \<open>Fragments\<close>

text \<open>The fragments that carry the parts of a message, numbered from \<open>n\<close>.\<close>

fun fragments_of :: "Bits \<Rightarrow> Reliability \<Rightarrow> TQoS \<Rightarrow> nat \<Rightarrow> bool \<Rightarrow> bytes list \<Rightarrow> Fragment list" where
  "fragments_of b rel q n first [] = []"
| "fragments_of b rel q n first (p # ps) =
     \<lparr>fg_qos = q, fg_first = first, fg_drop = False, fg_reliability = rel, fg_more = (ps \<noteq> []),
       fg_sn = sn_wire b n, fg_payload = p\<rparr> # fragments_of b rel q (Suc n) False ps"

text \<open>A fragment on its channel: the check of the number and the defragmentation.\<close>

definition chan_fragment ::
  "(bytes \<Rightarrow> bytes option) \<Rightarrow> PatchType \<Rightarrow> TransportChannelRx \<Rightarrow> Fragment \<Rightarrow> TransportChannelRx \<times> NetworkMessage option" where
  "chan_fragment idf patch c f =
     (case verify_sn (fg_sn f) c of (c', Inr True) \<Rightarrow> defrag_step idf patch c' f | (c', _) \<Rightarrow> (c', None))"

fun chan_fragments ::
  "(bytes \<Rightarrow> bytes option) \<Rightarrow> PatchType \<Rightarrow> TransportChannelRx \<Rightarrow> Fragment list \<Rightarrow> TransportChannelRx \<times> NetworkMessage list" where
  "chan_fragments idf patch c [] = (c, [])"
| "chan_fragments idf patch c (f # fs) =
     (case chan_fragment idf patch c f of (c', msg) \<Rightarrow>
        (case chan_fragments idf patch c' fs of (c'', ms) \<Rightarrow> (c'', (case msg of None \<Rightarrow> ms | Some m \<Rightarrow> m # ms))))"

text \<open>The number of a channel and the number that its buffer expects.\<close>

definition chan_at :: "Bits \<Rightarrow> nat \<Rightarrow> TransportChannelRx \<Rightarrow> bool" where
  "chan_at b n c \<longleftrightarrow> channel_ok b c \<and> sn_value (rx_sn c) = sn_wire b n"

definition assembling :: "Bits \<Rightarrow> nat \<Rightarrow> bytes \<Rightarrow> TransportChannelRx \<Rightarrow> bool" where
  "assembling b n pre c \<longleftrightarrow> chan_at b n c \<and> pre \<noteq> [] \<and> df_buffer (rx_defrag c) = pre \<and>
     sn_value (df_sn (rx_defrag c)) = sn_wire b (Suc n)"

lemma half_ge_2: "(2::nat) \<le> 2 ^ (sn_bits b - 1)"
  by (cases b) simp_all

lemma verify_next:
  assumes "chan_at b m c" "m < n" "n < m + 2 ^ (sn_bits b - 1)"
  shows "verify_sn (sn_wire b n) c = (c\<lparr>rx_sn := (rx_sn c)\<lparr>sn_value := sn_wire b n\<rparr>\<rparr>, Inr True)"
  using verify_sn_wire [of b c m n] assms by (simp add: chan_at_def max_def)

text \<open>A further fragment of a message under assembly.\<close>

lemma chan_fragment_next:
  assumes a: "assembling b n pre c" and f: "fg_sn f = sn_wire b (Suc n)" "\<not> fg_first f" "\<not> fg_drop f"
    and cap: "length pre + length (fg_payload f) \<le> df_capacity (rx_defrag c)"
  shows "\<exists>c'. chan_fragment idf patch c f =
      (c', if fg_more f then None
           else map_option fst (read_network_message idf (df_reliability (rx_defrag c)) (pre @ fg_payload f))) \<and>
    chan_at b (Suc n) c' \<and> df_capacity (rx_defrag c') = df_capacity (rx_defrag c) \<and>
    df_reliability (rx_defrag c') = df_reliability (rx_defrag c) \<and>
    (fg_more f \<longrightarrow> assembling b (Suc n) (pre @ fg_payload f) c')"
proof -
  let ?d = "rx_defrag c"
  let ?c1 = "c\<lparr>rx_sn := (rx_sn c)\<lparr>sn_value := sn_wire b (Suc n)\<rparr>\<rparr>"
  let ?d2 = "?d\<lparr>df_sn := sn_increment (df_sn ?d), df_buffer := pre @ fg_payload f, df_len := df_len ?d + length (fg_payload f)\<rparr>"
  from a have c: "chan_at b n c" "channel_ok b c" and pre: "pre \<noteq> []" "df_buffer ?d = pre"
    and dsn: "sn_value (df_sn ?d) = sn_wire b (Suc n)" and dok: "defrag_ok b ?d"
    by (auto simp: assembling_def chan_at_def channel_ok_def)
  have v: "verify_sn (fg_sn f) c = (?c1, Inr True)"
    using verify_next [OF c(1), of "Suc n"] half_ge_2 [of b] f(1) by simp
  have p: "defrag_push ?d (fg_sn f) (fg_payload f) = (?d2, Inr ())"
    using defrag_push_ok [OF dok, of "fg_sn f" "fg_payload f"] dsn f(1) cap pre by simp
  let ?c' = "?c1\<lparr>rx_defrag := if fg_more f then ?d2 else defrag_clear ?d2\<rparr>"
  have s: "chan_fragment idf patch c f = (?c', if fg_more f then None
      else map_option fst (read_network_message idf (df_reliability ?d) (pre @ fg_payload f)))"
    using v p pre f by (simp add: chan_fragment_def defrag_step_def Let_def defrag_is_empty_def defrag_defragment_def)
  have "channel_ok b ?c1" using verify_sn_ok(1) [OF c(2) v] .
  moreover have "defrag_ok b ?d2" using defrag_ok_push [OF dok, of "fg_sn f" "fg_payload f"] p by simp
  ultimately have ok: "chan_at b (Suc n) ?c'" by (simp add: chan_at_def channel_ok_def)
  have "sn_value (df_sn ?d2) = sn_wire b (Suc (Suc n))"
    using dok dsn sn_next_wire [of b "df_sn ?d" "Suc n"] by (simp add: defrag_ok_def sn_increment_def)
  then show ?thesis
    using s ok pre by (intro exI [of _ ?c']) (cases "fg_more f"; simp add: assembling_def)
qed

lemma chan_fragments_tail:
  assumes "assembling b n pre c" "ps \<noteq> []" "length (pre @ concat ps) \<le> df_capacity (rx_defrag c)"
    and "read_network_message idf (df_reliability (rx_defrag c)) (pre @ concat ps) = Some (m, r)"
  shows "\<exists>c'. chan_fragments idf patch c (fragments_of b rel q (Suc n) False ps) = (c', [m]) \<and>
    chan_at b (n + length ps) c'"
  using assms
proof (induction ps arbitrary: n pre c)
  case (Cons p ps)
  let ?f = "\<lparr>fg_qos = q, fg_first = False, fg_drop = False, fg_reliability = rel, fg_more = (ps \<noteq> []),
       fg_sn = sn_wire b (Suc n), fg_payload = p\<rparr>"
  have "length pre + length (fg_payload ?f) \<le> df_capacity (rx_defrag c)" using Cons.prems(3) by simp
  from chan_fragment_next [OF Cons.prems(1) _ _ _ this, of idf patch] obtain c1 where
    c1: "chan_fragment idf patch c ?f = (c1, if ps \<noteq> [] then None
        else map_option fst (read_network_message idf (df_reliability (rx_defrag c)) (pre @ p)))"
    "chan_at b (Suc n) c1" "df_capacity (rx_defrag c1) = df_capacity (rx_defrag c)"
    "df_reliability (rx_defrag c1) = df_reliability (rx_defrag c)"
    "ps \<noteq> [] \<longrightarrow> assembling b (Suc n) (pre @ p) c1" by auto
  show ?case
  proof (cases "ps = []")
    case True
    then show ?thesis using c1 Cons.prems(4) by simp
  next
    case False
    with c1 Cons.prems have "\<exists>c'. chan_fragments idf patch c1 (fragments_of b rel q (Suc (Suc n)) False ps) = (c', [m]) \<and>
        chan_at b (Suc n + length ps) c'"
      by (intro Cons.IH) auto
    then show ?thesis using False c1(1) by auto
  qed
qed simp

text \<open>The first fragment empties the buffer, whatever an interrupted message left in it.\<close>

lemma chan_fragment_first:
  assumes c: "chan_at b m c" "m < n" "n < m + 2 ^ (sn_bits b - 1)"
    and f: "fg_sn f = sn_wire b n" "fg_first f" "\<not> fg_drop f"
    and e: "has_fragmentation_markers patch \<or> df_buffer (rx_defrag c) = []"
    and cap: "length (fg_payload f) \<le> df_capacity (rx_defrag c)"
  shows "\<exists>c'. chan_fragment idf patch c f =
      (c', if fg_more f then None
           else map_option fst (read_network_message idf (df_reliability (rx_defrag c)) (fg_payload f))) \<and>
    chan_at b n c' \<and> df_capacity (rx_defrag c') = df_capacity (rx_defrag c) \<and>
    df_reliability (rx_defrag c') = df_reliability (rx_defrag c) \<and>
    (fg_more f \<and> fg_payload f \<noteq> [] \<longrightarrow> assembling b n (fg_payload f) c')"
proof -
  let ?c1 = "c\<lparr>rx_sn := (rx_sn c)\<lparr>sn_value := sn_wire b n\<rparr>\<rparr>"
  let ?d0 = "if has_fragmentation_markers patch then defrag_clear (rx_defrag c) else rx_defrag c"
  let ?d1 = "?d0\<lparr>df_sn := (df_sn ?d0)\<lparr>sn_value := sn_wire b n\<rparr>\<rparr>"
  let ?d2 = "?d1\<lparr>df_sn := sn_increment (df_sn ?d1), df_buffer := fg_payload f, df_len := length (fg_payload f)\<rparr>"
  have cok: "channel_ok b c" and dok: "defrag_ok b (rx_defrag c)"
    using c(1) by (auto simp: chan_at_def channel_ok_def)
  have v: "verify_sn (fg_sn f) c = (?c1, Inr True)" using verify_next [OF c] f(1) by simp
  have d0: "defrag_ok b ?d0" "defrag_is_empty ?d0" "df_buffer ?d0 = []" "df_len ?d0 = 0"
    using dok e by (auto simp: defrag_is_empty_def defrag_ok_def)
  have sy: "defrag_sync ?d0 (fg_sn f) = Inr ?d1"
    using defrag_sync_eq [OF d0(1), of "fg_sn f"] f(1) by (simp add: unat_sn_wire)
  have d1: "defrag_ok b ?d1" using defrag_ok_sync [OF d0(1) sy] .
  have p: "defrag_push ?d1 (fg_sn f) (fg_payload f) = (?d2, Inr ())"
    using defrag_push_ok [OF d1, of "fg_sn f" "fg_payload f"] d0 f(1) cap by simp
  let ?c' = "?c1\<lparr>rx_defrag := if fg_more f then ?d2 else defrag_clear ?d2\<rparr>"
  have s: "chan_fragment idf patch c f = (?c', if fg_more f then None
      else map_option fst (read_network_message idf (df_reliability (rx_defrag c)) (fg_payload f)))"
    using v p sy d0 f
    by (cases "has_fragmentation_markers patch")
      (simp_all add: chan_fragment_def defrag_step_def Let_def defrag_defragment_def)
  have "channel_ok b ?c1" using verify_sn_ok(1) [OF cok v] .
  moreover have "defrag_ok b ?d2" using defrag_ok_push [OF d1, of "fg_sn f" "fg_payload f"] p by simp
  ultimately have ok: "chan_at b n ?c'" by (simp add: chan_at_def channel_ok_def)
  have "sn_value (df_sn ?d2) = sn_wire b (Suc n)"
    using d1 sn_next_wire [of b "df_sn ?d1" n] by (simp add: defrag_ok_def sn_increment_def)
  then show ?thesis
    using s ok
    by (intro exI [of _ ?c']) (cases "fg_more f"; cases "has_fragmentation_markers patch"; simp add: assembling_def)
qed

lemma chan_fragments_message:
  assumes c: "chan_at b m c" "m < n" "n < m + 2 ^ (sn_bits b - 1)"
    and ps: "ps \<noteq> []" "hd ps \<noteq> []"
    and e: "has_fragmentation_markers patch \<or> df_buffer (rx_defrag c) = []"
    and cap: "length (concat ps) \<le> df_capacity (rx_defrag c)"
    and rd: "read_network_message idf (df_reliability (rx_defrag c)) (concat ps) = Some (x, r)"
  shows "\<exists>c'. chan_fragments idf patch c (fragments_of b rel q n True ps) = (c', [x]) \<and>
    chan_at b (n + length ps - 1) c'"
proof -
  obtain p ps' where p: "ps = p # ps'" "p \<noteq> []" using ps by (cases ps) auto
  let ?f = "\<lparr>fg_qos = q, fg_first = True, fg_drop = False, fg_reliability = rel, fg_more = (ps' \<noteq> []),
       fg_sn = sn_wire b n, fg_payload = p\<rparr>"
  have "length (fg_payload ?f) \<le> df_capacity (rx_defrag c)" using cap p by simp
  from chan_fragment_first [OF c _ _ _ e this, of idf] obtain c1 where
    c1: "chan_fragment idf patch c ?f = (c1, if ps' \<noteq> [] then None
        else map_option fst (read_network_message idf (df_reliability (rx_defrag c)) p))"
    "chan_at b n c1" "df_capacity (rx_defrag c1) = df_capacity (rx_defrag c)"
    "df_reliability (rx_defrag c1) = df_reliability (rx_defrag c)"
    "ps' \<noteq> [] \<longrightarrow> assembling b n p c1" using p(2) by auto
  show ?thesis
  proof (cases "ps' = []")
    case True
    then show ?thesis using c1(1,2) rd p by simp
  next
    case False
    with c1 cap rd p have "\<exists>c'. chan_fragments idf patch c1 (fragments_of b rel q (Suc n) False ps') = (c', [x]) \<and>
        chan_at b (n + length ps') c'"
      by (intro chan_fragments_tail) auto
    then show ?thesis using False c1(1) p by auto
  qed
qed

text \<open>On the whole receiver.\<close>

fun handle_fragments ::
  "(bytes \<Rightarrow> bytes option) \<Rightarrow> (NetworkMessage \<Rightarrow> bool) \<Rightarrow> RxState \<Rightarrow> Fragment list \<Rightarrow> unit rx_res" where
  "handle_fragments idf cb st [] = (st, Inr ())"
| "handle_fragments idf cb st (f # fs) =
     (case handle_fragment idf cb st f of (st, Inl e) \<Rightarrow> (st, Inl e) | (st, Inr _) \<Rightarrow> handle_fragments idf cb st fs)"

lemma handle_fragment_chan:
  assumes "rs_callback st" "select_priority st (fg_qos f) = Inr i"
    and "unat (fg_sn f) < 2 ^ sn_bits b" "channel_ok b (get_channel st i (fg_reliability f))"
    and "chan_fragment idf (rs_patch st) (get_channel st i (fg_reliability f)) f = (c', msg)"
  shows "handle_fragment idf (\<lambda>_. True) st f =
    ((put_channel st i (fg_reliability f) c')
       \<lparr>rs_delivered := rs_delivered st @ (case msg of None \<Rightarrow> [] | Some m \<Rightarrow> [m])\<rparr>, Inr ())"
proof -
  let ?c = "get_channel st i (fg_reliability f)"
  have "\<exists>s ok. sn_roll (rx_sn ?c) (fg_sn f) = Inr (ok, s)"
    using assms(3,4) by (auto simp: channel_ok_def sn_roll_eq [of b])
  then obtain c1 ok where v: "verify_sn (fg_sn f) ?c = (c1, Inr ok)" by (auto simp: verify_sn_def)
  have "st\<lparr>rs_delivered := rs_delivered st\<rparr> = st" for st :: RxState by simp
  then show ?thesis
    using assms v
    by (cases ok) (auto simp: handle_fragment_def chan_fragment_def trigger_callback_def split: option.splits)
qed

lemma handle_fragments_chan:
  assumes "rx_ok b st" "rs_callback st" "select_priority st q = Inr i"
    and "\<forall>f\<in>set fs. fg_qos f = q \<and> fg_reliability f = rel \<and> unat (fg_sn f) < 2 ^ sn_bits b"
    and "chan_fragments idf (rs_patch st) (get_channel st i rel) fs = (c', ms)"
  shows "\<exists>st'. handle_fragments idf (\<lambda>_. True) st fs = (st', Inr ()) \<and> rs_delivered st' = rs_delivered st @ ms \<and>
    rx_ok b st' \<and> get_channel st' i rel = c'"
  using assms
proof (induction fs arbitrary: st ms)
  case (Cons f fs)
  let ?c = "get_channel st i rel"
  obtain c1 msg where c1: "chan_fragment idf (rs_patch st) ?c f = (c1, msg)" by (cases "chan_fragment idf (rs_patch st) ?c f")
  obtain ms' where ms': "chan_fragments idf (rs_patch st) c1 fs = (c', ms')"
    "ms = (case msg of None \<Rightarrow> ms' | Some m \<Rightarrow> m # ms')"
    using Cons.prems(5) c1 by (auto split: prod.splits)
  have i: "i < length (rs_priority_rx st)" using Cons.prems(3) by (rule select_priority_less)
  let ?st1 = "(put_channel st i rel c1)\<lparr>rs_delivered := rs_delivered st @ (case msg of None \<Rightarrow> [] | Some m \<Rightarrow> [m])\<rparr>"
  have h: "handle_fragment idf (\<lambda>_. True) st f = (?st1, Inr ())"
    using handle_fragment_chan [of st f i b idf c1 msg] Cons.prems c1 get_channel_ok(1) [OF Cons.prems(1) i] by auto
  have "rx_ok b ?st1" using handle_fragment_ok [OF Cons.prems(1) h] by blast
  moreover have "get_channel ?st1 i rel = c1" using i by simp
  ultimately have "\<exists>st'. handle_fragments idf (\<lambda>_. True) ?st1 fs = (st', Inr ()) \<and> rs_delivered st' = rs_delivered ?st1 @ ms' \<and>
      rx_ok b st' \<and> get_channel st' i rel = c'"
    using Cons.prems ms'(1) by (intro Cons.IH) simp_all
  then show ?case using h ms'(2) by (auto split: option.splits)
qed simp

lemma fragments_of_fields:
  "f \<in> set (fragments_of b rel q n first ps) \<Longrightarrow>
    fg_qos f = q \<and> fg_reliability f = rel \<and> unat (fg_sn f) < 2 ^ sn_bits b"
  by (induction ps arbitrary: n first) (auto simp: unat_sn_wire)

text \<open>(C9) A fragmented message is reassembled: when the parts of the encoding of a well-formed
  network message that fits the buffer arrive in order, exactly that message is delivered, with
  the reliability of the channel.  If the peers use the markers of fragments, this holds whatever parts an interrupted
  message left in the buffer; without markers it is shown for an empty buffer.\<close>

theorem fragmentation_roundtrip:
  assumes st: "rx_ok b st" "rs_callback st" "select_priority st q = Inr i"
    and m: "network_body_ok idf (body msg)" "write_network_message msg = Some (concat ps)"
    and ps: "hd ps \<noteq> []" and cap: "length (concat ps) \<le> df_capacity (rx_defrag (get_channel st i rel))"
    and sn: "sn_value (rx_sn (get_channel st i rel)) = sn_wire b c" "c < n" "n < c + 2 ^ (sn_bits b - 1)"
    and e: "has_fragmentation_markers (rs_patch st) \<or> df_buffer (rx_defrag (get_channel st i rel)) = []"
  shows "\<exists>st'. handle_fragments idf (\<lambda>_. True) st (fragments_of b rel q n True ps) = (st', Inr ()) \<and>
    rs_delivered st' = rs_delivered st @ [msg\<lparr>reliability := rel\<rparr>] \<and> rx_ok b st'"
proof -
  let ?c = "get_channel st i rel"
  have i: "i < length (rs_priority_rx st)" using st(3) by (rule select_priority_less)
  note ch = get_channel_ok [OF st(1) i, of rel]
  have rd: "read_network_message idf rel (concat ps) = Some (msg\<lparr>reliability := rel\<rparr>, [])"
    using read_network_body_rt [OF m(1), of "concat ps" rel "[]"] m(2) by (simp add: write_network_message_def)
  then have "ps \<noteq> []" by (auto simp: read_network_message_Nil)
  then obtain c' where "chan_fragments idf (rs_patch st) ?c (fragments_of b rel q n True ps) = (c', [msg\<lparr>reliability := rel\<rparr>])"
    using chan_fragments_message [of b c ?c n ps "rs_patch st" idf "msg\<lparr>reliability := rel\<rparr>" "[]" rel q]
      ch sn ps e cap rd by (auto simp: chan_at_def)
  then show ?thesis
    using handle_fragments_chan [OF st, of "fragments_of b rel q n True ps" rel idf c'] fragments_of_fields by blast
qed

lemma example_parts: "write_network_message example_push = Some (concat [[253, 172, 2, 3, 97, 47], [98, 161, 8, 51], [3, 1, 2, 1, 2]])"
  by (simp add: example_bytes)

lemma example_push_ok: "network_body_ok Some (body example_push)"
  by (simp add: example_push_def example_put_def network_message_from_def push_ok_def net_ok_def
      put_ok_def wire_expr_ok_def)

theorem fragmentation_roundtrip_witness:
  "\<exists>st'. handle_fragments Some (\<lambda>_. True) example_rx_state
      (fragments_of U8 Reliable TQOS_DEFAULT 6 True [[253, 172, 2, 3, 97, 47], [98, 161, 8, 51], [3, 1, 2, 1, 2]]) =
      (st', Inr ()) \<and> rs_delivered st' = [example_push\<lparr>reliability := Reliable\<rparr>] \<and> rx_ok U8 st'"
proof -
  have "rs_callback example_rx_state" "rs_delivered example_rx_state = []"
    "select_priority example_rx_state TQOS_DEFAULT = Inr 0" "has_fragmentation_markers (rs_patch example_rx_state)"
    "get_channel example_rx_state 0 Reliable = example_rx" "sn_value (rx_sn example_rx) = sn_wire U8 5"
    "df_capacity (rx_defrag example_rx) = 64"
    by (simp_all add: select_priority_def TQOS_DEFAULT_def PRIORITY_DEFAULT_def example_rx_state_def
        get_channel_def example_rx_def sn_wire_def has_fragmentation_markers_def PATCH_CURRENT_def)
  then show ?thesis
    using fragmentation_roundtrip [OF example_rx_state_ok _ _ example_push_ok example_parts,
        of TQOS_DEFAULT 0 Reliable 5 6]
    by simp
qed

end
