(* ===== verification/Transport_Batch.thy ===== *)
theory Transport_Batch
  imports Transport_Stream
begin

text \<open>
  Batches: the bounded buffer (\<open>commons/zenoh-buffers/src/bbuf.rs\<close>), the codec of a batch
  (\<open>commons/zenoh-codec/src/transport/batch.rs\<close>), the write and read batches
  (\<open>io/zenoh-transport/src/common/batch.rs\<close>, with the feature \<open>transport_compression\<close>) and their way
  through a link (\<open>io/zenoh-transport/src/unicast/link.rs\<close>).  A \<open>BBuf\<close> is its capacity and the bytes
  written so far; the uninitialised rest of its memory is never read.

  The encoders of the codec theories give the bytes of a message.  On a bounded writer they may run
  out of space half-way: a variable-length integer asks for a slot of nine bytes whatever it then
  uses, so that whether a message fits depends on its structure.  The number of bytes that get
  written is therefore a function \<open>lim\<close> of the bytes and of the space left, subject to
  \<open>slot_limit\<close>: no more than there are or fit, and all of them when eight more bytes would fit.
\<close>

section \<open>The bounded buffer\<close>

record BBuf =
  bb_capacity :: nat
  bb_bytes :: bytes

definition bb_with_capacity :: "nat \<Rightarrow> BBuf" where
  "bb_with_capacity capacity = \<lparr>bb_capacity = capacity, bb_bytes = []\<rparr>"

definition bb_clear :: "BBuf \<Rightarrow> BBuf" where
  "bb_clear b = b\<lparr>bb_bytes := []\<rparr>"

definition bb_len :: "BBuf \<Rightarrow> nat" where
  "bb_len b = length (bb_bytes b)"

definition bb_remaining :: "BBuf \<Rightarrow> nat" where
  "bb_remaining b = bb_capacity b - bb_len b"

text \<open>\<open>write\<close>: as many bytes as fit, an error when this is none.\<close>

definition bb_write :: "BBuf \<Rightarrow> bytes \<Rightarrow> (BBuf \<times> nat) option" where
  "bb_write b bs =
     (let len = min (length bs) (bb_remaining b) in
      if len = 0 then None else Some (b\<lparr>bb_bytes := bb_bytes b @ take len bs\<rparr>, len))"

definition bb_write_exact :: "BBuf \<Rightarrow> bytes \<Rightarrow> BBuf option" where
  "bb_write_exact b bs =
     (if bb_remaining b < length bs then None else Some (b\<lparr>bb_bytes := bb_bytes b @ bs\<rparr>))"

text \<open>\<open>with_slot(len, write)\<close>, where \<open>write\<close> fills a slot of \<open>len\<close> bytes with the bytes it returns.\<close>

definition bb_with_slot :: "BBuf \<Rightarrow> nat \<Rightarrow> (nat \<Rightarrow> bytes) \<Rightarrow> BBuf \<times> bool" where
  "bb_with_slot b len write =
     (if bb_remaining b < len then (b, False)
      else let bs = write len in (b\<lparr>bb_bytes := bb_bytes b @ bs\<rparr>, bs \<noteq> []))"

definition bb_mark :: "BBuf \<Rightarrow> nat" where
  "bb_mark b = bb_len b"

definition bb_rewind :: "BBuf \<Rightarrow> nat \<Rightarrow> BBuf" where
  "bb_rewind b m = b\<lparr>bb_bytes := take m (bb_bytes b)\<rparr>"

definition bb_ok :: "BBuf \<Rightarrow> bool" where
  "bb_ok b \<longleftrightarrow> bb_len b \<le> bb_capacity b"

text \<open>An encoder on a bounded writer.\<close>

type_synonym limit = "bytes \<Rightarrow> nat \<Rightarrow> nat"

definition slot_limit :: "limit \<Rightarrow> bool" where
  "slot_limit lim \<longleftrightarrow> (\<forall>bs n. lim bs n \<le> length bs \<and> lim bs n \<le> n \<and> (length bs + 8 \<le> n \<longrightarrow> lim bs n = length bs))"

definition bb_encode :: "limit \<Rightarrow> BBuf \<Rightarrow> bytes option \<Rightarrow> BBuf \<times> bool" where
  "bb_encode lim b e =
     (case e of
        None \<Rightarrow> (b, False)
      | Some bs \<Rightarrow>
          let n = lim bs (bb_remaining b) in
          (b\<lparr>bb_bytes := bb_bytes b @ take n bs\<rparr>, n = length bs))"

section \<open>The codec of a batch\<close>

datatype CurrentFrame = CfReliable | CfBestEffort | CfNone

record LatestSn =
  ls_reliable :: "TransportSn option"
  ls_best_effort :: "TransportSn option"

definition latest_sn_new :: LatestSn where
  "latest_sn_new = \<lparr>ls_reliable = None, ls_best_effort = None\<rparr>"

record Zenoh080Batch =
  zb_current_frame :: CurrentFrame
  zb_latest_sn :: LatestSn

definition zb_new :: Zenoh080Batch where
  "zb_new = \<lparr>zb_current_frame = CfNone, zb_latest_sn = latest_sn_new\<rparr>"

definition zb_clear :: "Zenoh080Batch \<Rightarrow> Zenoh080Batch" where
  "zb_clear z = z\<lparr>zb_current_frame := CfNone, zb_latest_sn := latest_sn_new\<rparr>"

datatype BatchError = NewFrame | BatchDidntWrite

definition zb_write_transport ::
  "limit \<Rightarrow> Zenoh080Batch \<Rightarrow> BBuf \<Rightarrow> TransportBody \<Rightarrow> Zenoh080Batch \<times> BBuf \<times> bool" where
  "zb_write_transport lim z w x =
     (let mark = bb_mark w in
      case bb_encode lim w (write_transport x) of
        (w, False) \<Rightarrow> (z, bb_rewind w mark, False)
      | (w, True) \<Rightarrow> (z\<lparr>zb_current_frame := CfNone\<rparr>, w, True))"

definition zb_write_network ::
  "limit \<Rightarrow> Zenoh080Batch \<Rightarrow> BBuf \<Rightarrow> NetworkMessage \<Rightarrow> Zenoh080Batch \<times> BBuf \<times> (BatchError + unit)" where
  "zb_write_network lim z w x =
     (if (zb_current_frame z = CfReliable \<and> \<not> msg_is_reliable x) \<or>
         (zb_current_frame z = CfBestEffort \<and> msg_is_reliable x) \<or> zb_current_frame z = CfNone
      then (z, w, Inl NewFrame)
      else
        let mark = bb_mark w in
        case bb_encode lim w (write_network_message x) of
          (w, False) \<Rightarrow> (z, bb_rewind w mark, Inl BatchDidntWrite)
        | (w, True) \<Rightarrow> (z, w, Inr ()))"

definition zb_set_frame :: "Zenoh080Batch \<Rightarrow> Reliability \<Rightarrow> TransportSn \<Rightarrow> Zenoh080Batch" where
  "zb_set_frame z r sn =
     (case r of
        Reliable \<Rightarrow> z\<lparr>zb_current_frame := CfReliable, zb_latest_sn := (zb_latest_sn z)\<lparr>ls_reliable := Some sn\<rparr>\<rparr>
      | BestEffort \<Rightarrow> z\<lparr>zb_current_frame := CfBestEffort, zb_latest_sn := (zb_latest_sn z)\<lparr>ls_best_effort := Some sn\<rparr>\<rparr>)"

definition zb_write_frame ::
  "limit \<Rightarrow> Zenoh080Batch \<Rightarrow> BBuf \<Rightarrow> NetworkMessage \<Rightarrow> FrameHeader \<Rightarrow> Zenoh080Batch \<times> BBuf \<times> (BatchError + unit)" where
  "zb_write_frame lim z w m f =
     (if (fr_reliability f = Reliable \<and> \<not> msg_is_reliable m) \<or> (fr_reliability f = BestEffort \<and> msg_is_reliable m)
      then (z, w, Inl NewFrame)
      else
        let mark = bb_mark w in
        case bb_encode lim w (write_frame_header f) of
          (w, False) \<Rightarrow> (z, bb_rewind w mark, Inl BatchDidntWrite)
        | (w, True) \<Rightarrow>
            (case bb_encode lim w (write_network_message m) of
               (w, False) \<Rightarrow> (z, bb_rewind w mark, Inl BatchDidntWrite)
             | (w, True) \<Rightarrow> (zb_set_frame z (fr_reliability f) (fr_sn f), w, Inr ())))"

text \<open>The loop of \<open>siphon\<close> over the slices of the reader copies what fits; nothing copied is an error.\<close>

definition siphon :: "bytes \<Rightarrow> BBuf \<Rightarrow> (bytes \<times> BBuf \<times> nat) option" where
  "siphon r w = (case bb_write w r of None \<Rightarrow> None | Some (w, n) \<Rightarrow> Some (drop n r, w, n))"

text \<open>The header that \<open>f\<close> points to is changed even when the operation fails.\<close>

definition zb_write_fragment ::
  "limit \<Rightarrow> BBuf \<Rightarrow> bytes \<Rightarrow> FragmentHeader \<Rightarrow> BBuf \<times> bytes \<times> FragmentHeader \<times> nat option" where
  "zb_write_fragment lim w r f =
     (let mark = bb_mark w in
      case bb_encode lim w (write_fragment_header f) of
        (w, False) \<Rightarrow> (bb_rewind w mark, r, f, None)
      | (w, True) \<Rightarrow>
          let final = length r \<le> bb_remaining w;
              f = (if final then f\<lparr>fg_more := False\<rparr> else f)
          in
          case (if final then bb_encode lim (bb_rewind w mark) (write_fragment_header f) else (w, True)) of
            (w, False) \<Rightarrow> (bb_rewind w mark, r, f, None)
          | (w, True) \<Rightarrow>
              (case siphon r w of
                 None \<Rightarrow> (bb_rewind w mark, r, f, None)
               | Some (r, w, n) \<Rightarrow> (w, r, f, Some n)))"

definition zb_read_transport ::
  "(bytes \<Rightarrow> bytes option) \<Rightarrow> Zenoh080Batch \<Rightarrow> bytes \<Rightarrow> (Zenoh080Batch \<times> TransportBody \<times> bytes) option" where
  "zb_read_transport idf z bs =
     (case read_transport idf bs of
        None \<Rightarrow> None
      | Some (x, r) \<Rightarrow>
          Some (case x of
                  FrameT f \<Rightarrow> zb_set_frame z (fr_reliability f) (fr_sn f)
                | FragmentT f \<Rightarrow> zb_set_frame z (fg_reliability f) (fg_sn f)
                | _ \<Rightarrow> z\<lparr>zb_current_frame := CfNone\<rparr>, x, r))"

definition zb_read_frame_reader :: "Zenoh080Batch \<Rightarrow> bytes \<Rightarrow> (Zenoh080Batch \<times> FrameHeader \<times> bytes) option" where
  "zb_read_frame_reader z bs =
     (case read_frame_reader bs of
        None \<Rightarrow> None
      | Some (f, r) \<Rightarrow> Some (zb_set_frame z (fr_reliability f) (fr_sn f), f, r))"

section \<open>Configuration and header\<close>

record BatchConfig =
  bc_mtu :: u16
  bc_is_streamed :: bool
  bc_is_compression :: bool

definition bc_default :: BatchConfig where
  "bc_default = \<lparr>bc_mtu = - 1, bc_is_streamed = False, bc_is_compression = False\<rparr>"

definition bc_has_header :: "BatchConfig \<Rightarrow> bool" where
  "bc_has_header c = bc_is_compression c"

definition BH_COMPRESSION :: u8 where "BH_COMPRESSION = 1"

definition bc_header :: "BatchConfig \<Rightarrow> u8 option" where
  "bc_header c = (if bc_is_compression c then Some BH_COMPRESSION else None)"

definition bh_is_compression :: "u8 \<Rightarrow> bool" where
  "bh_is_compression h = has_flag h BH_COMPRESSION"

definition L_LEN :: nat where "L_LEN = 2"
definition H_LEN :: nat where "H_LEN = 1"

text \<open>\<open>slice.split_at(n)\<close>, which panics beyond the end, and the splitting of a buffer in its length,
  header and payload.\<close>

definition split_at :: "'a list \<Rightarrow> nat \<Rightarrow> ('a list \<times> 'a list) option" where
  "split_at xs n = (if n \<le> length xs then Some (take n xs, drop n xs) else None)"

definition zsplit :: "bytes \<Rightarrow> BatchConfig \<Rightarrow> (bytes \<times> bytes \<times> bytes) option" where
  "zsplit buf c =
     (case (bc_is_streamed c, bc_has_header c) of
        (True, True) \<Rightarrow> do { (l, s) \<leftarrow> split_at buf L_LEN; (h, p) \<leftarrow> split_at s H_LEN; Some (l, h, p) }
      | (True, False) \<Rightarrow> do { (l, p) \<leftarrow> split_at buf L_LEN; Some (l, [], p) }
      | (False, True) \<Rightarrow> do { (h, p) \<leftarrow> split_at buf H_LEN; Some ([], h, p) }
      | (False, False) \<Rightarrow> Some ([], [], buf))"

section \<open>Write batches\<close>

datatype Finalize = FBatch | FBuffer

record WBatch =
  wb_buffer :: BBuf
  wb_codec :: Zenoh080Batch
  wb_config :: BatchConfig
  wb_ephemeral :: bool

definition u16_le_bytes :: "u16 \<Rightarrow> bytes" where
  "u16_le_bytes x = [ucast x, ucast (drop_bit 8 x)]"

definition u16_from_le_bytes :: "bytes \<Rightarrow> u16" where
  "u16_from_le_bytes bs = (case bs of [a, b] \<Rightarrow> ucast a OR push_bit 8 (ucast b) | _ \<Rightarrow> 0)"

text \<open>A write that does not fit is ignored.\<close>

definition wb_init :: "BBuf \<Rightarrow> BatchConfig \<Rightarrow> BBuf" where
  "wb_init buffer c =
     (let buffer = (if bc_is_streamed c
                    then (case bb_write_exact buffer [0, 0] of None \<Rightarrow> buffer | Some b \<Rightarrow> b) else buffer)
      in case bc_header c of
           None \<Rightarrow> buffer
         | Some h \<Rightarrow> (case bb_write_exact buffer [h] of None \<Rightarrow> buffer | Some b \<Rightarrow> b))"

definition wb_clear :: "WBatch \<Rightarrow> WBatch" where
  "wb_clear b = b\<lparr>wb_buffer := wb_init (bb_clear (wb_buffer b)) (wb_config b), wb_codec := zb_clear (wb_codec b)\<rparr>"

definition wb_new :: "BatchConfig \<Rightarrow> WBatch" where
  "wb_new c = wb_clear
     \<lparr>wb_buffer = bb_with_capacity (unat (bc_mtu c)), wb_codec = zb_new, wb_config = c, wb_ephemeral = False\<rparr>"

definition wb_new_ephemeral :: "BatchConfig \<Rightarrow> WBatch" where
  "wb_new_ephemeral c = (wb_new c)\<lparr>wb_ephemeral := True\<rparr>"

text \<open>\<open>len\<close> panics when the buffer is too small for the length and the header.\<close>

definition wb_len :: "WBatch \<Rightarrow> u16 option" where
  "wb_len b = do { (l, h, p) \<leftarrow> zsplit (bb_bytes (wb_buffer b)) (wb_config b); Some (of_nat (length p)) }"

definition wb_is_empty :: "WBatch \<Rightarrow> bool option" where
  "wb_is_empty b = do { n \<leftarrow> wb_len b; Some (n = 0) }"

text \<open>The compression library is a parameter: \<open>lz payload n\<close> is what \<open>compress_into\<close> writes in a slot
  of \<open>n\<close> bytes, \<open>None\<close> when it fails.  A panic is the outer \<open>None\<close>, an error the inner one.\<close>

type_synonym compressor = "bytes \<Rightarrow> nat \<Rightarrow> bytes option"

definition wb_compress :: "compressor \<Rightarrow> WBatch \<Rightarrow> BBuf \<Rightarrow> (WBatch \<times> BBuf \<times> Finalize option) option" where
  "wb_compress lz b support =
     (let support = wb_init (bb_clear support) (wb_config b) in
      do { (l, h, payload) \<leftarrow> zsplit (bb_bytes (wb_buffer b)) (wb_config b);
           let (support, ok) = bb_with_slot support (bb_remaining support)
                 (\<lambda>n. case lz payload n of None \<Rightarrow> [] | Some c \<Rightarrow> c);
           if \<not> ok then Some (b, support, None)
           else if bb_len support < bb_len (wb_buffer b) then Some (b, support, Some FBuffer)
           else (case h of
                   [] \<Rightarrow> Some (b, support, None)
                 | x # hs \<Rightarrow>
                     Some (b\<lparr>wb_buffer := (wb_buffer b)\<lparr>bb_bytes := l @ (x AND NOT BH_COMPRESSION) # hs @ payload\<rparr>\<rparr>,
                           support, Some FBatch)) })"

definition put_length :: "bytes \<Rightarrow> BatchConfig \<Rightarrow> bytes option" where
  "put_length bs c =
     do { (length_field, header, payload) \<leftarrow> zsplit bs c;
          Some (u16_le_bytes (of_nat (length header) + of_nat (length payload)) @ header @ payload) }"

definition wb_finalize ::
  "compressor \<Rightarrow> WBatch \<Rightarrow> BBuf option \<Rightarrow> (WBatch \<times> BBuf option \<times> Finalize option) option" where
  "wb_finalize lz b buffer =
     do { (b, buffer, res) \<leftarrow>
            (case bc_header (wb_config b) of
               Some h \<Rightarrow>
                 if bh_is_compression h then
                   (case buffer of
                      None \<Rightarrow> Some (b, None, None)
                    | Some s \<Rightarrow> do { (b, s, r) \<leftarrow> wb_compress lz b s; Some (b, Some s, r) })
                 else Some (b, buffer, Some FBatch)
             | None \<Rightarrow> Some (b, buffer, Some FBatch));
          case res of
            None \<Rightarrow> Some (b, buffer, None)
          | Some r \<Rightarrow>
              if \<not> bc_is_streamed (wb_config b) then Some (b, buffer, Some r)
              else (case r of
                      FBatch \<Rightarrow> do { bs \<leftarrow> put_length (bb_bytes (wb_buffer b)) (wb_config b);
                                  Some (b\<lparr>wb_buffer := (wb_buffer b)\<lparr>bb_bytes := bs\<rparr>\<rparr>, buffer, Some r) }
                    | FBuffer \<Rightarrow>
                        (case buffer of
                           None \<Rightarrow> Some (b, buffer, None)
                         | Some s \<Rightarrow> do { bs \<leftarrow> put_length (bb_bytes s) (wb_config b);
                                         Some (b, Some (s\<lparr>bb_bytes := bs\<rparr>), Some r) })) }"

text \<open>The four implementations of \<open>Encode\<close>.\<close>

definition wb_encode_transport :: "limit \<Rightarrow> WBatch \<Rightarrow> TransportBody \<Rightarrow> WBatch \<times> bool" where
  "wb_encode_transport lim b x =
     (case zb_write_transport lim (wb_codec b) (wb_buffer b) x of
        (z, w, ok) \<Rightarrow> (b\<lparr>wb_codec := z, wb_buffer := w\<rparr>, ok))"

definition wb_encode_network :: "limit \<Rightarrow> WBatch \<Rightarrow> NetworkMessage \<Rightarrow> WBatch \<times> (BatchError + unit)" where
  "wb_encode_network lim b x =
     (case zb_write_network lim (wb_codec b) (wb_buffer b) x of
        (z, w, res) \<Rightarrow> (b\<lparr>wb_codec := z, wb_buffer := w\<rparr>, res))"

definition wb_encode_frame :: "limit \<Rightarrow> WBatch \<Rightarrow> NetworkMessage \<Rightarrow> FrameHeader \<Rightarrow> WBatch \<times> (BatchError + unit)" where
  "wb_encode_frame lim b m f =
     (case zb_write_frame lim (wb_codec b) (wb_buffer b) m f of
        (z, w, res) \<Rightarrow> (b\<lparr>wb_codec := z, wb_buffer := w\<rparr>, res))"

definition wb_encode_fragment ::
  "limit \<Rightarrow> WBatch \<Rightarrow> bytes \<Rightarrow> FragmentHeader \<Rightarrow> WBatch \<times> bytes \<times> FragmentHeader \<times> nat option" where
  "wb_encode_fragment lim b r f =
     (case zb_write_fragment lim (wb_buffer b) r f of
        (w, r, f, res) \<Rightarrow> (b\<lparr>wb_buffer := w\<rparr>, r, f, res))"

section \<open>Read batches\<close>

record RBatch =
  rb_buffer :: bytes
  rb_codec :: Zenoh080Batch
  rb_config :: BatchConfig

definition rb_new :: "BatchConfig \<Rightarrow> bytes \<Rightarrow> RBatch" where
  "rb_new c buffer = \<lparr>rb_buffer = buffer, rb_codec = zb_new, rb_config = c\<rparr>"

datatype batch_error = HeaderNotPresent | DecompressionError | InvalidBatchLength | LinkReadError

text \<open>\<open>unlz payload n\<close> is what \<open>decompress_into\<close> writes in a buffer of \<open>n\<close> bytes, \<open>buff\<close> the size of
  the buffers that the caller provides.  A panic of the splitting is the outer \<open>None\<close>.\<close>

definition rb_decompress :: "compressor \<Rightarrow> bytes \<Rightarrow> nat \<Rightarrow> batch_error + bytes" where
  "rb_decompress unlz payload buff =
     (case unlz payload buff of None \<Rightarrow> Inl DecompressionError | Some bs \<Rightarrow> Inr bs)"

definition rb_initialize :: "compressor \<Rightarrow> nat \<Rightarrow> RBatch \<Rightarrow> (batch_error + RBatch) option" where
  "rb_initialize unlz buff b =
     do { (l, h, p) \<leftarrow> zsplit (rb_buffer b) (rb_config b);
          let plain = (case get_range (rb_buffer b) (length l + length h) (length (rb_buffer b)) of
                         None \<Rightarrow> Inl InvalidBatchLength | Some s \<Rightarrow> Inr (b\<lparr>rb_buffer := s\<rparr>));
          if bc_has_header (rb_config b) then
            (case h of
               [] \<Rightarrow> Some (Inl HeaderNotPresent)
             | x # _ \<Rightarrow>
                 if bh_is_compression x then
                   Some (case rb_decompress unlz p buff of Inl e \<Rightarrow> Inl e | Inr s \<Rightarrow> Inr (b\<lparr>rb_buffer := s\<rparr>))
                 else Some plain)
          else Some plain }"

definition rb_decode :: "(bytes \<Rightarrow> bytes option) \<Rightarrow> RBatch \<Rightarrow> (RBatch \<times> TransportBody) option" where
  "rb_decode idf b =
     (case zb_read_transport idf (rb_codec b) (rb_buffer b) of
        None \<Rightarrow> None
      | Some (z, x, r) \<Rightarrow> Some (b\<lparr>rb_codec := z, rb_buffer := r\<rparr>, x))"

definition rb_decode_size :: "(bytes \<Rightarrow> bytes option) \<Rightarrow> RBatch \<Rightarrow> (RBatch \<times> TransportBody \<times> u16) option" where
  "rb_decode_size idf b =
     (let len = of_nat (length (rb_buffer b)) :: u16 in
      case zb_read_transport idf (rb_codec b) (rb_buffer b) of
        None \<Rightarrow> None
      | Some (z, x, r) \<Rightarrow> Some (b\<lparr>rb_codec := z, rb_buffer := r\<rparr>, x, len - of_nat (length r)))"

definition rb_decode_frame :: "RBatch \<Rightarrow> (RBatch \<times> FrameHeader) option" where
  "rb_decode_frame b =
     (case zb_read_frame_reader (rb_codec b) (rb_buffer b) of
        None \<Rightarrow> None
      | Some (z, f, r) \<Rightarrow> Some (b\<lparr>rb_codec := z, rb_buffer := r\<rparr>, f))"

section \<open>Batches on a link\<close>

text \<open>\<open>send_batch\<close>: the bytes that are written to the link.\<close>

definition send_batch :: "compressor \<Rightarrow> WBatch \<Rightarrow> BBuf option \<Rightarrow> (WBatch \<times> BBuf option \<times> bytes option) option" where
  "send_batch lz b buffer =
     do { (b, buffer, res) \<leftarrow> wb_finalize lz b buffer;
          Some (b, buffer,
            case res of
              None \<Rightarrow> None
            | Some FBatch \<Rightarrow> Some (bb_bytes (wb_buffer b))
            | Some FBuffer \<Rightarrow> map_option bb_bytes buffer) }"

text \<open>\<open>recv_batch\<close> on a streamed link, whose incoming bytes are \<open>inp\<close>: the rest of them is returned, an
  error when too few have arrived.  \<open>into\<close> is the fresh buffer, whose first two bytes stay as they
  are.\<close>

definition recv_batch_streamed ::
  "compressor \<Rightarrow> bytes \<Rightarrow> BatchConfig \<Rightarrow> bytes \<Rightarrow> (batch_error + RBatch \<times> bytes) option" where
  "recv_batch_streamed unlz into c inp =
     (if length inp < 2 then Some (Inl LinkReadError)
      else
        let l = unat (u16_from_le_bytes (take 2 inp)); inp = drop 2 inp in
        case get_range into 2 (2 + l) of
          None \<Rightarrow> Some (Inl InvalidBatchLength)
        | Some _ \<Rightarrow>
            if length inp < l then Some (Inl LinkReadError)
            else do { r \<leftarrow> rb_initialize unlz (length into) (rb_new c (take 2 into @ take l inp));
                      Some (case r of Inl e \<Rightarrow> Inl e | Inr b \<Rightarrow> Inr (b, drop l inp)) })"

text \<open>\<open>recv_batch\<close> on a link that keeps the boundaries of the messages: \<open>dgram\<close> are the bytes that
  the read has put at the beginning of the buffer.\<close>

definition recv_batch_datagram :: "compressor \<Rightarrow> nat \<Rightarrow> BatchConfig \<Rightarrow> bytes \<Rightarrow> (batch_error + RBatch) option" where
  "recv_batch_datagram unlz cap c dgram =
     (if cap < length dgram then Some (Inl LinkReadError)
      else rb_initialize unlz cap (rb_new c dgram))"

section \<open>Bounded writes\<close>

lemmas bb_defs = bb_len_def bb_remaining_def bb_mark_def bb_rewind_def bb_clear_def

lemma bb_encode_ok:
  assumes "slot_limit lim" "bb_ok b" "bb_encode lim b e = (b', ok)"
  shows "\<exists>p. b' = b\<lparr>bb_bytes := bb_bytes b @ p\<rparr> \<and> bb_ok b' \<and> (ok \<longrightarrow> e = Some p)"
proof (cases e)
  case None
  then show ?thesis using assms by (auto simp: bb_encode_def intro: exI [of _ "[]"])
next
  case (Some bs)
  let ?n = "lim bs (bb_remaining b)"
  have "?n \<le> length bs" "?n \<le> bb_remaining b" using assms(1) by (auto simp: slot_limit_def)
  then show ?thesis using assms Some by (auto simp: bb_encode_def Let_def bb_ok_def bb_defs)
qed

lemma bb_encode_fits:
  "slot_limit lim \<Longrightarrow> length bs + 8 \<le> bb_remaining b \<Longrightarrow>
    bb_encode lim b (Some bs) = (b\<lparr>bb_bytes := bb_bytes b @ bs\<rparr>, True)"
  by (simp add: slot_limit_def bb_encode_def)

lemma bb_rewind_append [simp]: "bb_rewind (b\<lparr>bb_bytes := bb_bytes b @ p\<rparr>) (bb_mark b) = b"
  by (simp add: bb_defs)

text \<open>What each operation of the codec does to the buffer: it appends exactly an encoding, or it leaves
  the buffer as it was.\<close>

lemma zb_write_transport_cases:
  assumes "slot_limit lim" "bb_ok w" "zb_write_transport lim z w x = (z', w', ok)"
  obtains (no) "\<not> ok" "z' = z" "w' = w"
  | (yes) p where "ok" "z' = z\<lparr>zb_current_frame := CfNone\<rparr>" "write_transport x = Some p"
      "w' = w\<lparr>bb_bytes := bb_bytes w @ p\<rparr>" "bb_ok w'"
proof -
  obtain w1 o1 where 1: "bb_encode lim w (write_transport x) = (w1, o1)" by (cases "bb_encode lim w (write_transport x)")
  from bb_encode_ok [OF assms(1,2) 1] 1 assms(3) that show ?thesis
    by (cases o1) (auto simp: zb_write_transport_def Let_def)
qed

lemma zb_write_network_cases:
  assumes "slot_limit lim" "bb_ok w" "zb_write_network lim z w x = (z', w', res)"
  obtains (no) e where "res = Inl e" "z' = z" "w' = w"
      "(e = NewFrame) = (zb_current_frame z \<noteq> (if msg_is_reliable x then CfReliable else CfBestEffort))"
  | (yes) p where "res = Inr ()" "z' = z" "write_network_message x = Some p"
      "zb_current_frame z = (if msg_is_reliable x then CfReliable else CfBestEffort)"
      "w' = w\<lparr>bb_bytes := bb_bytes w @ p\<rparr>" "bb_ok w'"
proof -
  obtain w1 o1 where 1: "bb_encode lim w (write_network_message x) = (w1, o1)"
    by (cases "bb_encode lim w (write_network_message x)")
  from bb_encode_ok [OF assms(1,2) 1] 1 assms(3) that show ?thesis
    by (cases o1; cases "zb_current_frame z"; cases "msg_is_reliable x") (auto simp: zb_write_network_def Let_def)
qed

lemma zb_write_frame_cases:
  assumes "slot_limit lim" "bb_ok w" "zb_write_frame lim z w m f = (z', w', res)"
  obtains (no) e where "res = Inl e" "z' = z" "w' = w"
  | (yes) p q where "res = Inr ()" "z' = zb_set_frame z (fr_reliability f) (fr_sn f)"
      "msg_is_reliable m = (fr_reliability f = Reliable)"
      "write_frame_header f = Some p" "write_network_message m = Some q"
      "w' = w\<lparr>bb_bytes := bb_bytes w @ p @ q\<rparr>" "bb_ok w'"
proof (cases "msg_is_reliable m = (fr_reliability f = Reliable)")
  case True
  then have nf: "\<not> ((fr_reliability f = Reliable \<and> \<not> msg_is_reliable m) \<or> (fr_reliability f = BestEffort \<and> msg_is_reliable m))"
    by auto
  obtain w1 o1 where 1: "bb_encode lim w (write_frame_header f) = (w1, o1)" by (cases "bb_encode lim w (write_frame_header f)")
  from bb_encode_ok [OF assms(1,2) 1] obtain p where
    p: "w1 = w\<lparr>bb_bytes := bb_bytes w @ p\<rparr>" "bb_ok w1" "o1 \<longrightarrow> write_frame_header f = Some p" by auto
  obtain w2 o2 where 2: "bb_encode lim w1 (write_network_message m) = (w2, o2)"
    by (cases "bb_encode lim w1 (write_network_message m)")
  from bb_encode_ok [OF assms(1) p(2) 2] obtain q where
    q: "w2 = w\<lparr>bb_bytes := bb_bytes w @ p @ q\<rparr>" "bb_ok w2" "o2 \<longrightarrow> write_network_message m = Some q" using p by auto
  show ?thesis
  proof (cases "o1 \<and> o2")
    case ok: True
    then show ?thesis using assms(3) nf 1 2 p q True by (intro yes [of p q]) (auto simp: zb_write_frame_def Let_def)
  next
    case False
    then show ?thesis using assms(3) nf 1 2 p q by (intro no [of BatchDidntWrite]) (auto simp: zb_write_frame_def Let_def split: bool.splits)
  qed
next
  case False
  then have "(fr_reliability f = Reliable \<and> \<not> msg_is_reliable m) \<or> (fr_reliability f = BestEffort \<and> msg_is_reliable m)"
    using Reliability.exhaust by blast
  then show ?thesis using assms(3) by (intro no [of NewFrame]) (auto simp: zb_write_frame_def)
qed

lemma write_fragment_header_more:
  assumes "write_fragment_header f = Some h"
  shows "\<exists>h'. write_fragment_header (f\<lparr>fg_more := b\<rparr>) = Some h' \<and> length h' = length h"
  using assms unfolding write_fragment_header_def codec_simps
  by (auto simp: fragment_n_exts_def fragment_exts_def)

lemma zb_write_fragment_cases:
  assumes "slot_limit lim" "bb_ok w" "zb_write_fragment lim w r f = (w', r', f', res)"
  obtains (no) "res = None" "w' = w" "r' = r" "f' \<in> {f, f\<lparr>fg_more := False\<rparr>}"
  | (yes) h p where "res = Some (length p)" "p \<noteq> []" "r = p @ r'" "f' = f\<lparr>fg_more := fg_more f \<and> r' \<noteq> []\<rparr>"
      "write_fragment_header f' = Some h" "w' = w\<lparr>bb_bytes := bb_bytes w @ h @ p\<rparr>" "bb_ok w'"
proof -
  obtain w1 o1 where 1: "bb_encode lim w (write_fragment_header f) = (w1, o1)" by (cases "bb_encode lim w (write_fragment_header f)")
  from bb_encode_ok [OF assms(1,2) 1] obtain h1 where
    h1: "w1 = w\<lparr>bb_bytes := bb_bytes w @ h1\<rparr>" "bb_ok w1" "o1 \<longrightarrow> write_fragment_header f = Some h1" by auto
  define fin where "fin = (length r \<le> bb_remaining w1)"
  define f2 where "f2 = (if fin then f\<lparr>fg_more := False\<rparr> else f)"
  define wo where "wo = (if fin then bb_encode lim w (write_fragment_header f2) else (w1, True))"
  obtain w2 o2 where 2: "wo = (w2, o2)" by (cases wo)
  have "\<exists>h. w2 = w\<lparr>bb_bytes := bb_bytes w @ h\<rparr> \<and> bb_ok w2 \<and> (o1 \<and> o2 \<longrightarrow> write_fragment_header f2 = Some h)"
  proof (cases fin)
    case True
    then show ?thesis using bb_encode_ok [OF assms(1,2), of "write_fragment_header f2" w2 o2] 2 by (simp add: wo_def) blast
  next
    case False
    then show ?thesis using h1 2 by (auto simp: wo_def f2_def)
  qed
  then obtain h where h: "w2 = w\<lparr>bb_bytes := bb_bytes w @ h\<rparr>" "bb_ok w2" "o1 \<and> o2 \<longrightarrow> write_fragment_header f2 = Some h" by auto
  have eq: "zb_write_fragment lim w r f = (if \<not> o1 then (w, r, f, None) else if \<not> o2 then (w, r, f2, None)
      else (case siphon r w2 of None \<Rightarrow> (w, r, f2, None) | Some (r, w, n) \<Rightarrow> (w, r, f2, Some n)))"
    using 1 2 h1(1) h(1) by (auto simp: zb_write_fragment_def Let_def f2_def fin_def wo_def split: bool.splits option.split)
  show ?thesis
  proof (cases "o1 \<and> o2 \<and> siphon r w2 \<noteq> None")
    case False
    then show ?thesis using assms(3) eq by (intro no) (auto simp: f2_def split: if_splits option.splits)
  next
    case True
    let ?n = "min (length r) (bb_remaining w2)"
    have n: "?n \<noteq> 0" "siphon r w2 = Some (drop ?n r, w2\<lparr>bb_bytes := bb_bytes w2 @ take ?n r\<rparr>, ?n)"
      using True by (auto simp: siphon_def bb_write_def Let_def split: if_splits)
    have res: "w' = w2\<lparr>bb_bytes := bb_bytes w2 @ take ?n r\<rparr>" "r' = drop ?n r" "f' = f2" "res = Some ?n"
      using assms(3) eq n True by auto
    have "bb_remaining w2 = bb_remaining w1"
      using write_fragment_header_more [of f h1 False] h h1 True by (auto simp: f2_def bb_defs split: if_splits)
    then have "r' = [] \<longleftrightarrow> fin" by (auto simp: res(2) fin_def)
    then have f': "f' = f\<lparr>fg_more := fg_more f \<and> r' \<noteq> []\<rparr>" by (cases fin) (simp_all add: res(3) f2_def)
    show ?thesis
      using True n res f' h by (intro yes [of "take ?n r" h]) (auto simp: bb_ok_def bb_defs)
  qed
qed

section \<open>Content of a batch\<close>

text \<open>The bytes before the payload, the payload that a batch holds, and the space for it.\<close>

definition wb_prefix :: "BatchConfig \<Rightarrow> bytes" where
  "wb_prefix c = (if bc_is_streamed c then [0, 0] else []) @ (if bc_is_compression c then [BH_COMPRESSION] else [])"

definition wb_sized :: "WBatch \<Rightarrow> bool" where
  "wb_sized b \<longleftrightarrow> bb_capacity (wb_buffer b) = unat (bc_mtu (wb_config b)) \<and>
     length (wb_prefix (wb_config b)) \<le> unat (bc_mtu (wb_config b))"

definition wb_holds :: "WBatch \<Rightarrow> bytes \<Rightarrow> bool" where
  "wb_holds b p \<longleftrightarrow> wb_sized b \<and> bb_bytes (wb_buffer b) = wb_prefix (wb_config b) @ p \<and> bb_ok (wb_buffer b)"

lemma wb_sized_bytes [simp]: "wb_sized (b\<lparr>wb_buffer := (wb_buffer b)\<lparr>bb_bytes := x\<rparr>\<rparr>) = wb_sized b"
  by (simp add: wb_sized_def)

lemma wb_init_eq:
  "length (wb_prefix c) \<le> bb_capacity b \<Longrightarrow> wb_init (bb_clear b) c = b\<lparr>bb_bytes := wb_prefix c\<rparr>"
  by (cases "bc_is_streamed c"; cases "bc_is_compression c")
    (auto simp: wb_init_def bc_header_def wb_prefix_def bb_write_exact_def bb_defs Let_def)

lemma wb_holds_clear: "wb_sized b \<Longrightarrow> wb_holds (wb_clear b) []"
  by (simp add: wb_holds_def wb_sized_def wb_clear_def wb_init_eq bb_ok_def bb_len_def)

lemma wb_clear_fields [simp]:
  "wb_config (wb_clear b) = wb_config b" "wb_ephemeral (wb_clear b) = wb_ephemeral b"
  "zb_current_frame (wb_codec (wb_clear b)) = CfNone"
  by (simp_all add: wb_clear_def zb_clear_def)

lemma wb_holds_new: "length (wb_prefix c) \<le> unat (bc_mtu c) \<Longrightarrow> wb_holds (wb_new c) []"
  unfolding wb_new_def by (rule wb_holds_clear) (simp add: wb_sized_def bb_with_capacity_def)

lemma zsplit_prefix:
  assumes "length l = (if bc_is_streamed c then 2 else 0)" "length h = (if bc_is_compression c then 1 else 0)"
  shows "zsplit (l @ h @ p) c = Some (l, h, p)"
  using assms by (auto simp: zsplit_def split_at_def bc_has_header_def L_LEN_def H_LEN_def split: if_splits)

lemma zsplit_wb_prefix:
  "zsplit (wb_prefix c @ p) c =
     Some (if bc_is_streamed c then [0, 0] else [], if bc_is_compression c then [BH_COMPRESSION] else [], p)"
  unfolding wb_prefix_def append_assoc by (rule zsplit_prefix) simp_all

lemma wb_holds_length: "wb_holds b p \<Longrightarrow> length (wb_prefix (wb_config b)) + length p \<le> unat (bc_mtu (wb_config b))"
  by (auto simp: wb_holds_def wb_sized_def bb_ok_def bb_len_def)

lemma unat_u16_less: "unat (x :: u16) < 65536"
  using unsigned_less [where ?'a = nat, of x] by simp

lemma wb_len_holds:
  assumes "wb_holds b p"
  shows "\<exists>n. wb_len b = Some n \<and> unat n = length p"
proof -
  have "length p < 2 ^ 16" using wb_holds_length [OF assms] unat_u16_less [of "bc_mtu (wb_config b)"] by simp
  then show ?thesis using assms by (simp add: wb_len_def wb_holds_def zsplit_wb_prefix unat_of_nat)
qed

lemma wb_is_empty_holds: "wb_holds b p \<Longrightarrow> wb_is_empty b = Some (p = [])"
  using wb_len_holds [of b p] by (auto simp: wb_is_empty_def unat_eq_0 [symmetric])

section \<open>A batch through a link\<close>

lemma u16_le_bytes_rt: "u16_from_le_bytes (u16_le_bytes x) = x"
  unfolding u16_from_le_bytes_def u16_le_bytes_def
  by (auto intro!: bit_word_eqI simp: bit_or_iff bit_push_bit_iff bit_ucast_iff bit_drop_bit_eq)

lemma length_u16_le_bytes [simp]: "length (u16_le_bytes x) = 2"
  by (simp add: u16_le_bytes_def)

text \<open>What the link relies on of the compression library: the compressed bytes fit the slot and
  decompress to the payload in any buffer that can take it; compression succeeds in a slot of
  \<open>max_out\<close> of the length of the payload.\<close>

definition lz_laws :: "compressor \<Rightarrow> compressor \<Rightarrow> (nat \<Rightarrow> nat) \<Rightarrow> bool" where
  "lz_laws lz unlz max_out \<longleftrightarrow>
     (\<forall>p n c. lz p n = Some c \<longrightarrow> length c \<le> n \<and> (\<forall>m\<ge>length p. unlz c m = Some p)) \<and>
     (\<forall>p n. max_out (length p) \<le> n \<longrightarrow> (\<exists>c. lz p n = Some c \<and> c \<noteq> []))"

text \<open>The bytes of a batch on the wire: length, header and body.\<close>

definition wire_form :: "BatchConfig \<Rightarrow> bytes \<Rightarrow> bytes \<Rightarrow> bytes" where
  "wire_form c h p =
     (if bc_is_streamed c then u16_le_bytes (of_nat (length h + length p)) else []) @ h @ p"

lemma put_length_wire:
  "bc_is_streamed c \<Longrightarrow> length h = (if bc_is_compression c then 1 else 0) \<Longrightarrow>
    put_length ([a, b] @ h @ p) c = Some (wire_form c h p)"
  using zsplit_prefix [of "[a, b]" c h p] by (simp add: put_length_def wire_form_def)

text \<open>The header and the body that a batch is sent with: compressed when this is shorter.\<close>

definition sent_as :: "compressor \<Rightarrow> BatchConfig \<Rightarrow> nat \<Rightarrow> bytes \<Rightarrow> bytes \<times> bytes" where
  "sent_as lz c slot p =
     (if \<not> bc_is_compression c then ([], p)
      else case lz p slot of
             Some q \<Rightarrow> if length q < length p then ([BH_COMPRESSION], q) else ([0], p)
           | None \<Rightarrow> ([0], p))"

lemma send_batch_wire:
  assumes b: "wb_holds b p" and lz: "lz_laws lz unlz max_out"
    and s: "bc_is_compression (wb_config b) \<Longrightarrow>
      \<exists>s. buffer = Some s \<and> length (wb_prefix (wb_config b)) + max_out (length p) \<le> bb_capacity s"
  shows "\<exists>b' buffer' slot. send_batch lz b buffer =
    Some (b', buffer', Some (case sent_as lz (wb_config b) slot p of (h, q) \<Rightarrow> wire_form (wb_config b) h q)) \<and>
    wb_config b' = wb_config b \<and> wb_sized b' \<and> map_option bb_capacity buffer' = map_option bb_capacity buffer \<and> (bc_is_compression (wb_config b) \<longrightarrow> (\<exists>q. lz p slot = Some q))"
proof (cases "bc_is_compression (wb_config b)")
  case False
  then show ?thesis
    using b zsplit_wb_prefix [of "wb_config b" p]
    by (auto simp: send_batch_def wb_finalize_def bc_header_def wb_holds_def sent_as_def wire_form_def put_length_def wb_prefix_def)
next
  case True
  let ?c = "wb_config b" and ?l = "if bc_is_streamed (wb_config b) then [0, 0::u8] else []"
  from s [OF True] obtain s where s: "buffer = Some s" "length (wb_prefix ?c) + max_out (length p) \<le> bb_capacity s" by auto
  let ?slot = "bb_capacity s - length (wb_prefix ?c)"
  from lz s(2) obtain q where q: "lz p ?slot = Some q" "q \<noteq> []"
    unfolding lz_laws_def by (metis add_le_imp_le_diff add.commute)
  have pre: "wb_prefix ?c = ?l @ [BH_COMPRESSION]" using True by (simp add: wb_prefix_def)
  have bytes: "bb_bytes (wb_buffer b) = ?l @ [BH_COMPRESSION] @ p" using b pre by (simp add: wb_holds_def)
  have z: "zsplit (bb_bytes (wb_buffer b)) ?c = Some (?l, [BH_COMPRESSION], p)"
    unfolding bytes by (rule zsplit_prefix) (simp_all add: True)
  have i: "wb_init (bb_clear s) ?c = s\<lparr>bb_bytes := wb_prefix ?c\<rparr>" using s(2) by (intro wb_init_eq) simp
  have len: "length (bb_bytes (wb_buffer b)) = length (wb_prefix ?c) + length p" using b by (simp add: wb_holds_def)
  have cmp: "wb_compress lz b s =
      (if length q < length p then Some (b, s\<lparr>bb_bytes := wb_prefix ?c @ q\<rparr>, Some FBuffer)
       else Some (b\<lparr>wb_buffer := (wb_buffer b)\<lparr>bb_bytes := ?l @ [0] @ p\<rparr>\<rparr>, s\<lparr>bb_bytes := wb_prefix ?c @ q\<rparr>, Some FBatch))"
    by (simp add: wb_compress_def z i bb_with_slot_def bb_remaining_def bb_len_def q len BH_COMPRESSION_def)
  have h: "bc_header ?c = Some BH_COMPRESSION" "bh_is_compression BH_COMPRESSION"
    using True by (simp_all add: bc_header_def bh_is_compression_def has_flag_def BH_COMPRESSION_def)
  show ?thesis
  proof (cases "length q < length p")
    case True
    then have as: "sent_as lz ?c ?slot p = ([BH_COMPRESSION], q)" using q \<open>bc_is_compression ?c\<close> by (simp add: sent_as_def)
    have "put_length (wb_prefix ?c @ q) ?c = Some (wire_form ?c [BH_COMPRESSION] q)" if "bc_is_streamed ?c"
      using put_length_wire [of ?c "[BH_COMPRESSION]" 0 0 q] that \<open>bc_is_compression ?c\<close> by (simp add: wb_prefix_def)
    moreover have "wire_form ?c [BH_COMPRESSION] q = wb_prefix ?c @ q" if "\<not> bc_is_streamed ?c"
      using that pre by (simp add: wire_form_def)
    ultimately show ?thesis
      using True cmp h s(1) as q b
      by (cases "bc_is_streamed ?c") (auto simp: send_batch_def wb_finalize_def wb_holds_def intro!: exI [of _ ?slot])
  next
    case False
    then have as: "sent_as lz ?c ?slot p = ([0], p)" using q \<open>bc_is_compression ?c\<close> by (simp add: sent_as_def)
    have "put_length (?l @ [0] @ p) ?c = Some (wire_form ?c [0] p)" if "bc_is_streamed ?c"
      using put_length_wire [of ?c "[0]" 0 0 p] that \<open>bc_is_compression ?c\<close> by simp
    moreover have "wire_form ?c [0] p = ?l @ [0] @ p" if "\<not> bc_is_streamed ?c"
      using that by (simp add: wire_form_def)
    ultimately show ?thesis
      using False cmp h s(1) as q b
      by (cases "bc_is_streamed ?c") (auto simp: send_batch_def wb_finalize_def wb_holds_def intro!: exI [of _ ?slot])
  qed
qed

text \<open>A received batch gives back the payload.\<close>

lemma rb_initialize_sent:
  assumes lz: "lz_laws lz unlz max_out" and c: "bc_is_compression c \<Longrightarrow> \<exists>q. lz p slot = Some q" "length p \<le> sz"
    and l: "length l = (if bc_is_streamed c then 2 else 0)" and as: "sent_as lz c slot p = (h, q)"
  shows "rb_initialize unlz sz (rb_new c (l @ h @ q)) = Some (Inr (rb_new c p))"
proof (cases "bc_is_compression c")
  case False
  then have "h = []" "q = p" using as by (simp_all add: sent_as_def)
  then show ?thesis
    using zsplit_prefix [of l c h p] l False
    by (simp add: rb_initialize_def rb_new_def get_range_def bc_has_header_def)
next
  case True
  then obtain c' where c': "lz p slot = Some c'" using c by auto
  then have u: "unlz c' sz = Some p" using lz c(2) by (auto simp: lz_laws_def)
  have "h = [BH_COMPRESSION] \<and> q = c' \<or> h = [0] \<and> q = p" using as True c' by (auto simp: sent_as_def split: if_splits)
  then show ?thesis
    using zsplit_prefix [of l c h q] l True u
    by (auto simp: rb_initialize_def rb_new_def get_range_def bc_has_header_def rb_decompress_def bh_is_compression_def
        has_flag_def BH_COMPRESSION_def)
qed

lemma recv_sent:
  assumes lz: "lz_laws lz unlz max_out" and c: "bc_is_compression c \<Longrightarrow> \<exists>q. lz p slot = Some q"
    and as: "sent_as lz c slot p = (h, q)" and st: "bc_is_streamed c"
    and len: "length (wb_prefix c) + length p \<le> unat (bc_mtu c)" "unat (bc_mtu c) \<le> length into"
  shows "recv_batch_streamed unlz into c (wire_form c h q @ rest) = Some (Inr (rb_new c p, rest))"
proof -
  have hq: "length h + length q \<le> length p + (if bc_is_compression c then 1 else 0)"
    using as by (auto simp: sent_as_def split: if_splits option.splits)
  then have n: "2 + (length h + length q) \<le> unat (bc_mtu c)" using len(1) st by (auto simp: wb_prefix_def split: if_splits)
  then have "unat (of_nat (length h + length q) :: u16) = length h + length q"
    using unat_u16_less [of "bc_mtu c"] by (simp add: unat_of_nat del: of_nat_add)
  then have l: "unat (u16_from_le_bytes (take 2 (wire_form c h q @ rest))) = length h + length q"
    using st u16_le_bytes_rt by (simp add: wire_form_def)
  have d: "drop 2 (wire_form c h q @ rest) = h @ q @ rest" "\<not> length (wire_form c h q @ rest) < 2"
    using st by (simp_all add: wire_form_def)
  have i: "rb_initialize unlz (length into) (rb_new c (take 2 into @ h @ q)) = Some (Inr (rb_new c p))"
    using len n st by (intro rb_initialize_sent [OF lz c _ _ as]) auto
  have "get_range into 2 (2 + (length h + length q)) \<noteq> None" using n len(2) by (simp add: get_range_def)
  then show ?thesis using i d(2) unfolding recv_batch_streamed_def l d(1) by (auto simp: Let_def)
qed

text \<open>Batches sent and received one after the other.  A panic or an error of either side is \<open>None\<close>.\<close>

fun send_batches :: "compressor \<Rightarrow> BBuf option \<Rightarrow> WBatch list \<Rightarrow> bytes option" where
  "send_batches lz buffer [] = Some []"
| "send_batches lz buffer (b # bs) =
     (case send_batch lz b buffer of
        Some (_, buffer, Some out) \<Rightarrow> map_option (\<lambda>rest. out @ rest) (send_batches lz buffer bs)
      | _ \<Rightarrow> None)"

fun recv_batches :: "compressor \<Rightarrow> bytes \<Rightarrow> BatchConfig \<Rightarrow> nat \<Rightarrow> bytes \<Rightarrow> (RBatch list \<times> bytes) option" where
  "recv_batches unlz into c 0 inp = Some ([], inp)"
| "recv_batches unlz into c (Suc n) inp =
     (case recv_batch_streamed unlz into c inp of
        Some (Inr (b, inp)) \<Rightarrow> map_option (\<lambda>(bs, inp). (b # bs, inp)) (recv_batches unlz into c n inp)
      | _ \<Rightarrow> None)"

text \<open>(C13) Batches cross a streamed link unchanged: the receiver that reads the bytes sent for a
  sequence of batches gets their payloads, in order and at the right boundaries, whether a batch
  travels compressed, does not compress, or compression is off; what follows in the stream is left
  untouched.\<close>

theorem batch_stream_roundtrip:
  assumes lz: "lz_laws lz unlz max_out" and c: "bc_is_streamed c" "unat (bc_mtu c) \<le> length into"
    and bs: "list_all2 wb_holds bs ps" "\<forall>b\<in>set bs. wb_config b = c"
    and s: "bc_is_compression c \<longrightarrow> buffer \<noteq> None" "\<forall>p\<in>set ps. \<forall>s. buffer = Some s \<longrightarrow> 3 + max_out (length p) \<le> bb_capacity s"
  shows "\<exists>out. send_batches lz buffer bs = Some out \<and>
    recv_batches unlz into c (length bs) (out @ rest) = Some (map (rb_new c) ps, rest)"
  using bs s
proof (induction bs ps arbitrary: buffer rule: list_all2_induct)
  case Nil
  then show ?case by simp
next
  case (Cons b bs p ps)
  have cb: "wb_config b = c" using Cons.prems by simp
  have pre: "length (wb_prefix c) \<le> 3" by (simp add: wb_prefix_def)
  have "\<exists>s. buffer = Some s \<and> length (wb_prefix (wb_config b)) + max_out (length p) \<le> bb_capacity s"
    if "bc_is_compression (wb_config b)"
    using that Cons.prems(2,3) cb pre by fastforce
  from send_batch_wire [OF Cons.hyps(1) lz this] obtain b' buffer' slot h q where
    1: "send_batch lz b buffer = Some (b', buffer', Some (wire_form c h q))" "sent_as lz c slot p = (h, q)"
    "map_option bb_capacity buffer' = map_option bb_capacity buffer" "bc_is_compression c \<Longrightarrow> \<exists>q. lz p slot = Some q"
    unfolding cb by (metis (no_types, lifting) case_prod_conv surj_pair)
  have "bc_is_compression c \<longrightarrow> buffer' \<noteq> None" using 1(3) Cons.prems(2) by auto
  moreover have "\<forall>p\<in>set ps. \<forall>s. buffer' = Some s \<longrightarrow> 3 + max_out (length p) \<le> bb_capacity s"
    using 1(3) Cons.prems(3) by (cases buffer; cases buffer') auto
  moreover have "\<forall>b\<in>set bs. wb_config b = c" using Cons.prems(1) by simp
  ultimately obtain out where out: "send_batches lz buffer' bs = Some out"
    "recv_batches unlz into c (length bs) (out @ rest) = Some (map (rb_new c) ps, rest)"
    using Cons.IH by blast
  have "recv_batch_streamed unlz into c (wire_form c h q @ out @ rest) = Some (Inr (rb_new c p, out @ rest))"
    using wb_holds_length [OF Cons.hyps(1)] c by (intro recv_sent [OF lz 1(4) 1(2)]) (simp_all add: cb)
  then show ?case using 1(1) out by simp
qed

text \<open>A compressor that knows one long payload.\<close>

definition example_lz :: compressor where
  "example_lz p n =
     (let c = (if p = replicate 9 7 then [1] else 0 # p) in if length c \<le> n then Some c else None)"

definition example_unlz :: compressor where
  "example_unlz c n =
     (case c of
        [] \<Rightarrow> None
      | x # p \<Rightarrow> let q = (if x = 1 then replicate 9 7 else p) in if length q \<le> n then Some q else None)"

definition example_batch_config :: BatchConfig where
  "example_batch_config = \<lparr>bc_mtu = 20, bc_is_streamed = True, bc_is_compression = True\<rparr>"

definition example_batch :: "bytes \<Rightarrow> WBatch" where
  "example_batch p =
     (let b = wb_new example_batch_config in
      b\<lparr>wb_buffer := (wb_buffer b)\<lparr>bb_bytes := bb_bytes (wb_buffer b) @ p\<rparr>\<rparr>)"

lemma example_lz_laws: "lz_laws example_lz example_unlz (\<lambda>n. n + 1)"
  by (auto simp: lz_laws_def example_lz_def example_unlz_def Let_def split: if_splits)

lemma example_batch_holds: "length p \<le> 17 \<Longrightarrow> wb_holds (example_batch p) p"
  by (simp add: wb_holds_def wb_sized_def example_batch_def wb_new_def wb_clear_def wb_init_eq example_batch_config_def
      bb_with_capacity_def wb_prefix_def bb_ok_def bb_len_def)

theorem batch_stream_roundtrip_witness:
  "\<exists>out. send_batches example_lz (Some (bb_with_capacity 40)) [example_batch [4], example_batch (replicate 9 7)] = Some out \<and>
    recv_batches example_unlz (replicate 20 0) example_batch_config 2 (out @ [5]) =
      Some (map (rb_new example_batch_config) [[4], replicate 9 7], [5])"
proof -
  have "list_all2 wb_holds [example_batch [4], example_batch (replicate 9 7)] [[4], replicate 9 7]"
    by (simp add: example_batch_holds)
  moreover have "wb_config (example_batch p) = example_batch_config" for p
    by (simp add: example_batch_def wb_new_def Let_def)
  ultimately show ?thesis
    using batch_stream_roundtrip [OF example_lz_laws, of example_batch_config "replicate 20 0"
        "[example_batch [4], example_batch (replicate 9 7)]" "[[4], replicate 9 7]" "Some (bb_with_capacity 40)" "[5]"]
    by (simp add: example_batch_config_def bb_with_capacity_def numeral_2_eq_2 del: send_batches.simps recv_batches.simps)
qed

end
