(* ===== verification/Transport_Items.thy ===== *)
theory Transport_Items
  imports Transport_Batch
begin

text \<open>
  What a batch contains.  The operations of \<open>Transport_Batch\<close> work on bytes; here they refine
  operations on the list of transport messages that the bytes encode, and the reception of
  \<open>Transport_Rx\<close> on the bytes is the reception of these messages one after the other.
\<close>

section \<open>The messages of a batch\<close>

fun frame_of_reliability :: "Reliability \<Rightarrow> CurrentFrame" where
  "frame_of_reliability Reliable = CfReliable"
| "frame_of_reliability BestEffort = CfBestEffort"

fun open_frame :: "TransportBody \<Rightarrow> CurrentFrame" where
  "open_frame (FrameT f) = frame_of_reliability (fr_reliability f)"
| "open_frame _ = CfNone"

definition last_frame :: "TransportBody list \<Rightarrow> CurrentFrame" where
  "last_frame xs = (if xs = [] then CfNone else open_frame (last xs))"

text \<open>A further message in the frame at the end.\<close>

definition frame_add :: "Frame \<Rightarrow> NetworkMessage \<Rightarrow> Frame" where
  "frame_add f m = f\<lparr>fr_payload := fr_payload f @ [m]\<rparr>"

definition frame_with :: "FrameHeader \<Rightarrow> NetworkMessage list \<Rightarrow> Frame" where
  "frame_with h ms = FrameHeader.extend h \<lparr>fr_payload = ms\<rparr>"

definition fragment_with :: "FragmentHeader \<Rightarrow> bytes \<Rightarrow> Fragment" where
  "fragment_with h p = FragmentHeader.extend h \<lparr>fg_payload = p\<rparr>"

definition wb_items :: "WBatch \<Rightarrow> TransportBody list \<Rightarrow> bool" where
  "wb_items b xs \<longleftrightarrow> (\<exists>p. wb_holds b p \<and> wcat (map write_transport xs) = Some p) \<and>
     zb_current_frame (wb_codec b) = last_frame xs"

lemma wcat_append_Some:
  "wcat (as @ bs) = Some r \<longleftrightarrow> (\<exists>x y. wcat as = Some x \<and> wcat bs = Some y \<and> r = x @ y)"
  by (induction as arbitrary: r) (fastforce simp: codec_simps wcat.simps(1))+

lemma wcat_single [simp]: "wcat [a] = a"
  by (cases a) (simp_all add: wcat.simps)

lemma frame_with_simps [simp]:
  "fr_qos (frame_with h ms) = fr_qos h" "fr_reliability (frame_with h ms) = fr_reliability h"
  "fr_sn (frame_with h ms) = fr_sn h" "fr_payload (frame_with h ms) = ms"
  "FrameHeader.truncate (frame_with h ms) = h" "write_frame_header (frame_with h ms) = write_frame_header h"
  by (simp_all add: frame_with_def FrameHeader.extend_def FrameHeader.truncate_def write_frame_header_def)

lemma fragment_with_simps [simp]:
  "fg_qos (fragment_with h p) = fg_qos h" "fg_reliability (fragment_with h p) = fg_reliability h"
  "fg_sn (fragment_with h p) = fg_sn h" "fg_payload (fragment_with h p) = p" "fg_more (fragment_with h p) = fg_more h"
  "fg_first (fragment_with h p) = fg_first h" "fg_drop (fragment_with h p) = fg_drop h"
  "write_fragment_header (fragment_with h p) = write_fragment_header h"
  by (simp_all add: fragment_with_def FragmentHeader.extend_def write_fragment_header_def fragment_header_def
      fragment_n_exts_def fragment_exts_def)

lemma frame_add_simps [simp]:
  "fr_qos (frame_add f m) = fr_qos f" "fr_reliability (frame_add f m) = fr_reliability f"
  "fr_sn (frame_add f m) = fr_sn f" "fr_payload (frame_add f m) = fr_payload f @ [m]"
  "FrameHeader.truncate (frame_add f m) = FrameHeader.truncate f"
  by (simp_all add: frame_add_def FrameHeader.truncate_def)

lemma write_frame_add:
  assumes "write_frame f = Some p" "write_network_message m = Some q"
  shows "write_frame (frame_add f m) = Some (p @ q)"
proof -
  have "write_frame_header (frame_add f m) = write_frame_header f"
    by (simp add: write_frame_header_def frame_add_def)
  then show ?thesis using assms unfolding write_frame_def codec_simps
    by (auto simp: wcat_append_Some)
qed

lemma write_frame_with:
  "write_frame_header h = Some p \<Longrightarrow> write_network_message m = Some q \<Longrightarrow> write_frame (frame_with h [m]) = Some (p @ q)"
  by (simp add: write_frame_def wcat.simps)

lemma last_frame_eq_Some:
  assumes "last_frame xs = frame_of_reliability r"
  obtains ys f where "xs = ys @ [FrameT f]" "fr_reliability f = r"
proof -
  have ne: "xs \<noteq> []" using assms by (cases r) (auto simp: last_frame_def)
  then have "open_frame (last xs) = frame_of_reliability r" using assms by (simp add: last_frame_def)
  then obtain f where "last xs = FrameT f" "fr_reliability f = r"
    by (cases "last xs"; cases r; simp) (metis CurrentFrame.distinct frame_of_reliability.elims)+
  then show ?thesis using ne that by (metis append_butlast_last_id)
qed

lemma wb_items_holds: "wb_items b xs \<Longrightarrow> \<exists>p. wb_holds b p \<and> wcat (map write_transport xs) = Some p"
  by (simp add: wb_items_def)

lemma wb_items_clear: "wb_sized b \<Longrightarrow> wb_items (wb_clear b) []"
  by (simp add: wb_items_def wb_holds_clear last_frame_def wcat.simps)

lemma wb_items_new: "length (wb_prefix c) \<le> unat (bc_mtu c) \<Longrightarrow> wb_items (wb_new c) []"
  unfolding wb_new_def by (rule wb_items_clear) (simp add: wb_sized_def bb_with_capacity_def)

lemma wb_holds_append:
  assumes "wb_holds b p" "bb_ok w" "w = (wb_buffer b)\<lparr>bb_bytes := bb_bytes (wb_buffer b) @ q\<rparr>"
  shows "wb_holds (b\<lparr>wb_codec := z, wb_buffer := w\<rparr>) (p @ q)"
  using assms by (simp add: wb_holds_def wb_sized_def)

section \<open>The encoders refine operations on the messages\<close>

lemma encode_transport_items:
  assumes lim: "slot_limit lim" and b: "wb_items b xs" and e: "wb_encode_transport lim b x = (b', ok)"
    and x: "open_frame x = CfNone"
  shows "wb_config b' = wb_config b \<and> wb_ephemeral b' = wb_ephemeral b \<and>
    (if ok then wb_items b' (xs @ [x]) else b' = b)"
proof -
  obtain p where p: "wb_holds b p" "wcat (map write_transport xs) = Some p" using wb_items_holds [OF b] by auto
  then have ok: "bb_ok (wb_buffer b)" by (simp add: wb_holds_def)
  obtain z w where zw: "zb_write_transport lim (wb_codec b) (wb_buffer b) x = (z, w, ok)" "b' = b\<lparr>wb_codec := z, wb_buffer := w\<rparr>"
    using e by (auto simp: wb_encode_transport_def split: prod.splits)
  show ?thesis
  proof (cases rule: zb_write_transport_cases [OF lim ok zw(1)])
    case 1
    then show ?thesis using zw(2) by simp
  next
    case (2 q)
    then have "wb_holds b' (p @ q)" unfolding zw(2) by (intro wb_holds_append [OF p(1)]) simp_all
    then show ?thesis using 2 p x zw(2) by (auto simp: wb_items_def last_frame_def wcat_append_Some)
  qed
qed

lemma encode_network_items:
  assumes lim: "slot_limit lim" and b: "wb_items b xs" and e: "wb_encode_network lim b m = (b', res)"
  shows "wb_config b' = wb_config b \<and> wb_ephemeral b' = wb_ephemeral b \<and>
    (case res of
       Inl err \<Rightarrow> b' = b \<and> (err = NewFrame) = (last_frame xs \<noteq> frame_of_reliability (reliability m))
     | Inr _ \<Rightarrow> (\<exists>ys f. xs = ys @ [FrameT f] \<and> fr_reliability f = reliability m \<and>
         wb_items b' (ys @ [FrameT (frame_add f m)])))"
proof -
  obtain p where p: "wb_holds b p" "wcat (map write_transport xs) = Some p" using wb_items_holds [OF b] by auto
  then have ok: "bb_ok (wb_buffer b)" by (simp add: wb_holds_def)
  obtain z w where zw: "zb_write_network lim (wb_codec b) (wb_buffer b) m = (z, w, res)" "b' = b\<lparr>wb_codec := z, wb_buffer := w\<rparr>"
    using e by (auto simp: wb_encode_network_def split: prod.splits)
  have cf: "zb_current_frame (wb_codec b) = last_frame xs" using b by (simp add: wb_items_def)
  have rel: "(if msg_is_reliable m then CfReliable else CfBestEffort) = frame_of_reliability (reliability m)"
    by (cases "reliability m") (simp_all add: msg_is_reliable_def)
  show ?thesis
  proof (cases rule: zb_write_network_cases [OF lim ok zw(1)])
    case (1 e)
    then show ?thesis using zw(2) cf rel by simp
  next
    case (2 q)
    then have "last_frame xs = frame_of_reliability (reliability m)" using cf rel by simp
    then obtain ys f where f: "xs = ys @ [FrameT f]" "fr_reliability f = reliability m" by (rule last_frame_eq_Some)
    from p(2) f(1) obtain y a where a: "wcat (map write_transport ys) = Some y" "write_frame f = Some a" "p = y @ a"
      by (auto simp: wcat_append_Some)
    have "wb_holds b' (p @ q)" unfolding zw(2) using 2 by (intro wb_holds_append [OF p(1)]) simp_all
    moreover have "wcat (map write_transport (ys @ [FrameT (frame_add f m)])) = Some (p @ q)"
      using a write_frame_add [OF a(2), of m q] 2 by (simp add: wcat_append_Some)
    ultimately have "wb_items b' (ys @ [FrameT (frame_add f m)])"
      using zw(2) 2 cf f by (simp add: wb_items_def last_frame_def)
    then show ?thesis using 2 f zw(2) by auto
  qed
qed

lemma encode_frame_items:
  assumes lim: "slot_limit lim" and b: "wb_items b xs" and e: "wb_encode_frame lim b m f = (b', res)"
  shows "wb_config b' = wb_config b \<and> wb_ephemeral b' = wb_ephemeral b \<and>
    (case res of Inl _ \<Rightarrow> b' = b | Inr _ \<Rightarrow> wb_items b' (xs @ [FrameT (frame_with f [m])]) \<and> fr_reliability f = reliability m)"
proof -
  obtain p where p: "wb_holds b p" "wcat (map write_transport xs) = Some p" using wb_items_holds [OF b] by auto
  then have ok: "bb_ok (wb_buffer b)" by (simp add: wb_holds_def)
  obtain z w where zw: "zb_write_frame lim (wb_codec b) (wb_buffer b) m f = (z, w, res)" "b' = b\<lparr>wb_codec := z, wb_buffer := w\<rparr>"
    using e by (auto simp: wb_encode_frame_def split: prod.splits)
  show ?thesis
  proof (cases rule: zb_write_frame_cases [OF lim ok zw(1)])
    case (1 e)
    then show ?thesis using zw(2) by simp
  next
    case (2 h q)
    have "wb_holds b' (p @ h @ q)" unfolding zw(2) using 2 by (intro wb_holds_append [OF p(1)]) simp_all
    moreover have "wcat (map write_transport (xs @ [FrameT (frame_with f [m])])) = Some (p @ h @ q)"
      using p(2) write_frame_with [of f h m q] 2 by (simp add: wcat_append_Some)
    moreover have "fr_reliability f = reliability m"
      using 2 by (cases "fr_reliability f"; cases "reliability m") (auto simp: msg_is_reliable_def)
    ultimately show ?thesis
      using zw(2) 2 by (cases "fr_reliability f") (simp_all add: wb_items_def last_frame_def zb_set_frame_def)
  qed
qed

lemma encode_fragment_items:
  assumes lim: "slot_limit lim" and b: "wb_items b []" and e: "wb_encode_fragment lim b r f = (b', r', f', res)"
  shows "wb_config b' = wb_config b \<and> wb_ephemeral b' = wb_ephemeral b \<and>
    (case res of
       None \<Rightarrow> b' = b \<and> r' = r
     | Some n \<Rightarrow> f' = f\<lparr>fg_more := fg_more f \<and> r' \<noteq> []\<rparr> \<and>
         (\<exists>p. p \<noteq> [] \<and> r = p @ r' \<and> wb_items b' [FragmentT (fragment_with f' p)]))"
proof -
  have b0: "wb_holds b []" "zb_current_frame (wb_codec b) = CfNone"
    using b by (auto simp: wb_items_def wcat.simps last_frame_def)
  then have ok: "bb_ok (wb_buffer b)" by (simp add: wb_holds_def)
  obtain w where w: "zb_write_fragment lim (wb_buffer b) r f = (w, r', f', res)" "b' = b\<lparr>wb_buffer := w\<rparr>"
    using e by (auto simp: wb_encode_fragment_def split: prod.splits)
  show ?thesis
  proof (cases rule: zb_write_fragment_cases [OF lim ok w(1)])
    case 1
    then show ?thesis using w(2) by simp
  next
    case (2 h p)
    have "wb_holds b' (h @ p)"
      using wb_holds_append [OF b0(1), of w "h @ p" "wb_codec b"] 2 w(2) by simp
    moreover have "write_fragment (fragment_with f' p) = Some (h @ p)"
      using 2 by (simp add: write_fragment_def wcat.simps write_exact_def)
    ultimately have "wb_items b' [FragmentT (fragment_with f' p)]"
      using w(2) b0(2) by (simp add: wb_items_def last_frame_def)
    then show ?thesis using 2 w(2) by auto
  qed
qed

section \<open>Reception of the messages of a batch\<close>

definition handle_item ::
  "(bytes \<Rightarrow> bytes option) \<Rightarrow> (NetworkMessage \<Rightarrow> bool) \<Rightarrow> RxState \<Rightarrow> TransportBody \<Rightarrow> unit rx_res" where
  "handle_item idf cb st x =
     (case x of
        FrameT f \<Rightarrow> handle_frame cb st (FrameHeader.truncate f) (fr_payload f)
      | _ \<Rightarrow> handle_message idf cb st x)"

fun handle_items ::
  "(bytes \<Rightarrow> bytes option) \<Rightarrow> (NetworkMessage \<Rightarrow> bool) \<Rightarrow> RxState \<Rightarrow> TransportBody list \<Rightarrow> unit rx_res" where
  "handle_items idf cb st [] = (st, Inr ())"
| "handle_items idf cb st (x # xs) =
     (case handle_item idf cb st x of (st, Inl e) \<Rightarrow> (st, Inl e) | (st, Inr _) \<Rightarrow> handle_items idf cb st xs)"

text \<open>The messages that a batch may contain: well-formed ones, a fragment only at the end.\<close>

fun items_ok :: "(bytes \<Rightarrow> bytes option) \<Rightarrow> TransportBody list \<Rightarrow> bool" where
  "items_ok idf [] \<longleftrightarrow> True"
| "items_ok idf (x # xs) \<longleftrightarrow> transport_ok idf x \<and> (xs \<noteq> [] \<longrightarrow> (\<forall>f. x \<noteq> FragmentT f)) \<and> items_ok idf xs"

lemma read_frame_reader_other:
  assumes "transport_ok idf x" "write_transport x = Some bs" "\<forall>f. x \<noteq> FrameT f" "may_follow x r"
  shows "read_frame_reader (bs @ r) = None"
proof -
  obtain h b where bs: "bs @ r = h # b" using write_transport_ends_frame [OF assms(1,2), of r] by (cases "bs @ r") auto
  have "mid h \<noteq> tid_FRAME"
  proof
    assume "mid h = tid_FRAME"
    then have "read_transport idf (bs @ r) = rd_map FrameT (read_frame idf h) b"
      by (simp add: bs read_transport_def transport_dispatch)
    then show False using transport_rt [OF assms(1,2,4)] assms(3)
      by (cases "read_frame idf h b") (auto simp: rd_map_def)
  qed
  then show ?thesis by (simp add: bs read_frame_reader_def read_frame_header_def)
qed

lemma read_one_item:
  assumes "transport_ok idf x" "write_transport x = Some bs" "may_follow x r"
  shows "read_one idf cb st (bs @ r) =
    (case handle_item idf cb st x of (st, Inl e) \<Rightarrow> (st, Inl e) | (st, Inr _) \<Rightarrow> (st, Inr r))"
proof (cases "\<exists>f. x = FrameT f")
  case False
  then show ?thesis
    using read_frame_reader_other [OF assms(1,2) _ assms(3)] transport_rt [OF assms]
    by (auto simp: read_one_def handle_item_def split: TransportBody.split)
next
  case True
  then obtain f where f: "x = FrameT f" by auto
  from assms(2) f obtain a p where a: "write_frame_header f = Some a"
    and p: "wcat (map write_network_message (fr_payload f)) = Some p" and bs: "bs = a @ p"
    by (auto simp: write_frame_def codec_simps)
  from frame_header_rt [OF a] obtain h b where h: "a = h # b"
    "\<And>r. read_frame_header h (b @ r) = Some (FrameHeader.truncate f, r)" by auto
  have "iter_all idf (fr_reliability f) (p @ r) = (fr_payload f, r)"
    using assms(1,3) f p ends_frame_stops [of r idf "fr_reliability f"] by (intro iter_all_payload) (auto simp: frame_ok_def)
  moreover have "read_frame_reader (bs @ r) = Some (FrameHeader.truncate f, p @ r)"
    using h bs by (simp add: read_frame_reader_def)
  moreover have "fr_reliability (FrameHeader.truncate f) = fr_reliability f" by (simp add: FrameHeader.truncate_def)
  ultimately show ?thesis by (simp add: read_one_def handle_item_def f split: prod.splits sum.splits)
qed

lemma read_messages_items:
  assumes "items_ok idf xs" "wcat (map write_transport xs) = Some p"
  shows "read_messages idf cb st p = handle_items idf cb st xs"
  using assms
proof (induction xs arbitrary: p st)
  case Nil
  then show ?case by (simp add: wcat.simps read_messages.simps)
next
  case (Cons x xs)
  from Cons.prems obtain bs r where r: "write_transport x = Some bs" "wcat (map write_transport xs) = Some r" "p = bs @ r"
    by (auto simp: codec_simps)
  have ok: "transport_ok idf x" "items_ok idf xs" using Cons.prems by auto
  have "ends_frame r"
  proof (cases xs)
    case Nil
    then show ?thesis using r(2) by (simp add: wcat.simps ends_frame_def)
  next
    case (Cons y ys)
    then obtain b1 b2 where "write_transport y = Some b1" "r = b1 @ b2" using r(2) by (auto simp: codec_simps)
    then show ?thesis using write_transport_ends_frame [of idf y b1 b2] ok(2) Cons by simp
  qed
  moreover have "r = []" if "x = FragmentT f" for f
    using that Cons.prems(1) r(2) by (cases "xs = []") (auto simp: wcat.simps)
  ultimately have mf: "may_follow x r" by (cases x) auto
  have "p \<noteq> []" using write_transport_ends_frame [OF ok(1) r(1)] r(3) by auto
  then show ?case
    using read_one_item [OF ok(1) r(1) mf, of cb st] Cons.IH [OF ok(2) r(2)] r(3)
    by (subst read_messages.simps) (auto split: prod.splits sum.splits)
qed

lemma handle_items_append:
  "handle_items idf cb st (xs @ ys) =
     (case handle_items idf cb st xs of (st, Inl e) \<Rightarrow> (st, Inl e) | (st, Inr _) \<Rightarrow> handle_items idf cb st ys)"
  by (induction xs arbitrary: st) (auto split: prod.splits sum.splits)

text \<open>Batches received one after the other.\<close>

fun read_batches ::
  "(bytes \<Rightarrow> bytes option) \<Rightarrow> (NetworkMessage \<Rightarrow> bool) \<Rightarrow> RxState \<Rightarrow> bytes list \<Rightarrow> unit rx_res" where
  "read_batches idf cb st [] = (st, Inr ())"
| "read_batches idf cb st (p # ps) =
     (case read_messages idf cb st p of (st, Inl e) \<Rightarrow> (st, Inl e) | (st, Inr _) \<Rightarrow> read_batches idf cb st ps)"

lemma read_batches_items:
  assumes "list_all2 (\<lambda>p xs. items_ok idf xs \<and> wcat (map write_transport xs) = Some p) ps xss"
  shows "read_batches idf cb st ps = handle_items idf cb st (concat xss)"
  using assms
  by (induction ps xss arbitrary: st rule: list_all2_induct)
    (auto simp: handle_items_append read_messages_items split: prod.splits sum.splits)

section \<open>Streams of messages\<close>

text \<open>The transport messages that carry a list of network messages on one priority, with a counter of
  sequence numbers for each reliability: frames with consecutive numbers, and for a fragmented
  message its fragments, after which one number is skipped.  A message that was given up after some
  of its fragments leaves those in the stream.\<close>

type_synonym counters = "Reliability \<Rightarrow> nat"

text \<open>The fragments of a message before the last one.\<close>

fun fragments_more :: "Bits \<Rightarrow> Reliability \<Rightarrow> TQoS \<Rightarrow> nat \<Rightarrow> bool \<Rightarrow> bytes list \<Rightarrow> Fragment list" where
  "fragments_more b rel q n first [] = []"
| "fragments_more b rel q n first (p # ps) =
     \<lparr>fg_qos = q, fg_first = first, fg_drop = False, fg_reliability = rel, fg_more = True,
       fg_sn = sn_wire b n, fg_payload = p\<rparr> # fragments_more b rel q (Suc n) False ps"

lemma fragments_of_snoc:
  "fragments_of b rel q n first (ps @ [p]) =
    fragments_more b rel q n first ps @
      [\<lparr>fg_qos = q, fg_first = (first \<and> ps = []), fg_drop = False, fg_reliability = rel, fg_more = False,
        fg_sn = sn_wire b (n + length ps), fg_payload = p\<rparr>]"
  by (induction ps arbitrary: n first) auto

lemma fragments_more_snoc:
  "fragments_more b rel q n first (ps @ [p]) =
    fragments_more b rel q n first ps @
      [\<lparr>fg_qos = q, fg_first = (first \<and> ps = []), fg_drop = False, fg_reliability = rel, fg_more = True,
        fg_sn = sn_wire b (n + length ps), fg_payload = p\<rparr>]"
  by (induction ps arbitrary: n first) auto

lemma fragments_more_fields:
  "f \<in> set (fragments_more b rel q n first ps) \<Longrightarrow>
    fg_qos f = q \<and> fg_reliability f = rel \<and> unat (fg_sn f) < 2 ^ sn_bits b"
  by (induction ps arbitrary: n first) (auto simp: unat_sn_wire)

inductive stream ::
  "(bytes \<Rightarrow> bytes option) \<Rightarrow> Bits \<Rightarrow> TQoS \<Rightarrow> counters \<Rightarrow> TransportBody list \<Rightarrow> NetworkMessage list \<Rightarrow> counters \<Rightarrow> bool"
  for idf b q c0
where
  Empty: "stream idf b q c0 [] [] c0"
| Other: "stream idf b q c0 xs ms c \<Longrightarrow> open_frame x = CfNone \<Longrightarrow> (\<forall>f. x \<noteq> FragmentT f) \<Longrightarrow>
    stream idf b q c0 (xs @ [x]) ms c"
| Frame: "stream idf b q c0 xs ms c \<Longrightarrow> (\<forall>m\<in>set ns. network_body_ok idf (body m) \<and> reliability m = rel) \<Longrightarrow>
    f = frame_with (frame_of b rel q (c rel)) ns \<Longrightarrow>
    stream idf b q c0 (xs @ [FrameT f]) (ms @ ns) (c(rel := Suc (c rel)))"
| Fragments: "stream idf b q c0 xs ms c \<Longrightarrow> network_body_ok idf (body m) \<Longrightarrow> reliability m = rel \<Longrightarrow>
    write_network_message m = Some (concat ps) \<Longrightarrow> ps \<noteq> [] \<Longrightarrow> hd ps \<noteq> [] \<Longrightarrow>
    stream idf b q c0 (xs @ map FragmentT (fragments_of b rel q (c rel) True ps)) (ms @ [m])
      (c(rel := Suc (c rel + length ps)))"
| Partial: "stream idf b q c0 xs ms c \<Longrightarrow> ps \<noteq> [] \<Longrightarrow>
    stream idf b q c0 (xs @ map FragmentT (fragments_more b rel q (c rel) True ps)) ms
      (c(rel := Suc (c rel + length ps)))"

lemma fragments_more_Nil_iff [simp]: "fragments_more b rel q n first ps = [] \<longleftrightarrow> ps = []"
  by (cases ps) simp_all

lemma fragments_of_Nil_iff [simp]: "fragments_of b rel q n first ps = [] \<longleftrightarrow> ps = []"
  by (cases ps) simp_all

lemma stream_frame_add:
  assumes "stream idf b q c0 (ys @ [FrameT f]) ms c" "network_body_ok idf (body m)" "reliability m = fr_reliability f"
  shows "stream idf b q c0 (ys @ [FrameT (frame_add f m)]) (ms @ [m]) c"
  using assms(1)
proof (cases rule: stream.cases)
  case (Other xs x)
  then show ?thesis by (cases "fr_reliability f") auto
next
  case (Frame xs ms' c' ns rel f')
  have "frame_add f m = frame_with (frame_of b rel q (c' rel)) (ns @ [m])"
    using Frame by (simp add: frame_add_def frame_with_def FrameHeader.extend_def frame_of_def)
  moreover have "\<forall>x\<in>set (ns @ [m]). network_body_ok idf (body x) \<and> reliability x = rel"
    using Frame assms by (auto simp: frame_of_def)
  ultimately have "stream idf b q c0 (xs @ [FrameT (frame_add f m)]) (ms' @ (ns @ [m])) (c'(rel := Suc (c' rel)))"
    using Frame by (intro stream.Frame) auto
  then show ?thesis using Frame by simp
next
  case (Fragments xs ms' c' m' rel ps)
  then have "last (ys @ [FrameT f]) = last (map FragmentT (fragments_of b rel q (c' rel) True ps))"
    by (metis (no_types, lifting) fragments_of_Nil_iff last_appendR map_is_Nil_conv)
  moreover have "map FragmentT (fragments_of b rel q (c' rel) True ps) \<noteq> []" using Fragments by simp
  ultimately have "FrameT f \<in> FragmentT ` set (fragments_of b rel q (c' rel) True ps)"
    by (metis last_in_set last_snoc set_map)
  then show ?thesis by auto
next
  case (Partial xs c' ps rel)
  then have "last (ys @ [FrameT f]) = last (map FragmentT (fragments_more b rel q (c' rel) True ps))"
    by (metis (no_types, lifting) fragments_more_Nil_iff last_appendR map_is_Nil_conv)
  moreover have "map FragmentT (fragments_more b rel q (c' rel) True ps) \<noteq> []" using Partial by simp
  ultimately have "FrameT f \<in> FragmentT ` set (fragments_more b rel q (c' rel) True ps)"
    by (metis last_in_set last_snoc set_map)
  then show ?thesis by auto
qed simp

subsection \<open>A receiver in step with the stream\<close>

lemma get_put_other [simp]: "rel \<noteq> rel' \<Longrightarrow> get_channel (put_channel st i rel c) i rel' = get_channel st i rel'"
  by (cases "i < length (rs_priority_rx st)"; cases rel; cases rel') (simp_all add: get_channel_def put_channel_def list_update_beyond)

text \<open>Each channel has accepted a number at most two behind the next one of the sender.\<close>

definition in_step :: "Bits \<Rightarrow> TQoS \<Rightarrow> nat \<Rightarrow> nat \<Rightarrow> counters \<Rightarrow> RxState \<Rightarrow> bool" where
  "in_step b q i cap c st \<longleftrightarrow> rx_ok b st \<and> rs_callback st \<and> select_priority st q = Inr i \<and>
     has_fragmentation_markers (rs_patch st) \<and>
     (\<forall>rel. cap \<le> df_capacity (rx_defrag (get_channel st i rel)) \<and>
       (\<exists>n. sn_value (rx_sn (get_channel st i rel)) = sn_wire b n \<and> n < c rel \<and> c rel \<le> n + 2))"

lemma window_two: "(n::nat) < c \<Longrightarrow> c \<le> n + 2 \<Longrightarrow> c < n + 2 ^ (sn_bits b - 1)"
  by (cases b) simp_all

lemma in_step_frame:
  assumes s: "in_step b q i cap c st"
  shows "\<exists>st'. handle_frame (\<lambda>_. True) st (frame_of b rel q (c rel)) ns = (st', Inr ()) \<and>
    rs_delivered st' = rs_delivered st @ ns \<and> in_step b q i cap (c(rel := Suc (c rel))) st'"
proof -
  let ?ch = "get_channel st i rel"
  let ?ch' = "?ch\<lparr>rx_sn := (rx_sn ?ch)\<lparr>sn_value := sn_wire b (c rel)\<rparr>\<rparr>"
  from s have ok: "rx_ok b st" "rs_callback st" and sel: "select_priority st q = Inr i" by (simp_all add: in_step_def)
  have i: "i < length (rs_priority_rx st)" using sel by (rule select_priority_less)
  from s obtain n where n: "sn_value (rx_sn ?ch) = sn_wire b n" "n < c rel" "c rel \<le> n + 2" by (auto simp: in_step_def)
  have "verify_sn (sn_wire b (c rel)) ?ch = (?ch', Inr True)"
    using verify_next [of b n ?ch "c rel"] n window_two [OF n(2,3), of b] get_channel_ok(1) [OF ok(1) i, of rel]
    by (simp add: chan_at_def)
  then have h: "handle_frame (\<lambda>_. True) st (frame_of b rel q (c rel)) ns =
      ((put_channel st i rel ?ch')\<lparr>rs_delivered := rs_delivered st @ ns\<rparr>, Inr ())" (is "_ = (?st', _)")
    using sel ok(2) by (simp add: handle_frame_def frame_of_def deliver_all_True)
  have "rx_ok b ?st'" using handle_frame_ok [OF ok(1) h] by blast
  moreover have "\<exists>k. sn_value (rx_sn (get_channel ?st' i r)) = sn_wire b k \<and>
      k < (c(rel := Suc (c rel))) r \<and> (c(rel := Suc (c rel))) r \<le> k + 2" for r
    using s i by (cases "r = rel") (auto simp: in_step_def)
  moreover have "cap \<le> df_capacity (rx_defrag (get_channel ?st' i r))" for r
    using s i by (cases "r = rel") (auto simp: in_step_def)
  ultimately have "in_step b q i cap (c(rel := Suc (c rel))) ?st'"
    using s unfolding in_step_def by (simp del: fun_upd_apply)
  then show ?thesis using h by (intro exI [of _ ?st']) simp
qed

lemma handle_items_fragments: "handle_items idf cb st (map FragmentT fs) = handle_fragments idf cb st fs"
  by (induction fs arbitrary: st) (simp_all add: handle_item_def handle_message_def)

lemma handle_fragments_put:
  assumes "rx_ok b st" "rs_callback st" "select_priority st q = Inr i"
    and "\<forall>f\<in>set fs. fg_qos f = q \<and> fg_reliability f = rel \<and> unat (fg_sn f) < 2 ^ sn_bits b"
    and "chan_fragments idf (rs_patch st) (get_channel st i rel) fs = (c', ms)" "fs \<noteq> []"
  shows "handle_fragments idf (\<lambda>_. True) st fs =
    ((put_channel st i rel c')\<lparr>rs_delivered := rs_delivered st @ ms\<rparr>, Inr ())"
  using assms
proof (induction fs arbitrary: st ms)
  case (Cons f fs)
  let ?c = "get_channel st i rel"
  obtain c1 msg where c1: "chan_fragment idf (rs_patch st) ?c f = (c1, msg)" by (cases "chan_fragment idf (rs_patch st) ?c f")
  obtain ms' where ms': "chan_fragments idf (rs_patch st) c1 fs = (c', ms')"
    "ms = (case msg of None \<Rightarrow> ms' | Some m \<Rightarrow> m # ms')"
    using Cons.prems(5) c1 by (auto split: prod.splits)
  have i: "i < length (rs_priority_rx st)" using Cons.prems(3) by (rule select_priority_less)
  let ?st1 = "(put_channel st i rel c1)\<lparr>rs_delivered := rs_delivered st @ (case msg of None \<Rightarrow> [] | Some m \<Rightarrow> [m])\<rparr>"
  have h: "handle_fragment idf (\<lambda>_. True) st f = (?st1, Inr ())"
    using handle_fragment_chan [of st f i b idf c1 msg] Cons.prems c1 get_channel_ok(1) [OF Cons.prems(1) i] by auto
  show ?case
  proof (cases "fs = []")
    case True
    then show ?thesis using h ms' by (auto split: option.splits)
  next
    case False
    have "rx_ok b ?st1" using handle_fragment_ok [OF Cons.prems(1) h] by blast
    moreover have "get_channel ?st1 i rel = c1" using i by simp
    ultimately have "handle_fragments idf (\<lambda>_. True) ?st1 fs =
        ((put_channel ?st1 i rel c')\<lparr>rs_delivered := rs_delivered ?st1 @ ms'\<rparr>, Inr ())"
      using Cons.prems ms'(1) False by (intro Cons.IH) simp_all
    moreover have "(put_channel ?st1 i rel c')\<lparr>rs_delivered := ds\<rparr> = (put_channel st i rel c')\<lparr>rs_delivered := ds\<rparr>" for ds
      using i by (cases rel) (simp_all add: put_channel_def)
    ultimately show ?thesis using h ms'(2) by (auto split: option.splits)
  qed
qed simp

lemma defrag_step_frame:
  assumes "defrag_step idf patch c f = (c', msg)"
  shows "df_capacity (rx_defrag c') = df_capacity (rx_defrag c) \<and> df_reliability (rx_defrag c') = df_reliability (rx_defrag c)"
  using assms
  by (auto simp: defrag_step_def defrag_push_def defrag_clear_def defrag_sync_def defrag_defragment_def Let_def
      split: if_splits sum.splits prod.splits)

lemma chan_fragment_frame:
  assumes "chan_fragment idf patch c f = (c', msg)"
  shows "df_capacity (rx_defrag c') = df_capacity (rx_defrag c) \<and> df_reliability (rx_defrag c') = df_reliability (rx_defrag c)"
proof -
  obtain c1 r where v: "verify_sn (fg_sn f) c = (c1, r)" by (cases "verify_sn (fg_sn f) c")
  then have "rx_defrag c1 = rx_defrag c" by (auto simp: verify_sn_def split: sum.splits)
  then show ?thesis
    using assms v defrag_step_frame [of idf patch c1 f c' msg]
    by (cases r) (auto simp: chan_fragment_def split: bool.splits)
qed

lemma chan_fragments_frame:
  assumes "chan_fragments idf patch c fs = (c', ms)"
  shows "df_capacity (rx_defrag c') = df_capacity (rx_defrag c) \<and> df_reliability (rx_defrag c') = df_reliability (rx_defrag c)"
  using assms
proof (induction fs arbitrary: c ms)
  case (Cons f fs)
  then show ?case using chan_fragment_frame [of idf patch c f] by (fastforce split: prod.splits option.splits)
qed simp

lemma in_step_chan:
  assumes s: "in_step b q i cap c st" and n: "ps \<noteq> []" "chan_at b (c rel + length ps - 1) c'"
    and f: "df_capacity (rx_defrag c') = df_capacity (rx_defrag (get_channel st i rel))" "df_reliability (rx_defrag c') = rel"
  shows "in_step b q i cap (c(rel := Suc (c rel + length ps))) ((put_channel st i rel c')\<lparr>rs_delivered := ds\<rparr>)" (is "in_step _ _ _ _ ?c ?st'")
proof -
  have i: "i < length (rs_priority_rx st)" using s select_priority_less by (auto simp: in_step_def)
  have "rx_ok b ?st'" using n(2) f(2) s i by (simp add: put_channel_ok chan_at_def in_step_def)
  moreover have "\<exists>k. sn_value (rx_sn (get_channel ?st' i r)) = sn_wire b k \<and> k < ?c r \<and> ?c r \<le> k + 2" for r
  proof (cases "r = rel")
    case True
    then show ?thesis using n i by (intro exI [of _ "c rel + length ps - 1"]) (cases ps; auto simp: chan_at_def)
  next
    case False
    then show ?thesis using s by (auto simp: in_step_def)
  qed
  moreover have "cap \<le> df_capacity (rx_defrag (get_channel ?st' i r))" for r
    using s i f by (cases "r = rel") (auto simp: in_step_def)
  ultimately show ?thesis using s unfolding in_step_def by (simp del: fun_upd_apply)
qed

lemma in_step_fragments:
  assumes s: "in_step b q i cap c st" and m: "network_body_ok idf (body m)" "reliability m = rel"
    "write_network_message m = Some (concat ps)" "ps \<noteq> []" "hd ps \<noteq> []" "length (concat ps) \<le> cap"
  shows "\<exists>st'. handle_fragments idf (\<lambda>_. True) st (fragments_of b rel q (c rel) True ps) = (st', Inr ()) \<and>
    rs_delivered st' = rs_delivered st @ [m] \<and> in_step b q i cap (c(rel := Suc (c rel + length ps))) st'"
proof -
  let ?ch = "get_channel st i rel" and ?fs = "fragments_of b rel q (c rel) True ps"
  from s have ok: "rx_ok b st" "rs_callback st" and sel: "select_priority st q = Inr i"
    and mk: "has_fragmentation_markers (rs_patch st)" and cap: "cap \<le> df_capacity (rx_defrag ?ch)"
    by (simp_all add: in_step_def)
  have i: "i < length (rs_priority_rx st)" using sel by (rule select_priority_less)
  note ch = get_channel_ok [OF ok(1) i, of rel]
  from s obtain n where n: "sn_value (rx_sn ?ch) = sn_wire b n" "n < c rel" "c rel \<le> n + 2" by (auto simp: in_step_def)
  have mr: "m\<lparr>reliability := rel\<rparr> = m" using m(2) by simp
  have rd: "read_network_message idf rel (concat ps) = Some (m, [])"
    using read_network_body_rt [OF m(1), of "concat ps" rel "[]"] m(3) mr by (cases m) (simp add: write_network_message_def)
  obtain c' where c': "chan_fragments idf (rs_patch st) ?ch ?fs = (c', [m])" "chan_at b (c rel + length ps - 1) c'"
    using chan_fragments_message [of b n ?ch "c rel" ps "rs_patch st" idf m "[]" rel q] ch n window_two [OF n(2,3), of b] m cap rd mk
    by (auto simp: chan_at_def)
  note fr = chan_fragments_frame [OF c'(1)]
  have h: "handle_fragments idf (\<lambda>_. True) st ?fs =
      ((put_channel st i rel c')\<lparr>rs_delivered := rs_delivered st @ [m]\<rparr>, Inr ())" (is "_ = (?st', _)")
    using c'(1) m(4) fragments_of_fields by (intro handle_fragments_put [OF ok sel]) auto
  show ?thesis
    using h in_step_chan [OF s m(4) c'(2)] fr ch by auto
qed

text \<open>Fragments that are not the last of their message change the channel only.\<close>

lemma chan_fragment_more:
  assumes c: "chan_at b m c" "m < n" "n < m + 2 ^ (sn_bits b - 1)" and f: "fg_sn f = sn_wire b n" "fg_more f"
  shows "\<exists>c'. chan_fragment idf patch c f = (c', None) \<and> chan_at b n c'"
proof -
  let ?c1 = "c\<lparr>rx_sn := (rx_sn c)\<lparr>sn_value := sn_wire b n\<rparr>\<rparr>"
  have v: "verify_sn (fg_sn f) c = (?c1, Inr True)" using verify_next [OF c] f(1) by simp
  have ok: "channel_ok b ?c1" using verify_sn_ok(1) [OF _ v] c(1) by (simp add: chan_at_def)
  obtain c' msg where s: "defrag_step idf patch ?c1 f = (c', msg)" by (cases "defrag_step idf patch ?c1 f")
  have "msg = None" "rx_sn c' = rx_sn ?c1"
    using s f(2) by (auto simp: defrag_step_def Let_def split: if_splits prod.splits sum.splits)
  then show ?thesis using defrag_step_ok [OF ok s] v s by (simp add: chan_fragment_def chan_at_def)
qed

lemma chan_fragments_more:
  assumes "chan_at b m c" "m < n" "n < m + 2 ^ (sn_bits b - 1)" "ps \<noteq> []"
  shows "\<exists>c'. chan_fragments idf patch c (fragments_more b rel q n first ps) = (c', []) \<and> chan_at b (n + length ps - 1) c'"
  using assms
proof (induction ps arbitrary: m n c first)
  case (Cons p ps)
  let ?f = "\<lparr>fg_qos = q, fg_first = first, fg_drop = False, fg_reliability = rel, fg_more = True,
       fg_sn = sn_wire b n, fg_payload = p\<rparr>"
  from chan_fragment_more [OF Cons.prems(1-3), of ?f idf patch] obtain c1 where
    c1: "chan_fragment idf patch c ?f = (c1, None)" "chan_at b n c1" by auto
  show ?case
  proof (cases "ps = []")
    case True
    then show ?thesis using c1 by simp
  next
    case False
    have "Suc n < n + 2 ^ (sn_bits b - 1)" using half_ge_2 [of b] by simp
    then show ?thesis using Cons.IH [OF c1(2) _ _ False, of "Suc n" False] c1(1) by auto
  qed
qed simp

lemma in_step_partial:
  assumes s: "in_step b q i cap c st" and ps: "ps \<noteq> []"
  shows "\<exists>st'. handle_fragments idf (\<lambda>_. True) st (fragments_more b rel q (c rel) True ps) = (st', Inr ()) \<and>
    rs_delivered st' = rs_delivered st \<and> in_step b q i cap (c(rel := Suc (c rel + length ps))) st'"
proof -
  let ?ch = "get_channel st i rel" and ?fs = "fragments_more b rel q (c rel) True ps"
  from s have ok: "rx_ok b st" "rs_callback st" and sel: "select_priority st q = Inr i" by (simp_all add: in_step_def)
  have i: "i < length (rs_priority_rx st)" using sel by (rule select_priority_less)
  note ch = get_channel_ok [OF ok(1) i, of rel]
  from s obtain n where n: "sn_value (rx_sn ?ch) = sn_wire b n" "n < c rel" "c rel \<le> n + 2" by (auto simp: in_step_def)
  then obtain c' where c': "chan_fragments idf (rs_patch st) ?ch ?fs = (c', [])" "chan_at b (c rel + length ps - 1) c'"
    using chan_fragments_more [of b n ?ch "c rel" ps idf "rs_patch st" rel q True] ch window_two [OF n(2,3), of b] ps
    by (auto simp: chan_at_def)
  have h: "handle_fragments idf (\<lambda>_. True) st ?fs =
      ((put_channel st i rel c')\<lparr>rs_delivered := rs_delivered st @ []\<rparr>, Inr ())"
    using c'(1) ps fragments_more_fields by (intro handle_fragments_put [OF ok sel]) auto
  show ?thesis
    using h in_step_chan [OF s ps c'(2)] chan_fragments_frame [OF c'(1)] ch by auto
qed

lemma in_step_closing [simp]: "in_step b q i cap c (st\<lparr>rs_closing := cs\<rparr>) = in_step b q i cap c st"
  by (cases "tqos_priority q") (simp_all add: in_step_def select_priority_def get_channel_def cong: Reliability.case_cong)

text \<open>A receiver in step with the sender delivers the messages of the stream, in order.\<close>

lemma stream_delivers:
  assumes "stream idf b q c0 xs ms c" "in_step b q i cap c0 st"
    and "\<forall>m\<in>set ms. \<forall>bs. write_network_message m = Some bs \<longrightarrow> length bs \<le> cap"
  shows "\<exists>st'. handle_items idf (\<lambda>_. True) st xs = (st', Inr ()) \<and>
    rs_delivered st' = rs_delivered st @ ms \<and> in_step b q i cap c st'"
  using assms
proof (induction rule: stream.induct)
  case Empty
  then show ?case by simp
next
  case (Other xs ms c x)
  then obtain st' where st': "handle_items idf (\<lambda>_. True) st xs = (st', Inr ())" "rs_delivered st' = rs_delivered st @ ms"
    "in_step b q i cap c st'" by auto
  have "\<exists>cs. handle_item idf (\<lambda>_. True) st' x = (st'\<lparr>rs_closing := cs\<rparr>, Inr ())"
  proof (cases x)
    case (FrameT f)
    then show ?thesis using Other.hyps(2) by (cases "fr_reliability f") auto
  next
    case (FragmentT f)
    then show ?thesis using Other.hyps by auto
  next
    case (CloseT k)
    then show ?thesis by (auto simp: handle_item_def handle_message_def handle_close_def)
  qed (auto simp: handle_item_def handle_message_def intro: exI [of _ "rs_closing st'"])
  then show ?case using st' by (auto simp: handle_items_append)
next
  case (Frame xs ms c ns rel f)
  then obtain st' where st': "handle_items idf (\<lambda>_. True) st xs = (st', Inr ())" "rs_delivered st' = rs_delivered st @ ms"
    "in_step b q i cap c st'" by auto
  from in_step_frame [OF st'(3), of rel ns] obtain st'' where
    "handle_frame (\<lambda>_. True) st' (frame_of b rel q (c rel)) ns = (st'', Inr ())"
    "rs_delivered st'' = rs_delivered st' @ ns" "in_step b q i cap (c(rel := Suc (c rel))) st''" by blast
  then show ?case using st' Frame.hyps(3) by (auto simp: handle_items_append handle_item_def fun_upd_def)
next
  case (Fragments xs ms c m rel ps)
  then obtain st' where st': "handle_items idf (\<lambda>_. True) st xs = (st', Inr ())" "rs_delivered st' = rs_delivered st @ ms"
    "in_step b q i cap c st'" by auto
  have "length (concat ps) \<le> cap" using Fragments.prems(2) Fragments.hyps(4) by simp
  from in_step_fragments [OF st'(3) Fragments.hyps(2-6) this] st' show ?case
    by (auto simp: handle_items_append handle_items_fragments fun_upd_def)
next
  case (Partial xs ms c ps rel)
  then obtain st' where st': "handle_items idf (\<lambda>_. True) st xs = (st', Inr ())" "rs_delivered st' = rs_delivered st @ ms"
    "in_step b q i cap c st'" by auto
  from in_step_partial [OF st'(3) Partial.hyps(2)] st' show ?case
    by (auto simp: handle_items_append handle_items_fragments fun_upd_def)
qed

section \<open>Properties\<close>

text \<open>(C14) Encoding on a batch is all or nothing: a network message that is accepted goes to the end of
  the open frame of its reliability, a message with a frame header opens a new frame, a fragment
  takes a non-empty prefix of the bytes left and is marked as the last one exactly when it takes
  them all; a message that is refused leaves the batch as it was.  The buffer never exceeds the
  size of the batch.\<close>

theorem batch_encoding:
  assumes lim: "slot_limit lim" and b: "wb_items b xs"
  shows "(case wb_encode_network lim b m of
            (b', Inl e) \<Rightarrow> b' = b
          | (b', Inr _) \<Rightarrow> (\<exists>ys f. xs = ys @ [FrameT f] \<and> fr_reliability f = reliability m \<and>
              wb_items b' (ys @ [FrameT (frame_add f m)]))) \<and>
    (case wb_encode_frame lim b m h of
            (b', Inl e) \<Rightarrow> b' = b
          | (b', Inr _) \<Rightarrow> wb_items b' (xs @ [FrameT (frame_with h [m])]) \<and> fr_reliability h = reliability m) \<and>
    (xs = [] \<longrightarrow> (case wb_encode_fragment lim b r f of
            (b', r', f', None) \<Rightarrow> b' = b \<and> r' = r
          | (b', r', f', Some n) \<Rightarrow> (\<exists>p. p \<noteq> [] \<and> r = p @ r' \<and> f' = f\<lparr>fg_more := fg_more f \<and> r' \<noteq> []\<rparr> \<and>
              wb_items b' [FragmentT (fragment_with f' p)]))) \<and>
    bb_len (wb_buffer b) \<le> unat (bc_mtu (wb_config b))"
proof (intro conjI impI)
  obtain b' res where 1: "wb_encode_network lim b m = (b', res)" by (cases "wb_encode_network lim b m")
  show "case wb_encode_network lim b m of
      (b', Inl e) \<Rightarrow> b' = b
    | (b', Inr _) \<Rightarrow> (\<exists>ys f. xs = ys @ [FrameT f] \<and> fr_reliability f = reliability m \<and> wb_items b' (ys @ [FrameT (frame_add f m)]))"
    using encode_network_items [OF lim b 1] 1 by (cases res) auto
next
  obtain b' res where 1: "wb_encode_frame lim b m h = (b', res)" by (cases "wb_encode_frame lim b m h")
  show "case wb_encode_frame lim b m h of
      (b', Inl e) \<Rightarrow> b' = b
    | (b', Inr _) \<Rightarrow> wb_items b' (xs @ [FrameT (frame_with h [m])]) \<and> fr_reliability h = reliability m"
    using encode_frame_items [OF lim b 1] 1 by (cases res) auto
next
  assume "xs = []"
  then have b0: "wb_items b []" using b by simp
  obtain b' r' f' res where 1: "wb_encode_fragment lim b r f = (b', r', f', res)" by (metis prod_cases4)
  show "case wb_encode_fragment lim b r f of
      (b', r', f', None) \<Rightarrow> b' = b \<and> r' = r
    | (b', r', f', Some n) \<Rightarrow> (\<exists>p. p \<noteq> [] \<and> r = p @ r' \<and> f' = f\<lparr>fg_more := fg_more f \<and> r' \<noteq> []\<rparr> \<and>
        wb_items b' [FragmentT (fragment_with f' p)])"
    using encode_fragment_items [OF lim b0 1] 1 by (cases res) auto
next
  show "bb_len (wb_buffer b) \<le> unat (bc_mtu (wb_config b))"
    using b by (auto simp: wb_items_def wb_holds_def wb_sized_def bb_ok_def)
qed

definition example_lim :: limit where
  "example_lim bs n = min (length bs) n"

lemma example_lim_slot: "slot_limit example_lim"
  by (simp add: slot_limit_def example_lim_def)

theorem batch_encoding_witness:
  "(case wb_encode_frame example_lim (wb_new example_batch_config) example_final (frame_of U8 (reliability example_final) TQOS_DEFAULT 3) of
      (b', Inl e) \<Rightarrow> b' = wb_new example_batch_config
    | (b', Inr _) \<Rightarrow> wb_items b' [FrameT (frame_with (frame_of U8 (reliability example_final) TQOS_DEFAULT 3) [example_final])]) \<and>
   bb_len (wb_buffer (wb_new example_batch_config)) \<le> 20"
proof -
  have "wb_items (wb_new example_batch_config) []"
    by (rule wb_items_new) (simp add: wb_prefix_def example_batch_config_def)
  moreover have "unat (bc_mtu (wb_config (wb_new example_batch_config))) = 20"
    by (simp add: wb_new_def example_batch_config_def)
  ultimately show ?thesis
    using batch_encoding [OF example_lim_slot, of "wb_new example_batch_config" "[]" example_final
        "frame_of U8 (reliability example_final) TQOS_DEFAULT 3"]
    by (auto split: prod.splits sum.splits)
qed

text \<open>(C8) Receiving the bytes of batches is receiving the messages that were encoded on them, one after
  the other, whatever the state of the receiver and the application.\<close>

theorem batch_reception:
  assumes "list_all2 (\<lambda>b xs. wb_items b xs \<and> items_ok idf xs) bs xss" "list_all2 wb_holds bs ps"
  shows "read_batches idf cb st ps = handle_items idf cb st (concat xss)"
proof (rule read_batches_items)
  have "p = p'" if "wb_holds b p" "wb_holds b p'" for b p p' using that by (simp add: wb_holds_def)
  then show "list_all2 (\<lambda>p xs. items_ok idf xs \<and> wcat (map write_transport xs) = Some p) ps xss"
    using assms unfolding list_all2_conv_all_nth by (metis wb_items_holds)
qed

definition example_frame :: Frame where
  "example_frame = frame_with (frame_of U8 (reliability example_final) TQOS_DEFAULT 3) [example_final]"

theorem batch_reception_witness:
  "\<exists>b p. wb_items b [FrameT example_frame] \<and> wb_holds b p \<and>
     read_batches Some (\<lambda>_. True) example_rx_state [p, [4]] =
       handle_items Some (\<lambda>_. True) example_rx_state [FrameT example_frame, KeepAliveT KeepAlive]"
proof -
  let ?h = "frame_of U8 (reliability example_final) TQOS_DEFAULT 3"
  have new: "wb_items (wb_new example_batch_config) []"
    by (rule wb_items_new) (simp add: wb_prefix_def example_batch_config_def)
  obtain b res where e: "wb_encode_frame example_lim (wb_new example_batch_config) example_final ?h = (b, res)" by fastforce
  have "snd (wb_encode_frame example_lim (wb_new example_batch_config) example_final ?h) = Inr ()" by code_simp
  then have f: "wb_items b [FrameT example_frame]"
    using encode_frame_items [OF example_lim_slot new e] e by (simp add: example_frame_def)
  then obtain p where p: "wb_holds b p" using wb_items_holds by blast
  have k: "wb_items (example_batch [4]) [KeepAliveT KeepAlive]" using example_batch_holds [of "[4]"]
    by (simp add: wb_items_def last_frame_def write_keep_alive_def write_u8_def tid_KEEP_ALIVE_def wcat.simps
        example_batch_def wb_new_def Let_def)
  have "items_ok Some [FrameT example_frame]"
    by (simp add: example_frame_def frame_ok_def frame_with_def frame_of_def FrameHeader.extend_def example_final_def
        network_message_from_def net_ok_def)
  then show ?thesis
    using batch_reception [of Some "[b, example_batch [4]]" "[[FrameT example_frame], [KeepAliveT KeepAlive]]" "[p, [4]]"] f k p
    by (auto simp: example_batch_holds)
qed

end
