(* ===== verification/Transport_Pipeline.thy ===== *)
theory Transport_Pipeline
  imports Transport_Items
begin

text \<open>
  The transmission pipeline (\<open>io/zenoh-transport/src/common/pipeline.rs\<close>): the queue of one priority
  with its producer side, where messages are serialised on batches, and its consumer side, from
  which the link task pulls them; then the pipeline with its priorities.

  The ring buffers come from the crate \<open>ringbuffer_spsc\<close>: their operations are parameters.  So are
  the clock, the space limit of the encoders (see \<open>Transport_Batch\<close>) and what happens while the
  producer sleeps: a wait takes the next \<open>wait_event\<close> of a list, which says how many batches the
  consumer took and how many it gave back in the meantime, and why the wait ended.  The current
  batch is locked during a push, so that nothing else changes.  A push that waits beyond the end of
  the list is \<open>Blocked\<close>.  Wake-ups carry no data and are left out.
\<close>

section \<open>Deadlines\<close>

text \<open>Durations and instants in nanoseconds, never negative.\<close>

definition DURATION_MAX :: int where
  "DURATION_MAX = 18446744073709551615 * 1000000000 + 999999999"

record WaitTime =
  wt_wait_time :: int
  wt_max_wait_time :: "int option"

definition wait_time_advance :: "WaitTime \<Rightarrow> int \<Rightarrow> WaitTime \<times> int" where
  "wait_time_advance w instant =
     (let t = min (2 * wt_wait_time w) DURATION_MAX; w = w\<lparr>wt_wait_time := t\<rparr> in
      case wt_max_wait_time w of
        Some m \<Rightarrow>
          if m = 0 then (w, instant)
          else if m \<le> t then (w\<lparr>wt_max_wait_time := Some 0\<rparr>, instant + m)
          else (w\<lparr>wt_max_wait_time := Some (m - t)\<rparr>, instant + t)
      | None \<Rightarrow> (w, instant))"

datatype DeadlineSetting = Immediate | Finite int

record Deadline =
  dl_deadline :: "DeadlineSetting option"
  dl_wait_time :: WaitTime

definition deadline_new :: "int \<Rightarrow> int option \<Rightarrow> Deadline" where
  "deadline_new wait_time max_wait_time =
     \<lparr>dl_deadline = None, dl_wait_time = \<lparr>wt_wait_time = wait_time, wt_max_wait_time = max_wait_time\<rparr>\<rparr>"

text \<open>\<open>LazyDeadline::deadline\<close>: the first call fixes the deadline, \<open>now\<close> being the current instant.\<close>

definition deadline_get :: "int \<Rightarrow> Deadline \<Rightarrow> Deadline \<times> DeadlineSetting" where
  "deadline_get now d =
     (let s = (case dl_deadline d of
                 Some s \<Rightarrow> s
               | None \<Rightarrow> if wt_wait_time (dl_wait_time d) = 0 then Immediate
                         else Finite (now + wt_wait_time (dl_wait_time d)))
      in (d\<lparr>dl_deadline := Some s\<rparr>, s))"

definition on_next_fragment :: "int \<Rightarrow> Deadline \<Rightarrow> Deadline" where
  "on_next_fragment now d =
     (case deadline_get now d of
        (d, Immediate) \<Rightarrow> d
      | (d, Finite instant) \<Rightarrow>
          (case wait_time_advance (dl_wait_time d) instant of
             (w, instant) \<Rightarrow> d\<lparr>dl_wait_time := w, dl_deadline := Some (Finite instant)\<rparr>))"

section \<open>The queue of a priority\<close>

record TransmissionPipelineStatus =
  ps_disabled :: bool
  ps_congested :: u8
  ps_pending :: u8

record 'r ring_ops =
  rg_push :: "'r \<Rightarrow> WBatch \<Rightarrow> 'r \<times> WBatch option"
  rg_pull :: "'r \<Rightarrow> 'r \<times> WBatch option"

record 'r env =
  e_ring :: "'r ring_ops"
  e_lim :: limit
  e_clk :: "nat \<Rightarrow> u32"
  e_now :: int
  e_send :: "WBatch \<Rightarrow> WBatch"

text \<open>\<open>StageIn\<close> and \<open>StageOut\<close> of one priority with what they share: the refill ring and the number of
  batches allocated, the ring of the batches to send, the current batch, the backoff, the status.
  Two fields record the link task: \<open>q_pulled\<close> the batches that it has taken, in order, and \<open>q_lent\<close>
  those that it has not given back yet; \<open>e_send\<close> is what sending leaves of a batch.\<close>

record 'r Queue =
  q_ref :: 'r
  q_allocs :: nat
  q_num :: nat
  q_config :: BatchConfig
  q_out :: 'r
  q_bytes :: u16
  q_active :: bool
  q_first_write :: u32
  q_ticks :: nat
  q_current :: "WBatch option"
  q_prio :: Priority
  q_priority_tx :: TransportPriorityTx
  q_batching :: bool
  q_last_bytes :: u16
  q_threshold :: u32
  q_status :: TransmissionPipelineStatus
  q_pulled :: "WBatch list"
  q_lent :: "WBatch list"

definition prioflag :: "Priority \<Rightarrow> u8" where
  "prioflag p = push_bit (unat (priority_u8 p)) 1"

definition set_congested :: "TransmissionPipelineStatus \<Rightarrow> Priority \<Rightarrow> bool \<Rightarrow> TransmissionPipelineStatus" where
  "set_congested s p status =
     s\<lparr>ps_congested := (if status then ps_congested s OR prioflag p else ps_congested s AND NOT (prioflag p))\<rparr>"

definition is_congested :: "TransmissionPipelineStatus \<Rightarrow> Priority \<Rightarrow> bool" where
  "is_congested s p \<longleftrightarrow> ps_congested s AND prioflag p \<noteq> 0"

definition notify_pending :: "'r Queue \<Rightarrow> 'r Queue" where
  "notify_pending q = q\<lparr>q_status := (q_status q)\<lparr>ps_pending := ps_pending (q_status q) OR prioflag (q_prio q)\<rparr>\<rparr>"

definition reset_pending :: "'r Queue \<Rightarrow> 'r Queue" where
  "reset_pending q = q\<lparr>q_status := (q_status q)\<lparr>ps_pending := ps_pending (q_status q) AND NOT (prioflag (q_prio q))\<rparr>\<rparr>"

text \<open>\<open>StageInRefill::pull\<close>.\<close>

definition refill_pull :: "'r env \<Rightarrow> 'r Queue \<Rightarrow> 'r Queue \<times> WBatch option" where
  "refill_pull e q =
     (case rg_pull (e_ring e) (q_ref q) of
        (r, Some b) \<Rightarrow> (q\<lparr>q_ref := r\<rparr>, Some b)
      | (r, None) \<Rightarrow>
          if q_allocs q < q_num q
          then (q\<lparr>q_ref := r, q_allocs := q_allocs q + 1\<rparr>, Some (wb_new (q_config q)))
          else (q\<lparr>q_ref := r\<rparr>, None))"

text \<open>\<open>StageInOut::notify\<close> and \<open>move_batch\<close>; a batch that the ring refuses is dropped.\<close>

definition out_notify :: "'r Queue \<Rightarrow> u16 \<Rightarrow> 'r Queue" where
  "out_notify q bytes = q\<lparr>q_bytes := bytes\<rparr>"

definition move_batch :: "'r env \<Rightarrow> 'r Queue \<Rightarrow> WBatch \<Rightarrow> 'r Queue" where
  "move_batch e q b = q\<lparr>q_out := fst (rg_push (e_ring e) (q_out q) b), q_bytes := 0\<rparr>"

text \<open>\<open>StageOutRefill::refill\<close> with its assertion, and \<open>refill\<close> of the consumer.\<close>

definition stage_refill :: "'r env \<Rightarrow> 'r Queue \<Rightarrow> WBatch \<Rightarrow> 'r Queue option" where
  "stage_refill e q b =
     (case rg_push (e_ring e) (q_ref q) b of
        (r, None) \<Rightarrow> Some (q\<lparr>q_ref := r\<rparr>)
      | (r, Some _) \<Rightarrow> None)"

definition consumer_refill :: "'r env \<Rightarrow> 'r Queue \<Rightarrow> WBatch \<Rightarrow> 'r Queue option" where
  "consumer_refill e q b =
     (if wb_ephemeral b then Some q
      else do { q \<leftarrow> stage_refill e q b;
                Some (q\<lparr>q_status := set_congested (q_status q) (q_prio q) False\<rparr>) })"

section \<open>Waiting\<close>

datatype wait_event = Woken nat nat | Expired nat nat | Disconnected

text \<open>The consumer takes a batch, and gives back the oldest one that it holds.\<close>

definition lend :: "'r Queue \<Rightarrow> WBatch \<Rightarrow> 'r Queue" where
  "lend q b = q\<lparr>q_pulled := q_pulled q @ [b], q_lent := q_lent q @ [b]\<rparr>"

fun consumer_takes :: "'r env \<Rightarrow> nat \<Rightarrow> 'r Queue \<Rightarrow> 'r Queue" where
  "consumer_takes e 0 q = q"
| "consumer_takes e (Suc n) q =
     (case rg_pull (e_ring e) (q_out q) of
        (r, Some b) \<Rightarrow> consumer_takes e n (lend (q\<lparr>q_out := r, q_active := False\<rparr>) b)
      | (r, None) \<Rightarrow> q\<lparr>q_out := r\<rparr>)"

definition consumer_return :: "'r env \<Rightarrow> 'r Queue \<Rightarrow> 'r Queue option" where
  "consumer_return e q =
     (case q_lent q of [] \<Rightarrow> Some q | b # bs \<Rightarrow> consumer_refill e (q\<lparr>q_lent := bs\<rparr>) (e_send e b))"

fun consumer_gives :: "'r env \<Rightarrow> nat \<Rightarrow> 'r Queue \<Rightarrow> 'r Queue option" where
  "consumer_gives e 0 q = Some q"
| "consumer_gives e (Suc n) q = do { q \<leftarrow> consumer_return e q; consumer_gives e n q }"

datatype 'r got =
    Got WBatch "'r Queue" Deadline "wait_event list"
  | GotNone "'r Queue" Deadline "wait_event list"
  | GotClosed "'r Queue"
  | GotBlocked "'r Queue"
  | GotPanic "'r Queue"

text \<open>The loop of \<open>zgetbatch_rets!\<close>.\<close>

fun get_batch :: "'r env \<Rightarrow> 'r Queue \<Rightarrow> Deadline \<Rightarrow> wait_event list \<Rightarrow> 'r got" where
  "get_batch e q d evs =
     (case q_current q of
        Some b \<Rightarrow> Got b (q\<lparr>q_current := None\<rparr>) d evs
      | None \<Rightarrow>
          (case refill_pull e q of
             (q, Some b) \<Rightarrow>
               Got (wb_clear b) (q\<lparr>q_first_write := e_clk e (q_ticks q), q_ticks := q_ticks q + 1\<rparr>) d evs
           | (q, None) \<Rightarrow>
               (case deadline_get (e_now e) d of
                  (d, Immediate) \<Rightarrow> GotNone q d evs
                | (d, Finite _) \<Rightarrow>
                    (case evs of
                       [] \<Rightarrow> GotBlocked q
                     | Woken n k # evs \<Rightarrow>
                         (case consumer_gives e k (consumer_takes e n q) of
                            None \<Rightarrow> GotPanic q
                          | Some q \<Rightarrow> get_batch e q d evs)
                     | Expired n k # evs \<Rightarrow>
                         (case consumer_gives e k (consumer_takes e n q) of
                            None \<Rightarrow> GotPanic q
                          | Some q \<Rightarrow> GotNone q d evs)
                     | Disconnected # evs \<Rightarrow> GotClosed q))))"

declare get_batch.simps [simp del]

section \<open>Pushing a network message\<close>

datatype push_result = Pushed bool | TransportClosed | PushPanic | Blocked

type_synonym 'r pushed = "'r Queue \<times> Deadline \<times> wait_event list \<times> push_result"

definition get_gen :: "'r Queue \<Rightarrow> Reliability \<Rightarrow> SeqNumGenerator" where
  "get_gen q rel = (case rel of Reliable \<Rightarrow> tx_sn (ptx_reliable (q_priority_tx q))
     | BestEffort \<Rightarrow> tx_sn (ptx_best_effort (q_priority_tx q)))"

definition put_gen :: "'r Queue \<Rightarrow> Reliability \<Rightarrow> SeqNumGenerator \<Rightarrow> 'r Queue" where
  "put_gen q rel g = q\<lparr>q_priority_tx := (case rel of
     Reliable \<Rightarrow> (q_priority_tx q)\<lparr>ptx_reliable := (ptx_reliable (q_priority_tx q))\<lparr>tx_sn := g\<rparr>\<rparr>
   | BestEffort \<Rightarrow> (q_priority_tx q)\<lparr>ptx_best_effort := (ptx_best_effort (q_priority_tx q))\<lparr>tx_sn := g\<rparr>\<rparr>)\<rparr>"

text \<open>\<open>tch.sn.set(sn).unwrap()\<close>\<close>

definition restore_sn :: "'r Queue \<Rightarrow> Reliability \<Rightarrow> TransportSn \<Rightarrow> 'r Queue option" where
  "restore_sn q rel sn =
     (case gen_set (get_gen q rel) sn of Inl _ \<Rightarrow> None | Inr g \<Rightarrow> Some (put_gen q rel g))"

text \<open>\<open>zretok!\<close>\<close>

definition ret_ok :: "'r env \<Rightarrow> 'r Queue \<Rightarrow> WBatch \<Rightarrow> bool \<Rightarrow> 'r Queue \<times> push_result" where
  "ret_ok e q b express =
     (if \<not> q_batching q \<or> express then (move_batch e q b, Pushed True)
      else
        (case wb_len b of
           None \<Rightarrow> (q, PushPanic)
         | Some bytes \<Rightarrow> (out_notify (q\<lparr>q_current := Some b\<rparr>) bytes, Pushed True)))"

text \<open>The fragment that tells the receiver to drop the fragments already sent: an ephemeral batch,
  encoded from an empty buffer.\<close>

definition send_stop :: "'r env \<Rightarrow> 'r Queue \<Rightarrow> FragmentHeader \<Rightarrow> 'r Queue" where
  "send_stop e q f =
     (let b = wb_new_ephemeral (q_config q); f = f\<lparr>fg_drop := True\<rparr> in
      case wb_encode_fragment (e_lim e) b [] f of (b, _, _, _) \<Rightarrow> move_batch e q b)"

lemma encode_fragment_shorter:
  "wb_encode_fragment lim b r f = (b', r', f', Some n) \<Longrightarrow> length r' < length r"
  by (auto simp: wb_encode_fragment_def zb_write_fragment_def siphon_def bb_write_def Let_def
      split: prod.splits bool.splits option.splits if_splits)

text \<open>The loop over the fragments; \<open>r\<close> is what is left of the message and \<open>sn\<close> its first number.\<close>

function frag_loop ::
  "'r env \<Rightarrow> TransportSn \<Rightarrow> 'r Queue \<Rightarrow> FragmentHeader \<Rightarrow> bytes \<Rightarrow> Deadline \<Rightarrow> wait_event list \<Rightarrow> 'r pushed" where
  "frag_loop e sn q f r d evs =
     (if r = [] then (q, d, evs, Pushed True)
      else
        (case get_batch e q d evs of
           GotClosed q \<Rightarrow> (q, d, evs, TransportClosed)
         | GotBlocked q \<Rightarrow> (q, d, evs, Blocked)
         | GotPanic q \<Rightarrow> (q, d, evs, PushPanic)
         | GotNone q d evs \<Rightarrow>
             if fg_first f then
               (case restore_sn q (fg_reliability f) sn of
                  None \<Rightarrow> (q, d, evs, PushPanic)
                | Some q \<Rightarrow> (q, d, evs, Pushed False))
             else (send_stop e q f, d, evs, Pushed False)
         | Got b q d evs \<Rightarrow>
             (case wb_encode_fragment (e_lim e) b r f of
                (b, r, f, Some _) \<Rightarrow>
                  (case gen_get (get_gen q (fg_reliability f)) of
                     (sn', g) \<Rightarrow>
                       let q = put_gen q (fg_reliability f) g; f = f\<lparr>fg_sn := sn', fg_first := False\<rparr>;
                           q = move_batch e q b in
                       frag_loop e sn q f r (on_next_fragment (e_now e) d) evs)
              | (b, r, f, None) \<Rightarrow>
                  (case restore_sn q (fg_reliability f) sn of
                     None \<Rightarrow> (q, d, evs, PushPanic)
                   | Some q \<Rightarrow> (q\<lparr>q_current := Some b\<rparr>, d, evs, Pushed True)))))"
  by pat_completeness auto
termination
  by (relation "measure (\<lambda>(e, sn, q, f, r, d, evs). length r)") (auto dest!: encode_fragment_shorter [OF sym])

declare frag_loop.simps [simp del]

definition push_fragments ::
  "'r env \<Rightarrow> 'r Queue \<Rightarrow> NetworkMessage \<Rightarrow> FrameHeader \<Rightarrow> Deadline \<Rightarrow> wait_event list \<Rightarrow> 'r pushed" where
  "push_fragments e q msg frame d evs =
     (case write_network_message msg of
        None \<Rightarrow> (q, d, evs, PushPanic)
      | Some fragbuf \<Rightarrow>
          let fragment = \<lparr>fg_qos = fr_qos frame, fg_first = True, fg_drop = False,
                fg_reliability = fr_reliability frame, fg_more = True, fg_sn = fr_sn frame\<rparr>
          in frag_loop e (fr_sn frame) q fragment fragbuf d evs)"

text \<open>The second attempt, on an empty batch.\<close>

definition push_second ::
  "'r env \<Rightarrow> 'r Queue \<Rightarrow> WBatch \<Rightarrow> NetworkMessage \<Rightarrow> FrameHeader \<Rightarrow> Deadline \<Rightarrow> wait_event list \<Rightarrow> 'r pushed" where
  "push_second e q b msg frame d evs =
     (case wb_encode_frame (e_lim e) b msg frame of
        (b, Inr _) \<Rightarrow> (case ret_ok e q b (msg_is_express msg) of (q, r) \<Rightarrow> (q, d, evs, r))
      | (b, Inl _) \<Rightarrow> push_fragments e (q\<lparr>q_current := Some b\<rparr>) msg frame d evs)"

definition push_new_batch ::
  "'r env \<Rightarrow> 'r Queue \<Rightarrow> WBatch \<Rightarrow> NetworkMessage \<Rightarrow> FrameHeader \<Rightarrow> Deadline \<Rightarrow> wait_event list \<Rightarrow> 'r pushed" where
  "push_new_batch e q b msg frame d evs =
     (case wb_is_empty b of
        None \<Rightarrow> (q, d, evs, PushPanic)
      | Some True \<Rightarrow> push_second e q b msg frame d evs
      | Some False \<Rightarrow>
          (case get_batch e (move_batch e q b) d evs of
             GotClosed q \<Rightarrow> (q, d, evs, TransportClosed)
           | GotBlocked q \<Rightarrow> (q, d, evs, Blocked)
           | GotPanic q \<Rightarrow> (q, d, evs, PushPanic)
           | GotNone q d evs \<Rightarrow>
               (case restore_sn q (reliability msg) (fr_sn frame) of
                  None \<Rightarrow> (q, d, evs, PushPanic)
                | Some q \<Rightarrow> (q, d, evs, Pushed False))
           | Got b q d evs \<Rightarrow> push_second e q b msg frame d evs))"

definition push_network_message ::
  "'r env \<Rightarrow> 'r Queue \<Rightarrow> NetworkMessage \<Rightarrow> Priority \<Rightarrow> Deadline \<Rightarrow> wait_event list \<Rightarrow> 'r pushed" where
  "push_network_message e q msg priority d evs =
     (case get_batch e (notify_pending q) d evs of
        GotClosed q \<Rightarrow> (q, d, evs, TransportClosed)
      | GotBlocked q \<Rightarrow> (q, d, evs, Blocked)
      | GotPanic q \<Rightarrow> (q, d, evs, PushPanic)
      | GotNone q d evs \<Rightarrow> (q, d, evs, Pushed False)
      | Got b q d evs \<Rightarrow>
          (case wb_encode_network (e_lim e) b msg of
             (b, Inr _) \<Rightarrow> (case ret_ok e q b (msg_is_express msg) of (q, r) \<Rightarrow> (q, d, evs, r))
           | (b, Inl err) \<Rightarrow>
               (case gen_get (get_gen q (reliability msg)) of
                  (sn, g) \<Rightarrow>
                    let q = put_gen q (reliability msg) g;
                        frame = \<lparr>fr_qos = tqos_new priority, fr_reliability = reliability msg, fr_sn = sn\<rparr>
                    in
                    if err = NewFrame then
                      (case wb_encode_frame (e_lim e) b msg frame of
                         (b, Inr _) \<Rightarrow> (case ret_ok e q b (msg_is_express msg) of (q, r) \<Rightarrow> (q, d, evs, r))
                       | (b, Inl _) \<Rightarrow> push_new_batch e q b msg frame d evs)
                    else push_new_batch e q b msg frame d evs)))"

section \<open>Pushing a transport message\<close>

text \<open>Here the wait has no deadline.\<close>

fun get_batch_wait :: "'r env \<Rightarrow> 'r Queue \<Rightarrow> wait_event list \<Rightarrow> 'r got" where
  "get_batch_wait e q evs =
     (let d = deadline_new 0 None in
      case q_current q of
        Some b \<Rightarrow> Got b (q\<lparr>q_current := None\<rparr>) d evs
      | None \<Rightarrow>
          (case refill_pull e q of
             (q, Some b) \<Rightarrow>
               Got (wb_clear b) (q\<lparr>q_first_write := e_clk e (q_ticks q), q_ticks := q_ticks q + 1\<rparr>) d evs
           | (q, None) \<Rightarrow>
               (case evs of
                  [] \<Rightarrow> GotBlocked q
                | Disconnected # evs \<Rightarrow> GotClosed q
                | Woken n k # evs \<Rightarrow>
                    (case consumer_gives e k (consumer_takes e n q) of
                       None \<Rightarrow> GotPanic q
                     | Some q \<Rightarrow> get_batch_wait e q evs)
                | Expired n k # evs \<Rightarrow>
                    (case consumer_gives e k (consumer_takes e n q) of
                       None \<Rightarrow> GotPanic q
                     | Some q \<Rightarrow> get_batch_wait e q evs))))"

declare get_batch_wait.simps [simp del]

text \<open>The last attempt is made on a batch that is neither kept as the current one nor moved out: it is
  dropped with what was written on it.\<close>

definition push_transport_again :: "'r env \<Rightarrow> 'r Queue \<Rightarrow> WBatch \<Rightarrow> TransportBody \<Rightarrow> wait_event list \<Rightarrow> 'r Queue \<times> wait_event list \<times> push_result" where
  "push_transport_again e q b msg evs = (q, evs, Pushed (snd (wb_encode_transport (e_lim e) b msg)))"

definition push_transport_message ::
  "'r env \<Rightarrow> 'r Queue \<Rightarrow> TransportBody \<Rightarrow> wait_event list \<Rightarrow> 'r Queue \<times> wait_event list \<times> push_result" where
  "push_transport_message e q msg evs =
     (case get_batch_wait e (notify_pending q) evs of
        GotClosed q \<Rightarrow> (q, evs, Pushed False)
      | GotBlocked q \<Rightarrow> (q, evs, Blocked)
      | GotPanic q \<Rightarrow> (q, evs, PushPanic)
      | GotNone q _ evs \<Rightarrow> (q, evs, Pushed False)
      | Got b q _ evs \<Rightarrow>
          (case wb_encode_transport (e_lim e) b msg of
             (b, True) \<Rightarrow> (case ret_ok e q b False of (q, r) \<Rightarrow> (q, evs, r))
           | (b, False) \<Rightarrow>
               (case wb_is_empty b of
                  None \<Rightarrow> (q, evs, PushPanic)
                | Some True \<Rightarrow> push_transport_again e q b msg evs
                | Some False \<Rightarrow>
                    (case get_batch_wait e (move_batch e q b) evs of
                       GotClosed q \<Rightarrow> (q, evs, Pushed False)
                     | GotBlocked q \<Rightarrow> (q, evs, Blocked)
                     | GotPanic q \<Rightarrow> (q, evs, PushPanic)
                     | GotNone q _ evs \<Rightarrow> (q, evs, Pushed False)
                     | Got b q _ evs \<Rightarrow> push_transport_again e q b msg evs))))"

section \<open>Pulling batches\<close>

datatype Pull = PullSome WBatch | PullNone | PullBackoff u32

definition saturating_sub :: "u32 \<Rightarrow> u32 \<Rightarrow> u32" where
  "saturating_sub a b = (if b \<le> a then a - b else 0)"

text \<open>Whether to pull, and for how long to back off otherwise.\<close>

definition backoff_check :: "'r env \<Rightarrow> 'r Queue \<Rightarrow> 'r Queue \<times> bool \<times> u32" where
  "backoff_check e q =
     (if \<not> q_active q then (q, True, 0)
      else
        let pull = (q_bytes q = q_last_bytes q); q = q\<lparr>q_last_bytes := q_bytes q\<rparr> in
        if pull then (q, True, 0)
        else
          let diff = saturating_sub (e_clk e (q_ticks q)) (q_first_write q);
              q = q\<lparr>q_ticks := q_ticks q + 1\<rparr>
          in if q_threshold q \<le> diff then (q, True, 0) else (q, False, q_threshold q - diff))"

text \<open>With the lock on the current batch.\<close>

definition pull_locked :: "'r env \<Rightarrow> 'r Queue \<Rightarrow> 'r Queue \<times> Pull" where
  "pull_locked e q =
     (case rg_pull (e_ring e) (q_out q) of
        (r, Some b) \<Rightarrow> (lend (q\<lparr>q_out := r\<rparr>) b, PullSome b)
      | (r, None) \<Rightarrow>
          let q = reset_pending (q\<lparr>q_out := r\<rparr>) in
          (case q_current q of
             Some b \<Rightarrow> (lend (q\<lparr>q_current := None\<rparr>) b, PullSome b)
           | None \<Rightarrow> (q, PullNone)))"

text \<open>\<open>free\<close> says whether \<open>try_lock\<close> on the current batch succeeds.\<close>

definition try_pull_deep :: "'r env \<Rightarrow> bool \<Rightarrow> 'r Queue \<Rightarrow> 'r Queue \<times> Pull" where
  "try_pull_deep e free q =
     (case backoff_check e q of
        (q, pull, backoff) \<Rightarrow>
          if pull \<and> free then pull_locked e (q\<lparr>q_active := False\<rparr>)
          else (q\<lparr>q_active := True\<rparr>, PullBackoff backoff))"

definition try_pull :: "'r env \<Rightarrow> bool \<Rightarrow> 'r Queue \<Rightarrow> 'r Queue \<times> Pull" where
  "try_pull e free q =
     (case rg_pull (e_ring e) (q_out q) of
        (r, Some b) \<Rightarrow> (lend (q\<lparr>q_out := r, q_active := False\<rparr>) b, PullSome b)
      | (r, None) \<Rightarrow> try_pull_deep e free (q\<lparr>q_out := r\<rparr>))"

text \<open>\<open>StageOut::drain\<close>; the ring holds at most \<open>RBLEN\<close> batches, so that as many rounds empty it.\<close>

definition RBLEN :: nat where "RBLEN = 16"

fun drain_ring :: "'r env \<Rightarrow> nat \<Rightarrow> 'r \<Rightarrow> 'r \<times> WBatch list" where
  "drain_ring e 0 r = (r, [])"
| "drain_ring e (Suc n) r =
     (case rg_pull (e_ring e) r of
        (r, None) \<Rightarrow> (r, [])
      | (r, Some b) \<Rightarrow> (case drain_ring e n r of (r, bs) \<Rightarrow> (r, b # bs)))"

definition stage_drain :: "'r env \<Rightarrow> 'r Queue \<Rightarrow> 'r Queue \<times> WBatch list" where
  "stage_drain e q =
     (case drain_ring e RBLEN (q_out q) of
        (r, bs) \<Rightarrow>
          let bs = bs @ (case q_current q of None \<Rightarrow> [] | Some b \<Rightarrow> [b]) in
          (foldl lend (q\<lparr>q_out := r, q_current := None\<rparr>) bs, bs))"

end
