(* ===== verification/Transport_Queue.thy ===== *)
theory Transport_Queue
  imports Transport_Pipeline
begin

text \<open>
  Invariants of the queue of a priority: the batches that circulate between the producer, the two
  rings and the link task, the sequence numbers, and the messages that the batches carry.
\<close>

section \<open>The environment\<close>

text \<open>What the queue relies on: a ring buffer is a bounded queue, and sending a batch keeps its memory.\<close>

definition ring_laws :: "'r ring_ops \<Rightarrow> ('r \<Rightarrow> WBatch list) \<Rightarrow> bool" where
  "ring_laws ops lst \<longleftrightarrow>
     (\<forall>r b. if length (lst r) < RBLEN
        then snd (rg_push ops r b) = None \<and> lst (fst (rg_push ops r b)) = lst r @ [b]
        else snd (rg_push ops r b) = Some b \<and> lst (fst (rg_push ops r b)) = lst r) \<and>
     (\<forall>r. case lst r of
        [] \<Rightarrow> snd (rg_pull ops r) = None \<and> lst (fst (rg_pull ops r)) = []
      | b # bs \<Rightarrow> snd (rg_pull ops r) = Some b \<and> lst (fst (rg_pull ops r)) = bs) \<and>
     (\<forall>r. length (lst r) \<le> RBLEN)"

definition env_ok :: "'r env \<Rightarrow> ('r \<Rightarrow> WBatch list) \<Rightarrow> bool" where
  "env_ok e lst \<longleftrightarrow> ring_laws (e_ring e) lst \<and> slot_limit (e_lim e) \<and>
     (\<forall>b. wb_config (e_send e b) = wb_config b \<and> wb_ephemeral (e_send e b) = wb_ephemeral b \<and>
       (wb_sized b \<longrightarrow> wb_sized (e_send e b)))"

lemma ring_push:
  assumes "env_ok e lst"
  shows "length (lst r) < RBLEN \<Longrightarrow> \<exists>r'. rg_push (e_ring e) r b = (r', None) \<and> lst r' = lst r @ [b]"
    and "\<not> length (lst r) < RBLEN \<Longrightarrow> \<exists>r'. rg_push (e_ring e) r b = (r', Some b) \<and> lst r' = lst r"
  using assms unfolding env_ok_def ring_laws_def by (metis prod.collapse)+

lemma ring_pull:
  assumes "env_ok e lst"
  shows "lst r = [] \<Longrightarrow> \<exists>r'. rg_pull (e_ring e) r = (r', None) \<and> lst r' = []"
    and "lst r = b # bs \<Longrightarrow> \<exists>r'. rg_pull (e_ring e) r = (r', Some b) \<and> lst r' = bs"
proof -
  have "case lst r of [] \<Rightarrow> snd (rg_pull (e_ring e) r) = None \<and> lst (fst (rg_pull (e_ring e) r)) = []
      | b # bs \<Rightarrow> snd (rg_pull (e_ring e) r) = Some b \<and> lst (fst (rg_pull (e_ring e) r)) = bs"
    using assms by (simp add: env_ok_def ring_laws_def)
  then show "lst r = [] \<Longrightarrow> \<exists>r'. rg_pull (e_ring e) r = (r', None) \<and> lst r' = []"
    "lst r = b # bs \<Longrightarrow> \<exists>r'. rg_pull (e_ring e) r = (r', Some b) \<and> lst r' = bs"
    by (cases "rg_pull (e_ring e) r"; simp)+
qed

section \<open>Circulation of the batches\<close>

abbreviation real :: "WBatch list \<Rightarrow> WBatch list" where
  "real bs \<equiv> filter (\<lambda>b. \<not> wb_ephemeral b) bs"

definition in_hand :: "'r Queue \<Rightarrow> WBatch list" where
  "in_hand q = (case q_current q of None \<Rightarrow> [] | Some b \<Rightarrow> [b])"

definition load :: "('r \<Rightarrow> WBatch list) \<Rightarrow> 'r Queue \<Rightarrow> nat" where
  "load lst q = length (lst (q_ref q)) + length (real (lst (q_out q))) + length (in_hand q) + length (real (q_lent q))"

text \<open>Two ephemeral batches are never next to each other in the ring.\<close>

definition spread :: "WBatch list \<Rightarrow> bool" where
  "spread bs = successively (\<lambda>a b. \<not> (wb_ephemeral a \<and> wb_ephemeral b)) bs"

definition settled :: "WBatch list \<Rightarrow> bool" where
  "settled bs \<longleftrightarrow> bs \<noteq> [] \<longrightarrow> \<not> wb_ephemeral (last bs)"

definition batch_ok :: "BatchConfig \<Rightarrow> WBatch \<Rightarrow> bool" where
  "batch_ok c b \<longleftrightarrow> wb_sized b \<and> wb_config b = c"

definition MTU_MIN :: nat where "MTU_MIN = 55"

text \<open>The bound of eight batches keeps room in the output ring for the ephemeral ones: as two of these are never next
  to each other, eight batches need at most sixteen places (see \<open>full_ring_drops\<close> for what happens beyond; the
  configuration allows sixteen batches, its default is two).  The bound on the size of a batch keeps room for
  a byte after the header of a fragment.\<close>

definition queue_ok :: "('r \<Rightarrow> WBatch list) \<Rightarrow> 'r Queue \<Rightarrow> bool" where
  "queue_ok lst q \<longleftrightarrow> load lst q \<le> q_allocs q \<and> q_allocs q \<le> q_num q \<and> q_num q \<le> 8 \<and> spread (lst (q_out q)) \<and>
     (\<forall>b\<in>set (lst (q_ref q) @ lst (q_out q) @ in_hand q @ q_lent q). batch_ok (q_config q) b) \<and>
     (\<forall>b\<in>set (lst (q_ref q) @ in_hand q). \<not> wb_ephemeral b) \<and>
     MTU_MIN \<le> unat (bc_mtu (q_config q))"

text \<open>What the producer relies on across a wait.\<close>

definition same_tx :: "'r Queue \<Rightarrow> 'r Queue \<Rightarrow> bool" where
  "same_tx q q' \<longleftrightarrow> q_config q' = q_config q \<and> q_batching q' = q_batching q \<and> q_prio q' = q_prio q \<and>
     q_priority_tx q' = q_priority_tx q"

lemma same_tx_refl [simp]: "same_tx q q"
  by (simp add: same_tx_def)

lemma same_tx_trans: "same_tx p q \<Longrightarrow> same_tx q r \<Longrightarrow> same_tx p r"
  by (simp add: same_tx_def)

lemma spread_append [simp]:
  "spread (xs @ [b]) \<longleftrightarrow> spread xs \<and> (xs \<noteq> [] \<and> wb_ephemeral b \<longrightarrow> \<not> wb_ephemeral (last xs))"
  by (cases xs rule: rev_cases) (auto simp: spread_def successively_append_iff)

lemma spread_Cons: "spread (b # bs) \<Longrightarrow> spread bs"
  by (cases bs) (auto simp: spread_def)

lemma spread_length: "spread bs \<Longrightarrow> length bs \<le> 2 * length (real bs) + 1 \<and> (settled bs \<longrightarrow> length bs \<le> 2 * length (real bs))"
proof (induction bs rule: rev_induct)
  case (snoc b bs)
  then show ?case by (cases "wb_ephemeral b") (auto simp: settled_def)
qed (simp add: settled_def)

lemma settled_Cons: "settled (b # bs) \<Longrightarrow> settled bs"
  by (cases bs) (auto simp: settled_def)

lemma in_hand_simps [simp]:
  "in_hand (q\<lparr>q_current := None\<rparr>) = []" "in_hand (q\<lparr>q_current := Some b\<rparr>) = [b]"
  "q_current q = None \<Longrightarrow> in_hand q = []" "q_current q = Some b \<Longrightarrow> in_hand q = [b]"
  by (simp_all add: in_hand_def)

text \<open>The messages that the batches carry, from the first one that was sent.\<close>

definition no_fragment :: "TransportBody list \<Rightarrow> bool" where
  "no_fragment xs \<longleftrightarrow> (\<forall>f. FragmentT f \<notin> set xs)"

definition holding :: "(bytes \<Rightarrow> bytes option) \<Rightarrow> WBatch list \<Rightarrow> TransportBody list \<Rightarrow> bool" where
  "holding idf bs xs \<longleftrightarrow> (\<exists>xss. list_all2 (\<lambda>b xs. wb_items b xs \<and> items_ok idf xs) bs xss \<and> xs = concat xss)"

definition carries ::
  "(bytes \<Rightarrow> bytes option) \<Rightarrow> ('r \<Rightarrow> WBatch list) \<Rightarrow> 'r Queue \<Rightarrow> TransportBody list \<Rightarrow> TransportBody list \<Rightarrow> bool" where
  "carries idf lst q xs ys \<longleftrightarrow> holding idf (q_pulled q @ lst (q_out q)) xs \<and> items_ok idf ys \<and> no_fragment ys \<and>
     (case q_current q of None \<Rightarrow> ys = [] | Some b \<Rightarrow> wb_items b ys)"

lemma holding_Nil [simp]: "holding idf [] xs \<longleftrightarrow> xs = []"
  by (auto simp: holding_def)

lemma holding_snoc: "holding idf bs xs \<Longrightarrow> wb_items b ys \<Longrightarrow> items_ok idf ys \<Longrightarrow> holding idf (bs @ [b]) (xs @ ys)"
proof -
  assume "holding idf bs xs" and b: "wb_items b ys" "items_ok idf ys"
  then obtain xss where "list_all2 (\<lambda>b xs. wb_items b xs \<and> items_ok idf xs) bs xss" "xs = concat xss"
    by (auto simp: holding_def)
  with b show ?thesis unfolding holding_def by (intro exI [of _ "xss @ [ys]"]) (simp add: list_all2_appendI)
qed

text \<open>The sequence numbers: the next one of each channel.\<close>

definition gens :: "Bits \<Rightarrow> 'r Queue \<Rightarrow> counters \<Rightarrow> bool" where
  "gens b q c \<longleftrightarrow> (\<forall>rel. gen_ok b (get_gen q rel) \<and> gen_now (get_gen q rel) = sn_wire b (c rel))"

lemma gen_get_wire:
  assumes "gens b q c"
  shows "\<exists>g. gen_get (get_gen q rel) = (sn_wire b (c rel), g) \<and> gen_ok b g \<and> gen_now g = sn_wire b (Suc (c rel))"
proof -
  obtain s where s: "get_gen q rel = SeqNumGenerator s" by (cases "get_gen q rel")
  have "sn_ok b s" "sn_value s = sn_wire b (c rel)" using assms s by (auto simp: gens_def sn_get_def dest: spec [of _ rel])
  then show ?thesis using s sn_next_wire [of b s "c rel"] sn_ok_increment [of b s] by (simp add: sn_get_def sn_increment_def)
qed

lemma get_put_gen [simp]: "get_gen (put_gen q rel g) rel' = (if rel' = rel then g else get_gen q rel')"
  by (cases rel; cases rel') (simp_all add: get_gen_def put_gen_def)

lemma gens_put: "gens b q c \<Longrightarrow> gen_ok b g \<Longrightarrow> gen_now g = sn_wire b n \<Longrightarrow> gens b (put_gen q rel g) (c(rel := n))"
  by (simp add: gens_def)

lemma restore_sn_wire:
  assumes "gens b q c"
  shows "\<exists>g. restore_sn q rel (sn_wire b n) = Some (put_gen q rel g) \<and> gen_ok b g \<and> gen_now g = sn_wire b n"
proof -
  obtain s where s: "get_gen q rel = SeqNumGenerator s" by (cases "get_gen q rel")
  have "sn_ok b s" using assms s by (auto simp: gens_def dest: spec [of _ rel])
  then have "sn_set s (sn_wire b n) = Inr (s\<lparr>sn_value := sn_wire b n\<rparr>)" "sn_ok b (s\<lparr>sn_value := sn_wire b n\<rparr>)"
    by (auto simp: sn_set_eq [of b] unat_sn_wire sn_ok_def)
  then show ?thesis using s
    by (intro exI [of _ "SeqNumGenerator (s\<lparr>sn_value := sn_wire b n\<rparr>)"]) (simp add: restore_sn_def sn_get_def)
qed

lemma put_gen_simps [simp]:
  "queue_ok lst (put_gen q rel g) = queue_ok lst q" "carries idf lst (put_gen q rel g) xs ys = carries idf lst q xs ys"
  "q_current (put_gen q rel g) = q_current q" "q_config (put_gen q rel g) = q_config q"
  "q_batching (put_gen q rel g) = q_batching q" "q_out (put_gen q rel g) = q_out q"
  "(put_gen q rel g)\<lparr>q_current := x\<rparr> = put_gen (q\<lparr>q_current := x\<rparr>) rel g"
  by (cases rel; simp add: put_gen_def queue_ok_def load_def carries_def in_hand_def)+

section \<open>Waiting for a batch\<close>

definition qinv ::
  "(bytes \<Rightarrow> bytes option) \<Rightarrow> ('r \<Rightarrow> WBatch list) \<Rightarrow> 'r Queue \<Rightarrow> TransportBody list \<Rightarrow> TransportBody list \<Rightarrow> bool" where
  "qinv idf lst q xs ys \<longleftrightarrow> queue_ok lst q \<and> carries idf lst q xs ys"

lemmas qinv_defs = qinv_def queue_ok_def load_def carries_def same_tx_def

text \<open>Fields that the invariant does not look at.\<close>

lemma qinv_ignores [simp]:
  "qinv idf lst (q\<lparr>q_bytes := x\<rparr>) xs ys = qinv idf lst q xs ys"
  "qinv idf lst (q\<lparr>q_first_write := w\<rparr>) xs ys = qinv idf lst q xs ys"
  "qinv idf lst (q\<lparr>q_ticks := n\<rparr>) xs ys = qinv idf lst q xs ys"
  "qinv idf lst (q\<lparr>q_active := a\<rparr>) xs ys = qinv idf lst q xs ys"
  "qinv idf lst (q\<lparr>q_last_bytes := x\<rparr>) xs ys = qinv idf lst q xs ys"
  "qinv idf lst (q\<lparr>q_status := s\<rparr>) xs ys = qinv idf lst q xs ys"
  "qinv idf lst (put_gen q rel g) xs ys = qinv idf lst q xs ys"
  by (simp_all add: qinv_defs in_hand_def put_gen_def)

lemma lend_fields [simp]:
  "q_current (lend q b) = q_current q" "q_out (lend q b) = q_out q" "same_tx q (lend q' b) = same_tx q q'"
  by (simp_all add: lend_def same_tx_def)

lemma lend_ok:
  assumes "qinv idf lst q xs ys" "lst (q_out q) = b # bs" "lst r = bs"
  shows "qinv idf lst (lend (q\<lparr>q_out := r\<rparr>) b) xs ys"
  using assms spread_Cons [of b bs] by (auto simp: qinv_defs lend_def in_hand_def)

lemma takes_ok:
  assumes e: "env_ok e lst" and q: "qinv idf lst q xs ys"
  shows "qinv idf lst (consumer_takes e n q) xs ys \<and> same_tx q (consumer_takes e n q) \<and>
    q_current (consumer_takes e n q) = q_current q \<and> (settled (lst (q_out q)) \<longrightarrow> settled (lst (q_out (consumer_takes e n q))))"
  using q
proof (induction n arbitrary: q)
  case (Suc n)
  show ?case
  proof (cases "lst (q_out q)")
    case Nil
    then obtain r where "rg_pull (e_ring e) (q_out q) = (r, None)" "lst r = []" using ring_pull(1) [OF e] by blast
    then show ?thesis using Suc.prems Nil by (simp add: qinv_defs in_hand_def)
  next
    case (Cons b bs)
    then obtain r where r: "rg_pull (e_ring e) (q_out q) = (r, Some b)" "lst r = bs" using ring_pull(2) [OF e] by blast
    let ?q = "lend (q\<lparr>q_out := r, q_active := False\<rparr>) b"
    have st: "same_tx q ?q" by (simp add: same_tx_def lend_def)
    have "?q = (lend (q\<lparr>q_out := r\<rparr>) b)\<lparr>q_active := False\<rparr>" by (simp add: lend_def)
    then have "qinv idf lst ?q xs ys" using lend_ok [OF Suc.prems Cons r(2)] by simp
    from Suc.IH [OF this] show ?thesis
      using r Cons settled_Cons [of b bs] same_tx_trans [OF st]
      by auto
  qed
qed simp

lemma return_ok:
  assumes e: "env_ok e lst" and q: "qinv idf lst q xs ys"
  shows "\<exists>q'. consumer_return e q = Some q' \<and> qinv idf lst q' xs ys \<and> same_tx q q' \<and>
    q_current q' = q_current q \<and> q_out q' = q_out q"
proof (cases "q_lent q")
  case Nil
  then show ?thesis using q by (simp add: consumer_return_def)
next
  case (Cons b bs)
  have s: "wb_config (e_send e b) = wb_config b" "wb_ephemeral (e_send e b) = wb_ephemeral b" "wb_sized b \<longrightarrow> wb_sized (e_send e b)"
    using e by (auto simp: env_ok_def)
  show ?thesis
  proof (cases "wb_ephemeral b")
    case True
    then show ?thesis using q Cons s
      by (auto simp: consumer_return_def consumer_refill_def qinv_defs in_hand_def)
  next
    case False
    have "length (lst (q_ref q)) < RBLEN" using q Cons False by (auto simp: qinv_defs RBLEN_def)
    from ring_push(1) [OF e this] obtain r where r: "rg_push (e_ring e) (q_ref q) (e_send e b) = (r, None)"
      "lst r = lst (q_ref q) @ [e_send e b]" by blast
    have "batch_ok (q_config q) (e_send e b)" using q Cons s by (auto simp: qinv_defs batch_ok_def)
    then show ?thesis using q Cons False s r
      by (auto simp: consumer_return_def consumer_refill_def stage_refill_def qinv_defs in_hand_def)
  qed
qed

lemma gives_ok:
  assumes e: "env_ok e lst" and q: "qinv idf lst q xs ys"
  shows "\<exists>q'. consumer_gives e n q = Some q' \<and> qinv idf lst q' xs ys \<and> same_tx q q' \<and>
    q_current q' = q_current q \<and> q_out q' = q_out q"
  using q
proof (induction n arbitrary: q)
  case (Suc n)
  from return_ok [OF e Suc.prems] obtain q1 where q1: "consumer_return e q = Some q1" "qinv idf lst q1 xs ys" "same_tx q q1"
    "q_current q1 = q_current q" "q_out q1 = q_out q" by auto
  from Suc.IH [OF q1(2)] q1 show ?case by (auto intro: same_tx_trans)
qed simp

lemma event_ok:
  assumes e: "env_ok e lst" and q: "qinv idf lst q xs ys"
  shows "\<exists>q'. consumer_gives e k (consumer_takes e n q) = Some q' \<and> qinv idf lst q' xs ys \<and> same_tx q q' \<and>
    q_current q' = q_current q \<and> (settled (lst (q_out q)) \<longrightarrow> settled (lst (q_out q')))"
  using takes_ok [OF e q, of n] gives_ok [OF e, of idf "consumer_takes e n q" xs ys k] by (auto intro: same_tx_trans)

lemma prefix_fits: "MTU_MIN \<le> unat (bc_mtu c) \<Longrightarrow> length (wb_prefix c) \<le> unat (bc_mtu c)"
  by (auto simp: MTU_MIN_def wb_prefix_def)

lemma refill_pull_ok:
  assumes e: "env_ok e lst" and q: "qinv idf lst q xs []" "q_current q = None" and p: "refill_pull e q = (q', bo)"
  shows "q_current q' = None \<and> same_tx q q' \<and> q_out q' = q_out q \<and>
    (case bo of None \<Rightarrow> qinv idf lst q' xs [] | Some b \<Rightarrow> qinv idf lst (q'\<lparr>q_current := Some (wb_clear b)\<rparr>) xs [])"
proof (cases "lst (q_ref q)")
  case (Cons b bs)
  then obtain r where r: "rg_pull (e_ring e) (q_ref q) = (r, Some b)" "lst r = bs" using ring_pull(2) [OF e] by blast
  have b: "batch_ok (q_config q) b" "\<not> wb_ephemeral b" using q Cons by (auto simp: qinv_defs)
  then have "wb_items (wb_clear b) []" "batch_ok (q_config q) (wb_clear b)"
    using wb_items_clear [of b] wb_holds_clear [of b] by (auto simp: batch_ok_def wb_holds_def)
  then show ?thesis using p r q Cons b by (auto simp: refill_pull_def qinv_defs in_hand_def)
next
  case Nil
  then obtain r where r: "rg_pull (e_ring e) (q_ref q) = (r, None)" "lst r = []" using ring_pull(1) [OF e] by blast
  have pre: "length (wb_prefix (q_config q)) \<le> unat (bc_mtu (q_config q))" using q by (auto simp: qinv_defs intro: prefix_fits)
  let ?b = "wb_new (q_config q)"
  have sz: "wb_sized ?b" using wb_holds_new [OF pre] by (simp add: wb_holds_def)
  then have "wb_items (wb_clear ?b) []" "batch_ok (q_config q) (wb_clear ?b)" "\<not> wb_ephemeral (wb_clear ?b)"
    using wb_items_clear [of ?b] wb_holds_clear [of ?b] by (auto simp: batch_ok_def wb_holds_def wb_new_def)
  then show ?thesis using p r q Nil by (auto simp: refill_pull_def qinv_defs in_hand_def split: if_splits)
qed

text \<open>The loop finds a batch at once, or it goes on to wait with none in hand.\<close>

lemma get_batch_start:
  assumes e: "env_ok e lst" and q: "qinv idf lst q xs ys"
  obtains (got) b q' where "get_batch e q d evs = Got b q' d evs"
      "get_batch_wait e q evs = Got b q' (deadline_new 0 None) evs" "q_current q' = None"
      "qinv idf lst (q'\<lparr>q_current := Some b\<rparr>) xs ys" "same_tx q q'"
  | (wait) q' where "q_current q = None" "refill_pull e q = (q', None)" "q_current q' = None" "qinv idf lst q' xs ys"
      "same_tx q q'" "q_out q' = q_out q"
proof (cases "q_current q")
  case (Some b)
  have "qinv idf lst (q\<lparr>q_current := Some b\<rparr>) xs ys" using q Some by (simp add: qinv_defs in_hand_def)
  then show ?thesis using Some q by (intro got [of b "q\<lparr>q_current := None\<rparr>"]) (simp_all add: get_batch.simps get_batch_wait.simps same_tx_def)
next
  case None
  then have ys: "ys = []" using q by (simp add: qinv_defs)
  obtain q1 bo where p: "refill_pull e q = (q1, bo)" by (cases "refill_pull e q")
  note r = refill_pull_ok [OF e q [unfolded ys] None p]
  show ?thesis
  proof (cases bo)
    case (Some b)
    let ?q = "q1\<lparr>q_first_write := e_clk e (q_ticks q1), q_ticks := q_ticks q1 + 1\<rparr>"
    have "qinv idf lst (?q\<lparr>q_current := Some (wb_clear b)\<rparr>) xs []" using r Some by (auto simp: qinv_defs in_hand_def)
    then show ?thesis using r Some p None ys
      by (intro got [of "wb_clear b" ?q]) (simp_all add: get_batch.simps get_batch_wait.simps same_tx_def)
  next
    case bo: None
    then show ?thesis using r p None ys by (intro wait [of q1]) simp_all
  qed
qed

lemma get_batch_ok:
  assumes e: "env_ok e lst" and q: "qinv idf lst q xs ys"
  shows "case get_batch e q d evs of
      Got b q' d' evs' \<Rightarrow> q_current q' = None \<and> qinv idf lst (q'\<lparr>q_current := Some b\<rparr>) xs ys \<and> same_tx q q'
    | GotNone q' d' evs' \<Rightarrow> q_current q = None \<and> q_current q' = None \<and> qinv idf lst q' xs ys \<and> same_tx q q' \<and>
        (settled (lst (q_out q)) \<longrightarrow> settled (lst (q_out q')))
    | GotPanic q' \<Rightarrow> False
    | _ \<Rightarrow> True"
  using q
proof (induction evs arbitrary: q d)
  case Nil
  then show ?case
  proof (cases rule: get_batch_start [OF e Nil, of d "[]", case_names got wait])
    case (wait q')
    then show ?thesis by (cases "deadline_get (e_now e) d") (auto simp: get_batch.simps split: DeadlineSetting.split)
  qed simp
next
  case (Cons ev evs)
  then show ?case
  proof (cases rule: get_batch_start [OF e Cons.prems, of d "ev # evs", case_names got wait])
    case got
    then show ?thesis by simp
  next
    case (wait q1)
    obtain d1 s where d1: "deadline_get (e_now e) d = (d1, s)" by (cases "deadline_get (e_now e) d")
    show ?thesis
    proof (cases s)
      case Immediate
      then show ?thesis using wait d1 by (simp add: get_batch.simps)
    next
      case (Finite t)
      show ?thesis
      proof (cases ev)
        case (Woken n k)
        from event_ok [OF e wait(4), of k n] obtain q2 where q2: "consumer_gives e k (consumer_takes e n q1) = Some q2"
          "qinv idf lst q2 xs ys" "same_tx q1 q2" "q_current q2 = None" "settled (lst (q_out q1)) \<longrightarrow> settled (lst (q_out q2))"
          using wait(3) by auto
        have "get_batch e q d (ev # evs) = get_batch e q2 d1 evs"
          using wait d1 Finite Woken q2 by (subst get_batch.simps) simp
        then show ?thesis using Cons.IH [OF q2(2), of d1] q2 wait
          by (auto split: got.splits intro: same_tx_trans)
      next
        case (Expired n k)
        from event_ok [OF e wait(4), of k n] obtain q2 where q2: "consumer_gives e k (consumer_takes e n q1) = Some q2"
          "qinv idf lst q2 xs ys" "same_tx q1 q2" "q_current q2 = None" "settled (lst (q_out q1)) \<longrightarrow> settled (lst (q_out q2))"
          using wait(3) by auto
        have "get_batch e q d (ev # evs) = GotNone q2 d1 evs"
          using wait d1 Finite Expired q2 by (subst get_batch.simps) simp
        then show ?thesis using q2 wait by (auto intro: same_tx_trans)
      next
        case Disconnected
        then show ?thesis using wait d1 Finite by (simp add: get_batch.simps)
      qed
    qed
  qed
qed

section \<open>Moving a batch out\<close>

text \<open>The batch that is moved out may have been written on since it was taken.\<close>

lemma move_written_ok:
  assumes e: "env_ok e lst" and q: "qinv idf lst (q\<lparr>q_current := Some b\<rparr>) xs zs" "q_current q = None"
    and b': "wb_config b' = wb_config b" "wb_ephemeral b' = wb_ephemeral b" "wb_items b' ys" "items_ok idf ys"
  shows "qinv idf lst (move_batch e q b') (xs @ ys) [] \<and> settled (lst (q_out (move_batch e q b'))) \<and> same_tx q (move_batch e q b') \<and>
    q_current (move_batch e q b') = None"
proof -
  have "wb_sized b'" using b'(3) by (auto simp: wb_items_def wb_holds_def)
  then have b: "\<not> wb_ephemeral b'" "batch_ok (q_config q) b'"
    and l: "length (real (lst (q_out q))) \<le> 7" "spread (lst (q_out q))"
    using q b' by (auto simp: qinv_defs batch_ok_def)
  have "length (lst (q_out q)) < RBLEN" using spread_length [OF l(2)] l(1) by (simp add: RBLEN_def)
  from ring_push(1) [OF e this] obtain r where r: "rg_push (e_ring e) (q_out q) b' = (r, None)" "lst r = lst (q_out q) @ [b']" by blast
  have "holding idf ((q_pulled q @ lst (q_out q)) @ [b']) (xs @ ys)" using q b' by (intro holding_snoc) (auto simp: qinv_defs)
  then show ?thesis using q b r
    by (auto simp: move_batch_def qinv_defs settled_def no_fragment_def)
qed

lemma move_batch_ok:
  assumes e: "env_ok e lst" and q: "qinv idf lst (q\<lparr>q_current := Some b\<rparr>) xs ys" "q_current q = None"
  shows "qinv idf lst (move_batch e q b) (xs @ ys) [] \<and> settled (lst (q_out (move_batch e q b))) \<and> same_tx q (move_batch e q b) \<and>
    q_current (move_batch e q b) = None"
  using q by (intro move_written_ok [OF e q]) (auto simp: qinv_defs)

text \<open>When the output ring is full a batch that is moved out is dropped, although the push succeeds.  The bound on the
  number of batches excludes this.  Nine batches can get there: with one of them at the link task and each of the
  other eight in the ring in front of an ephemeral batch (the end of an interrupted message), the ring is
  full; the ninth, when it comes back, is lost with the next message that is moved out at once.\<close>

lemma full_ring_drops:
  assumes "env_ok e lst" "length (lst (q_out q)) = RBLEN" "q_current q = None"
  shows "\<exists>q'. ret_ok e q b True = (q', Pushed True) \<and> lst (q_out q') = lst (q_out q) \<and> q_current q' = None \<and>
    q_ref q' = q_ref q \<and> q_lent q' = q_lent q \<and> q_pulled q' = q_pulled q"
  using ring_push(2) [OF assms(1), of "q_out q" b] assms(2,3) by (auto simp: ret_ok_def move_batch_def)

lemma ret_ok_ok:
  assumes e: "env_ok e lst" and q: "qinv idf lst (q\<lparr>q_current := Some b\<rparr>) xs ys" "q_current q = None"
  shows "\<exists>q' xs' ys'. ret_ok e q b express = (q', Pushed True) \<and> qinv idf lst q' xs' ys' \<and> xs' @ ys' = xs @ ys \<and> same_tx q q'"
proof (cases "\<not> q_batching q \<or> express")
  case True
  then show ?thesis using move_batch_ok [OF e q] by (auto simp: ret_ok_def)
next
  case False
  obtain p where "wb_holds b p" using q by (auto simp: qinv_defs dest: wb_items_holds)
  then obtain n where "wb_len b = Some n" using wb_len_holds by blast
  then show ?thesis using False q by (auto simp: ret_ok_def out_notify_def same_tx_def)
qed

end
