(* ===== verification/Transport_Push.thy ===== *)
theory Transport_Push
  imports Transport_Queue
begin

text \<open>
  The push of a network message keeps the invariants of the queue: an accepted message is at the end
  of the stream, a refused one is not in it, and the producer does not panic.
\<close>

section \<open>Fragments always fit\<close>

definition within :: "nat \<Rightarrow> bytes option \<Rightarrow> bool" where
  "within n w \<longleftrightarrow> (\<exists>h. w = Some h \<and> length h \<le> n)"

lemma within_wcat_Nil: "within 0 (wcat [])"
  by (simp add: within_def wcat.simps)

lemma within_wcat_Cons: "within n a \<Longrightarrow> within m (wcat as) \<Longrightarrow> within (n + m) (wcat (a # as))"
  by (auto simp: within_def wcat.simps)

lemma within_mono: "within n w \<Longrightarrow> n \<le> m \<Longrightarrow> within m w"
  by (auto simp: within_def)

lemma within_u8: "within 1 (write_u8 x)"
  by (simp add: within_def write_u8_def)

lemma within_u64: "within 9 (write_u64 x)"
proof -
  obtain bs where "write_u64 x = Some bs" using write_u64_Some by blast
  then show ?thesis using length_write_u64 [of x bs] vle_len_bounds [of x] by (auto simp: within_def)
qed

lemma within_exts:
  assumes "\<forall>w\<in>set es. \<forall>m. within k (w m)"
  shows "within (k * length es) (write_exts n es)"
  using assms
proof (induction es arbitrary: n)
  case (Cons w es)
  then have "within (k + (k * length es + 0)) (wcat [w (n - 1 \<noteq> 0), write_exts (n - 1) es])"
    by (intro within_wcat_Cons within_wcat_Nil) auto
  then show ?case by simp
qed (simp add: within_def)

lemma within_fragment_header: "within 40 (write_fragment_header f)"
proof -
  have e: "within 10 (write_tqos_ext fr_QoS x m)" for x m
    unfolding write_tqos_ext_def write_ext_z64_def
    by (rule within_mono [OF within_wcat_Cons [OF within_u8 within_wcat_Cons [OF within_u64 within_wcat_Nil]]]) simp
  have u: "within 10 (write_ext_unit i m)" for i m
    unfolding write_ext_unit_def by (rule within_mono [OF within_u8]) simp
  have "\<forall>w\<in>set (fragment_exts f). \<forall>m. within 10 (w m)"
    using e u by (auto simp: fragment_exts_def when_ext_def)
  from within_exts [OF this] have "within (10 * length (fragment_exts f)) (write_exts (fragment_n_exts f) (fragment_exts f))" .
  moreover have "length (fragment_exts f) \<le> 3" by (simp add: fragment_exts_def when_ext_def)
  ultimately have x: "within 30 (write_exts (fragment_n_exts f) (fragment_exts f))" by (auto elim: within_mono)
  show ?thesis
    unfolding write_fragment_header_def write_uint_def
    by (rule within_mono [OF within_wcat_Cons [OF within_u8 within_wcat_Cons [OF within_u64 within_wcat_Cons [OF x within_wcat_Nil]]]]) simp
qed

lemma encode_fragment_total:
  assumes lim: "slot_limit lim" and b: "wb_items b []" "MTU_MIN \<le> unat (bc_mtu (wb_config b))" and r: "r \<noteq> []"
  shows "\<exists>b' r' f' n. wb_encode_fragment lim b r f = (b', r', f', Some n)"
proof -
  have h0: "wb_holds b []" using b(1) by (auto simp: wb_items_def wcat.simps)
  then have rem: "44 + 8 \<le> bb_remaining (wb_buffer b)"
    using b(2) by (auto simp: wb_holds_def wb_sized_def bb_remaining_def bb_len_def MTU_MIN_def wb_prefix_def split: if_splits)
  let ?w = "wb_buffer b"
  have enc: "\<exists>h. bb_encode lim ?w (write_fragment_header g) = (?w\<lparr>bb_bytes := bb_bytes ?w @ h\<rparr>, True) \<and> length h \<le> 40" for g :: FragmentHeader
    using within_fragment_header [of g] bb_encode_fits [OF lim] rem by (fastforce simp: within_def)
  obtain h where h: "bb_encode lim ?w (write_fragment_header f) = (?w\<lparr>bb_bytes := bb_bytes ?w @ h\<rparr>, True)" "length h \<le> 40"
    using enc by blast
  obtain h2 where h2: "bb_encode lim ?w (write_fragment_header (f\<lparr>fg_more := False\<rparr>)) = (?w\<lparr>bb_bytes := bb_bytes ?w @ h2\<rparr>, True)" "length h2 \<le> 40"
    using enc by blast
  have s: "\<exists>r' w' n. siphon r (?w\<lparr>bb_bytes := bb_bytes ?w @ k\<rparr>) = Some (r', w', n)" if "length k \<le> 40" for k
    using rem r that by (auto simp: siphon_def bb_write_def bb_defs Let_def)
  show ?thesis
    using h h2 s [OF h(2)] s [OF h2(2)]
    by (cases "length r \<le> bb_remaining (?w\<lparr>bb_bytes := bb_bytes ?w @ h\<rparr>)")
      (auto simp: wb_encode_fragment_def zb_write_fragment_def Let_def)
qed

section \<open>Encoding on the batch in hand\<close>

lemma items_ok_snoc: "items_ok idf (xs @ [x]) \<longleftrightarrow> items_ok idf xs \<and> no_fragment xs \<and> transport_ok idf x"
  by (induction xs) (auto simp: no_fragment_def)

lemma no_fragment_snoc: "no_fragment (xs @ [x]) \<longleftrightarrow> no_fragment xs \<and> (\<forall>f. x \<noteq> FragmentT f)"
  by (auto simp: no_fragment_def)

lemma qinv_batch:
  assumes "qinv idf lst (q\<lparr>q_current := Some b\<rparr>) xs ys"
  shows "wb_items b ys" "items_ok idf ys" "no_fragment ys" "wb_config b = q_config q" "MTU_MIN \<le> unat (bc_mtu (wb_config b))"
  using assms by (auto simp: qinv_defs batch_ok_def)

text \<open>Another batch in the place of the one in hand.\<close>

lemma qinv_replace:
  assumes q: "qinv idf lst (q\<lparr>q_current := Some b\<rparr>) xs ys"
    and b': "wb_config b' = wb_config b" "wb_ephemeral b' = wb_ephemeral b" "wb_items b' ys'" "items_ok idf ys'" "no_fragment ys'"
  shows "qinv idf lst (q\<lparr>q_current := Some b'\<rparr>) xs ys'"
proof -
  have "wb_sized b'" using b'(3) by (auto simp: wb_items_def wb_holds_def)
  then show ?thesis using q b' by (auto simp: qinv_defs batch_ok_def)
qed

lemma encode_network_queue:
  assumes e: "env_ok e lst" and q: "qinv idf lst (q\<lparr>q_current := Some b\<rparr>) xs ys"
    and enc: "wb_encode_network (e_lim e) b m = (b', Inr u)" and m: "network_body_ok idf (body m)"
    and s: "stream idf bt tq c0 (xs @ ys) ms c"
  shows "\<exists>ys'. qinv idf lst (q\<lparr>q_current := Some b'\<rparr>) xs ys' \<and> stream idf bt tq c0 (xs @ ys') (ms @ [m]) c"
proof -
  have lim: "slot_limit (e_lim e)" using e by (simp add: env_ok_def)
  note b = qinv_batch [OF q]
  from encode_network_items [OF lim b(1) enc] obtain zs f where
    f: "ys = zs @ [FrameT f]" "fr_reliability f = reliability m" "wb_items b' (zs @ [FrameT (frame_add f m)])"
    and c: "wb_config b' = wb_config b" "wb_ephemeral b' = wb_ephemeral b" by auto
  have "stream idf bt tq c0 ((xs @ zs) @ [FrameT (frame_add f m)]) (ms @ [m]) c"
    using s f(1,2) m by (intro stream_frame_add) auto
  moreover have "items_ok idf (zs @ [FrameT (frame_add f m)])" "no_fragment (zs @ [FrameT (frame_add f m)])"
    using b(2,3) f m by (auto simp: items_ok_snoc no_fragment_snoc frame_ok_def)
  ultimately show ?thesis using qinv_replace [OF q c f(3)] by auto
qed

lemma encode_frame_queue:
  assumes e: "env_ok e lst" and q: "qinv idf lst (q\<lparr>q_current := Some b\<rparr>) xs ys"
    and enc: "wb_encode_frame (e_lim e) b m (frame_of bt (reliability m) tq (c (reliability m))) = (b', Inr u)"
    and m: "network_body_ok idf (body m)" and s: "stream idf bt tq c0 (xs @ ys) ms c"
  shows "\<exists>ys'. qinv idf lst (q\<lparr>q_current := Some b'\<rparr>) xs ys' \<and>
    stream idf bt tq c0 (xs @ ys') (ms @ [m]) (c(reliability m := Suc (c (reliability m))))"
proof -
  have lim: "slot_limit (e_lim e)" using e by (simp add: env_ok_def)
  note b = qinv_batch [OF q]
  let ?f = "frame_with (frame_of bt (reliability m) tq (c (reliability m))) [m]"
  from encode_frame_items [OF lim b(1) enc] have
    f: "wb_items b' (ys @ [FrameT ?f])" and c: "wb_config b' = wb_config b" "wb_ephemeral b' = wb_ephemeral b" by auto
  have "stream idf bt tq c0 ((xs @ ys) @ [FrameT ?f]) (ms @ [m]) (c(reliability m := Suc (c (reliability m))))"
    using s m by (intro stream.Frame) auto
  moreover have "items_ok idf (ys @ [FrameT ?f])" "no_fragment (ys @ [FrameT ?f])"
    using b(2,3) m by (auto simp: items_ok_snoc no_fragment_snoc frame_ok_def frame_of_def)
  ultimately show ?thesis using qinv_replace [OF q c f] by auto
qed

text \<open>A refused message leaves the batch in hand.\<close>

lemma encode_refused:
  assumes e: "env_ok e lst" and q: "qinv idf lst (q\<lparr>q_current := Some b\<rparr>) xs ys"
  shows "wb_encode_network (e_lim e) b m = (b', Inl err) \<Longrightarrow> b' = b"
    and "wb_encode_frame (e_lim e) b m f = (b', Inl err) \<Longrightarrow> b' = b"
  using encode_network_items [OF _ qinv_batch(1) [OF q], of "e_lim e" m b' "Inl err"]
    encode_frame_items [OF _ qinv_batch(1) [OF q], of "e_lim e" m f b' "Inl err"] e
  by (auto simp: env_ok_def)

section \<open>Fragmentation\<close>

text \<open>The outcome of a push: no panic; when it returns, the stream has the message or not.\<close>

definition outcome ::
  "(bytes \<Rightarrow> bytes option) \<Rightarrow> ('r \<Rightarrow> WBatch list) \<Rightarrow> Bits \<Rightarrow> TQoS \<Rightarrow> counters \<Rightarrow> NetworkMessage list \<Rightarrow> NetworkMessage \<Rightarrow>
    'r Queue \<Rightarrow> push_result \<Rightarrow> bool" where
  "outcome idf lst bt tq c0 ms m q res \<longleftrightarrow> res \<noteq> PushPanic \<and>
     (\<forall>ok. res = Pushed ok \<longrightarrow> (\<exists>xs ys c. qinv idf lst q xs ys \<and> gens bt q c \<and>
       stream idf bt tq c0 (xs @ ys) (if ok then ms @ [m] else ms) c))"

lemma outcomeI:
  "qinv idf lst q xs ys \<Longrightarrow> gens bt q c \<Longrightarrow> stream idf bt tq c0 (xs @ ys) (if ok then ms @ [m] else ms) c \<Longrightarrow>
    outcome idf lst bt tq c0 ms m q (Pushed ok)"
  by (cases ok) (simp_all add: outcome_def, blast+)

lemma outcome_other [simp]:
  "outcome idf lst bt tq c0 ms m q TransportClosed" "outcome idf lst bt tq c0 ms m q Blocked"
  by (simp_all add: outcome_def)

lemma gens_same: "gens b q c \<Longrightarrow> q_priority_tx q' = q_priority_tx q \<Longrightarrow> gens b q' c"
  unfolding gens_def by (metis get_gen_def)

lemma gens_same_tx: "gens b q c \<Longrightarrow> same_tx q q' \<Longrightarrow> gens b q' c"
  by (rule gens_same) (simp_all add: same_tx_def)

lemma ephemeral_items:
  assumes "length (wb_prefix c) \<le> unat (bc_mtu c)"
  shows "wb_items (wb_new_ephemeral c) []"
  using wb_items_new [OF assms] by (simp add: wb_items_def wb_holds_def wb_sized_def wb_new_ephemeral_def)

lemma send_stop_eq:
  assumes lim: "slot_limit (e_lim e)" and pre: "length (wb_prefix (q_config q)) \<le> unat (bc_mtu (q_config q))"
  shows "send_stop e q f = move_batch e q (wb_new_ephemeral (q_config q))"
proof -
  let ?b = "wb_new_ephemeral (q_config q)"
  obtain b' r' f' res where 1: "wb_encode_fragment (e_lim e) ?b [] (f\<lparr>fg_drop := True\<rparr>) = (b', r', f', res)" by (metis prod_cases4)
  note it = encode_fragment_items [OF lim ephemeral_items [OF pre] 1]
  have "res = None" using it by (cases res) auto
  then show ?thesis using it 1 by (simp add: send_stop_def Let_def)
qed

lemma send_stop_ok:
  assumes e: "env_ok e lst" and q: "qinv idf lst q xs []" "q_current q = None" "settled (lst (q_out q))"
  shows "qinv idf lst (send_stop e q f) xs [] \<and> q_priority_tx (send_stop e q f) = q_priority_tx q"
proof -
  let ?b = "wb_new_ephemeral (q_config q)"
  have lim: "slot_limit (e_lim e)" using e by (simp add: env_ok_def)
  have pre: "length (wb_prefix (q_config q)) \<le> unat (bc_mtu (q_config q))" using q by (auto simp: qinv_defs intro: prefix_fits)
  note it = ephemeral_items [OF pre] and eq = send_stop_eq [OF lim pre, of f]
  have eph: "wb_ephemeral ?b" "batch_ok (q_config q) ?b"
    using it by (auto simp: wb_new_ephemeral_def batch_ok_def wb_items_def wb_holds_def wb_new_def)
  show ?thesis
  proof (cases "length (lst (q_out q)) < RBLEN")
    case True
    from ring_push(1) [OF e this] obtain r where r: "rg_push (e_ring e) (q_out q) ?b = (r, None)" "lst r = lst (q_out q) @ [?b]" by blast
    have "holding idf ((q_pulled q @ lst (q_out q)) @ [?b]) (xs @ [])" using q it by (intro holding_snoc) (auto simp: qinv_defs)
    then show ?thesis using q eph r by (auto simp: eq move_batch_def qinv_defs settled_def)
  next
    case False
    from ring_push(2) [OF e this] obtain r where r: "rg_push (e_ring e) (q_out q) ?b = (r, Some ?b)" "lst r = lst (q_out q)" by blast
    then show ?thesis using q by (auto simp: eq move_batch_def qinv_defs in_hand_def)
  qed
qed

text \<open>The loop after the parts \<open>ps\<close> of a message are written: the queue holds their fragments, the generator is one
  ahead, and \<open>f\<close> is the header of the next fragment.\<close>

definition frag_at :: "(bytes \<Rightarrow> bytes option) \<Rightarrow> ('r \<Rightarrow> WBatch list) \<Rightarrow> Bits \<Rightarrow> TQoS \<Rightarrow> Reliability \<Rightarrow> counters \<Rightarrow>
    TransportBody list \<Rightarrow> bytes list \<Rightarrow> 'r Queue \<Rightarrow> FragmentHeader \<Rightarrow> bool" where
  "frag_at idf lst bt tq rel c xs ps q f \<longleftrightarrow>
     qinv idf lst q (xs @ map FragmentT (fragments_more bt rel tq (c rel) True ps)) [] \<and>
     gens bt q (c(rel := Suc (c rel + length ps))) \<and> (ps \<noteq> [] \<longrightarrow> settled (lst (q_out q))) \<and>
     f = \<lparr>fg_qos = tq, fg_first = (ps = []), fg_drop = False, fg_reliability = rel, fg_more = True, fg_sn = sn_wire bt (c rel + length ps)\<rparr>"

lemma frag_no_batch:
  assumes e: "env_ok e lst" and s: "stream idf bt tq c0 xs ms c" and st: "frag_at idf lst bt tq rel c xs ps q f" and r: "r \<noteq> []"
    and none: "get_batch e q d evs = GotNone q1 d1 evs1"
  shows "case frag_loop e (sn_wire bt (c rel)) q f r d evs of (q', d', evs', res) \<Rightarrow> outcome idf lst bt tq c0 ms m q' res"
proof -
  let ?xs = "xs @ map FragmentT (fragments_more bt rel tq (c rel) True ps)" and ?c = "c(rel := Suc (c rel + length ps))"
  have q: "qinv idf lst q ?xs []" "gens bt q ?c" "ps \<noteq> [] \<longrightarrow> settled (lst (q_out q))" using st by (simp_all add: frag_at_def)
  have q1: "q_current q1 = None" "qinv idf lst q1 ?xs []" "same_tx q q1" "settled (lst (q_out q)) \<longrightarrow> settled (lst (q_out q1))"
    using get_batch_ok [OF e q(1), of d evs] none by auto
  have gq: "gens bt q1 ?c" by (rule gens_same_tx [OF q(2) q1(3)])
  show ?thesis
  proof (cases "ps = []")
    case True
    from restore_sn_wire [OF gq] obtain g1 where g1: "restore_sn q1 rel (sn_wire bt (c rel)) = Some (put_gen q1 rel g1)"
      "gen_ok bt g1" "gen_now g1 = sn_wire bt (c rel)" by blast
    have "gens bt (put_gen q1 rel g1) c" using gens_put [OF gq g1(2,3), of rel] by simp
    then have "outcome idf lst bt tq c0 ms m (put_gen q1 rel g1) (Pushed False)"
      using q1(2) s True by (intro outcomeI [where c = c and xs = xs and ys = "[]"]) simp_all
    then show ?thesis using none r g1 True st by (subst frag_loop.simps) (simp add: frag_at_def)
  next
    case False
    have ss: "qinv idf lst (send_stop e q1 f) ?xs []" "q_priority_tx (send_stop e q1 f) = q_priority_tx q1"
      using send_stop_ok [OF e q1(2,1), of f] q1(4) q(3) False by auto
    have "stream idf bt tq c0 ?xs ms ?c" using s False by (rule stream.Partial)
    then have "outcome idf lst bt tq c0 ms m (send_stop e q1 f) (Pushed False)"
      using ss gens_same [OF gq, of "send_stop e q1 f"] by (intro outcomeI [where c = ?c and xs = ?xs and ys = "[]"]) simp_all
    then show ?thesis using none r False st by (subst frag_loop.simps) (simp add: frag_at_def)
  qed
qed

lemma frag_one:
  assumes e: "env_ok e lst" and st: "frag_at idf lst bt tq rel c xs ps q f" and r: "r \<noteq> []"
    and got: "get_batch e q d evs = Got b q1 d1 evs1"
  obtains p r' q2 f2 d2 where "p \<noteq> []" "r = p @ r'"
    "frag_loop e (sn_wire bt (c rel)) q f r d evs = frag_loop e (sn_wire bt (c rel)) q2 f2 r' d2 evs1"
    "r' \<noteq> [] \<Longrightarrow> frag_at idf lst bt tq rel c xs (ps @ [p]) q2 f2"
    "r' = [] \<Longrightarrow> qinv idf lst q2 (xs @ map FragmentT (fragments_of bt rel tq (c rel) True (ps @ [p]))) []"
    "gens bt q2 (c(rel := Suc (c rel + length (ps @ [p]))))"
proof -
  let ?xs = "xs @ map FragmentT (fragments_more bt rel tq (c rel) True ps)" and ?c = "c(rel := Suc (c rel + length ps))"
  have q: "qinv idf lst q ?xs []" "gens bt q ?c" and f: "f = \<lparr>fg_qos = tq, fg_first = (ps = []), fg_drop = False,
      fg_reliability = rel, fg_more = True, fg_sn = sn_wire bt (c rel + length ps)\<rparr>" using st by (simp_all add: frag_at_def)
  have q1: "q_current q1 = None" "qinv idf lst (q1\<lparr>q_current := Some b\<rparr>) ?xs []" "same_tx q q1"
    using get_batch_ok [OF e q(1), of d evs] got by auto
  have gq: "gens bt q1 ?c" by (rule gens_same_tx [OF q(2) q1(3)])
  have lim: "slot_limit (e_lim e)" using e by (simp add: env_ok_def)
  note bb = qinv_batch [OF q1(2)]
  obtain b' r' f' n where enc: "wb_encode_fragment (e_lim e) b r f = (b', r', f', Some n)"
    using encode_fragment_total [OF lim bb(1,5) r] by blast
  from encode_fragment_items [OF lim bb(1) enc] obtain p where
    p: "p \<noteq> []" "r = p @ r'" "wb_items b' [FragmentT (fragment_with f' p)]" "f' = f\<lparr>fg_more := r' \<noteq> []\<rparr>"
    and cb: "wb_config b' = wb_config b" "wb_ephemeral b' = wb_ephemeral b" by (auto simp: f)
  obtain g1 where g1: "gen_get (get_gen q1 rel) = (sn_wire bt (?c rel), g1)" "gen_ok bt g1" "gen_now g1 = sn_wire bt (Suc (?c rel))"
    using gen_get_wire [OF gq] by blast
  let ?q2 = "move_batch e (put_gen q1 rel g1) b'" and ?fr = "fragment_with f' p"
  have q2: "qinv idf lst ?q2 (?xs @ [FragmentT ?fr]) []" "settled (lst (q_out ?q2))" "same_tx (put_gen q1 rel g1) ?q2"
    using move_written_ok [OF e _ _ cb p(3), of idf "put_gen q1 rel g1" ?xs] q1 by simp_all
  have "gens bt (put_gen q1 rel g1) (c(rel := Suc (c rel + length (ps @ [p]))))" using gens_put [OF gq g1(2,3), of rel] by simp
  then have g2: "gens bt ?q2 (c(rel := Suc (c rel + length (ps @ [p]))))" by (rule gens_same_tx [OF _ q2(3)])
  have fr: "?fr = \<lparr>fg_qos = tq, fg_first = (ps = []), fg_drop = False, fg_reliability = rel, fg_more = (r' \<noteq> []),
      fg_sn = sn_wire bt (c rel + length ps), fg_payload = p\<rparr>" using p(4) f by (simp add: fragment_with_def FragmentHeader.extend_def)
  show thesis
  proof (rule that [OF p(1,2), of ?q2 "f'\<lparr>fg_sn := sn_wire bt (c rel + length (ps @ [p])), fg_first := False\<rparr>" "on_next_fragment (e_now e) d1"])
    show "frag_loop e (sn_wire bt (c rel)) q f r d evs =
        frag_loop e (sn_wire bt (c rel)) ?q2 (f'\<lparr>fg_sn := sn_wire bt (c rel + length (ps @ [p])), fg_first := False\<rparr>) r'
          (on_next_fragment (e_now e) d1) evs1"
      using got r enc g1 p(4) f by (subst frag_loop.simps) (simp add: Let_def)
  qed (use q2 [unfolded fr] g2 p(4) f in \<open>simp_all add: frag_at_def fragments_more_snoc fragments_of_snoc\<close>)
qed

lemma frag_loop_ok:
  assumes e: "env_ok e lst" and m: "network_body_ok idf (body m)" "reliability m = rel"
    and s: "stream idf bt tq c0 xs ms c"
    and w: "write_network_message m = Some (concat ps @ r)" "r \<noteq> []" "ps \<noteq> [] \<longrightarrow> hd ps \<noteq> []"
    and st: "frag_at idf lst bt tq rel c xs ps q f"
  shows "case frag_loop e (sn_wire bt (c rel)) q f r d evs of (q', d', evs', res) \<Rightarrow> outcome idf lst bt tq c0 ms m q' res"
  using w st
proof (induction "length r" arbitrary: r ps q f d evs rule: less_induct)
  case less
  note g = get_batch_ok [OF e conjunct1 [OF less.prems(4) [unfolded frag_at_def]], of d evs]
  show ?case
  proof (cases "get_batch e q d evs")
    case (GotNone q1 d1 evs1)
    show ?thesis by (rule frag_no_batch [OF e s less.prems(4,2) GotNone])
  next
    case (Got b q1 d1 evs1)
    obtain p r' q2 f2 d2 where p: "p \<noteq> []" "r = p @ r'"
      "frag_loop e (sn_wire bt (c rel)) q f r d evs = frag_loop e (sn_wire bt (c rel)) q2 f2 r' d2 evs1"
      "r' \<noteq> [] \<Longrightarrow> frag_at idf lst bt tq rel c xs (ps @ [p]) q2 f2"
      "r' = [] \<Longrightarrow> qinv idf lst q2 (xs @ map FragmentT (fragments_of bt rel tq (c rel) True (ps @ [p]))) []"
      "gens bt q2 (c(rel := Suc (c rel + length (ps @ [p]))))"
      by (rule frag_one [OF e less.prems(4,2) Got]) blast
    have w': "write_network_message m = Some (concat (ps @ [p]) @ r')" "hd (ps @ [p]) \<noteq> []"
      using less.prems(1,3) p(1,2) by (cases ps; simp)+
    show ?thesis
    proof (cases "r' = []")
      case True
      have "stream idf bt tq c0 (xs @ map FragmentT (fragments_of bt rel tq (c rel) True (ps @ [p]))) (ms @ [m])
          (c(rel := Suc (c rel + length (ps @ [p]))))" using w' True by (intro stream.Fragments [OF s m]) simp_all
      then have "outcome idf lst bt tq c0 ms m q2 (Pushed True)"
        using outcomeI [OF p(5) [OF True] p(6), where ok = True and ms = ms and m = m] by simp
      then show ?thesis unfolding p(3) using True by (simp add: frag_loop.simps)
    next
      case False
      show ?thesis unfolding p(3) by (rule less.hyps [OF _ w'(1) False _ p(4) [OF False]]) (use p w'(2) in simp_all)
    qed
  qed (use g less.prems(2) in \<open>auto simp: frag_loop.simps\<close>)
qed

section \<open>Pushing a network message\<close>

lemma items_empty: "items_ok idf ys \<Longrightarrow> wcat (map write_transport ys) = Some [] \<Longrightarrow> ys = []"
  by (cases ys) (auto simp: codec_simps dest: write_transport_ends_frame)

lemma write_network_message_ne: "network_body_ok idf (body m) \<Longrightarrow> write_network_message m = Some bs \<Longrightarrow> bs \<noteq> []"
  using read_network_body_rt [of idf "body m" bs Reliable "[]"]
  by (auto simp: write_network_message_def read_network_message_Nil)

lemma ret_ok_outcome:
  assumes e: "env_ok e lst" and q: "qinv idf lst (q\<lparr>q_current := Some b\<rparr>) xs ys" "q_current q = None" "gens bt q c"
    and s: "stream idf bt tq c0 (xs @ ys) (ms @ [m]) c"
  shows "case ret_ok e q b express of (q', res) \<Rightarrow> outcome idf lst bt tq c0 ms m q' res"
proof -
  from ret_ok_ok [OF e q(1,2), of express] obtain q' xs' ys' where
    r: "ret_ok e q b express = (q', Pushed True)" "qinv idf lst q' xs' ys'" "xs' @ ys' = xs @ ys" "same_tx q q'" by blast
  have "outcome idf lst bt tq c0 ms m q' (Pushed True)"
    using s r(3) by (intro outcomeI [OF r(2) gens_same_tx [OF q(3) r(4)]]) simp
  then show ?thesis using r by simp
qed

lemma push_second_ok:
  assumes e: "env_ok e lst" and q: "qinv idf lst (q\<lparr>q_current := Some b\<rparr>) xs []" "q_current q = None"
    and m: "network_body_ok idf (body m)" "reliability m = rel" "write_network_message m = Some bs"
    and g: "gens bt q (c(rel := Suc (c rel)))" and s: "stream idf bt tq c0 xs ms c"
  shows "case push_second e q b m (frame_of bt rel tq (c rel)) d evs of (q', d', evs', res) \<Rightarrow> outcome idf lst bt tq c0 ms m q' res"
proof -
  obtain b' res where enc: "wb_encode_frame (e_lim e) b m (frame_of bt rel tq (c rel)) = (b', res)"
    by (cases "wb_encode_frame (e_lim e) b m (frame_of bt rel tq (c rel))")
  show ?thesis
  proof (cases res)
    case (Inr u)
    from encode_frame_queue [OF e q(1) _ m(1), of bt tq c b' u c0 ms] enc Inr s m(2) obtain ys' where
      ys': "qinv idf lst (q\<lparr>q_current := Some b'\<rparr>) xs ys'" "stream idf bt tq c0 (xs @ ys') (ms @ [m]) (c(rel := Suc (c rel)))" by auto
    from ret_ok_outcome [OF e ys'(1) q(2) g ys'(2), of "msg_is_express m"] show ?thesis
      using enc Inr by (auto simp: push_second_def split: prod.splits)
  next
    case (Inl err)
    have b': "b' = b" using encode_refused(2) [OF e q(1)] enc Inl by simp
    have "case frag_loop e (sn_wire bt (c rel)) (q\<lparr>q_current := Some b\<rparr>)
        \<lparr>fg_qos = tq, fg_first = True, fg_drop = False, fg_reliability = rel, fg_more = True, fg_sn = sn_wire bt (c rel)\<rparr> bs d evs of
        (q', d', evs', res) \<Rightarrow> outcome idf lst bt tq c0 ms m q' res"
      using q(1) g write_network_message_ne [OF m(1,3)] m(3)
      by (intro frag_loop_ok [OF e m(1,2) s, where ps = "[]"]) (auto simp: frag_at_def intro: gens_same)
    then show ?thesis using enc Inl b' m(3) by (simp add: push_second_def push_fragments_def Let_def frame_of_def)
  qed
qed

lemma push_new_batch_ok:
  assumes e: "env_ok e lst" and q: "qinv idf lst (q\<lparr>q_current := Some b\<rparr>) xs ys" "q_current q = None"
    and m: "network_body_ok idf (body m)" "reliability m = rel" "write_network_message m = Some bs"
    and g: "gens bt q (c(rel := Suc (c rel)))" and s: "stream idf bt tq c0 (xs @ ys) ms c"
  shows "case push_new_batch e q b m (frame_of bt rel tq (c rel)) d evs of (q', d', evs', res) \<Rightarrow> outcome idf lst bt tq c0 ms m q' res"
proof -
  note bb = qinv_batch [OF q(1)]
  from wb_items_holds [OF bb(1)] obtain p where p: "wb_holds b p" "wcat (map write_transport ys) = Some p" by blast
  have emp: "wb_is_empty b = Some (p = [])" by (rule wb_is_empty_holds [OF p(1)])
  show ?thesis
  proof (cases "p = []")
    case True
    then have "ys = []" using items_empty [OF bb(2)] p(2) by simp
    then show ?thesis using push_second_ok [OF e _ q(2) m g, of b xs] q(1) s emp True by (simp add: push_new_batch_def)
  next
    case False
    let ?q = "move_batch e q b"
    have mv: "qinv idf lst ?q (xs @ ys) []" "same_tx q ?q" using move_batch_ok [OF e q] by auto
    note gb = get_batch_ok [OF e mv(1), of d evs]
    show ?thesis
    proof (cases "get_batch e ?q d evs")
      case (Got b2 q2 d2 evs2)
      then have q2: "q_current q2 = None" "qinv idf lst (q2\<lparr>q_current := Some b2\<rparr>) (xs @ ys) []" "same_tx ?q q2" using gb by auto
      have "gens bt q2 (c(rel := Suc (c rel)))" by (rule gens_same_tx [OF g same_tx_trans [OF mv(2) q2(3)]])
      from push_second_ok [OF e q2(2,1) m this s, of d2 evs2] show ?thesis
        using Got emp False by (simp add: push_new_batch_def)
    next
      case (GotNone q2 d2 evs2)
      then have q2: "qinv idf lst q2 (xs @ ys) []" "same_tx ?q q2" using gb by auto
      have g2: "gens bt q2 (c(rel := Suc (c rel)))" by (rule gens_same_tx [OF g same_tx_trans [OF mv(2) q2(2)]])
      from restore_sn_wire [OF g2] obtain g1 where g1: "restore_sn q2 rel (sn_wire bt (c rel)) = Some (put_gen q2 rel g1)"
        "gen_ok bt g1" "gen_now g1 = sn_wire bt (c rel)" by blast
      have "gens bt (put_gen q2 rel g1) c" using gens_put [OF g2 g1(2,3), of rel] by simp
      then have "outcome idf lst bt tq c0 ms m (put_gen q2 rel g1) (Pushed False)"
        using q2(1) s by (intro outcomeI [where c = c and xs = "xs @ ys" and ys = "[]"]) simp_all
      then show ?thesis using GotNone emp False g1(1) m(2) by (simp add: push_new_batch_def frame_of_def)
    qed (use gb emp False in \<open>auto simp: push_new_batch_def\<close>)
  qed
qed

lemma notify_pending_simps [simp]:
  "qinv idf lst (notify_pending q) xs ys = qinv idf lst q xs ys" "same_tx (notify_pending q) q' = same_tx q q'"
  by (simp_all add: notify_pending_def same_tx_def)

lemma push_network_message_ok:
  assumes e: "env_ok e lst" and q: "qinv idf lst q xs ys" "gens bt q c" "stream idf bt (tqos_new prio) c0 (xs @ ys) ms c"
    and m: "network_body_ok idf (body m)" "write_network_message m = Some bs"
  shows "case push_network_message e q m prio d evs of (q', d', evs', res) \<Rightarrow> outcome idf lst bt (tqos_new prio) c0 ms m q' res"
proof -
  let ?rel = "reliability m"
  have gb: "case get_batch e (notify_pending q) d evs of
      Got b q' d' evs' \<Rightarrow> q_current q' = None \<and> qinv idf lst (q'\<lparr>q_current := Some b\<rparr>) xs ys \<and> same_tx q q'
    | GotNone q' d' evs' \<Rightarrow> q_current q' = None \<and> qinv idf lst q' xs ys \<and> same_tx q q'
    | GotPanic q' \<Rightarrow> False
    | _ \<Rightarrow> True"
    using get_batch_ok [OF e, of idf "notify_pending q" xs ys d evs] q(1) by (auto split: got.splits)
  show ?thesis
  proof (cases "get_batch e (notify_pending q) d evs")
    case (GotNone q1 d1 evs1)
    then have q1: "qinv idf lst q1 xs ys" "same_tx q q1" using gb by auto
    then have "outcome idf lst bt (tqos_new prio) c0 ms m q1 (Pushed False)"
      using q(3) by (intro outcomeI [OF q1(1) gens_same_tx [OF q(2) q1(2)]]) simp
    then show ?thesis using GotNone by (simp add: push_network_message_def)
  next
    case (Got b q1 d1 evs1)
    then have q1: "q_current q1 = None" "qinv idf lst (q1\<lparr>q_current := Some b\<rparr>) xs ys" "same_tx q q1" using gb by auto
    have g1: "gens bt q1 c" by (rule gens_same_tx [OF q(2) q1(3)])
    obtain b' res where enc: "wb_encode_network (e_lim e) b m = (b', res)" by (cases "wb_encode_network (e_lim e) b m")
    show ?thesis
    proof (cases res)
      case (Inr u)
      from encode_network_queue [OF e q1(2) _ m(1) q(3)] enc Inr obtain ys' where
        ys': "qinv idf lst (q1\<lparr>q_current := Some b'\<rparr>) xs ys'" "stream idf bt (tqos_new prio) c0 (xs @ ys') (ms @ [m]) c" by blast
      from ret_ok_outcome [OF e ys'(1) q1(1) g1 ys'(2), of "msg_is_express m"] show ?thesis
        using Got enc Inr by (auto simp: push_network_message_def split: prod.splits)
    next
      case (Inl err)
      have b': "b' = b" using encode_refused(1) [OF e q1(2)] enc Inl by simp
      obtain g where g: "gen_get (get_gen q1 ?rel) = (sn_wire bt (c ?rel), g)" "gen_ok bt g" "gen_now g = sn_wire bt (Suc (c ?rel))"
        using gen_get_wire [OF g1] by blast
      let ?q2 = "put_gen q1 ?rel g" and ?f = "frame_of bt ?rel (tqos_new prio) (c ?rel)"
      have q2: "q_current ?q2 = None" "qinv idf lst (?q2\<lparr>q_current := Some b\<rparr>) xs ys" using q1 by simp_all
      have g2: "gens bt ?q2 (c(?rel := Suc (c ?rel)))" by (rule gens_put [OF g1 g(2,3)])
      note nb = push_new_batch_ok [OF e q2(2,1) m(1) refl m(2) g2 q(3), of d1 evs1]
      have f: "\<lparr>fr_qos = tqos_new prio, fr_reliability = ?rel, fr_sn = sn_wire bt (c ?rel)\<rparr> = ?f" by (simp add: frame_of_def)
      obtain b2 res2 where enc2: "wb_encode_frame (e_lim e) b m ?f = (b2, res2)" by (cases "wb_encode_frame (e_lim e) b m ?f")
      show ?thesis
      proof (cases "err = NewFrame \<and> (\<exists>u. res2 = Inr u)")
        case True
        then obtain u where u: "res2 = Inr u" by auto
        from encode_frame_queue [OF e q2(2) _ m(1) q(3)] enc2 u obtain ys' where
          ys': "qinv idf lst (?q2\<lparr>q_current := Some b2\<rparr>) xs ys'"
          "stream idf bt (tqos_new prio) c0 (xs @ ys') (ms @ [m]) (c(?rel := Suc (c ?rel)))" by blast
        from ret_ok_outcome [OF e ys'(1) q2(1) g2 ys'(2), of "msg_is_express m"] show ?thesis
          using Got enc Inl b' g(1) True enc2 u f by (auto simp: push_network_message_def Let_def split: prod.splits)
      next
        case False
        then have "push_network_message e q m prio d evs = push_new_batch e ?q2 b m ?f d1 evs1"
          using Got enc Inl b' g(1) enc2 f encode_refused(2) [OF e q2(2), of m ?f b2]
          by (cases res2) (auto simp: push_network_message_def Let_def)
        then show ?thesis using nb by simp
      qed
    qed
  qed (use gb in \<open>auto simp: push_network_message_def\<close>)
qed

end
