(* ===== verification/Transport_Run.thy ===== *)
theory Transport_Run
  imports Transport_Push
begin

text \<open>
  Runs of the queue of a priority: pushes of network and transport messages by the producer, and
  pulls, returns and drains by the link task, in any order.  What comes out, received by the peer,
  is what was accepted.
\<close>

section \<open>Transport messages\<close>

lemma get_batch_wait_ok:
  assumes e: "env_ok e lst" and q: "qinv idf lst q xs ys"
  shows "case get_batch_wait e q evs of
      Got b q' d' evs' \<Rightarrow> q_current q' = None \<and> qinv idf lst (q'\<lparr>q_current := Some b\<rparr>) xs ys \<and> same_tx q q'
    | GotNone q' d' evs' \<Rightarrow> False
    | GotPanic q' \<Rightarrow> False
    | GotClosed q' \<Rightarrow> qinv idf lst q' xs ys \<and> same_tx q q'
    | GotBlocked q' \<Rightarrow> True"
  using q
proof (induction evs arbitrary: q)
  case (Cons ev evs)
  show ?case
  proof (cases rule: get_batch_start [OF e Cons.prems, of "deadline_new 0 None" "ev # evs", case_names got wait])
    case (got b q')
    then show ?thesis by simp
  next
    case (wait q1)
    have step: "\<exists>q2. consumer_gives e k (consumer_takes e n q1) = Some q2 \<and> qinv idf lst q2 xs ys \<and> same_tx q q2" for n k
      using event_ok [OF e wait(4), of k n] wait(5) by (auto intro: same_tx_trans)
    show ?thesis
    proof (cases ev)
      case (Woken n k)
      then obtain q2 where q2: "consumer_gives e k (consumer_takes e n q1) = Some q2" "qinv idf lst q2 xs ys" "same_tx q q2"
        using step by blast
      have "get_batch_wait e q (ev # evs) = get_batch_wait e q2 evs"
        using wait Woken q2 by (subst get_batch_wait.simps) (simp add: Let_def)
      then show ?thesis using Cons.IH [OF q2(2)] q2(3) by (auto split: got.splits intro: same_tx_trans)
    next
      case (Expired n k)
      then obtain q2 where q2: "consumer_gives e k (consumer_takes e n q1) = Some q2" "qinv idf lst q2 xs ys" "same_tx q q2"
        using step by blast
      have "get_batch_wait e q (ev # evs) = get_batch_wait e q2 evs"
        using wait Expired q2 by (subst get_batch_wait.simps) (simp add: Let_def)
      then show ?thesis using Cons.IH [OF q2(2)] q2(3) by (auto split: got.splits intro: same_tx_trans)
    next
      case Disconnected
      then show ?thesis using wait by (simp add: get_batch_wait.simps Let_def)
    qed
  qed
next
  case Nil
  show ?case
  proof (cases rule: get_batch_start [OF e Nil, of "deadline_new 0 None" "[]", case_names got wait])
    case (got b q')
    then show ?thesis by simp
  next
    case (wait q1)
    then show ?thesis by (simp add: get_batch_wait.simps Let_def)
  qed
qed

text \<open>A transport message that is not a frame or a fragment, on the batch in hand.\<close>

definition control :: "(bytes \<Rightarrow> bytes option) \<Rightarrow> TransportBody \<Rightarrow> bool" where
  "control idf x \<longleftrightarrow> transport_ok idf x \<and> open_frame x = CfNone \<and> (\<forall>f. x \<noteq> FragmentT f)"

lemma encode_transport_queue:
  assumes e: "env_ok e lst" and q: "qinv idf lst (q\<lparr>q_current := Some b\<rparr>) xs ys"
    and enc: "wb_encode_transport (e_lim e) b x = (b', ok)" and x: "control idf x"
    and s: "stream idf bt tq c0 (xs @ ys) ms c"
  shows "if ok then \<exists>ys'. qinv idf lst (q\<lparr>q_current := Some b'\<rparr>) xs ys' \<and> stream idf bt tq c0 (xs @ ys') ms c else b' = b"
proof -
  have lim: "slot_limit (e_lim e)" using e by (simp add: env_ok_def)
  note b = qinv_batch [OF q]
  from encode_transport_items [OF lim b(1) enc] x have
    f: "if ok then wb_items b' (ys @ [x]) else b' = b" and c: "wb_config b' = wb_config b" "wb_ephemeral b' = wb_ephemeral b"
    by (auto simp: control_def)
  show ?thesis
  proof (cases ok)
    case True
    have "stream idf bt tq c0 ((xs @ ys) @ [x]) ms c" using s x by (intro stream.Other) (auto simp: control_def)
    moreover have "items_ok idf (ys @ [x])" "no_fragment (ys @ [x])"
      using b(2,3) x by (auto simp: items_ok_snoc no_fragment_snoc control_def)
    ultimately show ?thesis using qinv_replace [OF q c] f True by auto
  next
    case False
    then show ?thesis using f by simp
  qed
qed

text \<open>The outcome of an operation that accepts no network message.\<close>

definition unchanged ::
  "(bytes \<Rightarrow> bytes option) \<Rightarrow> ('r \<Rightarrow> WBatch list) \<Rightarrow> Bits \<Rightarrow> TQoS \<Rightarrow> counters \<Rightarrow> NetworkMessage list \<Rightarrow> 'r Queue \<Rightarrow> bool" where
  "unchanged idf lst bt tq c0 ms q \<longleftrightarrow>
     (\<exists>xs ys c. qinv idf lst q xs ys \<and> gens bt q c \<and> stream idf bt tq c0 (xs @ ys) ms c)"

lemma qinv_drop_hand: "qinv idf lst (q\<lparr>q_current := Some b\<rparr>) xs [] \<Longrightarrow> q_current q = None \<Longrightarrow> qinv idf lst q xs []"
  by (auto simp: qinv_defs)

lemma push_transport_message_ok:
  assumes e: "env_ok e lst" and q: "qinv idf lst q xs ys" "gens bt q c" "stream idf bt tq c0 (xs @ ys) ms c"
    and x: "control idf x"
  shows "case push_transport_message e q x evs of (q', evs', res) \<Rightarrow>
    res \<noteq> PushPanic \<and> (\<forall>ok. res = Pushed ok \<longrightarrow> unchanged idf lst bt tq c0 ms q')"
proof -
  have un: "unchanged idf lst bt tq c0 ms q'" if "qinv idf lst q' xs' ys'" "same_tx q q'" "xs' @ ys' = xs @ ys" for q' xs' ys'
    using that q gens_same_tx [OF q(2) that(2)] unfolding unchanged_def by metis
  note gb = get_batch_wait_ok [OF e, of idf "notify_pending q" xs ys evs, unfolded notify_pending_simps, OF q(1)]
  show ?thesis
  proof (cases "get_batch_wait e (notify_pending q) evs")
    case (GotClosed q1)
    then show ?thesis using gb un [of q1 xs ys] by (simp add: push_transport_message_def)
  next
    case (Got b q1 d1 evs1)
    then have q1: "q_current q1 = None" "qinv idf lst (q1\<lparr>q_current := Some b\<rparr>) xs ys" "same_tx q q1" using gb by auto
    obtain b' ok where enc: "wb_encode_transport (e_lim e) b x = (b', ok)" by (cases "wb_encode_transport (e_lim e) b x")
    note eq = encode_transport_queue [OF e q1(2) enc x q(3)]
    show ?thesis
    proof (cases ok)
      case True
      then obtain ys' where ys': "qinv idf lst (q1\<lparr>q_current := Some b'\<rparr>) xs ys'" "stream idf bt tq c0 (xs @ ys') ms c" using eq by auto
      from ret_ok_ok [OF e ys'(1) q1(1), of False] obtain q2 xs2 ys2 where
        r: "ret_ok e q1 b' False = (q2, Pushed True)" "qinv idf lst q2 xs2 ys2" "xs2 @ ys2 = xs @ ys'" "same_tx q1 q2" by blast
      have "gens bt q2 c" using gens_same_tx [OF q(2)] same_tx_trans [OF q1(3) r(4)] by blast
      then have "unchanged idf lst bt tq c0 ms q2" using r ys'(2) unfolding unchanged_def by metis
      then show ?thesis using Got enc True r(1) by (simp add: push_transport_message_def)
    next
      case False
      then have b': "b' = b" using eq by simp
      note bb = qinv_batch [OF q1(2)]
      from wb_items_holds [OF bb(1)] obtain p where p: "wb_holds b p" "wcat (map write_transport ys) = Some p" by blast
      have emp: "wb_is_empty b = Some (p = [])" by (rule wb_is_empty_holds [OF p(1)])
      show ?thesis
      proof (cases "p = []")
        case True
        then have "ys = []" using items_empty [OF bb(2)] p(2) by simp
        then have "unchanged idf lst bt tq c0 ms q1" using un [of q1 xs "[]"] qinv_drop_hand [of idf lst b q1 xs] q1 by simp
        then show ?thesis using Got enc \<open>\<not> ok\<close> b' emp True by (simp add: push_transport_message_def push_transport_again_def)
      next
        case ne: False
        let ?q = "move_batch e q1 b"
        have mv: "qinv idf lst ?q (xs @ ys) []" "same_tx q ?q" using move_batch_ok [OF e q1(2,1)] q1(3) by (auto intro: same_tx_trans)
        note gb2 = get_batch_wait_ok [OF e mv(1), of evs1]
        show ?thesis
        proof (cases "get_batch_wait e ?q evs1")
          case g2: (Got b2 q2 d2 evs2)
          then have "qinv idf lst q2 (xs @ ys) []" "same_tx q q2"
            using gb2 qinv_drop_hand [of idf lst b2 q2] same_tx_trans [OF mv(2)] by auto
          then show ?thesis using g2 un [of q2 "xs @ ys" "[]"] Got enc \<open>\<not> ok\<close> b' emp ne
            by (simp add: push_transport_message_def push_transport_again_def)
        next
          case (GotClosed q2)
          then have "qinv idf lst q2 (xs @ ys) []" "same_tx q q2" using gb2 same_tx_trans [OF mv(2)] by auto
          then show ?thesis using GotClosed un [of q2 "xs @ ys" "[]"] Got enc \<open>\<not> ok\<close> b' emp ne
            by (simp add: push_transport_message_def)
        qed (use gb2 Got enc \<open>\<not> ok\<close> b' emp ne in \<open>auto simp: push_transport_message_def\<close>)
      qed
    qed
  qed (use gb in \<open>auto simp: push_transport_message_def\<close>)
qed

section \<open>The link task\<close>

lemma lend_hand_ok:
  assumes "qinv idf lst q xs ys" "q_current q = Some b" "lst (q_out q) = []"
  shows "qinv idf lst (lend (q\<lparr>q_current := None\<rparr>) b) (xs @ ys) []"
proof -
  have "holding idf (q_pulled q @ [b]) (xs @ ys)" using assms by (intro holding_snoc) (auto simp: qinv_defs)
  then show ?thesis using assms by (auto simp: qinv_defs lend_def no_fragment_def)
qed

lemma qinv_out: "qinv idf lst q xs ys \<Longrightarrow> lst r = lst (q_out q) \<Longrightarrow> qinv idf lst (q\<lparr>q_out := r\<rparr>) xs ys"
  by (simp add: qinv_defs in_hand_def)

text \<open>What a pull may do to the queue.\<close>

definition pull_ok ::
  "(bytes \<Rightarrow> bytes option) \<Rightarrow> ('r \<Rightarrow> WBatch list) \<Rightarrow> TransportBody list \<Rightarrow> 'r Queue \<Rightarrow> 'r Queue \<times> Pull \<Rightarrow> bool" where
  "pull_ok idf lst zs q r \<longleftrightarrow> (\<exists>xs ys. qinv idf lst (fst r) xs ys \<and> xs @ ys = zs) \<and> same_tx q (fst r) \<and>
     q_pulled (fst r) = q_pulled q @ (case snd r of PullSome b \<Rightarrow> [b] | _ \<Rightarrow> [])"

lemma pull_locked_ok:
  assumes e: "env_ok e lst" and q: "qinv idf lst q xs ys"
  shows "pull_ok idf lst (xs @ ys) q (pull_locked e q)"
proof (cases "lst (q_out q)")
  case (Cons b bs)
  then obtain r where r: "rg_pull (e_ring e) (q_out q) = (r, Some b)" "lst r = bs" using ring_pull(2) [OF e] by blast
  show ?thesis using lend_ok [OF q Cons r(2)] r(1) by (auto simp: pull_locked_def pull_ok_def same_tx_def lend_def)
next
  case Nil
  then obtain r where r: "rg_pull (e_ring e) (q_out q) = (r, None)" "lst r = []" using ring_pull(1) [OF e] by blast
  let ?q = "reset_pending (q\<lparr>q_out := r\<rparr>)"
  have q1: "qinv idf lst ?q xs ys" "same_tx q ?q" "q_pulled ?q = q_pulled q" "lst (q_out ?q) = []"
    using qinv_out [OF q, of r] r Nil by (simp_all add: reset_pending_def same_tx_def)
  show ?thesis
  proof (cases "q_current ?q")
    case None
    then show ?thesis using r q1 by (auto simp: pull_locked_def pull_ok_def)
  next
    case (Some b)
    let ?l = "lend (?q\<lparr>q_current := None\<rparr>) b"
    have "pull_locked e q = (?l, PullSome b)" using r(1) Some by (simp add: pull_locked_def Let_def)
    moreover have "same_tx q ?l" "q_pulled ?l = q_pulled q @ [b]" using q1(2,3) by (simp_all add: same_tx_def lend_def)
    ultimately show ?thesis using lend_hand_ok [OF q1(1) Some q1(4)] by (auto simp: pull_ok_def)
  qed
qed

lemma pull_ok_same: "pull_ok idf lst zs q r \<Longrightarrow> same_tx q0 q \<Longrightarrow> q_pulled q = q_pulled q0 \<Longrightarrow> pull_ok idf lst zs q0 r"
  by (auto simp: pull_ok_def intro: same_tx_trans)

lemma backoff_check_ok:
  assumes "qinv idf lst q xs ys" "backoff_check e q = (q', pull, k)"
  shows "qinv idf lst q' xs ys \<and> same_tx q q' \<and> q_pulled q' = q_pulled q"
  using assms by (auto simp: backoff_check_def Let_def same_tx_def split: if_splits)

lemma try_pull_deep_ok:
  assumes e: "env_ok e lst" and q: "qinv idf lst q xs ys"
  shows "pull_ok idf lst (xs @ ys) q (try_pull_deep e free q)"
proof -
  obtain q1 pull k where b: "backoff_check e q = (q1, pull, k)" by (metis prod_cases3)
  note q1 = backoff_check_ok [OF q b]
  let ?q = "q1\<lparr>q_active := False\<rparr>"
  have "qinv idf lst ?q xs ys" "same_tx q ?q" "q_pulled ?q = q_pulled q" using q1 by (simp_all add: same_tx_def)
  then have "pull_ok idf lst (xs @ ys) q (pull_locked e ?q)"
    by (intro pull_ok_same [OF pull_locked_ok [OF e]])
  moreover have "pull_ok idf lst (xs @ ys) q (q1\<lparr>q_active := True\<rparr>, PullBackoff k)"
    using q1 by (auto simp: pull_ok_def same_tx_def)
  ultimately show ?thesis using b by (simp add: try_pull_deep_def)
qed

lemma try_pull_ok:
  assumes e: "env_ok e lst" and q: "qinv idf lst q xs ys"
  shows "pull_ok idf lst (xs @ ys) q (try_pull e free q)"
proof (cases "lst (q_out q)")
  case (Cons b bs)
  then obtain r where r: "rg_pull (e_ring e) (q_out q) = (r, Some b)" "lst r = bs" using ring_pull(2) [OF e] by blast
  let ?l = "lend (q\<lparr>q_out := r, q_active := False\<rparr>) b"
  have "?l = (lend (q\<lparr>q_out := r\<rparr>) b)\<lparr>q_active := False\<rparr>" by (simp add: lend_def)
  then have "qinv idf lst ?l xs ys" using lend_ok [OF q Cons r(2)] by simp
  moreover have "same_tx q ?l" "q_pulled ?l = q_pulled q @ [b]" by (simp_all add: same_tx_def lend_def)
  ultimately show ?thesis using r(1) by (auto simp: try_pull_def pull_ok_def)
next
  case Nil
  then obtain r where r: "rg_pull (e_ring e) (q_out q) = (r, None)" "lst r = []" using ring_pull(1) [OF e] by blast
  have "qinv idf lst (q\<lparr>q_out := r\<rparr>) xs ys" using qinv_out [OF q] r Nil by simp
  then show ?thesis using r(1) pull_ok_same [OF try_pull_deep_ok [OF e], of idf "q\<lparr>q_out := r\<rparr>" xs ys q free]
    by (simp add: try_pull_def same_tx_def)
qed

lemma drain_ring_ok:
  assumes e: "env_ok e lst"
  shows "length (lst r) \<le> n \<Longrightarrow> \<exists>r'. drain_ring e n r = (r', lst r) \<and> lst r' = []"
proof (induction n arbitrary: r)
  case (Suc n)
  show ?case
  proof (cases "lst r")
    case Nil
    then show ?thesis using ring_pull(1) [OF e Nil] by auto
  next
    case (Cons b bs)
    then obtain r1 where r1: "rg_pull (e_ring e) r = (r1, Some b)" "lst r1 = bs" using ring_pull(2) [OF e] by blast
    then show ?thesis using Suc.IH [of r1] Suc.prems Cons by auto
  qed
qed simp

lemma foldl_lend: "foldl lend q bs = q\<lparr>q_pulled := q_pulled q @ bs, q_lent := q_lent q @ bs\<rparr>"
  by (induction bs arbitrary: q) (simp_all add: lend_def)

lemma stage_drain_ok:
  assumes e: "env_ok e lst" and q: "qinv idf lst q xs ys" and d: "stage_drain e q = (q', bs)"
  shows "qinv idf lst q' (xs @ ys) [] \<and> same_tx q q' \<and> lst (q_out q') = [] \<and> q_current q' = None \<and>
    q_pulled q' = q_pulled q @ lst (q_out q) @ in_hand q"
proof -
  have "length (lst (q_out q)) \<le> RBLEN" using e by (simp add: env_ok_def ring_laws_def)
  from drain_ring_ok [OF e this] obtain r where r: "drain_ring e RBLEN (q_out q) = (r, lst (q_out q))" "lst r = []" by blast
  have q': "q' = q\<lparr>q_out := r, q_current := None, q_pulled := q_pulled q @ lst (q_out q) @ in_hand q,
      q_lent := q_lent q @ lst (q_out q) @ in_hand q\<rparr>"
    using d r(1) by (auto simp: stage_drain_def Let_def foldl_lend in_hand_def)
  have "holding idf (q_pulled q @ lst (q_out q) @ in_hand q) (xs @ ys)"
  proof (cases "q_current q")
    case None
    then show ?thesis using q by (auto simp: qinv_defs)
  next
    case (Some b)
    have "holding idf ((q_pulled q @ lst (q_out q)) @ [b]) (xs @ ys)" using q Some by (intro holding_snoc) (auto simp: qinv_defs)
    then show ?thesis using Some by simp
  qed
  then show ?thesis using q r(2) unfolding q' by (auto simp: qinv_defs no_fragment_def spread_def)
qed

section \<open>Runs\<close>

datatype action =
    PushNetwork NetworkMessage Deadline "wait_event list"
  | PushTransport TransportBody "wait_event list"
  | PullBatch bool
  | ReturnBatch
  | DrainQueue

text \<open>An operation of the producer or of the link task: the new state and the network message that was
  accepted, if any.  \<open>None\<close> is a panic, a closed transport, or a wait that does not end.\<close>

fun step :: "'r env \<Rightarrow> Priority \<Rightarrow> 'r Queue \<Rightarrow> action \<Rightarrow> ('r Queue \<times> NetworkMessage list) option" where
  "step e p q (PushNetwork m d evs) =
     (case push_network_message e q m p d evs of
        (q, _, _, Pushed ok) \<Rightarrow> Some (q, if ok then [m] else []) | _ \<Rightarrow> None)"
| "step e p q (PushTransport x evs) =
     (case push_transport_message e q x evs of (q, _, Pushed _) \<Rightarrow> Some (q, []) | _ \<Rightarrow> None)"
| "step e p q (PullBatch free) = Some (fst (try_pull e free q), [])"
| "step e p q ReturnBatch = map_option (\<lambda>q. (q, [])) (consumer_return e q)"
| "step e p q DrainQueue = Some (fst (stage_drain e q), [])"

fun run :: "'r env \<Rightarrow> Priority \<Rightarrow> 'r Queue \<Rightarrow> action list \<Rightarrow> ('r Queue \<times> NetworkMessage list) option" where
  "run e p q [] = Some (q, [])"
| "run e p q (a # as) =
     do { (q, m) \<leftarrow> step e p q a; (q, ms) \<leftarrow> run e p q as; Some (q, m @ ms) }"

fun action_ok :: "(bytes \<Rightarrow> bytes option) \<Rightarrow> nat \<Rightarrow> action \<Rightarrow> bool" where
  "action_ok idf cap (PushNetwork m d evs) \<longleftrightarrow> network_body_ok idf (body m) \<and>
     (case write_network_message m of None \<Rightarrow> False | Some bs \<Rightarrow> length bs \<le> cap)"
| "action_ok idf cap (PushTransport x evs) \<longleftrightarrow> control idf x"
| "action_ok idf cap _ \<longleftrightarrow> True"

lemma unchangedI:
  "qinv idf lst q xs ys \<Longrightarrow> gens bt q c \<Longrightarrow> stream idf bt tq c0 (xs @ ys) ms c \<Longrightarrow> unchanged idf lst bt tq c0 ms q"
  by (auto simp: unchanged_def)

lemma step_ok:
  assumes e: "env_ok e lst" and q: "unchanged idf lst bt (tqos_new p) c0 ms q" and a: "action_ok idf cap a"
    and s: "step e p q a = Some (q', ns)"
  shows "unchanged idf lst bt (tqos_new p) c0 (ms @ ns) q'"
proof -
  from q obtain xs ys c where q: "qinv idf lst q xs ys" "gens bt q c" "stream idf bt (tqos_new p) c0 (xs @ ys) ms c"
    by (auto simp: unchanged_def)
  show ?thesis
  proof (cases a)
    case (PushNetwork m d evs)
    obtain bs where m: "network_body_ok idf (body m)" "write_network_message m = Some bs"
      using a PushNetwork by (auto split: option.splits)
    obtain d' evs' ok where r: "push_network_message e q m p d evs = (q', d', evs', Pushed ok)" "ns = (if ok then [m] else [])"
      using s PushNetwork by (auto split: prod.splits push_result.splits)
    from push_network_message_ok [OF e q m, of d evs] r(1) have "outcome idf lst bt (tqos_new p) c0 ms m q' (Pushed ok)" by simp
    then show ?thesis using r(2) unfolding outcome_def unchanged_def by (cases ok) auto
  next
    case (PushTransport x evs)
    obtain evs' ok where r: "push_transport_message e q x evs = (q', evs', Pushed ok)" "ns = []"
      using s PushTransport by (auto split: prod.splits push_result.splits)
    then show ?thesis using push_transport_message_ok [OF e q, of x evs] a PushTransport by simp
  next
    case (PullBatch free)
    have r: "q' = fst (try_pull e free q)" "ns = []" using s PullBatch by auto
    have p: "pull_ok idf lst (xs @ ys) q (try_pull e free q)" by (rule try_pull_ok [OF e q(1)])
    then have "gens bt q' c" using gens_same_tx [OF q(2)] r by (simp add: pull_ok_def)
    moreover obtain xs' ys' where "qinv idf lst q' xs' ys'" "xs' @ ys' = xs @ ys" using p r by (auto simp: pull_ok_def)
    ultimately show ?thesis using r(2) q(3) by (auto intro: unchangedI)
  next
    case ReturnBatch
    from return_ok [OF e q(1)] s ReturnBatch have "qinv idf lst q' xs ys" "same_tx q q'" "ns = []" by auto
    then show ?thesis using q gens_same_tx [OF q(2)] by (auto intro: unchangedI)
  next
    case DrainQueue
    obtain bs where d: "stage_drain e q = (q', bs)" "ns = []" using s DrainQueue by (cases "stage_drain e q") auto
    from stage_drain_ok [OF e q(1) d(1)] have "qinv idf lst q' (xs @ ys) []" and t: "same_tx q q'" by auto
    then show ?thesis using d(2) q(3) gens_same_tx [OF q(2) t] unchangedI [of idf lst q' "xs @ ys" "[]" bt c] by simp
  qed
qed

lemma run_ok:
  assumes e: "env_ok e lst" and q: "unchanged idf lst bt (tqos_new p) c0 ms q" and a: "\<forall>a\<in>set as. action_ok idf cap a"
    and s: "run e p q as = Some (q', ns)"
  shows "unchanged idf lst bt (tqos_new p) c0 (ms @ ns) q'"
  using q a s
proof (induction as arbitrary: q ms ns)
  case (Cons a as)
  from Cons.prems(3) obtain q1 n1 n2 where r: "step e p q a = Some (q1, n1)" "run e p q1 as = Some (q', n2)" "ns = n1 @ n2"
    by (auto simp: Option.bind_eq_Some_conv)
  have "unchanged idf lst bt (tqos_new p) c0 (ms @ n1) q1" using step_ok [OF e Cons.prems(1) _ r(1)] Cons.prems(2) by auto
  from Cons.IH [OF this _ r(2)] Cons.prems(2) r(3) show ?case by simp
qed simp

lemma run_accepts:
  assumes "run e p q as = Some (q', ns)" "\<forall>a\<in>set as. action_ok idf cap a" "m \<in> set ns"
  shows "\<exists>bs. write_network_message m = Some bs \<and> length bs \<le> cap"
  using assms
proof (induction as arbitrary: q ns)
  case (Cons a as)
  from Cons.prems(1) obtain q1 n1 n2 where r: "step e p q a = Some (q1, n1)" "run e p q1 as = Some (q', n2)" "ns = n1 @ n2"
    by (auto simp: Option.bind_eq_Some_conv)
  have "\<exists>bs. write_network_message m = Some bs \<and> length bs \<le> cap" if "m \<in> set n1"
    using that r(1) Cons.prems(2) by (cases a) (auto split: prod.splits push_result.splits if_splits option.splits)
  then show ?case using Cons.IH [OF r(2)] Cons.prems(2,3) r(3) by auto
qed simp

text \<open>A new queue: nothing sent, nothing in hand.\<close>

definition fresh :: "('r \<Rightarrow> WBatch list) \<Rightarrow> Bits \<Rightarrow> counters \<Rightarrow> 'r Queue \<Rightarrow> bool" where
  "fresh lst bt c q \<longleftrightarrow> queue_ok lst q \<and> q_pulled q = [] \<and> lst (q_out q) = [] \<and> q_current q = None \<and> gens bt q c"

lemma fresh_unchanged: "fresh lst bt c q \<Longrightarrow> unchanged idf lst bt tq c [] q"
  unfolding fresh_def
  by (rule unchangedI [where xs = "[]" and ys = "[]"]) (auto simp: qinv_def carries_def no_fragment_def intro: stream.Empty)

text \<open>The batches of a queue, in the order in which they are sent.\<close>

definition all_batches :: "('r \<Rightarrow> WBatch list) \<Rightarrow> 'r Queue \<Rightarrow> WBatch list" where
  "all_batches lst q = q_pulled q @ lst (q_out q) @ in_hand q"

lemma holding_all:
  assumes "qinv idf lst q xs ys"
  shows "holding idf (all_batches lst q) (xs @ ys)"
proof (cases "q_current q")
  case None
  then show ?thesis using assms by (auto simp: qinv_defs all_batches_def)
next
  case (Some b)
  then have "holding idf ((q_pulled q @ lst (q_out q)) @ [b]) (xs @ ys)" using assms by (intro holding_snoc) (auto simp: qinv_defs)
  then show ?thesis using Some by (simp add: all_batches_def)
qed

lemma holding_reception:
  assumes h: "holding idf bs xs" and ps: "list_all2 wb_holds bs ps"
  shows "read_batches idf cb st ps = handle_items idf cb st xs"
proof -
  from h obtain xss where xss: "list_all2 (\<lambda>b xs. wb_items b xs \<and> items_ok idf xs) bs xss" "xs = concat xss"
    by (auto simp: holding_def)
  have "p = p'" if "wb_holds b p" "wb_holds b p'" for b p p' using that by (simp add: wb_holds_def)
  then have "list_all2 (\<lambda>p xs. items_ok idf xs \<and> wcat (map write_transport xs) = Some p) ps xss"
    using xss(1) ps unfolding list_all2_conv_all_nth by (metis wb_items_holds)
  then show ?thesis using read_batches_items xss(2) by simp
qed

lemma holding_payloads:
  assumes "holding idf bs xs"
  shows "\<exists>ps. list_all2 wb_holds bs ps"
proof -
  from assms obtain xss where "list_all2 (\<lambda>b xs. wb_items b xs \<and> items_ok idf xs) bs xss" by (auto simp: holding_def)
  then show ?thesis
  proof (induction rule: list_all2_induct)
    case (Cons b bs y xss)
    then obtain ps p where "list_all2 wb_holds bs ps" "wb_holds b p" using wb_items_holds by blast
    then have "list_all2 wb_holds (b # bs) (p # ps)" by simp
    then show ?case by blast
  qed auto
qed

lemma holding_delivers:
  assumes h: "holding idf bs xs" and s: "stream idf bt tq c0 xs ms c" and i: "in_step bt tq i cap c0 st"
    and l: "\<forall>m\<in>set ms. \<exists>bs. write_network_message m = Some bs \<and> length bs \<le> cap"
  shows "\<exists>ps st'. list_all2 wb_holds bs ps \<and> read_batches idf (\<lambda>_. True) st ps = (st', Inr ()) \<and>
    rs_delivered st' = rs_delivered st @ ms"
proof -
  obtain ps where ps: "list_all2 wb_holds bs ps" using holding_payloads [OF h] by blast
  have "\<forall>m\<in>set ms. \<forall>bs. write_network_message m = Some bs \<longrightarrow> length bs \<le> cap" using l by fastforce
  from stream_delivers [OF s i this] holding_reception [OF h ps] ps show ?thesis by auto
qed

lemma run_unchanged:
  assumes "env_ok e lst" "fresh lst bt c0 q0" "\<forall>a\<in>set as. action_ok idf cap a" "run e p q0 as = Some (q, ms)"
  shows "unchanged idf lst bt (tqos_new p) c0 ms q"
  using run_ok [OF assms(1) fresh_unchanged [OF assms(2)] assms(3,4)] by simp

section \<open>What a queue guarantees\<close>

text \<open>(C2) Transmission and reception together, for one priority: start from an empty queue and let the
  producer and the link task work in any order: messages pushed with or without waiting, accepted or
  dropped by congestion control, alone in a batch, packed with others or fragmented; keep alives and
  other transport messages in between; batches pulled, sent and given back.  Then drain the queue.
  The batches that the link task has pulled, received in order by a peer that expects the first
  sequence number of each channel, deliver exactly the messages for which \<open>push_network_message\<close>
  returned true, in the order of the pushes.  The queue has at most eight batches (the configuration allows sixteen; with nine
  or more an accepted message can be lost) of at least 55 bytes; the messages are well-formed and not larger than the
  defragmentation buffer of the peer, which knows the markers of fragments.\<close>

theorem pipeline_delivers:
  assumes e: "env_ok e lst" and q0: "fresh lst bt c0 q0" and as: "\<forall>a\<in>set as. action_ok idf cap a"
    and r: "run e p q0 as = Some (q, ms)" and d: "stage_drain e q = (q', bs)" and i: "in_step bt (tqos_new p) i cap c0 st"
  shows "\<exists>ps st'. list_all2 wb_holds (q_pulled q') ps \<and> read_batches idf (\<lambda>_. True) st ps = (st', Inr ()) \<and>
    rs_delivered st' = rs_delivered st @ ms"
proof -
  from run_unchanged [OF e q0 as r] obtain xs ys c where
    q: "qinv idf lst q xs ys" "stream idf bt (tqos_new p) c0 (xs @ ys) ms c" by (auto simp: unchanged_def)
  have h: "holding idf (q_pulled q') (xs @ ys)"
    using holding_all [OF q(1)] stage_drain_ok [OF e q(1) d] by (simp add: all_batches_def)
  show ?thesis using holding_delivers [OF h q(2) i] run_accepts [OF r as] by blast
qed

text \<open>(C15) The batches of a queue are conserved: whatever the producer and the link task do, those in the
  refill ring, in the output ring, in hand and with the link task are at most as many as were
  allocated, themselves at most the configured number; all have the configuration of the queue.  No
  operation panics afterwards: not a push of an encodable message, not the \<open>assert\<close> of a refill.  The queue has at
  most eight batches of at least 55 bytes.\<close>

theorem pipeline_invariant:
  assumes e: "env_ok e lst" and q0: "fresh lst bt c0 q0" and as: "\<forall>a\<in>set as. action_ok idf cap a"
    and r: "run e p q0 as = Some (q, ms)"
    and m: "network_body_ok idf (body m)" "write_network_message m = Some bs" and x: "control idf x"
  shows "queue_ok lst q \<and> consumer_return e q \<noteq> None \<and>
    snd (snd (snd (push_network_message e q m p d evs))) \<noteq> PushPanic \<and>
    snd (snd (push_transport_message e q x evs)) \<noteq> PushPanic"
proof -
  from run_unchanged [OF e q0 as r] obtain xs ys c where
    q: "qinv idf lst q xs ys" "gens bt q c" "stream idf bt (tqos_new p) c0 (xs @ ys) ms c" by (auto simp: unchanged_def)
  show ?thesis
    using return_ok [OF e q(1)] push_network_message_ok [OF e q m, of d evs] push_transport_message_ok [OF e q x, of evs] q(1)
    by (auto simp: outcome_def qinv_def split: prod.splits)
qed

section \<open>Examples\<close>

text \<open>A ring as a list of at most \<open>RBLEN\<close> batches.\<close>

definition list_ring :: "WBatch list ring_ops" where
  "list_ring = \<lparr>rg_push = (\<lambda>r b. if length r < RBLEN then (r @ [b], None) else (r, Some b)),
     rg_pull = (\<lambda>r. case take RBLEN r of [] \<Rightarrow> (r, None) | b # bs \<Rightarrow> (bs, Some b))\<rparr>"

definition list_env :: "WBatch list env" where
  "list_env = \<lparr>e_ring = list_ring, e_lim = example_lim, e_clk = of_nat, e_now = 0, e_send = (\<lambda>b. b)\<rparr>"

lemma list_env_ok: "env_ok list_env (take RBLEN)"
  by (auto simp: env_ok_def list_env_def example_lim_slot ring_laws_def list_ring_def take_Cons' RBLEN_def
      split: list.splits dest: arg_cong [of _ _ length])

definition example_queue :: "WBatch list Queue" where
  "example_queue = \<lparr>q_ref = [], q_allocs = 0, q_num = 2,
     q_config = \<lparr>bc_mtu = 60, bc_is_streamed = True, bc_is_compression = False\<rparr>,
     q_out = [], q_bytes = 0, q_active = False, q_first_write = 0, q_ticks = 0, q_current = None,
     q_prio = Control,
     q_priority_tx = \<lparr>ptx_reliable = \<lparr>tx_sn = SeqNumGenerator \<lparr>sn_value = 6, sn_mask = RES_U8\<rparr>\<rparr>,
       ptx_best_effort = \<lparr>tx_sn = SeqNumGenerator \<lparr>sn_value = 6, sn_mask = RES_U8\<rparr>\<rparr>\<rparr>,
     q_batching = True, q_last_bytes = 0, q_threshold = 1000,
     q_status = \<lparr>ps_disabled = False, ps_congested = 0, ps_pending = 0\<rparr>, q_pulled = [], q_lent = []\<rparr>"

definition example_actions :: "action list" where
  "example_actions = (let d = deadline_new 0 None in
     [PushNetwork example_final d [], PullBatch True, PushNetwork example_final d [], ReturnBatch])"

lemma example_run: "map_option snd (run list_env Data example_queue example_actions) = Some [example_final, example_final]"
  by code_simp

definition example_peer :: RxState where
  "example_peer = \<lparr>rs_is_qos = False, rs_patch = PATCH_CURRENT, rs_callback = True,
     rs_priority_rx = [let c = \<lambda>rel. \<lparr>rx_sn = \<lparr>sn_value = 5, sn_mask = RES_U8\<rparr>,
         rx_defrag = \<lparr>df_reliability = rel, df_sn = \<lparr>sn_value = 5, sn_mask = RES_U8\<rparr>, df_buffer = [],
           df_capacity = 200, df_len = 0\<rparr>\<rparr>
       in \<lparr>prx_reliable = c Reliable, prx_best_effort = c BestEffort\<rparr>],
     rs_delivered = [], rs_closing = []\<rparr>"

abbreviation example_counters :: counters where "example_counters \<equiv> \<lambda>_. 6"

lemma example_fresh: "fresh (take RBLEN) U8 example_counters example_queue"
  by (auto simp: fresh_def queue_ok_def load_def spread_def gens_def get_gen_def example_queue_def in_hand_def
      sn_ok_def sn_get_def sn_wire_def MTU_MIN_def split: Reliability.split)

lemma example_final_ok: "network_body_ok Some (body example_final)"
  by (simp add: example_final_def network_message_from_def net_ok_def)

lemma example_actions_ok: "\<forall>a\<in>set example_actions. action_ok Some 100 a"
  by (simp add: example_actions_def example_final_ok example_bytes Let_def)

lemma example_in_step: "in_step U8 (tqos_new Data) 0 100 example_counters example_peer"
  by (auto simp: in_step_def example_peer_def rx_ok_def priority_rx_ok_def channel_ok_def defrag_ok_def sn_ok_def
      get_channel_def select_priority_def sn_wire_def Let_def PRIORITY_DEFAULT_def
      has_fragmentation_markers_def PATCH_CURRENT_def split: Reliability.split intro: exI [of _ 5])

theorem pipeline_delivers_witness:
  "\<exists>q ps st'. run list_env Data example_queue example_actions = Some (q, [example_final, example_final]) \<and>
     list_all2 wb_holds (q_pulled (fst (stage_drain list_env q))) ps \<and>
     read_batches Some (\<lambda>_. True) example_peer ps = (st', Inr ()) \<and> rs_delivered st' = [example_final, example_final]"
proof -
  obtain q where q: "run list_env Data example_queue example_actions = Some (q, [example_final, example_final])"
    using example_run by auto
  have "rs_delivered example_peer = []" by (simp add: example_peer_def)
  then show ?thesis
    using pipeline_delivers [OF list_env_ok example_fresh example_actions_ok q _ example_in_step, of "fst (stage_drain list_env q)"
        "snd (stage_drain list_env q)"] q by auto
qed

lemma example_control: "control Some (KeepAliveT KeepAlive)"
  by (simp add: control_def)

theorem pipeline_invariant_witness:
  "\<exists>q. run list_env Data example_queue example_actions = Some (q, [example_final, example_final]) \<and>
     queue_ok (take RBLEN) q \<and> consumer_return list_env q \<noteq> None \<and>
     snd (snd (snd (push_network_message list_env q example_push Data (deadline_new 0 None) []))) \<noteq> PushPanic \<and>
     snd (snd (push_transport_message list_env q (KeepAliveT KeepAlive) [])) \<noteq> PushPanic"
proof -
  obtain q where q: "run list_env Data example_queue example_actions = Some (q, [example_final, example_final])"
    using example_run by auto
  then show ?thesis
    using pipeline_invariant [OF list_env_ok example_fresh example_actions_ok q example_push_ok example_bytes(1) example_control] by auto
qed

section \<open>What is lost\<close>

text \<open>(C36) The stop fragment is never sent.  When no batch becomes free for the rest of a fragmented message,
  the code means to send a fragment that makes the receiver drop what it got; it encodes that fragment
  with an empty buffer as its content, which the encoder refuses, and moves out an empty batch.\<close>

theorem stop_fragment_never_sent:
  assumes "slot_limit (e_lim e)" "length (wb_prefix (q_config q)) \<le> unat (bc_mtu (q_config q))"
  shows "send_stop e q f = move_batch e q (wb_new_ephemeral (q_config q)) \<and> wb_items (wb_new_ephemeral (q_config q)) []"
  using send_stop_eq [OF assms] ephemeral_items [OF assms(2)] by simp

theorem stop_fragment_never_sent_witness:
  "send_stop list_env example_queue \<lparr>fg_qos = TQOS_DEFAULT, fg_first = False, fg_drop = False,
       fg_reliability = Reliable, fg_more = True, fg_sn = 7\<rparr> =
     move_batch list_env example_queue (wb_new_ephemeral (q_config example_queue)) \<and>
   wb_items (wb_new_ephemeral (q_config example_queue)) []"
  by (rule stop_fragment_never_sent) (simp_all add: list_env_def example_lim_slot example_queue_def wb_prefix_def)

text \<open>A batch that holds nothing encodes what a new one encodes.\<close>

lemma empty_batch_encodes:
  assumes "wb_holds b []" "wb_config b = c"
  shows "snd (wb_encode_transport lim b x) = snd (wb_encode_transport lim (wb_new c) x)"
proof -
  have "wb_holds (wb_new c) []" using assms by (intro wb_holds_new) (auto simp: wb_holds_def wb_sized_def)
  moreover have "wb_config (wb_new c) = c" by (simp add: wb_new_def)
  ultimately have "wb_buffer b = wb_buffer (wb_new c)" using assms by (auto simp: wb_holds_def wb_sized_def intro!: BBuf.equality)
  then show ?thesis by (simp add: wb_encode_transport_def zb_write_transport_def Let_def split: prod.split bool.split)
qed

text \<open>A batch taken from the refill stage is empty, and leaves the queue.\<close>

lemma refill_pull_takes:
  assumes e: "env_ok e lst" and q: "queue_ok lst q" "q_current q = None" "lst (q_ref q) \<noteq> [] \<or> q_allocs q < q_num q"
  obtains q' b where "refill_pull e q = (q', Some b)" "wb_holds (wb_clear b) []" "wb_config b = q_config q"
    "load lst q' + q_allocs q + 1 = load lst q + q_allocs q'"
proof (cases "lst (q_ref q)")
  case (Cons b bs)
  then obtain r where r: "rg_pull (e_ring e) (q_ref q) = (r, Some b)" "lst r = bs" using ring_pull(2) [OF e] by blast
  have "batch_ok (q_config q) b" using q Cons by (auto simp: queue_ok_def)
  then show thesis
    using that [of "q\<lparr>q_ref := r\<rparr>" b] r Cons wb_holds_clear [of b] by (simp add: refill_pull_def batch_ok_def load_def in_hand_def)
next
  case Nil
  then obtain r where r: "rg_pull (e_ring e) (q_ref q) = (r, None)" "lst r = []" using ring_pull(1) [OF e] by blast
  have "length (wb_prefix (q_config q)) \<le> unat (bc_mtu (q_config q))" using q by (intro prefix_fits) (simp add: queue_ok_def)
  from wb_holds_new [OF this] have "wb_holds (wb_clear (wb_new (q_config q))) []" by (intro wb_holds_clear) (simp add: wb_holds_def)
  then show thesis
    using that [of "q\<lparr>q_ref := r, q_allocs := q_allocs q + 1\<rparr>" "wb_new (q_config q)"] r Nil q
    by (simp add: refill_pull_def load_def in_hand_def wb_new_def)
qed

lemma transport_lost:
  assumes e: "env_ok e lst" and q: "qinv idf lst q xs ys" and x: "control idf x"
    and b: "q_current q = Some b" "\<not> snd (wb_encode_transport (e_lim e) b x)"
    and n: "lst (q_ref q) \<noteq> [] \<or> q_allocs q < q_num q" "snd (wb_encode_transport (e_lim e) (wb_new (q_config q)) x)"
  shows "\<exists>q'. push_transport_message e q x evs = (q', evs, Pushed True) \<and> qinv idf lst q' (xs @ ys) [] \<and>
    load lst q' + q_allocs q + 1 = load lst q + q_allocs q'"
proof -
  define q1 where "q1 = (notify_pending q)\<lparr>q_current := None\<rparr>"
  have q1: "qinv idf lst (q1\<lparr>q_current := Some b\<rparr>) xs ys" "q_current q1 = None"
    using q b(1) by (auto simp: q1_def notify_pending_def qinv_defs in_hand_def)
  define q2 where "q2 = move_batch e q1 b"
  have q2: "qinv idf lst q2 (xs @ ys) []" "q_current q2 = None" using move_batch_ok [OF e q1] by (simp_all add: q2_def)
  have b1: "wb_items b ys" "batch_ok (q_config q) b" "\<not> wb_ephemeral b" using q b(1) by (auto simp: qinv_defs in_hand_def)
  have lo: "load lst q2 = load lst q" "q_ref q2 = q_ref q" "q_allocs q2 = q_allocs q" "q_num q2 = q_num q" "q_config q2 = q_config q"
  proof -
    have "length (real (lst (q_out q))) \<le> 7" "spread (lst (q_out q))" using q b(1) by (auto simp: qinv_defs in_hand_def)
    then have "length (lst (q_out q)) < RBLEN" using spread_length [of "lst (q_out q)"] by (simp add: RBLEN_def)
    from ring_push(1) [OF e this, of b] show "load lst q2 = load lst q" "q_ref q2 = q_ref q" "q_allocs q2 = q_allocs q" "q_num q2 = q_num q"
      "q_config q2 = q_config q" using b(1) b1(3) by (auto simp: q2_def q1_def move_batch_def notify_pending_def load_def in_hand_def)
  qed
  have nq: "lst (q_ref q2) \<noteq> [] \<or> q_allocs q2 < q_num q2" "queue_ok lst q2" using n(1) lo q2(1) by (simp_all add: qinv_def)
  obtain q3 b3 where g: "refill_pull e q2 = (q3, Some b3)" "wb_holds (wb_clear b3) []" "wb_config b3 = q_config q2"
    "load lst q3 + q_allocs q2 + 1 = load lst q2 + q_allocs q3" using refill_pull_takes [OF e nq(2) q2(2) nq(1)] by blast
  let ?q = "q3\<lparr>q_first_write := e_clk e (q_ticks q3), q_ticks := q_ticks q3 + 1\<rparr>"
  have q3: "qinv idf lst q3 (xs @ ys) []" using refill_pull_ok [OF e q2 g(1)] qinv_drop_hand [of idf lst _ q3] by auto
  have enc: "snd (wb_encode_transport (e_lim e) (wb_clear b3) x)" using empty_batch_encodes [OF g(2)] g(3) lo(5) n(2) by simp
  have "wb_encode_transport (e_lim e) b x = (b, False)"
    using encode_transport_items [of "e_lim e" b ys x "fst (wb_encode_transport (e_lim e) b x)" False] e x b(2) b1(1)
    by (cases "wb_encode_transport (e_lim e) b x") (simp add: env_ok_def control_def)
  moreover obtain p where p: "wb_holds b p" using wb_items_holds [OF b1(1)] by blast
  have "p \<noteq> []" using empty_batch_encodes [of b "q_config q" "e_lim e" x] p b(2) n(2) b1(2) by (auto simp: batch_ok_def)
  then have "wb_is_empty b = Some False" using wb_is_empty_holds [OF p] by simp
  moreover have "get_batch_wait e (notify_pending q) evs = Got b q1 (deadline_new 0 None) evs"
    using b(1) by (subst get_batch_wait.simps) (simp add: q1_def notify_pending_def Let_def)
  moreover have "get_batch_wait e q2 evs = Got (wb_clear b3) ?q (deadline_new 0 None) evs"
    using q2(2) g(1) by (subst get_batch_wait.simps) (simp add: Let_def)
  ultimately have "push_transport_message e q x evs = (?q, evs, Pushed True)"
    using enc by (simp add: push_transport_message_def push_transport_again_def q2_def)
  moreover have "load lst ?q = load lst q3" by (simp add: load_def in_hand_def)
  ultimately show ?thesis using q3 g(4) lo by auto
qed

text \<open>(C37) A transport message that does not fit on the current batch is lost.  In every state that a queue can reach (of at most
  eight batches of at least 55 bytes), if the current batch refuses a transport message that would fit on an empty
  one, and another batch is free or can be allocated, then the push reports success, but the batches sent, to be sent and in
  hand hold exactly what they held before; and the number of batches that were allocated and are in no ring, not in
  hand and not with the link task has grown by one.\<close>

theorem transport_message_lost:
  assumes e: "env_ok e lst" and q0: "fresh lst bt c0 q0" and as: "\<forall>a\<in>set as. action_ok idf cap a"
    and r: "run e p q0 as = Some (q, ms)" and x: "control idf x"
    and b: "q_current q = Some b" "\<not> snd (wb_encode_transport (e_lim e) b x)"
    and n: "lst (q_ref q) \<noteq> [] \<or> q_allocs q < q_num q" "snd (wb_encode_transport (e_lim e) (wb_new (q_config q)) x)"
  shows "\<exists>q' xs. push_transport_message e q x evs = (q', evs, Pushed True) \<and>
    holding idf (all_batches lst q) xs \<and> holding idf (all_batches lst q') xs \<and>
    load lst q' + q_allocs q + 1 = load lst q + q_allocs q'"
proof -
  from run_unchanged [OF e q0 as r] obtain xs ys where q: "qinv idf lst q xs ys" by (auto simp: unchanged_def)
  from transport_lost [OF e q x b n, of evs] holding_all [OF q] holding_all show ?thesis by fastforce
qed

definition example_oam :: TransportBody where
  "example_oam = OAMT \<lparr>fr_qos = TQOS_DEFAULT, toam_id = 3, toam_body = ZBuf (replicate 40 7)\<rparr>"

lemma example_oam_full:
  "case run list_env Data example_queue [PushTransport example_oam []] of None \<Rightarrow> False | Some (q, ms) \<Rightarrow>
     (case q_current q of None \<Rightarrow> False | Some b \<Rightarrow> \<not> snd (wb_encode_transport (e_lim list_env) b example_oam)) \<and>
     q_allocs q < q_num q \<and> snd (wb_encode_transport (e_lim list_env) (wb_new (q_config q)) example_oam)"
  by code_simp

theorem transport_message_lost_witness:
  "\<exists>q ms q' xs. run list_env Data example_queue [PushTransport example_oam []] = Some (q, ms) \<and>
     push_transport_message list_env q example_oam [] = (q', [], Pushed True) \<and>
     holding Some (all_batches (take RBLEN) q) xs \<and> holding Some (all_batches (take RBLEN) q') xs \<and>
     load (take RBLEN) q' + q_allocs q + 1 = load (take RBLEN) q + q_allocs q'"
proof -
  obtain q ms b where q: "run list_env Data example_queue [PushTransport example_oam []] = Some (q, ms)" "q_current q = Some b"
    "\<not> snd (wb_encode_transport (e_lim list_env) b example_oam)" "q_allocs q < q_num q"
    "snd (wb_encode_transport (e_lim list_env) (wb_new (q_config q)) example_oam)"
    using example_oam_full by (auto split: option.splits prod.splits)
  have "control Some example_oam" by (simp add: control_def example_oam_def)
  with q transport_message_lost [OF list_env_ok example_fresh _ q(1) _ q(2,3) _ q(5), of Some 0 "[]"] show ?thesis by auto
qed

end
