(* ===== verification/Transport_Producer.thy ===== *)
theory Transport_Producer
  imports Transport_Run
begin

text \<open>
  The pipeline with all its priorities: how it is made, the producer that chooses the queue of a message
  and applies congestion control, the consumer that serves the most urgent queue first.

  The status is shared by the queues; the field \<open>q_status\<close> of a queue is only used during an operation
  on it: it is loaded from the pipeline before and stored after.  Operations of different threads are
  interleaved as wholes, except that the link task works during the waits of a push.
\<close>

section \<open>Construction\<close>

datatype QueueAllocMode = AllocInit | AllocLazy

record TransmissionPipelineConf =
  cf_batch :: BatchConfig
  cf_queue_size :: "nat list"
  cf_wait_before_drop :: int
  cf_max_wait_before_drop_fragments :: int
  cf_wait_before_close :: int
  cf_batching_enabled :: bool
  cf_batching_time_limit :: nat
  cf_queue_alloc :: QueueAllocMode

record Waits =
  ws_wait_before_drop :: int
  ws_max_wait_before_drop_fragments :: int
  ws_wait_before_close :: int

record 'r Pipeline =
  pl_queues :: "'r Queue list"
  pl_status :: TransmissionPipelineStatus
  pl_waits :: Waits

text \<open>The batches allocated in advance, with the assertion that the ring takes them.\<close>

fun fill_ring :: "'r env \<Rightarrow> BatchConfig \<Rightarrow> nat \<Rightarrow> 'r \<Rightarrow> 'r option" where
  "fill_ring e c 0 r = Some r"
| "fill_ring e c (Suc n) r =
     (case rg_push (e_ring e) r (wb_new c) of (r, None) \<Rightarrow> fill_ring e c n r | (r, Some _) \<Rightarrow> None)"

definition status_new :: TransmissionPipelineStatus where
  "status_new = \<lparr>ps_disabled = False, ps_congested = 0, ps_pending = 0\<rparr>"

text \<open>The two stages of a priority.  The batching time limit is in microseconds; \<open>RingBuffer::init\<close> gives
  the ring \<open>ring0\<close>.\<close>

definition make_queue ::
  "'r env \<Rightarrow> 'r \<Rightarrow> TransmissionPipelineConf \<Rightarrow> Priority \<Rightarrow> nat \<Rightarrow> TransportPriorityTx \<Rightarrow> 'r Queue option" where
  "make_queue e ring0 config prio num ptx =
     (if num = 0 \<or> RBLEN < num then None
      else do {
        (ref, allocs) \<leftarrow> (case cf_queue_alloc config of
           AllocInit \<Rightarrow> map_option (\<lambda>r. (r, num)) (fill_ring e (cf_batch config) num ring0)
         | AllocLazy \<Rightarrow> Some (ring0, 0));
        Some \<lparr>q_ref = ref, q_allocs = allocs, q_num = num, q_config = cf_batch config, q_out = ring0,
          q_bytes = 0, q_active = False, q_first_write = e_clk e 0, q_ticks = 1, q_current = None,
          q_prio = prio, q_priority_tx = ptx, q_batching = cf_batching_enabled config, q_last_bytes = 0,
          q_threshold = of_nat (cf_batching_time_limit config), q_status = status_new,
          q_pulled = [], q_lent = []\<rparr> })"

definition priorities :: "Priority list" where
  "priorities = [Control, RealTime, InteractiveHigh, InteractiveLow, DataHigh, Data, DataLow, Background]"

fun make_queues ::
  "'r env \<Rightarrow> 'r \<Rightarrow> TransmissionPipelineConf \<Rightarrow> Priority list \<Rightarrow> nat list \<Rightarrow> TransportPriorityTx list \<Rightarrow> 'r Queue list option" where
  "make_queues e ring0 config _ [] _ = Some []"
| "make_queues e ring0 config (p # ps) (n # ns) (t # ts) =
     do { q \<leftarrow> make_queue e ring0 config p n t; qs \<leftarrow> make_queues e ring0 config ps ns ts; Some (q # qs) }"
| "make_queues e ring0 config _ _ _ = None"

definition pipeline_make ::
  "'r env \<Rightarrow> 'r \<Rightarrow> TransmissionPipelineConf \<Rightarrow> TransportPriorityTx list \<Rightarrow> 'r Pipeline option" where
  "pipeline_make e ring0 config priority =
     do { sizes \<leftarrow> (if length priority = 1
            then map_option (\<lambda>n. [n]) (if 5 < length (cf_queue_size config) then Some (cf_queue_size config ! 5) else None)
            else Some (cf_queue_size config));
          qs \<leftarrow> make_queues e ring0 config priorities sizes priority;
          Some \<lparr>pl_queues = qs, pl_status = status_new,
            pl_waits = \<lparr>ws_wait_before_drop = cf_wait_before_drop config,
              ws_max_wait_before_drop_fragments = cf_max_wait_before_drop_fragments config,
              ws_wait_before_close = cf_wait_before_close config\<rparr>\<rparr> }"

section \<open>The producer\<close>

definition load_queue :: "'r Pipeline \<Rightarrow> nat \<Rightarrow> 'r Queue" where
  "load_queue p i = (pl_queues p ! i)\<lparr>q_status := pl_status p\<rparr>"

definition store_queue :: "'r Pipeline \<Rightarrow> nat \<Rightarrow> 'r Queue \<Rightarrow> 'r Pipeline" where
  "store_queue p i q = p\<lparr>pl_queues := (pl_queues p)[i := q], pl_status := q_status q\<rparr>"

text \<open>Without quality of service there is a single queue, at index 0.\<close>

definition select_queue :: "'r Pipeline \<Rightarrow> Priority \<Rightarrow> nat \<times> Priority" where
  "select_queue p prio =
     (if 1 < length (pl_queues p) then (unat (priority_u8 prio), prio) else (0, PRIORITY_DEFAULT))"

definition message_deadline :: "'r Pipeline \<Rightarrow> NetworkMessage \<Rightarrow> Deadline" where
  "message_deadline p msg =
     (if msg_is_droppable msg
      then deadline_new (ws_wait_before_drop (pl_waits p)) (Some (ws_max_wait_before_drop_fragments (pl_waits p)))
      else deadline_new (ws_wait_before_close (pl_waits p)) None)"

text \<open>With the lock on the queue.  A message that cannot be sent marks the queue as congested and is
  tried a second time, with the same deadline.\<close>

definition mark_congested :: "'r Queue \<Rightarrow> Priority \<Rightarrow> bool \<Rightarrow> 'r Queue" where
  "mark_congested q priority s = q\<lparr>q_status := set_congested (q_status q) priority s\<rparr>"

definition push_twice :: "'r env \<Rightarrow> 'r Queue \<Rightarrow> NetworkMessage \<Rightarrow> Priority \<Rightarrow> Deadline \<Rightarrow> wait_event list \<Rightarrow> 'r Queue \<times> push_result" where
  "push_twice e q msg priority d evs =
     (case push_network_message e q msg priority d evs of
        (q, d, evs, Pushed False) \<Rightarrow>
          (case push_network_message e (mark_congested q priority True) msg priority d evs of
             (q, _, _, Pushed True) \<Rightarrow> (mark_congested q priority False, Pushed True)
           | (q, _, _, r) \<Rightarrow> (q, r))
      | (q, _, _, r) \<Rightarrow> (q, r))"

definition producer_push :: "'r env \<Rightarrow> 'r Pipeline \<Rightarrow> NetworkMessage \<Rightarrow> wait_event list \<Rightarrow> 'r Pipeline \<times> push_result" where
  "producer_push e p msg evs =
     (if ps_disabled (pl_status p) then (p, TransportClosed)
      else case msg_priority msg of
        None \<Rightarrow> (p, PushPanic)
      | Some prio \<Rightarrow>
          (case select_queue p prio of
             (idx, priority) \<Rightarrow>
               if msg_is_droppable msg \<and> is_congested (pl_status p) priority then (p, Pushed False)
               else if \<not> idx < length (pl_queues p) then (p, PushPanic)
               else (case push_twice e (load_queue p idx) msg priority (message_deadline p msg) evs of
                  (q, r) \<Rightarrow> (store_queue p idx q, r))))"

definition producer_push_transport ::
  "'r env \<Rightarrow> 'r Pipeline \<Rightarrow> TransportBody \<Rightarrow> Priority \<Rightarrow> wait_event list \<Rightarrow> 'r Pipeline \<times> push_result" where
  "producer_push_transport e p msg prio evs =
     (let idx = fst (select_queue p prio) in
      if \<not> idx < length (pl_queues p) then (p, PushPanic)
      else (case push_transport_message e (load_queue p idx) msg evs of (q, _, r) \<Rightarrow> (store_queue p idx q, r)))"

definition mark_disabled :: "'r Pipeline \<Rightarrow> 'r Pipeline" where
  "mark_disabled p = p\<lparr>pl_status := (pl_status p)\<lparr>ps_disabled := True\<rparr>\<rparr>"

definition pipeline_disable :: "'r Pipeline \<Rightarrow> 'r Pipeline" where
  "pipeline_disable p = (mark_disabled p)\<lparr>pl_queues := map (\<lambda>q. out_notify q 65535) (pl_queues p)\<rparr>"

section \<open>The consumer\<close>

definition trailing_zeros :: "u8 \<Rightarrow> nat" where
  "trailing_zeros w = length (takeWhile (\<lambda>i. \<not> bit w i) [0..<8])"

definition get_pending :: "TransmissionPipelineStatus \<Rightarrow> Priority option" where
  "get_pending s = priority_try_from (of_nat (trailing_zeros (ps_pending s)))"

datatype stage_pulled = PulledBatch WBatch Priority | PulledNothing "u32 option" | PulledPanic | PulledFuel

text \<open>The loop of \<open>stage_pull\<close>: a queue that has nothing is no longer pending, so that it takes at most one
  round per priority (\<open>stage_pull_returns\<close>).  \<open>free\<close> says of each queue whether its current batch can be
  locked.\<close>

fun stage_pull_loop :: "nat \<Rightarrow> 'r env \<Rightarrow> (nat \<Rightarrow> bool) \<Rightarrow> 'r Pipeline \<Rightarrow> 'r Pipeline \<times> stage_pulled" where
  "stage_pull_loop 0 e free p = (p, PulledFuel)"
| "stage_pull_loop (Suc n) e free p =
     (case get_pending (pl_status p) of
        None \<Rightarrow> (p, PulledNothing None)
      | Some prio \<Rightarrow>
          let i = unat (priority_u8 prio) in
          if \<not> i < length (pl_queues p) then (p, PulledPanic)
          else (case try_pull e (free i) (load_queue p i) of
             (q, PullSome b) \<Rightarrow> (store_queue p i q, PulledBatch b prio)
           | (q, PullBackoff t) \<Rightarrow> (store_queue p i q, PulledNothing (Some t))
           | (q, PullNone) \<Rightarrow> stage_pull_loop n e free (store_queue p i q)))"

definition stage_pull :: "'r env \<Rightarrow> (nat \<Rightarrow> bool) \<Rightarrow> 'r Pipeline \<Rightarrow> 'r Pipeline \<times> stage_pulled" where
  "stage_pull = stage_pull_loop 9"

text \<open>The link task gives back the oldest batch of a queue.\<close>

definition pipeline_return :: "'r env \<Rightarrow> nat \<Rightarrow> 'r Pipeline \<Rightarrow> 'r Pipeline option" where
  "pipeline_return e i p =
     (if \<not> i < length (pl_queues p) then None else map_option (store_queue p i) (consumer_return e (load_queue p i)))"

fun drain_queues :: "'r env \<Rightarrow> nat \<Rightarrow> nat \<Rightarrow> 'r Pipeline \<Rightarrow> 'r Pipeline \<times> (WBatch \<times> Priority) list" where
  "drain_queues e 0 i p = (p, [])"
| "drain_queues e (Suc n) i p =
     (case stage_drain e (load_queue p i) of
        (q, bs) \<Rightarrow>
          (case drain_queues e n (Suc i) (store_queue p i q) of
             (p, bs') \<Rightarrow> (p, map (\<lambda>b. (b, priorities ! i)) bs @ bs')))"

definition pipeline_drain :: "'r env \<Rightarrow> 'r Pipeline \<Rightarrow> 'r Pipeline \<times> (WBatch \<times> Priority) list" where
  "pipeline_drain e p = drain_queues e (length (pl_queues p)) 0 p"

end
