(* ===== verification/Transport_Status.thy ===== *)
theory Transport_Status
  imports Transport_Producer
begin

text \<open>
  What the operations do to the status that the queues of a pipeline share, and what follows for the
  consumer: it serves the priorities in order and overlooks no batch.
\<close>

section \<open>The status during a push\<close>

text \<open>Besides its queue, an operation of the producer or a return of the link task at most clears the
  congestion of the queue.\<close>

definition calm :: "'r Queue \<Rightarrow> 'r Queue \<Rightarrow> bool" where
  "calm q q' \<longleftrightarrow> q_prio q' = q_prio q \<and> ps_disabled (q_status q') = ps_disabled (q_status q) \<and>
     ps_pending (q_status q') = ps_pending (q_status q) \<and>
     (ps_congested (q_status q') = ps_congested (q_status q) \<or>
      ps_congested (q_status q') = ps_congested (q_status q) AND NOT (prioflag (q_prio q)))"

lemma calm_refl [simp]: "calm q q"
  by (auto simp: calm_def)

lemma calm_trans [trans]: "calm q q' \<Longrightarrow> calm q' q'' \<Longrightarrow> calm q q''"
  by (auto simp: calm_def and.assoc)

lemma calm_same: "q_prio q' = q_prio q \<Longrightarrow> q_status q' = q_status q \<Longrightarrow> calm q q'"
  by (auto simp: calm_def)

lemma refill_pull_calm: "refill_pull e q = (q', b) \<Longrightarrow> calm q q'"
  by (auto simp: refill_pull_def intro!: calm_same split: prod.splits option.splits if_splits)

lemma consumer_takes_calm: "calm q (consumer_takes e n q)"
proof (induction n arbitrary: q)
  case (Suc n)
  have "calm q (consumer_takes e n (lend (q\<lparr>q_out := r, q_active := False\<rparr>) b))" for r b
    using Suc [of "lend (q\<lparr>q_out := r, q_active := False\<rparr>) b"] by (rule calm_trans [rotated]) (auto simp: lend_def intro: calm_same)
  then show ?case by (auto split: prod.splits option.splits intro: calm_same)
qed simp

lemma consumer_refill_calm: "consumer_refill e q b = Some q' \<Longrightarrow> calm q q'"
  by (auto simp: consumer_refill_def stage_refill_def calm_def set_congested_def
      split: if_splits prod.splits option.splits)

lemma consumer_return_calm: "consumer_return e q = Some q' \<Longrightarrow> calm q q'"
proof -
  assume r: "consumer_return e q = Some q'"
  have "calm q (q\<lparr>q_lent := bs\<rparr>)" for bs by (simp add: calm_same)
  then show ?thesis using r by (auto simp: consumer_return_def split: list.splits dest!: consumer_refill_calm intro: calm_trans)
qed

lemma consumer_gives_calm: "consumer_gives e k q = Some q' \<Longrightarrow> calm q q'"
  by (induction k arbitrary: q) (auto simp: Option.bind_eq_Some_conv intro: calm_trans dest!: consumer_return_calm)

lemma event_calm: "consumer_gives e k (consumer_takes e n q) = Some q' \<Longrightarrow> calm q q'"
  using consumer_takes_calm consumer_gives_calm by (blast intro: calm_trans)

fun got_queue :: "'r got \<Rightarrow> 'r Queue" where
  "got_queue (Got b q d evs) = q"
| "got_queue (GotNone q d evs) = q"
| "got_queue (GotClosed q) = q"
| "got_queue (GotBlocked q) = q"
| "got_queue (GotPanic q) = q"

lemma get_batch_calm: "calm q (got_queue (get_batch e q d evs))"
proof (induction evs arbitrary: q d)
  case Nil
  show ?case by (subst get_batch.simps)
      (auto split: option.splits prod.splits DeadlineSetting.splits intro: calm_same dest!: refill_pull_calm
        intro: calm_trans [OF _ calm_same])
next
  case (Cons ev evs)
  have step: "calm q (got_queue (get_batch e q2 d' evs))"
    if "refill_pull e q = (q1, None)" "consumer_gives e k (consumer_takes e n q1) = Some q2" for q1 q2 k n d'
    using Cons [of q2 d'] refill_pull_calm [OF that(1)] event_calm [OF that(2)] by (meson calm_trans)
  have last: "calm q q2"
    if "refill_pull e q = (q1, None)" "consumer_gives e k (consumer_takes e n q1) = Some q2" for q1 q2 k n
    using refill_pull_calm [OF that(1)] event_calm [OF that(2)] by (meson calm_trans)
  show ?case
    by (subst get_batch.simps)
      (auto split: option.splits prod.splits DeadlineSetting.splits wait_event.splits
        intro: calm_same step last dest: refill_pull_calm intro: calm_trans [OF refill_pull_calm calm_same])
qed

lemma get_batch_wait_calm: "calm q (got_queue (get_batch_wait e q evs))"
proof (induction evs arbitrary: q)
  case Nil
  show ?case by (subst get_batch_wait.simps)
      (auto simp: Let_def split: option.splits prod.splits intro: calm_same dest: refill_pull_calm
        intro: calm_trans [OF refill_pull_calm calm_same])
next
  case (Cons ev evs)
  have step: "calm q (got_queue (get_batch_wait e q2 evs))"
    if "refill_pull e q = (q1, None)" "consumer_gives e k (consumer_takes e n q1) = Some q2" for q1 q2 k n
    using Cons [of q2] refill_pull_calm [OF that(1)] event_calm [OF that(2)] by (meson calm_trans)
  show ?case
    by (subst get_batch_wait.simps)
      (auto simp: Let_def split: option.splits prod.splits wait_event.splits
        intro: calm_same step dest: refill_pull_calm intro: calm_trans [OF refill_pull_calm calm_same])
qed

lemma calm_updates [simp]:
  "calm q0 (q\<lparr>q_current := c\<rparr>) = calm q0 q" "calm q0 (move_batch e q b) = calm q0 q"
  "calm q0 (put_gen q rel g) = calm q0 q" "calm q0 (out_notify q n) = calm q0 q" "calm q0 (send_stop e q f) = calm q0 q"
  by (auto simp: calm_def move_batch_def put_gen_def out_notify_def send_stop_def Let_def split: prod.splits)

lemma restore_sn_calm: "restore_sn q rel sn = Some q' \<Longrightarrow> calm q0 q' = calm q0 q"
  by (auto simp: restore_sn_def split: sum.splits)

lemma ret_ok_calm: "ret_ok e q b x = (q', r) \<Longrightarrow> calm q0 q' = calm q0 q"
  by (auto simp: ret_ok_def split: if_splits option.splits)

lemma frag_loop_calm: "calm q (fst (frag_loop e sn q f r d evs))"
proof (induction e sn q f r d evs rule: frag_loop.induct)
  case (1 e sn q f r d evs)
  note g = get_batch_calm [of q e d evs]
  show ?case
  proof (cases "r = [] \<or> (\<forall>b q' d' evs'. get_batch e q d evs \<noteq> Got b q' d' evs')")
    case True
    then show ?thesis using g by (subst frag_loop.simps) (auto split: got.splits option.splits dest: restore_sn_calm [of _ _ _ _ q])
  next
    case False
    then obtain b q1 d1 evs1 where b: "r \<noteq> []" "get_batch e q d evs = Got b q1 d1 evs1" by blast
    obtain b' r' f' n where enc: "wb_encode_fragment (e_lim e) b r f = (b', r', f', n)" by (metis prod_cases4)
    show ?thesis
    proof (cases n)
      case None
      then show ?thesis using g b enc by (subst frag_loop.simps) (auto split: option.splits dest: restore_sn_calm [of _ _ _ _ q])
    next
      case (Some k)
      obtain sn' g' where gg: "gen_get (get_gen q1 (fg_reliability f')) = (sn', g')" by (metis surj_pair)
      have "calm (move_batch e (put_gen q1 (fg_reliability f') g') b') (fst (frag_loop e sn q f r d evs))"
        using 1 [OF b enc [symmetric] refl refl Some gg [symmetric] refl refl refl] b enc Some gg by (subst frag_loop.simps) (simp add: Let_def)
      moreover have "calm q (move_batch e (put_gen q1 (fg_reliability f') g') b')" using g b by simp
      ultimately show ?thesis by (blast intro: calm_trans)
    qed
  qed
qed

lemma push_fragments_calm: "calm q (fst (push_fragments e q m f d evs))"
  by (auto simp: push_fragments_def frag_loop_calm Let_def split: option.splits)

lemma push_second_calm: "calm q (fst (push_second e q b m f d evs))"
proof -
  have "calm q (fst (push_fragments e (q\<lparr>q_current := c\<rparr>) m f d evs))" for c
    using push_fragments_calm [of "q\<lparr>q_current := c\<rparr>" e m f d evs] by (rule calm_trans [rotated]) simp
  then show ?thesis by (auto simp: push_second_def split: prod.splits sum.splits dest: ret_ok_calm [of _ _ _ _ _ _ q])
qed

lemma push_new_batch_calm: "calm q (fst (push_new_batch e q b m f d evs))"
proof -
  have g: "calm q (got_queue (get_batch e (move_batch e q b) d evs))"
    using get_batch_calm [of "move_batch e q b" e d evs] by (rule calm_trans [rotated]) simp
  have "calm q (fst (push_second e q1 b1 m f d1 evs1))" if "calm q q1" for q1 b1 d1 evs1
    using that push_second_calm by (blast intro: calm_trans)
  then show ?thesis using g push_second_calm [of q e b m f d evs]
    by (auto simp: push_new_batch_def split: option.splits bool.splits got.splits dest: restore_sn_calm [of _ _ _ _ q])
qed

lemma push_network_message_calm: "calm (notify_pending q) (fst (push_network_message e q m p d evs))"
proof -
  note g = get_batch_calm [of "notify_pending q" e d evs]
  have n: "calm (notify_pending q) (fst (push_new_batch e q1 b1 m f d1 evs1))" if "calm (notify_pending q) q1" for q1 b1 f d1 evs1
    using that push_new_batch_calm by (blast intro: calm_trans)
  show ?thesis
  proof (cases "get_batch e (notify_pending q) d evs")
    case (Got b q1 d1 evs1)
    then have c: "calm (notify_pending q) q1" using g by simp
    obtain sn g' where gg: "gen_get (get_gen q1 (reliability m)) = (sn, g')" by (metis surj_pair)
    have "calm (notify_pending q) (put_gen q1 (reliability m) g')" using c by simp
    note n2 = n [OF this]
    show ?thesis using Got c gg n2
      by (auto simp: push_network_message_def Let_def split: prod.splits sum.splits dest: ret_ok_calm [of _ _ _ _ _ _ "notify_pending q"])
  qed (use g in \<open>auto simp: push_network_message_def\<close>)
qed

lemma push_transport_message_calm: "calm (notify_pending q) (fst (push_transport_message e q x evs))"
proof -
  note g = get_batch_wait_calm [of "notify_pending q" e evs]
  show ?thesis
  proof (cases "get_batch_wait e (notify_pending q) evs")
    case (Got b q1 d1 evs1)
    then have c: "calm (notify_pending q) q1" using g by simp
    have h: "calm (notify_pending q) (got_queue (get_batch_wait e (move_batch e q1 b') evs'))" for b' evs'
      using get_batch_wait_calm [of "move_batch e q1 b'" e evs'] c by (metis calm_trans calm_updates(2))
    have "calm (notify_pending q) (fst (case get_batch_wait e (move_batch e q1 b') evs1 of
        GotClosed q \<Rightarrow> (q, evs1, Pushed False) | GotBlocked q \<Rightarrow> (q, evs1, Blocked) | GotPanic q \<Rightarrow> (q, evs1, PushPanic)
      | GotNone q _ evs \<Rightarrow> (q, evs, Pushed False) | Got b q _ evs \<Rightarrow> push_transport_again e q b x evs))" for b'
      using h [of b' evs1] by (cases "get_batch_wait e (move_batch e q1 b') evs1") (auto simp: push_transport_again_def)
    then show ?thesis using Got c
      by (auto simp: push_transport_message_def push_transport_again_def
          split: prod.splits bool.splits option.splits dest: ret_ok_calm [of _ _ _ _ _ _ "notify_pending q"])
  qed (use g in \<open>auto simp: push_transport_message_def\<close>)
qed

end
