(* ===== verification/Transport_Qos.thy ===== *)
theory Transport_Qos
  imports Transport_Status
begin

text \<open>
  The pipeline as a state machine: operations of the producers and of the link task in any order.  In
  every reachable state each queue keeps its invariant and a queue that is not pending is empty.
\<close>

section \<open>Flags\<close>

abbreviation pidx :: "Priority \<Rightarrow> nat" where "pidx p \<equiv> unat (priority_u8 p)"

lemma pidx_less [simp]: "pidx p < 8"
  by (cases p) simp_all

lemma priorities_nth [simp]: "priorities ! pidx p = p"
  by (cases p) (simp_all add: priorities_def)

lemma less_8_cases: "(i::nat) < 8 \<Longrightarrow> i = 0 \<or> i = 1 \<or> i = 2 \<or> i = 3 \<or> i = 4 \<or> i = 5 \<or> i = 6 \<or> i = 7"
  by arith

lemma pidx_priorities [simp]: "i < 8 \<Longrightarrow> pidx (priorities ! i) = i"
  using less_8_cases [of i] by (auto simp: priorities_def)

lemma bit_prioflag [simp]: "bit (prioflag p) i \<longleftrightarrow> i = pidx p"
  using pidx_less [of p] by (auto simp: prioflag_def bit_exp_iff simp del: pidx_less)

lemma bit_u8_less: "bit (w::u8) i \<Longrightarrow> i < 8"
  using bit_imp_le_length [of w i] by simp

lemma trailing_zeros:
  shows trailing_zeros_le: "trailing_zeros w \<le> 8"
    and trailing_zeros_before: "i < trailing_zeros w \<Longrightarrow> \<not> bit w i"
    and trailing_zeros_at: "trailing_zeros w < 8 \<Longrightarrow> bit w (trailing_zeros w)"
proof -
  let ?P = "\<lambda>i. \<not> bit w i"
  show "trailing_zeros w \<le> 8" using length_takeWhile_le [of ?P "[0..<8]"] by (simp add: trailing_zeros_def)
  then show "\<not> bit w i" if "i < trailing_zeros w"
    using that set_takeWhileD [of i ?P "[0..<8]"] nth_mem [of i "takeWhile ?P [0..<8]"] takeWhile_nth [of i ?P "[0..<8]"]
    by (auto simp: trailing_zeros_def simp del: nth_mem)
  show "bit w (trailing_zeros w)" if "trailing_zeros w < 8"
    using that nth_length_takeWhile [of ?P "[0..<8]"] by (simp add: trailing_zeros_def)
qed

lemma priority_try_from_nat: "n < 8 \<Longrightarrow> priority_try_from (of_nat n) = Some (priorities ! n)"
  using less_8_cases [of n] by (auto simp: priority_try_from_def priorities_def)

lemma get_pending_Some:
  assumes "get_pending s = Some prio"
  shows "bit (ps_pending s) (pidx prio)" and "i < pidx prio \<Longrightarrow> \<not> bit (ps_pending s) i"
proof -
  let ?n = "trailing_zeros (ps_pending s)"
  have "?n < 8"
  proof (rule ccontr)
    assume "\<not> ?n < 8"
    then have "?n = 8" using trailing_zeros_le [of "ps_pending s"] by simp
    then show False using assms by (simp add: get_pending_def priority_try_from_def)
  qed
  then have "prio = priorities ! ?n" using assms priority_try_from_nat by (simp add: get_pending_def)
  then have "pidx prio = ?n" using \<open>?n < 8\<close> by simp
  then show "bit (ps_pending s) (pidx prio)" "i < pidx prio \<Longrightarrow> \<not> bit (ps_pending s) i"
    using trailing_zeros_at trailing_zeros_before \<open>?n < 8\<close> by simp_all
qed

lemma get_pending_None:
  assumes "get_pending s = None"
  shows "\<not> bit (ps_pending s) i"
proof -
  have "\<not> trailing_zeros (ps_pending s) < 8" using assms priority_try_from_nat by (force simp: get_pending_def)
  then show ?thesis using trailing_zeros_before [of i "ps_pending s"] bit_imp_le_length [of "ps_pending s" i] by fastforce
qed

section \<open>Pulling\<close>

definition idle :: "('r \<Rightarrow> WBatch list) \<Rightarrow> 'r Queue \<Rightarrow> bool" where
  "idle lst q \<longleftrightarrow> lst (q_out q) = [] \<and> q_current q = None"

text \<open>A pull leaves the flags as they are, or clears the pending flag of a queue that is now empty.\<close>

definition pull_flags :: "('r \<Rightarrow> WBatch list) \<Rightarrow> 'r Queue \<Rightarrow> 'r Queue \<Rightarrow> Pull \<Rightarrow> bool" where
  "pull_flags lst q q' r \<longleftrightarrow> q_prio q' = q_prio q \<and>
     (q_status q' = q_status q \<and> r \<noteq> PullNone \<or>
      q_status q' = (q_status q)\<lparr>ps_pending := ps_pending (q_status q) AND NOT (prioflag (q_prio q))\<rparr> \<and> idle lst q')"

lemma pull_locked_flags:
  assumes e: "env_ok e lst" and r: "pull_locked e q = (q', r)"
  shows "pull_flags lst q q' r"
proof (cases "lst (q_out q)")
  case Nil
  then obtain r' where "rg_pull (e_ring e) (q_out q) = (r', None)" "lst r' = []" using ring_pull(1) [OF e] by blast
  then show ?thesis using r
    by (auto simp: pull_locked_def pull_flags_def idle_def reset_pending_def lend_def Let_def split: option.splits)
next
  case (Cons b bs)
  then obtain r' where "rg_pull (e_ring e) (q_out q) = (r', Some b)" using ring_pull(2) [OF e] by blast
  then show ?thesis using r by (auto simp: pull_locked_def pull_flags_def lend_def)
qed

lemma backoff_check_flags: "backoff_check e q = (q', pull, t) \<Longrightarrow> q_prio q' = q_prio q \<and> q_status q' = q_status q"
  by (auto simp: backoff_check_def Let_def split: if_splits)

lemma try_pull_flags:
  assumes e: "env_ok e lst" and r: "try_pull e free q = (q', r)"
  shows "pull_flags lst q q' r"
proof -
  have deep: "pull_flags lst q q1 r1" if t: "try_pull_deep e free (q\<lparr>q_out := z\<rparr>) = (q1, r1)" for z q1 r1
  proof -
    obtain q2 pull t where b: "backoff_check e (q\<lparr>q_out := z\<rparr>) = (q2, pull, t)" by (metis prod_cases3)
    note f = backoff_check_flags [OF b]
    show ?thesis
    proof (cases "pull \<and> free")
      case True
      then have "pull_locked e (q2\<lparr>q_active := False\<rparr>) = (q1, r1)" using t b by (simp add: try_pull_deep_def)
      from pull_locked_flags [OF e this] f show ?thesis by (simp add: pull_flags_def)
    next
      case False
      then show ?thesis using t b f by (auto simp: try_pull_deep_def pull_flags_def)
    qed
  qed
  obtain z ob where z: "rg_pull (e_ring e) (q_out q) = (z, ob)" by (metis surj_pair)
  show ?thesis
  proof (cases ob)
    case None
    then show ?thesis using z r deep by (simp add: try_pull_def)
  next
    case (Some b)
    then show ?thesis using z r by (auto simp: try_pull_def pull_flags_def lend_def)
  qed
qed

section \<open>The invariant of the flags\<close>

definition pl_ok :: "('r \<Rightarrow> WBatch list) \<Rightarrow> 'r Pipeline \<Rightarrow> bool" where
  "pl_ok lst p \<longleftrightarrow> 0 < length (pl_queues p) \<and> length (pl_queues p) \<le> 8 \<and>
     (\<forall>i<length (pl_queues p). q_prio (pl_queues p ! i) = priorities ! i \<and>
        (\<not> bit (ps_pending (pl_status p)) i \<longrightarrow> idle lst (pl_queues p ! i))) \<and>
     (\<forall>i. bit (ps_pending (pl_status p)) i \<longrightarrow> i < length (pl_queues p))"

lemma idle_status [simp]: "idle lst (q\<lparr>q_status := s\<rparr>) = idle lst q"
  by (simp add: idle_def)

lemma load_queue_fields [simp]: "q_status (load_queue p i) = pl_status p" "q_prio (load_queue p i) = q_prio (pl_queues p ! i)"
  by (simp_all add: load_queue_def)

lemma store_queue_fields [simp]:
  "length (pl_queues (store_queue p i q)) = length (pl_queues p)" "pl_status (store_queue p i q) = q_status q"
  "pl_waits (store_queue p i q) = pl_waits p"
  by (simp_all add: store_queue_def)

lemma store_queue_nth: "i < length (pl_queues p) \<Longrightarrow> pl_queues (store_queue p i q) ! j = (if j = i then q else pl_queues p ! j)"
  by (simp add: store_queue_def nth_list_update)

text \<open>An operation on the queue \<open>i\<close> that touches no other pending flag.\<close>

lemma pl_ok_store:
  assumes p: "pl_ok lst p" and i: "i < length (pl_queues p)" and q: "q_prio q = priorities ! i"
    and other: "\<And>j. j \<noteq> i \<Longrightarrow> bit (ps_pending (q_status q)) j = bit (ps_pending (pl_status p)) j"
    and own: "\<not> bit (ps_pending (q_status q)) i \<Longrightarrow> idle lst q"
  shows "pl_ok lst (store_queue p i q)"
  using assms unfolding pl_ok_def by (auto simp: store_queue_nth split: if_splits) metis

lemma pl_ok_pulled:
  assumes p: "pl_ok lst p" and i: "i < length (pl_queues p)" and f: "pull_flags lst (load_queue p i) q r"
    and b: "bit (ps_pending (pl_status p)) i"
  shows "pl_ok lst (store_queue p i q)"
proof -
  have pr: "q_prio (pl_queues p ! i) = priorities ! i" "i < 8" using p i by (auto simp: pl_ok_def)
  show ?thesis
    using f pr b by (intro pl_ok_store [OF p i]) (auto simp: pull_flags_def bit_and_iff bit_not_iff bit_u8_less)
qed

lemma mask_fewer:
  assumes "bit w (pidx prio)"
  shows "{i. bit (w AND NOT (prioflag prio)) i} \<subset> {i. bit w i}"
  using assms by (auto simp: bit_and_iff bit_not_iff)

lemma finite_bits [simp]: "finite {i. bit (w::u8) i}"
  by (rule finite_subset [of _ "{..<8}"]) (auto dest: bit_u8_less)

definition pulled_ok :: "('r \<Rightarrow> WBatch list) \<Rightarrow> 'r Pipeline \<Rightarrow> stage_pulled \<Rightarrow> bool" where
  "pulled_ok lst p r \<longleftrightarrow> (case r of
       PulledBatch b prio \<Rightarrow> pidx prio < length (pl_queues p) \<and> (\<forall>i<pidx prio. idle lst (pl_queues p ! i))
     | PulledNothing None \<Rightarrow> (\<forall>i<length (pl_queues p). idle lst (pl_queues p ! i))
     | PulledNothing (Some _) \<Rightarrow> True
     | PulledPanic \<Rightarrow> False
     | PulledFuel \<Rightarrow> False)"

lemma stage_pull_loop_ok:
  assumes e: "env_ok e lst" and p: "pl_ok lst p" and n: "card {i. bit (ps_pending (pl_status p)) i} < n"
    and r: "stage_pull_loop n e free p = (p', r)"
  shows "pl_ok lst p' \<and> pulled_ok lst p' r \<and> length (pl_queues p') = length (pl_queues p)"
  using p n r
proof (induction n arbitrary: p)
  case (Suc n)
  show ?case
  proof (cases "get_pending (pl_status p)")
    case None
    then show ?thesis using Suc.prems get_pending_None [OF None] by (auto simp: pl_ok_def pulled_ok_def)
  next
    case (Some prio)
    let ?i = "pidx prio"
    note pend = get_pending_Some [OF Some]
    have i: "?i < length (pl_queues p)" using Suc.prems(1) pend(1) by (simp add: pl_ok_def)
    then have pr: "q_prio (pl_queues p ! ?i) = prio" using Suc.prems(1) by (simp add: pl_ok_def)
    obtain q t where t: "try_pull e (free ?i) (load_queue p ?i) = (q, t)" by (metis surj_pair)
    note fl = try_pull_flags [OF e t]
    note ok = pl_ok_pulled [OF Suc.prems(1) i fl pend(1)]
    show ?thesis
    proof (cases t)
      case (PullSome b)
      have "idle lst (pl_queues p ! j)" if "j < ?i" for j using that pend(2) [OF that] Suc.prems(1) i by (auto simp: pl_ok_def)
      then show ?thesis using Suc.prems(3) Some i t PullSome ok by (auto simp: pulled_ok_def store_queue_nth)
    next
      case (PullBackoff k)
      then show ?thesis using Suc.prems(3) Some i t ok by (auto simp: pulled_ok_def)
    next
      case PullNone
      have st: "ps_pending (q_status q) = ps_pending (pl_status p) AND NOT (prioflag prio)"
        using fl PullNone pr by (auto simp: pull_flags_def)
      have "card {j. bit (ps_pending (q_status q)) j} < card {j. bit (ps_pending (pl_status p)) j}"
        unfolding st by (rule psubset_card_mono [OF _ mask_fewer [OF pend(1)]]) simp
      then have "card {j. bit (ps_pending (pl_status (store_queue p ?i q))) j} < n" using Suc.prems(2) by simp
      from Suc.IH [OF ok this] Suc.prems(3) Some i t PullNone show ?thesis by simp
    qed
  qed
qed simp

lemma stage_pull_ok:
  assumes "env_ok e lst" "pl_ok lst p" "stage_pull e free p = (p', r)"
  shows "pl_ok lst p' \<and> pulled_ok lst p' r \<and> length (pl_queues p') = length (pl_queues p)"
proof -
  have "{i. bit (ps_pending (pl_status p)) i} \<subseteq> {..<8}" by (auto dest: bit_u8_less)
  from card_mono [OF _ this] have "card {i. bit (ps_pending (pl_status p)) i} < 9" by simp
  then show ?thesis using stage_pull_loop_ok [OF assms(1,2)] assms(3) by (simp add: stage_pull_def)
qed

section \<open>The pipeline as a state machine\<close>

text \<open>A step with the messages that it accepts, each with the index of its queue.  A step is a complete
  operation of a producer or of the link task; a push that fails because the transport is closed is
  not a step.\<close>

inductive pipeline_step ::
  "'r env \<Rightarrow> (bytes \<Rightarrow> bytes option) \<Rightarrow> nat \<Rightarrow> 'r Pipeline \<Rightarrow> (nat \<times> NetworkMessage) list \<Rightarrow> 'r Pipeline \<Rightarrow> bool"
  for e idf cap where
  Push: "network_body_ok idf (body m) \<Longrightarrow> write_network_message m = Some bs \<Longrightarrow> length bs \<le> cap \<Longrightarrow>
    msg_priority m = Some prio \<Longrightarrow> producer_push e p m evs = (p', Pushed ok) \<Longrightarrow>
    pipeline_step e idf cap p (if ok then [(fst (select_queue p prio), m)] else []) p'"
| PushTransport: "control idf x \<Longrightarrow> producer_push_transport e p x prio evs = (p', Pushed ok) \<Longrightarrow>
    pipeline_step e idf cap p [] p'"
| Pull: "stage_pull e free p = (p', r) \<Longrightarrow> pipeline_step e idf cap p [] p'"
| Return: "pipeline_return e i p = Some p' \<Longrightarrow> pipeline_step e idf cap p [] p'"
| Drain: "pipeline_drain e p = (p', bs) \<Longrightarrow> pipeline_step e idf cap p [] p'"
| MarkDisabled: "pipeline_step e idf cap p [] (mark_disabled p)"
| Disable: "pipeline_step e idf cap p [] (pipeline_disable p)"

inductive pipeline_run ::
  "'r env \<Rightarrow> (bytes \<Rightarrow> bytes option) \<Rightarrow> nat \<Rightarrow> 'r Pipeline \<Rightarrow> (nat \<times> NetworkMessage) list \<Rightarrow> 'r Pipeline \<Rightarrow> bool"
  for e idf cap p0 where
  Start: "pipeline_run e idf cap p0 [] p0"
| Step: "pipeline_run e idf cap p0 ms p \<Longrightarrow> pipeline_step e idf cap p ns p' \<Longrightarrow> pipeline_run e idf cap p0 (ms @ ns) p'"

definition queue_log :: "nat \<Rightarrow> (nat \<times> NetworkMessage) list \<Rightarrow> NetworkMessage list" where
  "queue_log i ms = map snd (filter (\<lambda>(j, _). j = i) ms)"

lemma queue_log_simps [simp]:
  "queue_log i [] = []" "queue_log i ((j, m) # ms) = (if j = i then m # queue_log i ms else queue_log i ms)"
  "queue_log i (ms @ ns) = queue_log i ms @ queue_log i ns"
  by (simp_all add: queue_log_def)

text \<open>The priority that the frames of a queue carry.\<close>

definition frame_prio :: "'r Pipeline \<Rightarrow> nat \<Rightarrow> Priority" where
  "frame_prio p i = (if 1 < length (pl_queues p) then priorities ! i else PRIORITY_DEFAULT)"

definition pl_inv ::
  "(bytes \<Rightarrow> bytes option) \<Rightarrow> ('r \<Rightarrow> WBatch list) \<Rightarrow> Bits \<Rightarrow> (nat \<Rightarrow> counters) \<Rightarrow> (nat \<times> NetworkMessage) list \<Rightarrow> 'r Pipeline \<Rightarrow> bool" where
  "pl_inv idf lst bt c0 ms p \<longleftrightarrow> pl_ok lst p \<and>
     (\<forall>i<length (pl_queues p). unchanged idf lst bt (tqos_new (frame_prio p i)) (c0 i) (queue_log i ms) (pl_queues p ! i))"

lemma unchanged_status [simp]: "unchanged idf lst bt tq c ms (q\<lparr>q_status := s\<rparr>) = unchanged idf lst bt tq c ms q"
proof -
  have "gens bt (q\<lparr>q_status := s\<rparr>) c' = gens bt q c'" for c' by (simp add: gens_def get_gen_def cong: Reliability.case_cong)
  then show ?thesis by (simp add: unchanged_def)
qed

lemma unchanged_load [simp]: "unchanged idf lst bt tq c ms (load_queue p i) = unchanged idf lst bt tq c ms (pl_queues p ! i)"
  by (simp add: load_queue_def)

lemma frame_prio_store [simp]: "frame_prio (store_queue p i q) j = frame_prio p j"
  by (simp add: frame_prio_def)

lemma pl_inv_store:
  assumes p: "pl_inv idf lst bt c0 ms p" and i: "i < length (pl_queues p)" and ok: "pl_ok lst (store_queue p i q)"
    and q: "unchanged idf lst bt (tqos_new (frame_prio p i)) (c0 i) (queue_log i ms @ map snd ns) q" and ns: "fst ` set ns \<subseteq> {i}"
  shows "pl_inv idf lst bt c0 (ms @ ns) (store_queue p i q)"
proof -
  have "queue_log j ns = (if j = i then map snd ns else [])" for j using ns unfolding queue_log_def
    by (induction ns) auto
  then show ?thesis using assms by (simp add: pl_inv_def store_queue_nth)
qed

section \<open>Steps keep the invariant\<close>

definition raised :: "'r Queue \<Rightarrow> 'r Queue \<Rightarrow> bool" where
  "raised q q' \<longleftrightarrow> q_prio q' = q_prio q \<and> ps_pending (q_status q') = ps_pending (q_status q) OR prioflag (q_prio q)"

lemma calm_raised: "calm (notify_pending q) q' \<Longrightarrow> raised q q'"
  by (simp add: calm_def raised_def notify_pending_def)

lemma raised_congested [simp]:
  "raised q (mark_congested q' p s) = raised q q'" "raised (mark_congested q p s) q' = raised q q'"
  by (simp_all add: raised_def mark_congested_def set_congested_def)

lemma unchanged_congested [simp]: "unchanged idf lst bt tq c ms (mark_congested q p s) = unchanged idf lst bt tq c ms q"
  by (simp add: mark_congested_def)

lemma raised_trans: "raised q q1 \<Longrightarrow> raised q1 q2 \<Longrightarrow> raised q q2"
  by (simp add: raised_def or.assoc)

lemma push_raised: "push_network_message e q m p d evs = (q', d', evs', r) \<Longrightarrow> raised q q'"
  using push_network_message_calm [of q e m p d evs] by (auto intro: calm_raised)

lemma push_unchanged:
  assumes "env_ok e lst" "unchanged idf lst bt (tqos_new p) c0 ms q" "action_ok idf cap (PushNetwork m d evs)"
    "push_network_message e q m p d evs = (q', d', evs', Pushed ok)"
  shows "unchanged idf lst bt (tqos_new p) c0 (ms @ (if ok then [m] else [])) q'"
  using step_ok [OF assms(1-3)] assms(4) by simp

lemma push_twice_ok:
  assumes e: "env_ok e lst" and q: "unchanged idf lst bt (tqos_new p) c0 ms q" and a: "action_ok idf cap (PushNetwork m d evs)"
    and r: "push_twice e q m p d evs = (q', Pushed ok)"
  shows "unchanged idf lst bt (tqos_new p) c0 (ms @ (if ok then [m] else [])) q' \<and> raised q q'"
proof -
  have a': "action_ok idf cap (PushNetwork m d' evs')" for d' evs' using a by simp
  obtain q1 d1 evs1 r1 where p1: "push_network_message e q m p d evs = (q1, d1, evs1, r1)" by (metis prod_cases4)
  note f1 = push_raised [OF p1]
  show ?thesis
  proof (cases "r1 = Pushed False")
    case True
    have u1: "unchanged idf lst bt (tqos_new p) c0 ms (mark_congested q1 p True)"
      using push_unchanged [OF e q a p1 [unfolded True]] by simp
    obtain q2 d2 evs2 r2 where p2: "push_network_message e (mark_congested q1 p True) m p d1 evs1 = (q2, d2, evs2, r2)" by (metis prod_cases4)
    have f2: "raised q q2" using raised_trans [OF f1] push_raised [OF p2] by simp
    obtain ok2 where ok2: "r2 = Pushed ok2" "ok2 = ok" "q' = (if ok then mark_congested q2 p False else q2)"
      using r p1 p2 True by (auto simp: push_twice_def split: push_result.splits bool.splits)
    have "unchanged idf lst bt (tqos_new p) c0 (ms @ (if ok then [m] else [])) q2"
      using push_unchanged [OF e u1 a' p2 [unfolded ok2(1)]] ok2(2) by simp
    then show ?thesis using f2 ok2(3) by auto
  next
    case False
    then have "r1 = Pushed ok \<and> q' = q1" using r p1 by (auto simp: push_twice_def split: push_result.splits bool.splits)
    then show ?thesis using push_unchanged [OF e q a, of q1 d1 evs1 ok] p1 f1 by auto
  qed
qed

lemma pl_ok_raised:
  assumes p: "pl_ok lst p" and i: "i < length (pl_queues p)" and f: "raised (load_queue p i) q"
  shows "pl_ok lst (store_queue p i q)"
proof -
  have pr: "q_prio (pl_queues p ! i) = priorities ! i" "i < 8" using p i by (auto simp: pl_ok_def)
  show ?thesis using f pr by (intro pl_ok_store [OF p i]) (auto simp: raised_def bit_or_iff)
qed

lemma select_queue_prio: "select_queue p prio = (i, priority) \<Longrightarrow> priority = frame_prio p i"
  by (auto simp: select_queue_def frame_prio_def split: if_splits)

lemma producer_push_ok:
  assumes e: "env_ok e lst" and p: "pl_inv idf lst bt c0 ms p" and m: "action_ok idf cap (PushNetwork m undefined [])"
    and prio: "msg_priority m = Some prio" and r: "producer_push e p m evs = (p', Pushed ok)"
  shows "pl_inv idf lst bt c0 (ms @ (if ok then [(fst (select_queue p prio), m)] else [])) p' \<and>
    length (pl_queues p') = length (pl_queues p)"
proof -
  obtain i priority where s: "select_queue p prio = (i, priority)" by (metis surj_pair)
  note pr = select_queue_prio [OF s]
  have a: "action_ok idf cap (PushNetwork m d' evs')" for d' evs' using m by simp
  show ?thesis
  proof (cases "p' = p \<and> \<not> ok")
    case True
    then show ?thesis using p by simp
  next
    case False
    obtain q res where t: "push_twice e (load_queue p i) m priority (message_deadline p m) evs = (q, res)" by (metis surj_pair)
    have q: "i < length (pl_queues p)" "push_twice e (load_queue p i) m priority (message_deadline p m) evs = (q, Pushed ok)"
        "p' = store_queue p i q"
      using False r prio s t by (auto simp: producer_push_def split: if_splits)
    have "unchanged idf lst bt (tqos_new priority) (c0 i) (queue_log i ms) (load_queue p i)" using p q(1) pr by (simp add: pl_inv_def)
    from push_twice_ok [OF e this a q(2)] have
      u: "unchanged idf lst bt (tqos_new priority) (c0 i) (queue_log i ms @ (if ok then [m] else [])) q" and f: "raised (load_queue p i) q"
      by auto
    have "pl_ok lst p" using p by (simp add: pl_inv_def)
    note pl = pl_inv_store [OF p q(1) pl_ok_raised [OF this q(1) f]]
    show ?thesis using pl [of "if ok then [(i, m)] else []"] u q(3) s pr by (cases ok) auto
  qed
qed

lemma push_transport_ok:
  assumes e: "env_ok e lst" and p: "pl_inv idf lst bt c0 ms p" and x: "control idf x"
    and r: "producer_push_transport e p x prio evs = (p', Pushed ok)"
  shows "pl_inv idf lst bt c0 ms p' \<and> length (pl_queues p') = length (pl_queues p)"
proof -
  let ?i = "fst (select_queue p prio)"
  obtain q evs' where q: "?i < length (pl_queues p)" "push_transport_message e (load_queue p ?i) x evs = (q, evs', Pushed ok)"
      "p' = store_queue p ?i q"
    using r by (auto simp: producer_push_transport_def Let_def split: if_splits prod.splits)
  have "unchanged idf lst bt (tqos_new (frame_prio p ?i)) (c0 ?i) (queue_log ?i ms) (load_queue p ?i)" using p q(1) by (simp add: pl_inv_def)
  from step_ok [OF e this, of 0 "PushTransport x evs" q "[]"] q(2) x have
    u: "unchanged idf lst bt (tqos_new (frame_prio p ?i)) (c0 ?i) (queue_log ?i ms) q" by simp
  have "raised (load_queue p ?i) q" using push_transport_message_calm [of "load_queue p ?i" e x evs] q(2) by (auto intro: calm_raised)
  then have "pl_ok lst (store_queue p ?i q)" using p q(1) by (auto simp: pl_inv_def intro: pl_ok_raised)
  from pl_inv_store [OF p q(1) this, of "[]"] u q(3) show ?thesis by simp
qed

lemma stage_pull_loop_inv:
  assumes e: "env_ok e lst" and p: "pl_inv idf lst bt c0 ms p" and r: "stage_pull_loop n e free p = (p', r)"
  shows "pl_inv idf lst bt c0 ms p'"
  using p r
proof (induction n arbitrary: p)
  case (Suc n)
  show ?case
  proof (cases "get_pending (pl_status p)")
    case None
    then show ?thesis using Suc.prems by simp
  next
    case (Some prio)
    let ?i = "pidx prio"
    have i: "?i < length (pl_queues p)" and ok: "pl_ok lst p"
      using Suc.prems(1) get_pending_Some(1) [OF Some] by (simp_all add: pl_inv_def pl_ok_def)
    obtain q t where t: "try_pull e (free ?i) (load_queue p ?i) = (q, t)" by (metis surj_pair)
    have "unchanged idf lst bt (tqos_new (frame_prio p ?i)) (c0 ?i) (queue_log ?i ms) (load_queue p ?i)"
      using Suc.prems(1) i by (simp add: pl_inv_def)
    from step_ok [OF e this, of 0 "PullBatch (free ?i)" q "[]"] t have
      u: "unchanged idf lst bt (tqos_new (frame_prio p ?i)) (c0 ?i) (queue_log ?i ms) q" by simp
    have st: "pl_inv idf lst bt c0 ms (store_queue p ?i q)"
      using pl_inv_store [OF Suc.prems(1) i pl_ok_pulled [OF ok i try_pull_flags [OF e t] get_pending_Some(1) [OF Some]], of "[]"] u
      by simp
    show ?thesis
    proof (cases t)
      case PullNone
      then show ?thesis using Suc.IH [OF st] Suc.prems(2) Some i t by simp
    qed (use Suc.prems(2) Some i t st in auto)
  qed
qed simp

lemma return_keeps: "consumer_return e q = Some q' \<Longrightarrow> q_out q' = q_out q \<and> q_current q' = q_current q"
  by (auto simp: consumer_return_def consumer_refill_def stage_refill_def split: list.splits if_splits prod.splits option.splits)

lemma pipeline_return_ok:
  assumes e: "env_ok e lst" and p: "pl_inv idf lst bt c0 ms p" and r: "pipeline_return e i p = Some p'"
  shows "pl_inv idf lst bt c0 ms p' \<and> length (pl_queues p') = length (pl_queues p)"
proof -
  obtain q where q: "i < length (pl_queues p)" "consumer_return e (load_queue p i) = Some q" "p' = store_queue p i q"
    using r by (auto simp: pipeline_return_def split: if_splits)
  have "unchanged idf lst bt (tqos_new (frame_prio p i)) (c0 i) (queue_log i ms) (load_queue p i)" and ok: "pl_ok lst p"
    using p q(1) by (simp_all add: pl_inv_def)
  from step_ok [OF e this(1), of 0 ReturnBatch q "[]"] q(2) have
    u: "unchanged idf lst bt (tqos_new (frame_prio p i)) (c0 i) (queue_log i ms) q" by simp
  have c: "calm (load_queue p i) q" by (rule consumer_return_calm [OF q(2)])
  have "idle lst q = idle lst (pl_queues p ! i)" using return_keeps [OF q(2)] by (simp add: idle_def load_queue_def)
  then have "pl_ok lst (store_queue p i q)" using ok q(1) c by (intro pl_ok_store) (auto simp: calm_def pl_ok_def)
  from pl_inv_store [OF p q(1) this, of "[]"] u q(3) show ?thesis by simp
qed

lemma drain_queue_ok:
  assumes e: "env_ok e lst" and p: "pl_inv idf lst bt c0 ms p" and i: "i < length (pl_queues p)"
    and r: "stage_drain e (load_queue p i) = (q, bs)"
  shows "pl_inv idf lst bt c0 ms (store_queue p i q) \<and> idle lst q"
proof -
  have u: "unchanged idf lst bt (tqos_new (frame_prio p i)) (c0 i) (queue_log i ms) (load_queue p i)" and ok: "pl_ok lst p"
    using p i by (simp_all add: pl_inv_def)
  from step_ok [OF e u, of 0 DrainQueue q "[]"] r have
    u': "unchanged idf lst bt (tqos_new (frame_prio p i)) (c0 i) (queue_log i ms) q" by simp
  from u obtain xs ys where "qinv idf lst (load_queue p i) xs ys" by (auto simp: unchanged_def simp del: unchanged_load)
  from stage_drain_ok [OF e this r] have d: "idle lst q" "q_prio q = priorities ! i" using ok i
    by (simp_all add: idle_def same_tx_def pl_ok_def)
  have "q_status q = pl_status p" using r by (auto simp: stage_drain_def foldl_lend Let_def split: prod.splits)
  then have "pl_ok lst (store_queue p i q)" using d by (intro pl_ok_store [OF ok i]) auto
  from pl_inv_store [OF p i this, of "[]"] u' d(1) show ?thesis by simp
qed

lemma drain_queues_ok:
  assumes e: "env_ok e lst"
  shows "pl_inv idf lst bt c0 ms p \<Longrightarrow> i + n = length (pl_queues p) \<Longrightarrow> drain_queues e n i p = (p', bs) \<Longrightarrow>
    pl_inv idf lst bt c0 ms p' \<and> length (pl_queues p') = length (pl_queues p) \<and> (\<forall>j. i \<le> j \<and> j < length (pl_queues p) \<longrightarrow> idle lst (pl_queues p' ! j)) \<and>
    (\<forall>j<i. pl_queues p' ! j = pl_queues p ! j)"
proof (induction n arbitrary: i p bs)
  case (Suc n)
  obtain q ds where d: "stage_drain e (load_queue p i) = (q, ds)" by (metis surj_pair)
  have i: "i < length (pl_queues p)" using Suc.prems(2) by simp
  obtain bs' where r: "drain_queues e n (Suc i) (store_queue p i q) = (p', bs')"
    using Suc.prems(3) d by (cases "drain_queues e n (Suc i) (store_queue p i q)") simp
  note q = drain_queue_ok [OF e Suc.prems(1) i d]
  have IH: "pl_inv idf lst bt c0 ms p'" "length (pl_queues p') = length (pl_queues p)"
    "\<forall>j. Suc i \<le> j \<and> j < length (pl_queues p) \<longrightarrow> idle lst (pl_queues p' ! j)"
    "\<forall>j<Suc i. pl_queues p' ! j = pl_queues (store_queue p i q) ! j"
    using Suc.IH [OF conjunct1 [OF q] _ r] Suc.prems(2) by simp_all
  have "idle lst (pl_queues p' ! j)" if "i \<le> j" "j < length (pl_queues p)" for j
    using that IH(3,4) q i by (cases "j = i") (auto simp: store_queue_nth)
  then show ?case using IH i by (auto simp: store_queue_nth)
qed auto

lemma pipeline_drain_ok:
  assumes "env_ok e lst" "pl_inv idf lst bt c0 ms p" "pipeline_drain e p = (p', bs)"
  shows "pl_inv idf lst bt c0 ms p' \<and> length (pl_queues p') = length (pl_queues p) \<and> (\<forall>j<length (pl_queues p). idle lst (pl_queues p' ! j))"
  using drain_queues_ok [OF assms(1,2), of 0 "length (pl_queues p)"] assms(3) by (simp add: pipeline_drain_def)

lemma mark_disabled_ok: "pl_inv idf lst bt c0 ms p \<Longrightarrow> pl_inv idf lst bt c0 ms (mark_disabled p)"
  by (simp add: pl_inv_def pl_ok_def mark_disabled_def frame_prio_def)

lemma unchanged_notify [simp]: "unchanged idf lst bt tq c ms (out_notify q n) = unchanged idf lst bt tq c ms q"
proof -
  have "gens bt (out_notify q n) c' = gens bt q c'" for c'
    by (simp add: gens_def get_gen_def out_notify_def cong: Reliability.case_cong)
  then show ?thesis by (simp add: unchanged_def out_notify_def)
qed

lemma pipeline_disable_ok: "pl_inv idf lst bt c0 ms p \<Longrightarrow> pl_inv idf lst bt c0 ms (pipeline_disable p)"
  by (simp add: pl_inv_def pl_ok_def mark_disabled_def frame_prio_def pipeline_disable_def idle_def)
    (simp add: out_notify_def)

lemma pipeline_step_inv:
  assumes e: "env_ok e lst" and s: "pipeline_step e idf cap p ns p'" and p: "pl_inv idf lst bt c0 ms p"
  shows "pl_inv idf lst bt c0 (ms @ ns) p' \<and> length (pl_queues p') = length (pl_queues p)"
  using s
proof (cases rule: pipeline_step.cases)
  case (Push m bs prio evs ok)
  then show ?thesis using producer_push_ok [OF e p, of cap m prio evs p' ok] by simp
next
  case (Pull free r)
  then show ?thesis using stage_pull_ok [OF e, of p free p' r] stage_pull_loop_inv [OF e p, of 9 free p' r] p
    by (simp add: stage_pull_def pl_inv_def)
next
  case MarkDisabled
  then show ?thesis using mark_disabled_ok [OF p] by (simp add: mark_disabled_def)
next
  case Disable
  then show ?thesis using pipeline_disable_ok [OF p] by (simp add: pipeline_disable_def)
qed (use push_transport_ok [OF e p] pipeline_return_ok [OF e p] pipeline_drain_ok [OF e p] in auto)

lemma pipeline_run_inv:
  assumes e: "env_ok e lst" and r: "pipeline_run e idf cap p0 ms p" and p: "pl_inv idf lst bt c0 [] p0"
  shows "pl_inv idf lst bt c0 ms p \<and> length (pl_queues p) = length (pl_queues p0)"
  using r by induction (use p pipeline_step_inv [OF e] in auto)

lemma pipeline_run_accepts:
  assumes "pipeline_run e idf cap p0 ms p"
  shows "\<forall>m\<in>set (queue_log i ms). \<exists>bs. write_network_message m = Some bs \<and> length bs \<le> cap"
  using assms
proof induction
  case (Step ms p ns p')
  have "\<forall>m\<in>set (queue_log i ns). \<exists>bs. write_network_message m = Some bs \<and> length bs \<le> cap"
    using Step.hyps(2) by cases auto
  then show ?case using Step.IH by auto
qed simp

section \<open>A new pipeline\<close>

definition tx_at :: "Bits \<Rightarrow> TransportPriorityTx \<Rightarrow> counters \<Rightarrow> bool" where
  "tx_at bt t c \<longleftrightarrow> (\<forall>rel. let g = tx_sn (case rel of Reliable \<Rightarrow> ptx_reliable t | BestEffort \<Rightarrow> ptx_best_effort t) in
     gen_ok bt g \<and> gen_now g = sn_wire bt (c rel))"

text \<open>What a transport gives to a new pipeline: at most eight batches per priority, with room for the header
  of a fragment, and generators at the numbers that the peer expects.\<close>

definition make_ok ::
  "('r \<Rightarrow> WBatch list) \<Rightarrow> Bits \<Rightarrow> (nat \<Rightarrow> counters) \<Rightarrow> 'r \<Rightarrow> TransmissionPipelineConf \<Rightarrow> TransportPriorityTx list \<Rightarrow> bool" where
  "make_ok lst bt c0 ring0 config ts \<longleftrightarrow> lst ring0 = [] \<and> MTU_MIN \<le> unat (bc_mtu (cf_batch config)) \<and>
     (\<forall>n\<in>set (cf_queue_size config). n \<le> 8) \<and> length (cf_queue_size config) = 8 \<and> (\<forall>i<length ts. tx_at bt (ts ! i) (c0 i))"

lemma fill_ring_ok:
  assumes e: "env_ok e lst"
  shows "fill_ring e c n r = Some r' \<Longrightarrow> lst r' = lst r @ replicate n (wb_new c)"
proof (induction n arbitrary: r)
  case (Suc n)
  show ?case
  proof (cases "length (lst r) < RBLEN")
    case True
    then obtain r1 where "rg_push (e_ring e) r (wb_new c) = (r1, None)" "lst r1 = lst r @ [wb_new c]" using ring_push(1) [OF e] by blast
    then show ?thesis using Suc.IH [of r1] Suc.prems by simp
  next
    case False
    then show ?thesis using ring_push(2) [OF e False, of "wb_new c"] Suc.prems by auto
  qed
qed simp

lemma wb_new_batch_ok: "MTU_MIN \<le> unat (bc_mtu c) \<Longrightarrow> batch_ok c (wb_new c)" "\<not> wb_ephemeral (wb_new c)"
  using wb_holds_new [of c]
  by (auto simp: batch_ok_def wb_holds_def wb_new_def wb_clear_def MTU_MIN_def wb_prefix_def)

lemma make_queue_fresh:
  assumes e: "env_ok e lst" and m: "lst ring0 = []" "MTU_MIN \<le> unat (bc_mtu (cf_batch config))" "n \<le> 8" "tx_at bt t c"
    and q: "make_queue e ring0 config prio n t = Some q"
  shows "fresh lst bt c q \<and> q_prio q = prio"
proof -
  have g: "gens bt q c" using q m(4) by (auto simp: make_queue_def gens_def tx_at_def get_gen_def Let_def Option.bind_eq_Some_conv
      split: if_splits Reliability.splits)
  obtain r a where r: "lst r = replicate a (wb_new (cf_batch config))" "a \<le> n" "q_ref q = r" "q_allocs q = a"
    using q m(1) by (auto simp: make_queue_def Option.bind_eq_Some_conv split: if_splits QueueAllocMode.splits dest!: fill_ring_ok [OF e])
  have f: "q_num q = n" "q_config q = cf_batch config" "q_out q = ring0" "q_current q = None" "q_pulled q = []" "q_lent q = []" "q_prio q = prio"
    using q by (auto simp: make_queue_def Option.bind_eq_Some_conv split: if_splits)
  show ?thesis using g r f m wb_new_batch_ok
    by (auto simp: fresh_def queue_ok_def load_def spread_def in_hand_def)
qed

lemma make_queues_fresh:
  assumes e: "env_ok e lst" and m: "lst ring0 = []" "MTU_MIN \<le> unat (bc_mtu (cf_batch config))"
  shows "make_queues e ring0 config ps ns ts = Some qs \<Longrightarrow> \<forall>n\<in>set ns. n \<le> 8 \<Longrightarrow> \<forall>i<length ts. tx_at bt (ts ! i) (c i) \<Longrightarrow>
    length qs = length ns \<and> (\<forall>i<length qs. fresh lst bt (c i) (qs ! i) \<and> q_prio (qs ! i) = ps ! i)"
proof (induction ns arbitrary: ps ts qs c)
  case (Cons n ns)
  from Cons.prems(1) obtain p ps' t ts' where pt: "ps = p # ps'" "ts = t # ts'" by (cases ps; cases ts) auto
  then obtain q qs' where q: "make_queue e ring0 config p n t = Some q" "make_queues e ring0 config ps' ns ts' = Some qs'" "qs = q # qs'"
    using Cons.prems(1) by (auto simp: Option.bind_eq_Some_conv)
  have t: "tx_at bt t (c 0)" "\<forall>i<length ts'. tx_at bt (ts' ! i) (c (Suc i))" using Cons.prems(3) pt by fastforce+
  have "length qs' = length ns \<and> (\<forall>i<length qs'. fresh lst bt (c (Suc i)) (qs' ! i) \<and> q_prio (qs' ! i) = ps' ! i)"
    using Cons.IH [OF q(2) _ t(2)] Cons.prems(2) by simp
  moreover have "fresh lst bt (c 0) q \<and> q_prio q = p" using make_queue_fresh [OF e m _ t(1) q(1)] Cons.prems(2) by simp
  ultimately show ?case using q(3) pt by (auto simp: nth_Cons split: nat.splits)
qed auto

lemma pipeline_make_inv:
  assumes e: "env_ok e lst" and m: "make_ok lst bt c0 ring0 config ts" and r: "pipeline_make e ring0 config ts = Some p"
  shows "pl_inv idf lst bt c0 [] p \<and> length (pl_queues p) = (if length ts = 1 then 1 else 8)"
proof -
  obtain sizes where s: "make_queues e ring0 config priorities sizes ts = Some (pl_queues p)" "pl_status p = status_new"
    "sizes = (if length ts = 1 then [cf_queue_size config ! 5] else cf_queue_size config)"
    using r m by (auto simp: pipeline_make_def make_ok_def Option.bind_eq_Some_conv split: if_splits)
  have "\<forall>n\<in>set sizes. n \<le> 8" and len: "length sizes = (if length ts = 1 then 1 else 8)" using m s(3) by (auto simp: make_ok_def)
  then have q: "length (pl_queues p) = length sizes"
    "\<forall>i<length (pl_queues p). fresh lst bt (c0 i) (pl_queues p ! i) \<and> q_prio (pl_queues p ! i) = priorities ! i"
    using make_queues_fresh [OF e _ _ s(1), of bt c0] m by (auto simp: make_ok_def)
  have "pl_ok lst p" using q len s(2) by (auto simp: pl_ok_def status_new_def fresh_def idle_def)
  moreover have "unchanged idf lst bt tq (c0 i) [] (pl_queues p ! i)" if "i < length (pl_queues p)" for i tq
    using q(2) that fresh_unchanged by blast
  ultimately show ?thesis using q(1) len by (auto simp: pl_inv_def)
qed

section \<open>Priorities\<close>

text \<open>(C16) The link task serves the priorities in order and overlooks nothing: in every state that the
  operations of the producers and of the link task reach from a new pipeline, \<open>stage_pull\<close> returns
  without panicking; when it gives a batch, the queues of all the more urgent priorities are empty, their
  output rings and their current batches; and when it gives nothing and asks for no backoff, so that
  the link task sleeps until a notification, the queues of all priorities are empty.\<close>

theorem stage_pull_serves_priorities:
  assumes e: "env_ok e lst" and m: "make_ok lst bt c0 ring0 config ts" "pipeline_make e ring0 config ts = Some p0"
    and r: "pipeline_run e idf cap p0 ms p" and s: "stage_pull e free p = (p', res)"
  shows "case res of
      PulledBatch b prio \<Rightarrow> \<forall>i<unat (priority_u8 prio). lst (q_out (pl_queues p' ! i)) = [] \<and> q_current (pl_queues p' ! i) = None
    | PulledNothing None \<Rightarrow> \<forall>q\<in>set (pl_queues p'). lst (q_out q) = [] \<and> q_current q = None
    | PulledNothing (Some backoff) \<Rightarrow> True
    | PulledPanic \<Rightarrow> False
    | PulledFuel \<Rightarrow> False"
proof -
  from pipeline_run_inv [OF e r conjunct1 [OF pipeline_make_inv [OF e m]]] have "pl_ok lst p" by (simp add: pl_inv_def)
  from stage_pull_ok [OF e this s] have "pulled_ok lst p' res" by simp
  then show ?thesis by (auto simp: pulled_ok_def idle_def in_set_conv_nth split: stage_pulled.splits option.splits)
qed

lemma stage_pull_more_fuel:
  assumes "stage_pull_loop n e free p = (p', r)" "r \<noteq> PulledFuel" "n \<le> m"
  shows "stage_pull_loop m e free p = (p', r)"
  using assms
proof (induction n e free p arbitrary: m rule: stage_pull_loop.induct)
  case (2 n e free p)
  obtain m' where m: "m = Suc m'" "n \<le> m'" using 2(4) by (cases m) auto
  show ?case
  proof (cases "get_pending (pl_status p)")
    case (Some prio)
    let ?i = "unat (priority_u8 prio)"
    obtain q t where t: "try_pull e (free ?i) (load_queue p ?i) = (q, t)" by (metis surj_pair)
    have "stage_pull_loop m' e free (store_queue p ?i q) = (p', r)" if "t = PullNone" "?i < length (pl_queues p)"
      using 2(1) [OF Some refl _ t [symmetric] that(1) _ 2(3) m(2)] 2(2) that Some t by simp
    then show ?thesis using 2(2) Some t m(1) by (cases t) (auto simp: Let_def split: if_splits)
  qed (use 2(2) m(1) in simp)
qed simp

text \<open>(C17) \<open>pull\<close> terminates: its loop over the pending flags needs at most nine rounds in every reachable state, so that the
  loop without bound is the bounded one; any larger bound gives the same result, which is never the lack of rounds.\<close>

theorem stage_pull_returns:
  assumes e: "env_ok e lst" and m: "make_ok lst bt c0 ring0 config ts" "pipeline_make e ring0 config ts = Some p0"
    and r: "pipeline_run e idf cap p0 ms p" and n: "9 \<le> n"
  shows "stage_pull_loop n e free p = stage_pull e free p \<and> snd (stage_pull e free p) \<noteq> PulledFuel"
proof -
  obtain p' res where s: "stage_pull e free p = (p', res)" by (metis surj_pair)
  from pipeline_run_inv [OF e r conjunct1 [OF pipeline_make_inv [OF e m]]] have "pl_ok lst p" by (simp add: pl_inv_def)
  from stage_pull_ok [OF e this s] have "res \<noteq> PulledFuel" by (auto simp: pulled_ok_def)
  then show ?thesis using stage_pull_more_fuel [of 9 e free p p' res n] s n by (simp add: stage_pull_def)
qed

section \<open>Delivery\<close>

text \<open>(C1) A transport with its priorities, from end to end: make a pipeline, let producers and the link
  task work in any order, then drain it.  For each queue the batches that were pulled deliver, to a
  peer in step with the channels of that priority, exactly the messages that the pipeline accepted
  for the queue, in order.  The queues have at most eight batches (the configuration allows sixteen; with nine or more an
  accepted message can be lost) of at least 55 bytes each; the messages are well-formed and not larger than the defragmentation
  buffer of the peer, which knows the markers of fragments; no push is cut short by the closing of the transport.\<close>

theorem transport_delivers:
  assumes e: "env_ok e lst" and m: "make_ok lst bt c0 ring0 config ts" "pipeline_make e ring0 config ts = Some p0"
    and r: "pipeline_run e idf cap p0 ms p" and d: "pipeline_drain e p = (p', bs)"
    and i: "i < length (pl_queues p')" and st: "in_step bt (tqos_new (frame_prio p' i)) k cap (c0 i) st"
  shows "\<exists>ps st'. list_all2 wb_holds (q_pulled (pl_queues p' ! i)) ps \<and> read_batches idf (\<lambda>_. True) st ps = (st', Inr ()) \<and>
    rs_delivered st' = rs_delivered st @ queue_log i ms"
proof -
  have "pl_inv idf lst bt c0 ms p" using pipeline_run_inv [OF e r conjunct1 [OF pipeline_make_inv [OF e m]]] by simp
  from pipeline_drain_ok [OF e this d] i have
    u: "unchanged idf lst bt (tqos_new (frame_prio p' i)) (c0 i) (queue_log i ms) (pl_queues p' ! i)" and
    idl: "idle lst (pl_queues p' ! i)" by (auto simp: pl_inv_def)
  from u obtain xs ys c where q: "qinv idf lst (pl_queues p' ! i) xs ys"
      "stream idf bt (tqos_new (frame_prio p' i)) (c0 i) (xs @ ys) (queue_log i ms) c" by (auto simp: unchanged_def)
  have "holding idf (q_pulled (pl_queues p' ! i)) (xs @ ys)"
    using holding_all [OF q(1)] idl by (simp add: all_batches_def idle_def in_hand_def)
  then show ?thesis using holding_delivers [OF _ q(2) st] pipeline_run_accepts [OF r] by blast
qed

section \<open>Congestion without quality of service\<close>

text \<open>Pushes of droppable messages, and any operation of the link task.\<close>

inductive droppable_step :: "'r env \<Rightarrow> 'r Pipeline \<Rightarrow> 'r Pipeline \<Rightarrow> bool" for e where
  PushDroppable: "msg_is_droppable m \<Longrightarrow> producer_push e p m evs = (p', r) \<Longrightarrow> droppable_step e p p'"
| LinkPull: "stage_pull e free p = (p', r) \<Longrightarrow> droppable_step e p p'"
| LinkReturn: "pipeline_return e i p = Some p' \<Longrightarrow> droppable_step e p p'"
| LinkDrain: "pipeline_drain e p = (p', bs) \<Longrightarrow> droppable_step e p p'"

text \<open>A pipeline with a single queue, whose index is that of the priority \<open>Control\<close>, that is congested
  under the default priority.\<close>

definition stuck :: "'r Pipeline \<Rightarrow> bool" where
  "stuck p \<longleftrightarrow> length (pl_queues p) = 1 \<and> q_prio (pl_queues p ! 0) = Control \<and> is_congested (pl_status p) PRIORITY_DEFAULT"

lemma congested_bit: "is_congested s p \<longleftrightarrow> bit (ps_congested s) (pidx p)"
proof -
  have "ps_congested s AND prioflag p = (if bit (ps_congested s) (pidx p) then prioflag p else 0)"
    by (rule bit_eqI) (auto simp: bit_and_iff)
  moreover have "prioflag p \<noteq> 0" using bit_prioflag [of p "pidx p"] by force
  ultimately show ?thesis by (simp add: is_congested_def)
qed

lemma stuck_push: "stuck p \<Longrightarrow> msg_is_droppable m \<Longrightarrow> msg_priority m = Some prio \<Longrightarrow>
    producer_push e p m evs = (p, if ps_disabled (pl_status p) then TransportClosed else Pushed False)"
  by (simp add: producer_push_def stuck_def select_queue_def)

lemma stuck_store:
  assumes "stuck p" "q_prio q = Control" "bit (ps_congested (q_status q)) 5 = bit (ps_congested (pl_status p)) 5"
  shows "stuck (store_queue p 0 q)"
  using assms by (simp add: stuck_def store_queue_nth congested_bit PRIORITY_DEFAULT_def)

lemma stuck_pull_loop:
  assumes e: "env_ok e lst"
  shows "stuck p \<Longrightarrow> stage_pull_loop n e free p = (p', r) \<Longrightarrow> stuck p'"
proof (induction n arbitrary: p)
  case (Suc n)
  show ?case
  proof (cases "get_pending (pl_status p)")
    case (Some prio)
    show ?thesis
    proof (cases "pidx prio < length (pl_queues p)")
      case True
      then have i: "pidx prio = 0" using Suc.prems(1) by (simp add: stuck_def)
      obtain q t where t: "try_pull e (free 0) (load_queue p 0) = (q, t)" by (metis surj_pair)
      have "stuck (store_queue p 0 q)" using try_pull_flags [OF e t] Suc.prems(1)
        by (intro stuck_store) (auto simp: pull_flags_def stuck_def)
      then show ?thesis using Suc.IH [of "store_queue p 0 q"] Suc.prems Some True i t by (cases t) (auto simp: Let_def)
    qed (use Suc.prems Some in \<open>simp add: Let_def\<close>)
  qed (use Suc.prems in simp)
qed simp

lemma stuck_step:
  assumes e: "env_ok e lst" and p: "stuck p" and s: "droppable_step e p p'"
  shows "stuck p'"
  using s
proof cases
  case (PushDroppable m evs r)
  show ?thesis
  proof (cases "msg_priority m")
    case None
    then show ?thesis using PushDroppable p by (auto simp: producer_push_def split: if_splits)
  next
    case (Some prio)
    then show ?thesis using PushDroppable p stuck_push [OF p] by auto
  qed
next
  case (LinkPull free r)
  then show ?thesis using stuck_pull_loop [OF e p] by (simp add: stage_pull_def)
next
  case (LinkReturn i)
  then obtain q where q: "i = 0" "consumer_return e (load_queue p 0) = Some q" "p' = store_queue p 0 q"
    using p by (auto simp: pipeline_return_def stuck_def split: if_splits)
  have "stuck (store_queue p 0 q)" using consumer_return_calm [OF q(2)] p
    by (intro stuck_store [OF p]) (auto simp: calm_def stuck_def bit_and_iff bit_not_iff)
  then show ?thesis using q by simp
next
  case (LinkDrain bs)
  obtain q ds where d: "stage_drain e (load_queue p 0) = (q, ds)" by (metis surj_pair)
  have "q_status q = pl_status p" "q_prio q = q_prio (pl_queues p ! 0)"
    using d by (auto simp: stage_drain_def foldl_lend Let_def load_queue_def split: prod.splits)
  then have "stuck (store_queue p 0 q)" using p by (intro stuck_store [OF p]) (auto simp: stuck_def)
  moreover have "p' = store_queue p 0 q" using LinkDrain p d by (simp add: pipeline_drain_def stuck_def)
  ultimately show ?thesis by simp
qed

text \<open>(C35) Without quality of service, congestion is permanent for the droppable messages.  The producer
  marks the single queue as congested under the default priority, the link task clears the mark of the
  index of the queue, which is that of \<open>Control\<close>: once the mark is set, whatever the link task sends and
  gives back, every droppable message is refused, however many batches are free.  (Only droppable messages and the
  steps of the link task are considered: a non-droppable message that is refused and then accepted at its second attempt clears
  the mark.)\<close>

theorem congestion_never_clears:
  assumes e: "env_ok e lst" and p: "length (pl_queues p) = 1" "q_prio (pl_queues p ! 0) = Control"
      "is_congested (pl_status p) PRIORITY_DEFAULT"
    and s: "(droppable_step e)\<^sup>*\<^sup>* p p'" and m: "msg_is_droppable m" "msg_priority m = Some prio"
  shows "producer_push e p' m evs = (p', if ps_disabled (pl_status p') then TransportClosed else Pushed False)"
proof -
  from s have "stuck p'"
  proof (induction rule: rtranclp_induct)
    case base
    then show ?case using p by (simp add: stuck_def)
  next
    case (step y z)
    then show ?case using stuck_step [OF e] by blast
  qed
  then show ?thesis by (rule stuck_push [OF _ m])
qed

section \<open>Examples\<close>

definition example_tx :: TransportPriorityTx where
  "example_tx = \<lparr>ptx_reliable = \<lparr>tx_sn = SeqNumGenerator \<lparr>sn_value = 6, sn_mask = RES_U8\<rparr>\<rparr>,
     ptx_best_effort = \<lparr>tx_sn = SeqNumGenerator \<lparr>sn_value = 6, sn_mask = RES_U8\<rparr>\<rparr>\<rparr>"

definition example_conf :: TransmissionPipelineConf where
  "example_conf = \<lparr>cf_batch = \<lparr>bc_mtu = 60, bc_is_streamed = True, bc_is_compression = False\<rparr>,
     cf_queue_size = replicate 8 2, cf_wait_before_drop = 1000000, cf_max_wait_before_drop_fragments = 50000000,
     cf_wait_before_close = 5000000000, cf_batching_enabled = True, cf_batching_time_limit = 1000, cf_queue_alloc = AllocLazy\<rparr>"

definition example_pipeline :: "WBatch list Pipeline" where
  "example_pipeline = the (pipeline_make list_env [] example_conf (replicate 8 example_tx))"

lemma example_make_ok: "make_ok (take RBLEN) U8 (\<lambda>_. example_counters) [] example_conf (replicate 8 example_tx)"
  by (auto simp: make_ok_def example_conf_def MTU_MIN_def tx_at_def example_tx_def sn_ok_def sn_get_def sn_wire_def
      split: Reliability.splits)

lemma example_make: "pipeline_make list_env [] example_conf (replicate 8 example_tx) = Some example_pipeline"
proof -
  have "pipeline_make list_env [] example_conf (replicate 8 example_tx) \<noteq> None" by code_simp
  then show ?thesis by (auto simp: example_pipeline_def)
qed

definition example_pushed :: "WBatch list Pipeline" where
  "example_pushed = fst (producer_push list_env example_pipeline example_final [])"

lemma example_push_accepted: "producer_push list_env example_pipeline example_final [] = (example_pushed, Pushed True)"
proof -
  have "snd (producer_push list_env example_pipeline example_final []) = Pushed True" by code_simp
  then show ?thesis by (simp add: example_pushed_def prod_eq_iff)
qed

lemma example_pipeline_run: "pipeline_run list_env Some 100 example_pipeline [(5, example_final)] example_pushed"
proof -
  have p: "msg_priority example_final = Some Data" by code_simp
  have i: "fst (select_queue example_pipeline Data) = 5" by code_simp
  from pipeline_run.Step [OF pipeline_run.Start pipeline_step.Push [OF example_final_ok example_bytes(2) _ p example_push_accepted]] i
  show ?thesis by simp
qed

theorem stage_pull_serves_priorities_witness:
  "case stage_pull list_env (\<lambda>_. True) example_pushed of (p', res) \<Rightarrow>
     (case res of
        PulledBatch b prio \<Rightarrow> \<forall>i<unat (priority_u8 prio). take RBLEN (q_out (pl_queues p' ! i)) = [] \<and> q_current (pl_queues p' ! i) = None
      | PulledNothing None \<Rightarrow> \<forall>q\<in>set (pl_queues p'). take RBLEN (q_out q) = [] \<and> q_current q = None
      | PulledNothing (Some backoff) \<Rightarrow> True
      | PulledPanic \<Rightarrow> False
      | PulledFuel \<Rightarrow> False)"
  using stage_pull_serves_priorities [OF list_env_ok example_make_ok example_make example_pipeline_run] by (auto split: prod.split)

theorem stage_pull_returns_witness:
  "stage_pull_loop 20 list_env (\<lambda>_. True) example_pushed = stage_pull list_env (\<lambda>_. True) example_pushed \<and>
   snd (stage_pull list_env (\<lambda>_. True) example_pushed) \<noteq> PulledFuel"
  by (rule stage_pull_returns [OF list_env_ok example_make_ok example_make example_pipeline_run]) simp

theorem transport_delivers_witness:
  "\<exists>p' bs ps st'. pipeline_drain list_env example_pushed = (p', bs) \<and> list_all2 wb_holds (q_pulled (pl_queues p' ! 5)) ps \<and>
     read_batches Some (\<lambda>_. True) example_peer ps = (st', Inr ()) \<and> rs_delivered st' = [example_final]"
proof -
  obtain p' bs where d: "pipeline_drain list_env example_pushed = (p', bs)" by (metis surj_pair)
  have inv: "pl_inv Some (take RBLEN) U8 (\<lambda>_. example_counters) [] example_pipeline" "length (pl_queues example_pipeline) = 8"
    using pipeline_make_inv [OF list_env_ok example_make_ok example_make] by simp_all
  then have l: "length (pl_queues p') = 8"
    using pipeline_run_inv [OF list_env_ok example_pipeline_run inv(1)] pipeline_drain_ok [OF list_env_ok _ d] by auto
  then have "frame_prio p' 5 = Data" by (simp add: frame_prio_def priorities_def)
  then have "in_step U8 (tqos_new (frame_prio p' 5)) 0 100 example_counters example_peer" using example_in_step by simp
  from transport_delivers [OF list_env_ok example_make_ok example_make example_pipeline_run d _ this] l
  show ?thesis using d by (auto simp: example_peer_def)
qed

definition example_congested :: "WBatch list Pipeline" where
  "example_congested = \<lparr>pl_queues = [example_queue], pl_status = set_congested status_new PRIORITY_DEFAULT True,
     pl_waits = \<lparr>ws_wait_before_drop = 0, ws_max_wait_before_drop_fragments = 0, ws_wait_before_close = 0\<rparr>\<rparr>"

theorem congestion_never_clears_witness:
  "producer_push list_env example_congested example_final [Woken 3 3] = (example_congested, Pushed False)"
proof -
  have p: "length (pl_queues example_congested) = 1" "q_prio (pl_queues example_congested ! 0) = Control"
    "is_congested (pl_status example_congested) PRIORITY_DEFAULT" "\<not> ps_disabled (pl_status example_congested)"
    by code_simp+
  have m: "msg_is_droppable example_final" "msg_priority example_final = Some Data" by code_simp+
  from congestion_never_clears [OF list_env_ok p(1-3) rtranclp.rtrancl_refl m] p(4) show ?thesis by simp
qed

end
