(* ===== verification/Spec2Isabelle.thy ===== *)
theory Spec2Isabelle
  imports Core_EndPoint Routing_Namespace Transport_Qos
begin

text \<open>
  Verification of the core of the zenoh protocol library: key expressions, the wire codec, the
  transport that carries network messages between two nodes, and the namespaces of the routing layer.

  \<^bold>\<open>The program.\<close>  A zenoh node names data by key expressions and exchanges network messages
  (pushes, requests, responses, declarations, interests) with its neighbours.  A transport between
  two nodes numbers the messages, puts them in frames, splits the large ones in fragments, packs
  frames and fragments in batches, queues the batches by priority and writes them to a link; the
  other side undoes each of these steps.  A session may live in a namespace, a prefix that is put on
  what it sends and removed from what it is given.  Every part below is a group of theories.

  \<^bold>\<open>Key expressions\<close> (\<open>commons/zenoh-keyexpr/src/key_expr\<close>).  \<open>KeyExpr_Base\<close> has the bytes, chunks and
  string helpers, \<open>KeyExpr_Valid\<close> the validating constructor (\<open>borrowed.rs\<close>) with the grammar of
  canonical expressions, \<open>KeyExpr_Match\<close> the set of keys that an expression denotes, the
  specification of all that follows; \<open>KeyExpr_Intersect\<close> (\<open>intersect\<close>) and \<open>KeyExpr_Include\<close>
  (\<open>include.rs\<close>) the two relations that routing asks for; \<open>KeyExpr_Canon\<close> the canonisation in place
  (\<open>canon.rs\<close>) on a buffer with a read and a write index; \<open>KeyExpr_Ops\<close> joins, \<open>relation_to\<close>,
  \<open>get_nonwild_prefix\<close> and \<open>strip_prefix\<close>; \<open>KeyExpr_Strip\<close> \<open>strip_nonwild_prefix\<close>.  The constructor
  accepts exactly the canonical expressions; \<open>intersects\<close> decides whether two expressions have a
  common key; \<open>includes\<close> is sound, and exact when its right operand is a key; canonisation keeps the
  keys; a join never fails and concatenates keys, where an operand \<open>**\<close> may contribute none;
  \<open>strip_prefix\<close> gives exactly the remainders; \<open>strip_nonwild_prefix\<close> is sound, and complete without
  \<open>$*\<close>, under a condition on \<open>@\<close> outside which it is shown to go wrong.  The properties that decide on keys
  (\<open>intersects\<close>, \<open>strip_prefix\<close>, \<open>relation_to\<close>, \<open>strip_nonwild_prefix\<close>) are about expressions whose verbatim chunks
  have no \<open>$*\<close> (\<open>verbatim_literal\<close>): \<open>@a$*\<close> is accepted by the constructor but denotes no key, since a verbatim
  chunk matches only itself.

  \<^bold>\<open>Wire codec\<close> (\<open>commons/zenoh-codec/src\<close>, data types in \<open>commons/zenoh-protocol/src\<close>).
  \<open>Codec_Zint\<close> has the contract of an encoder and a decoder as a locale, and the variable-length
  integers; \<open>Codec_Core\<close> slices, strings and buffers; \<open>Codec_Values\<close> identifiers, timestamps,
  encodings and wire expressions; \<open>Codec_Ext\<close> headers, flags and the extension mechanism;
  \<open>Codec_Zenoh\<close> the data messages; \<open>Codec_NetExt\<close>, \<open>Codec_Network\<close>, \<open>Codec_Declare\<close> and
  \<open>Codec_Message\<close> the network messages and the iterator over them; \<open>Core_Resolution\<close> the widths of
  the negotiated integers; \<open>Codec_Session\<close> and \<open>Codec_Frame\<close> the transport messages.  An encoder
  gives the bytes or fails; a decoder takes bytes and gives a value with the rest of the bytes.  The
  interpretations of the locale give, type by type, that decoding undoes encoding; the properties
  put them together for batches of network messages and for transport messages.

  \<^bold>\<open>Transport, reception\<close> (\<open>io/zenoh-transport/src\<close>).  \<open>Transport_SeqNum\<close> has the wrapping sequence
  numbers (\<open>common/seq_num.rs\<close>) and their relation with unbounded counters; \<open>Transport_Defrag\<close> the
  defragmentation buffer and the channels (\<open>common/defragmentation.rs\<close>, \<open>common/priority.rs\<close>);
  \<open>Transport_Rx\<close> the reception of a batch (\<open>unicast/universal/rx.rs\<close>); \<open>Transport_Stream\<close> what a
  receiver makes of a stream of frames and fragments; \<open>Transport_Batch\<close> the batches and their way
  through a link (\<open>common/batch.rs\<close>, \<open>unicast/link.rs\<close>, and \<open>transport/batch.rs\<close> of the codec);
  \<open>Transport_Items\<close> the transport messages that the bytes of a batch stand for.

  \<^bold>\<open>Transport, transmission\<close> (\<open>common/pipeline.rs\<close>).  \<open>Transport_Pipeline\<close> has the two stages of the
  queue of a priority: serialisation on the current batch, fragmentation, deadlines, refill, pull
  with backoff, drain.  \<open>Transport_Queue\<close> relates a queue to the list of transport messages that its
  batches hold, \<open>Transport_Push\<close> and \<open>Transport_Run\<close> prove each operation and then any sequence of
  them against it: what the peer receives from the pulled batches is what was accepted, in order, and
  batches are conserved.  \<open>Transport_Producer\<close> has the pipeline of all priorities: construction,
  congestion control, \<open>pull\<close> over the pending flags, drain and disabling; \<open>Transport_Status\<close> shows that
  the operations of one queue leave the flags of the others alone, and \<open>Transport_Qos\<close> has the
  pipeline as a state machine (\<open>pipeline_run\<close>) with its invariant, the order of service and the
  delivery through all queues.  The ring buffers, the clock, and what the other thread does while a
  producer waits for a batch (a list of its returns and refills, one for each wait) are parameters;
  the contract of a ring is the hypothesis \<open>env_ok\<close>.

  \<^bold>\<open>Namespaces\<close> (\<open>zenoh/src/net/routing/namespace.rs\<close>).  \<open>Routing_Namespace\<close> has the sending and the
  receiving side with their handlers for every message.  A sent message is received unchanged, except that
  the expression of the undeclaration of a queryable (which a session leaves empty) and of a final
  interest arrive with the prefix; what is let in belongs to the namespace, and declarations and undeclarations
  stay paired, when \<open>@\<close> is only at the beginning of chunks of the namespace.

  \<^bold>\<open>Parameters and end points\<close> (\<open>commons/zenoh-protocol/src/core\<close>).  \<open>Core_Parameters\<close> has the strings
  \<open>a=1;b=2\<close> with the contract of a dictionary as a locale, which they satisfy; \<open>Core_EndPoint\<close> the end
  points and locators made of them.  Operations on parameters refine those of a finite map; an end
  point gives back the parts it was made of.

  \<^bold>\<open>Conventions.\<close>  A struct is a record, an enum a datatype; machine integers are words of their
  width; a \<open>usize\<close> that only counts bytes is a natural number; an instant is an unbounded integer (the
  overflow of an instant plus a duration, a panic in the source, is not modelled).  The model is the build without the
  feature \<open>unstable\<close>: \<open>CongestionControl\<close> has no \<open>BlockFirst\<close>; of the functions behind that feature only
  \<open>relation_to\<close> is modelled.  A panic is a value of its own
  (\<open>None\<close>, or an error constructor), an \<open>Err\<close> is the left injection of a sum or \<open>None\<close>.  A value
  behind a mutex is the value, every operation being made under the lock.  Code that is not part of
  the repository is a parameter: \<open>idf\<close> stands for \<open>uhlc::ID::try_from\<close>, \<open>cb\<close> for the application,
  \<open>lz\<close> and \<open>unlz\<close> for lz4.  \<open>srt\<close> stands for an unstable sort.

  \<^bold>\<open>Bounds.\<close>  The loops over bytes terminate because each step consumes some, which is what the
  \<open>termination\<close> proofs show.  The loop of \<open>pull\<close> over the pending flags has a bound of nine rounds:
  each round clears one of the eight flags (\<open>stage_pull_returns\<close> shows that a larger bound changes
  nothing).  The delivery properties and the invariant of a queue ask for batches that hold the headers of a
  fragment with one byte of payload (55 bytes), which the default sizes do, and for at most eight
  batches in a queue.  The default is two; the configuration allows sixteen, the size of the output
  ring, but the ring also takes the ephemeral batches that end interrupted messages, of which there can be as
  many as ordinary ones.  With nine batches or more the ring can be full when a batch is moved out,
  and the batch is dropped with messages that were accepted (\<open>full_ring_drops\<close>).

  \<^bold>\<open>Not modelled\<close>: the session API and the runtime, the routing tables (a cyclic graph of shared
  resources under locks), the topology, most of the configuration, plugins and the storage manager,
  \<open>zenoh-ext\<close>, shared memory, io_uring, statistics, the links, the multicast and low-latency
  transports, scouting and the establishment of transports (asynchronous code over sockets and
  timers, cryptography).
\<close>

end
